(* ===== verification/Prelude.thy ===== *)
theory Prelude
  imports Main "HOL-Library.Word" "HOL-Library.Multiset"
begin

text \<open>
  Shared vocabulary of the development: the machine types of the driver, the first-match
  scan that every fixed-size table of the program is built on, and the generic lemmas on
  words and lists that the component theories use through the collections
  \<open>scan_simps\<close> and \<open>range_simps\<close>.
\<close>

unbundle bit_operations_syntax

named_theorems scan_simps \<open>first-match scans over fixed-size tables\<close>
named_theorems range_simps \<open>address ranges on 64-bit words\<close>

section \<open>Machine types\<close>

type_synonym u8 = "8 word"
type_synonym u32 = "32 word"
type_synonym u64 = "64 word"

text \<open>Kernel pointers, user addresses and object handles are 64-bit; \<open>0\<close> is \<open>NULL\<close>.\<close>

type_synonym ptr = "64 word"

text \<open>Byte memory as the CPU sees it: an x86 load of a dword is little-endian.\<close>

type_synonym memory = "ptr \<Rightarrow> u8"

definition rd32 :: "memory \<Rightarrow> ptr \<Rightarrow> u32" where
  "rd32 m a = ucast (m a) OR push_bit 8 (ucast (m (a + 1)))
     OR push_bit 16 (ucast (m (a + 2))) OR push_bit 24 (ucast (m (a + 3)))"

lemma unat_and_mask: "unat (x AND mask n) = unat x mod 2 ^ n"
  by (metis take_bit_eq_mask take_bit_eq_mod unsigned_take_bit_eq)

lemma mod_add_cancel_less:
  fixes a i j n :: nat
  assumes "(a + i) mod n = (a + j) mod n" "i < n" "j < n"
  shows "i = j"
proof -
  have *: "k \<le> l \<Longrightarrow> l < n \<Longrightarrow> (a + k) mod n = (a + l) mod n \<Longrightarrow> k = l" for k l
  proof -
    assume le: "k \<le> l" "l < n" and eq: "(a + k) mod n = (a + l) mod n"
    from eq le have "n dvd (a + l) - (a + k)"
      using mod_eq_dvd_iff_nat [of "a + k" "a + l" n] by simp
    then have "n dvd l - k" by simp
    moreover have "l - k < n" using le by simp
    ultimately show "k = l"
      using le nat_dvd_not_less [of "l - k" n] by fastforce
  qed
  show ?thesis
    using * [of i j] * [of j i] assms by (cases "i \<le> j") auto
qed

section \<open>First-match scans\<close>

text \<open>
  The loop \<^verbatim>\<open>for (i = 0; i < N; i++) if (P(tab[i])) { ...; break; }\<close>: the first index whose
  element satisfies \<open>P\<close>, or \<open>None\<close> when the loop runs to its end.
\<close>

fun first_idx :: "('a \<Rightarrow> bool) \<Rightarrow> 'a list \<Rightarrow> nat option" where
  "first_idx P [] = None"
| "first_idx P (x # xs) = (if P x then Some 0 else map_option Suc (first_idx P xs))"

lemma first_idx_None [scan_simps]: "first_idx P xs = None \<longleftrightarrow> (\<forall>x \<in> set xs. \<not> P x)"
  by (induction xs) auto

lemma first_idx_Some [scan_simps]:
  "first_idx P xs = Some i \<longleftrightarrow> i < length xs \<and> P (xs ! i) \<and> (\<forall>j < i. \<not> P (xs ! j))"
proof (induction xs arbitrary: i)
  case Nil
  then show ?case by simp
next
  case (Cons x xs)
  show ?case
    by (cases i) (auto simp: Cons.IH less_Suc_eq_0_disj)
qed

lemma first_idx_SomeD:
  assumes "first_idx P xs = Some i"
  shows "i < length xs" and "P (xs ! i)" and "\<And>j. j < i \<Longrightarrow> \<not> P (xs ! j)"
  using assms by (auto simp: first_idx_Some)

lemma first_idx_ex: "x \<in> set xs \<Longrightarrow> P x \<Longrightarrow> \<exists>i. first_idx P xs = Some i"
  by (cases "first_idx P xs") (auto simp: first_idx_None)

lemma find_first_idx: "List.find P xs = map_option ((!) xs) (first_idx P xs)"
proof (induction xs)
  case Nil
  then show ?case by simp
next
  case (Cons x xs)
  then show ?case by (cases "first_idx P xs") auto
qed

text \<open>The live part of a table, as a multiset, when one cell is overwritten.\<close>

lemma mset_filter_update:
  assumes "i < length xs"
  shows "mset (filter Q (xs[i := x]))
    = mset (filter Q xs) - (if Q (xs ! i) then {#xs ! i#} else {#}) + (if Q x then {#x#} else {#})"
  using assms by (auto simp: mset_filter mset_update filter_diff_mset)

section \<open>Tables with first-free insertion\<close>

text \<open>
  The two loops that the program's tables share: write an element into the first free cell,
  and rewrite the first cell that matches.  Both report the cell they chose.
\<close>

definition slot_insert :: "('a \<Rightarrow> bool) \<Rightarrow> 'a \<Rightarrow> 'a list \<Rightarrow> (nat \<times> 'a list) option" where
  "slot_insert vac e t = map_option (\<lambda>i. (i, t[i := e])) (first_idx vac t)"

definition slot_clear :: "('a \<Rightarrow> bool) \<Rightarrow> ('a \<Rightarrow> 'a) \<Rightarrow> 'a list \<Rightarrow> (nat \<times> 'a \<times> 'a list) option" where
  "slot_clear P f t = map_option (\<lambda>i. (i, t ! i, t[i := f (t ! i)])) (first_idx P t)"

lemma slot_insert_SomeD:
  assumes "slot_insert vac e t = Some (i, t')"
  shows "i < length t" and "vac (t ! i)" and "t' = t[i := e]" and "length t' = length t"
  using assms by (auto simp: slot_insert_def dest: first_idx_SomeD)

lemma slot_clear_SomeD:
  assumes "slot_clear P f t = Some (i, x, t')"
  shows "i < length t" and "P x" and "x = t ! i" and "t' = t[i := f x]" and "length t' = length t"
  using assms by (auto simp: slot_clear_def dest: first_idx_SomeD)

lemma slot_insert_None: "slot_insert vac e t = None \<longleftrightarrow> (\<forall>x \<in> set t. \<not> vac x)"
  by (simp add: slot_insert_def first_idx_None)

lemma slot_clear_None: "slot_clear P f t = None \<longleftrightarrow> (\<forall>x \<in> set t. \<not> P x)"
  by (simp add: slot_clear_def first_idx_None)

section \<open>Ranges without wrap-around\<close>

text \<open>
  C code tests \<open>a + n \<le> e\<close> on unsigned words.  The test means what it says when \<open>a + n\<close> does
  not wrap; these lemmas move such tests to natural numbers.
\<close>

lemma unat_add_nowrap:
  fixes a n :: "'a :: len word"
  assumes "unat a + unat n < 2 ^ LENGTH('a)"
  shows "unat (a + n) = unat a + unat n"
  using assms by (simp add: unat_word_ariths)

lemma unat_sub_le:
  fixes a b :: "'a :: len word"
  assumes "b \<le> a"
  shows "unat (a - b) = unat a - unat b"
  using assms by (simp add: unat_sub)

lemma unat_succ:
  fixes e y :: "'a :: len word"
  assumes "e < y"
  shows "unat (e + 1) = unat e + 1"
proof -
  have "unat e + 1 < 2 ^ LENGTH('a)"
    using assms unsigned_less [of y, where 'a = nat] unfolding word_less_nat_alt by linarith
  then show ?thesis by (simp add: unat_add_nowrap)
qed

lemma unat_pred:
  fixes e y :: "'a :: len word"
  assumes "e < y"
  shows "unat (y - 1) = unat y - 1"
proof -
  have "1 \<le> y" using assms by (simp add: word_le_nat_alt word_less_nat_alt)
  then show ?thesis using unat_sub_le [of 1 y] by simp
qed

text \<open>The bytes \<open>[a, a + n)\<close> lie inside \<open>[lo, hi)\<close>, as natural numbers.\<close>

definition covers :: "u64 \<Rightarrow> u64 \<Rightarrow> u64 \<Rightarrow> u64 \<Rightarrow> bool" where
  "covers lo hi a n \<longleftrightarrow> unat lo \<le> unat a \<and> unat a + unat n \<le> unat hi"

lemma covers_nowrap [range_simps]:
  "unat a + unat n < 2 ^ 64 \<Longrightarrow> (\<not> a < lo \<and> \<not> a + n > hi) = covers lo hi a n"
  "unat a + unat n < 2 ^ 64 \<Longrightarrow> (lo \<le> a \<and> a + n \<le> hi) = covers lo hi a n"
  by (auto simp: covers_def word_less_nat_alt word_le_nat_alt unat_add_nowrap [where 'a = 64, simplified])

text \<open>An alias of \<open>[lo, hi)\<close> at \<open>k\<close> that does not wrap translates a covered range into itself.\<close>

lemma translate_inside [range_simps]:
  assumes "covers lo hi a n" "unat k + (unat hi - unat lo) < 2 ^ 64"
  shows "unat (k + (a - lo)) = unat k + (unat a - unat lo)"
    and "unat (k + (a - lo)) + unat n \<le> unat k + (unat hi - unat lo)"
proof -
  have le: "lo \<le> a" and "unat a + unat n \<le> unat hi"
    using assms(1) by (auto simp: covers_def word_le_nat_alt)
  moreover from this have "unat k + unat (a - lo) < 2 ^ LENGTH(64)"
    using assms(2) unat_sub_le [OF le] by simp
  ultimately show "unat (k + (a - lo)) = unat k + (unat a - unat lo)"
    "unat (k + (a - lo)) + unat n \<le> unat k + (unat hi - unat lo)"
    using assms(2) unat_sub_le [OF le] by (simp_all add: unat_add_nowrap word_le_nat_alt)
qed

text \<open>A range that ends exactly at the top of the address space has a wrapped end of \<open>0\<close>.\<close>

lemma wrapped_range:
  fixes n :: u64
  assumes "n \<noteq> 0"
  shows "- n + n \<le> hi" and "\<not> covers lo hi (- n) n"
proof -
  have "(unat (- n) + unat n) mod 2 ^ 64 = unat (- n + n)"
    by (simp only: unat_word_ariths len_num1 len_bit0) simp
  moreover have "0 < unat n" using assms by (simp add: unat_gt_0)
  moreover have "unat n < 2 ^ 64" "unat (- n) < 2 ^ 64"
    using unsigned_less [of n, where 'a = nat] unsigned_less [of "- n", where 'a = nat] by simp_all
  ultimately have "unat (- n) + unat n \<ge> 2 ^ 64"
    by (metis add.left_inverse add_is_0 mod_less not_le not_less0 unsigned_0)
  then show "\<not> covers lo hi (- n) n"
    using unsigned_less [of hi, where 'a = nat] by (auto simp: covers_def)
qed simp

section \<open>Rings in arrays\<close>

text \<open>The \<open>c\<close> elements from index \<open>g\<close> on of an array that is used as a ring.\<close>

definition ring_items :: "'a list \<Rightarrow> nat \<Rightarrow> nat \<Rightarrow> 'a list" where
  "ring_items xs g c = map (\<lambda>k. xs ! ((g + k) mod length xs)) [0..<c]"

lemma ring_items_length [simp]: "length (ring_items xs g c) = c"
  by (simp add: ring_items_def)

lemma ring_items_0 [simp]: "ring_items xs g 0 = []"
  by (simp add: ring_items_def)

lemma ring_index_neq:
  fixes g :: nat
  assumes "k < c" "c < n"
  shows "(g + k) mod n \<noteq> (g + c) mod n"
proof
  assume "(g + k) mod n = (g + c) mod n"
  then have "n dvd (g + c) - (g + k)" using assms by (subst mod_eq_dvd_iff_nat [symmetric]) auto
  then show False using assms by (auto dest: dvd_imp_le)
qed

lemma ring_items_put:
  assumes "c < length xs"
  shows "ring_items (xs[(g + c) mod length xs := e]) g (Suc c) = ring_items xs g c @ [e]"
proof -
  have "xs \<noteq> []" using assms by auto
  then have "(g + c) mod length xs < length xs" by simp
  moreover have "xs[(g + c) mod length xs := e] ! ((g + k) mod length xs) = xs ! ((g + k) mod length xs)" if "k < c" for k
    using ring_index_neq [OF that assms, of g] by (intro nth_list_update_neq) simp
  ultimately show ?thesis by (simp add: ring_items_def)
qed

lemma ring_items_get:
  assumes "g < length xs"
  shows "ring_items xs g (Suc c) = xs ! g # ring_items xs ((g + 1) mod length xs) c"
proof (rule nth_equalityI)
  fix k assume "k < length (ring_items xs g (Suc c))"
  then have "k < Suc c" by simp
  then show "ring_items xs g (Suc c) ! k = (xs ! g # ring_items xs ((g + 1) mod length xs) c) ! k"
    using assms by (cases k) (simp_all add: ring_items_def mod_add_left_eq del: upt_Suc)
qed simp

lemma ring_items_append:
  "ring_items xs g (c + n) = ring_items xs g c @ ring_items xs ((g + c) mod length xs) n"
proof (rule nth_equalityI)
  fix k assume "k < length (ring_items xs g (c + n))"
  then have "\<not> k < c \<Longrightarrow> [0..<n] ! (k - c) = k - c" by simp
  then show "ring_items xs g (c + n) ! k = (ring_items xs g c @ ring_items xs ((g + c) mod length xs) n) ! k"
    using \<open>k < _\<close> by (cases "k < c") (simp_all add: ring_items_def nth_append mod_add_left_eq)
qed simp

lemma ring_items_drop:
  assumes "n \<le> c"
  shows "drop n (ring_items xs g c) = ring_items xs ((g + n) mod length xs) (c - n)"
  using ring_items_append [of xs g n "c - n"] assms by simp

end
