(* ===== verification/Interfaces.thy ===== *)
theory Interfaces
  imports Prelude
begin

text \<open>
  The contracts between components, as locales: what a client may assume of the store of
  channel parameters, of a fixed-size table and of a ring, stated once and interpreted by the
  theory of every component that provides it.
\<close>

section \<open>A bounded key-value store\<close>

text \<open>
  The abstract store is a partial map that holds at most \<open>cap\<close> keys: registering a new key
  in a full store, or an invalid key or value, changes nothing.
\<close>

datatype ('k, 'v) store_op = Register 'k 'v | Unregister 'k

fun abs_store_step ::
  "nat \<Rightarrow> ('k \<Rightarrow> bool) \<Rightarrow> ('v \<Rightarrow> bool) \<Rightarrow> ('k \<rightharpoonup> 'v) \<Rightarrow> ('k, 'v) store_op \<Rightarrow> ('k \<rightharpoonup> 'v)" where
  "abs_store_step cap vkey vval m (Register k v) =
     (if vkey k \<and> vval v \<and> (k \<in> dom m \<or> card (dom m) < cap) then m(k \<mapsto> v) else m)"
| "abs_store_step cap vkey vval m (Unregister k) = m(k := None)"

locale bounded_store =
  fixes invar :: "'t \<Rightarrow> bool"
    and lookup :: "'t \<Rightarrow> 'k \<Rightarrow> 'v option"
    and register :: "'k \<Rightarrow> 'v \<Rightarrow> 't \<Rightarrow> 't"
    and unregister :: "'k \<Rightarrow> 't \<Rightarrow> 't"
    and vkey :: "'k \<Rightarrow> bool" and vval :: "'v \<Rightarrow> bool" and cap :: nat
  assumes invar_register: "invar t \<Longrightarrow> invar (register k v t)"
    and invar_unregister: "invar t \<Longrightarrow> invar (unregister k t)"
    and lookup_register: "invar t \<Longrightarrow> lookup (register k v t)
      = abs_store_step cap vkey vval (lookup t) (Register k v)"
    and lookup_unregister: "invar t \<Longrightarrow> lookup (unregister k t) = (lookup t)(k := None)"
begin

primrec step :: "'t \<Rightarrow> ('k, 'v) store_op \<Rightarrow> 't" where
  "step t (Register k v) = register k v t"
| "step t (Unregister k) = unregister k t"

lemma step_refines:
  "invar t \<Longrightarrow> invar (step t a) \<and> lookup (step t a) = abs_store_step cap vkey vval (lookup t) a"
  by (cases a)
    (simp_all add: invar_register invar_unregister lookup_register lookup_unregister
      del: abs_store_step.simps(1))

lemma history_refines:
  "invar t \<Longrightarrow> invar (foldl step t ops)
     \<and> lookup (foldl step t ops) = foldl (abs_store_step cap vkey vval) (lookup t) ops"
  by (induction ops arbitrary: t) (simp_all add: step_refines)

text \<open>A registered value stays visible until its own key is registered or unregistered again.\<close>

lemma lookup_frame:
  assumes "invar t" "k \<notin> set (map (\<lambda>a. case a of Register k' _ \<Rightarrow> k' | Unregister k' \<Rightarrow> k') ops)"
  shows "lookup (foldl step t ops) k = lookup t k"
  using assms
proof (induction ops arbitrary: t)
  case Nil
  then show ?case by simp
next
  case (Cons a ops)
  have "lookup (step t a) k = lookup t k"
    using Cons.prems step_refines [of t a] by (cases a) auto
  with Cons step_refines [of t a] show ?case by simp
qed

end

section \<open>A fixed-size table with first-free insertion\<close>

text \<open>
  What the users of the tables rely on: cells are vacant or live, a key matches live cells
  only, and clearing a cell makes it vacant.  The lemmas track the live cells as a multiset,
  so they say what is in the table and never where.
\<close>

locale fixed_table =
  fixes vacant :: "'e \<Rightarrow> bool" and matches :: "'k \<Rightarrow> 'e \<Rightarrow> bool" and clear :: "'e \<Rightarrow> 'e"
    and ok_key :: "'k \<Rightarrow> bool"
  assumes clear_vacant: "ok_key k \<Longrightarrow> matches k e \<Longrightarrow> vacant (clear e)"
    and matches_live: "ok_key k \<Longrightarrow> matches k e \<Longrightarrow> \<not> vacant e"
begin

definition live :: "'e list \<Rightarrow> 'e multiset" where
  "live t = mset (filter (\<lambda>e. \<not> vacant e) t)"

lemma live_insert:
  assumes "slot_insert vacant e t = Some (i, t')" "\<not> vacant e"
  shows "live t' = add_mset e (live t)"
  using slot_insert_SomeD [OF assms(1)] assms(2)
  by (simp add: live_def mset_filter_update del: mset_filter)

lemma live_clear:
  assumes "slot_clear (matches k) clear t = Some (i, x, t')" "ok_key k"
  shows "live t' = live t - {#x#}" and "x \<in># live t" and "matches k x"
  using slot_clear_SomeD [OF assms(1)] assms(2) clear_vacant matches_live
  by (auto simp: live_def mset_filter_update simp del: mset_filter)

lemma insert_None_full: "slot_insert vacant e t = None \<longleftrightarrow> size (live t) = length t"
proof -
  have "size (live t) = length t \<longleftrightarrow> filter (\<lambda>e. \<not> vacant e) t = t"
    by (metis filter_True length_filter_less less_irrefl live_def size_mset filter_id_conv)
  then show ?thesis by (simp add: slot_insert_None filter_id_conv)
qed

lemma clear_None_absent:
  "ok_key k \<Longrightarrow> slot_clear (matches k) clear t = None \<longleftrightarrow> (\<forall>x \<in># live t. \<not> matches k x)"
  using matches_live by (auto simp: slot_clear_None live_def)

lemma live_size: "size (live t) \<le> length t"
  by (simp add: live_def del: mset_filter)

text \<open>Inserting under a key that is not in the table and clearing that key is the identity.\<close>

lemma insert_then_clear:
  assumes "slot_insert vacant e t = Some (i, t')" "matches k e" "ok_key k"
    and fresh: "\<forall>x \<in># live t. \<not> matches k x"
  shows "\<exists>t''. slot_clear (matches k) clear t' = Some (i, e, t'') \<and> live t'' = live t"
proof -
  have live': "live t' = add_mset e (live t)"
    using live_insert [OF assms(1)] matches_live assms(2,3) by blast
  then obtain j x t'' where c: "slot_clear (matches k) clear t' = Some (j, x, t'')"
    using clear_None_absent [OF assms(3), of t'] assms(2)
    by (cases "slot_clear (matches k) clear t'") auto
  note ins = slot_insert_SomeD [OF assms(1)] and clr = slot_clear_SomeD [OF c]
  have "x = e"
    using live_clear(2,3) [OF c assms(3)] live' fresh by auto
  have "j = i"
  proof (rule ccontr)
    assume "j \<noteq> i"
    then have "x = t ! j" using ins clr by simp
    moreover have "\<not> vacant x" using matches_live clr(2) assms(3) by blast
    ultimately have "x \<in># live t" using clr(1) ins(4) by (auto simp: live_def)
    with fresh clr(2) show False by blast
  qed
  with c \<open>x = e\<close> live_clear(1) [OF c assms(3)] live' show ?thesis by simp
qed

end

section \<open>A queue\<close>

text \<open>
  What the users of a ring rely on: putting appends elements, retiring removes elements from the
  front only, and other operations leave the elements alone.  Elements may be put only when \<open>may\<close> says so.
\<close>

datatype ('a, 'b, 'c) queue_op = Put 'a | Retire 'b | Other 'c

text \<open>A history with the elements put and the elements retired, in order; a put that is not allowed does not happen.\<close>

fun fifo_run ::
  "('q \<Rightarrow> 'e list) \<Rightarrow> ('a \<Rightarrow> 'q \<Rightarrow> bool) \<Rightarrow> ('a \<Rightarrow> 'q \<Rightarrow> 'q) \<Rightarrow> ('a \<Rightarrow> 'q \<Rightarrow> 'e list) \<Rightarrow> ('b \<Rightarrow> 'q \<Rightarrow> 'q) \<Rightarrow> ('c \<Rightarrow> 'q \<Rightarrow> 'q)
     \<Rightarrow> ('a, 'b, 'c) queue_op list \<Rightarrow> 'q \<Rightarrow> 'q \<times> 'e list \<times> 'e list" where
  "fifo_run items may put mk retire other [] q = (q, [], [])"
| "fifo_run items may put mk retire other (Put a # ops) q =
     (if may a q then let (q', S, R) = fifo_run items may put mk retire other ops (put a q) in (q', mk a q @ S, R)
      else fifo_run items may put mk retire other ops q)"
| "fifo_run items may put mk retire other (Retire b # ops) q =
     (let (q', S, R) = fifo_run items may put mk retire other ops (retire b q) in
      (q', S, take (length (items q) - length (items (retire b q))) (items q) @ R))"
| "fifo_run items may put mk retire other (Other c # ops) q = fifo_run items may put mk retire other ops (other c q)"

locale fifo =
  fixes wf :: "'q \<Rightarrow> bool" and items :: "'q \<Rightarrow> 'e list" and may :: "'a \<Rightarrow> 'q \<Rightarrow> bool"
    and put :: "'a \<Rightarrow> 'q \<Rightarrow> 'q" and mk :: "'a \<Rightarrow> 'q \<Rightarrow> 'e list" and retire :: "'b \<Rightarrow> 'q \<Rightarrow> 'q" and other :: "'c \<Rightarrow> 'q \<Rightarrow> 'q"
  assumes put: "wf q \<Longrightarrow> may a q \<Longrightarrow> wf (put a q) \<and> items (put a q) = items q @ mk a q"
    and retire: "wf q \<Longrightarrow> wf (retire b q) \<and> (\<exists>k. items (retire b q) = drop k (items q))"
    and other: "wf q \<Longrightarrow> wf (other c q) \<and> items (other c q) = items q"
begin

lemma retired_prefix:
  assumes "wf q"
  shows "take (length (items q) - length (items (retire b q))) (items q) @ items (retire b q) = items q"
proof -
  obtain k where k: "items (retire b q) = drop k (items q)" using retire [OF assms] by blast
  show ?thesis unfolding k by (cases "k \<le> length (items q)") simp_all
qed

lemma run_fifo:
  assumes "wf q" "fifo_run items may put mk retire other ops q = (q', S, R)"
  shows "wf q' \<and> items q @ S = R @ items q'"
  using assms
proof (induction ops arbitrary: q S R)
  case Nil
  then show ?case by simp
next
  case (Cons a ops)
  show ?case
  proof (cases a)
    case (Put x)
    show ?thesis
    proof (cases "may x q")
      case True
      then obtain S' where r: "fifo_run items may put mk retire other ops (put x q) = (q', S', R)" "S = mk x q @ S'"
        using Cons.prems(2) Put by (auto split: prod.splits)
      show ?thesis using Cons.IH [OF _ r(1)] put [OF Cons.prems(1) True] r(2) by simp
    qed (use Cons Put in simp)
  next
    case (Retire b)
    then obtain R' where r: "fifo_run items may put mk retire other ops (retire b q) = (q', S, R')"
      "R = take (length (items q) - length (items (retire b q))) (items q) @ R'"
      using Cons.prems(2) by (auto split: prod.splits)
    have "wf q' \<and> items (retire b q) @ S = R' @ items q'" using Cons.IH [OF _ r(1)] retire Cons.prems(1) by blast
    then show ?thesis using r(2) retired_prefix [OF Cons.prems(1), of b] by (metis append.assoc)
  next
    case (Other c)
    then show ?thesis using Cons.IH [of "other c q"] Cons.prems(2) other [OF Cons.prems(1), of c] by simp
  qed
qed

end

end
