(* ===== verification/Dbell_State.thy ===== *)
theory Dbell_State
  imports Interfaces
begin

text \<open>
  The state of the kernel-side doorbell watchpoint
  (\<^verbatim>\<open>kernel-open/nvidia/nv-doorbell-watch.c\<close>): its static tables, its work queue, and a log of
  the effects the code has outside its own tables.  The log is append-only, newest last; it
  carries the \<^verbatim>\<open>mc1\<close> trace records of \<^verbatim>\<open>mc-trace.h\<close> and every kernel call that acquires,
  releases or writes something.
\<close>

section \<open>Trace records and kernel effects\<close>

text \<open>The trace categories of \<^verbatim>\<open>foreach_mc_trace_cat\<close>, with their mask bits.\<close>

datatype mc_cat = rm | uvm | fifo | mmu | dbell | pb | gsp | mmap | body | pte

primrec mc_cat_bit :: "mc_cat \<Rightarrow> nat" where
  "mc_cat_bit rm = 0"
| "mc_cat_bit uvm = 1"
| "mc_cat_bit fifo = 2"
| "mc_cat_bit mmu = 3"
| "mc_cat_bit dbell = 4"
| "mc_cat_bit pb = 5"
| "mc_cat_bit gsp = 6"
| "mc_cat_bit mmap = 7"
| "mc_cat_bit body = 8"
| "mc_cat_bit pte = 9"

definition MC_TRACE_CAT :: "mc_cat \<Rightarrow> u32" where
  "MC_TRACE_CAT c = push_bit (mc_cat_bit c) 1"

definition MC_TRACE_CAT_DEFAULT :: u32 where
  "MC_TRACE_CAT_DEFAULT = 0x1ff"

text \<open>A field is \<open>key=value\<close>: a number, a signed number or a word.\<close>

datatype field_val = N u64 | Z int | S string

type_synonym fields = "(string \<times> field_val) list"

datatype kevent =
    Trace mc_cat string fields
  | Ioremap ptr u64          \<comment> \<open>a successful \<^verbatim>\<open>ioremap\<close>/\<^verbatim>\<open>ioremap_wc\<close>: result and size\<close>
  | Iounmap ptr
  | Vmap ptr u32             \<comment> \<open>a successful \<^verbatim>\<open>nv_vm_map_pages\<close>: result and page count\<close>
  | Vunmap ptr u32
  | Alloc ptr                \<comment> \<open>a successful \<^verbatim>\<open>kmalloc\<close>/\<^verbatim>\<open>kzalloc\<close>\<close>
  | Kfree ptr
  | Alloc_stack ptr
  | Free_stack ptr
  | Alloc_page ptr
  | Free_page ptr
  | Insert_page ptr ptr      \<comment> \<open>\<^verbatim>\<open>vm_insert_page\<close>: user address and page\<close>
  | Bp_register ptr u64      \<comment> \<open>a hardware breakpoint that was installed, and its user address\<close>
  | Bp_unregister ptr
  | Writel u32 ptr           \<comment> \<open>MMIO store: value and address\<close>
  | Rm_lock ptr              \<comment> \<open>the resource manager's API and GPU locks were taken for a GPU\<close>
  | Rm_unlock ptr

section \<open>Tables\<close>

text \<open>The part of \<^verbatim>\<open>struct vm_area_struct\<close> the code reads; \<open>vma_ptr\<close> is its address.\<close>

record vm_area =
  vma_ptr :: ptr
  vm_start :: u64
  vm_end :: u64

record nv_dbell_bar1_entry =
  b1_vma :: ptr
  b1_phys_start :: u64
  b1_phys_end :: u64
  b1_user_va_start :: u64
  b1_user_va_end :: u64
  b1_kernel_va :: ptr

record nv_dbell_sysmem_entry =
  sm_vma :: ptr
  sm_user_va_start :: u64
  sm_user_va_end :: u64
  sm_kernel_va :: ptr
  sm_num_pages :: u32

record nv_dbell_slot =
  sl_claimed :: u32
  sl_ctx :: ptr

abbreviation (input) NV_DBELL_CACHE_FREE :: u32 where "NV_DBELL_CACHE_FREE \<equiv> 0"
abbreviation (input) NV_DBELL_CACHE_PENDING :: u32 where "NV_DBELL_CACHE_PENDING \<equiv> 1"
abbreviation (input) NV_DBELL_CACHE_RESOLVED :: u32 where "NV_DBELL_CACHE_RESOLVED \<equiv> 2"
abbreviation (input) NV_DBELL_CACHE_FAILED :: u32 where "NV_DBELL_CACHE_FAILED \<equiv> 3"

record nv_dbell_cache_entry =
  ce_state :: u32
  ce_chid :: u32
  ce_runlist :: u32
  ce_userd_kva :: ptr
  ce_gpfifo_kva :: ptr
  ce_gpfifo_entries :: u32
  ce_nv :: ptr
  ce_last_pb_bytes_idx :: u32
  ce_last_pb_bytes_va :: u64

text \<open>A queued resolver: the work item's address, the cache entry it points at, its stack.\<close>

record nv_dbell_resolve_work =
  wk_ptr :: ptr
  wk_entry :: nat
  wk_sp :: ptr

record dbell_state =
  g_bar1_tracked :: "nv_dbell_bar1_entry list"
  g_sysmem_tracked :: "nv_dbell_sysmem_entry list"
  g_dbell_slots :: "nv_dbell_slot list"
  g_dbell_cache :: "nv_dbell_cache_entry list"
  g_dbell_seq :: u32
  nv_trace_mask :: u32
  q_list :: "nv_dbell_resolve_work list"
  q_should_exit :: bool
  k_log :: "kevent list"

abbreviation (input) NV_DBELL_BAR1_TABLE_SIZE :: nat where "NV_DBELL_BAR1_TABLE_SIZE \<equiv> 16"
abbreviation (input) NV_DBELL_SYSMEM_TABLE_SIZE :: nat where "NV_DBELL_SYSMEM_TABLE_SIZE \<equiv> 8"
abbreviation (input) NV_DBELL_SLOTS :: nat where "NV_DBELL_SLOTS \<equiv> 4"
abbreviation (input) NV_DBELL_CACHE_SIZE :: nat where "NV_DBELL_CACHE_SIZE \<equiv> 80"

definition bar1_free :: nv_dbell_bar1_entry where
  "bar1_free = \<lparr>b1_vma = 0, b1_phys_start = 0, b1_phys_end = 0,
     b1_user_va_start = 0, b1_user_va_end = 0, b1_kernel_va = 0\<rparr>"

definition sysmem_free :: nv_dbell_sysmem_entry where
  "sysmem_free = \<lparr>sm_vma = 0, sm_user_va_start = 0, sm_user_va_end = 0,
     sm_kernel_va = 0, sm_num_pages = 0\<rparr>"

definition cache_zero :: nv_dbell_cache_entry where
  "cache_zero = \<lparr>ce_state = NV_DBELL_CACHE_FREE, ce_chid = 0, ce_runlist = 0, ce_userd_kva = 0,
     ce_gpfifo_kva = 0, ce_gpfifo_entries = 0, ce_nv = 0,
     ce_last_pb_bytes_idx = 0, ce_last_pb_bytes_va = 0\<rparr>"

text \<open>The module as it is loaded: zero-initialised statics, an empty and live work queue.\<close>

definition dbell_init :: dbell_state where
  "dbell_init = \<lparr>g_bar1_tracked = replicate NV_DBELL_BAR1_TABLE_SIZE bar1_free,
     g_sysmem_tracked = replicate NV_DBELL_SYSMEM_TABLE_SIZE sysmem_free,
     g_dbell_slots = replicate NV_DBELL_SLOTS \<lparr>sl_claimed = 0, sl_ctx = 0\<rparr>,
     g_dbell_cache = replicate NV_DBELL_CACHE_SIZE cache_zero,
     g_dbell_seq = 0, nv_trace_mask = MC_TRACE_CAT_DEFAULT,
     q_list = [], q_should_exit = False, k_log = []\<rparr>"

section \<open>Logging\<close>

definition klog :: "kevent \<Rightarrow> dbell_state \<Rightarrow> dbell_state" where
  "klog ev st = st\<lparr>k_log := k_log st @ [ev]\<rparr>"

text \<open>\<^verbatim>\<open>MC_TRACE(cat, event, fmt, ...)\<close>: one record, when the category's mask bit is set.\<close>

definition MC_TRACE :: "mc_cat \<Rightarrow> string \<Rightarrow> fields \<Rightarrow> dbell_state \<Rightarrow> dbell_state" where
  "MC_TRACE c ev fs st =
     (if nv_trace_mask st AND MC_TRACE_CAT c \<noteq> 0 then klog (Trace c ev fs) st else st)"

named_theorems log_simps \<open>what logging and tracing leave unchanged\<close>

lemma klog_sel [simp, log_simps]:
  "g_bar1_tracked (klog e st) = g_bar1_tracked st"
  "g_sysmem_tracked (klog e st) = g_sysmem_tracked st"
  "g_dbell_slots (klog e st) = g_dbell_slots st"
  "g_dbell_cache (klog e st) = g_dbell_cache st"
  "g_dbell_seq (klog e st) = g_dbell_seq st"
  "nv_trace_mask (klog e st) = nv_trace_mask st"
  "q_list (klog e st) = q_list st"
  "q_should_exit (klog e st) = q_should_exit st"
  "k_log (klog e st) = k_log st @ [e]"
  by (simp_all add: klog_def)

lemma MC_TRACE_sel [simp, log_simps]:
  "g_bar1_tracked (MC_TRACE c e f st) = g_bar1_tracked st"
  "g_sysmem_tracked (MC_TRACE c e f st) = g_sysmem_tracked st"
  "g_dbell_slots (MC_TRACE c e f st) = g_dbell_slots st"
  "g_dbell_cache (MC_TRACE c e f st) = g_dbell_cache st"
  "g_dbell_seq (MC_TRACE c e f st) = g_dbell_seq st"
  "nv_trace_mask (MC_TRACE c e f st) = nv_trace_mask st"
  "q_list (MC_TRACE c e f st) = q_list st"
  "q_should_exit (MC_TRACE c e f st) = q_should_exit st"
  by (simp_all add: MC_TRACE_def)

text \<open>The effects other than trace records.\<close>

fun is_trace :: "kevent \<Rightarrow> bool" where
  "is_trace (Trace c e f) = True"
| "is_trace _ = False"

definition effects :: "dbell_state \<Rightarrow> kevent list" where
  "effects st = filter (\<lambda>e. \<not> is_trace e) (k_log st)"

lemma effects_simps [simp]:
  "effects (klog e st) = effects st @ (if is_trace e then [] else [e])"
  "effects (MC_TRACE c ev f st) = effects st"
  "effects (st\<lparr>g_bar1_tracked := a\<rparr>) = effects st"
  "effects (st\<lparr>g_sysmem_tracked := b\<rparr>) = effects st"
  "effects (st\<lparr>g_dbell_slots := sl\<rparr>) = effects st"
  "effects (st\<lparr>g_dbell_cache := ca\<rparr>) = effects st"
  "effects (st\<lparr>g_dbell_seq := sq\<rparr>) = effects st"
  "effects (st\<lparr>q_list := ql\<rparr>) = effects st"
  by (simp_all add: effects_def MC_TRACE_def)

lemma MC_TRACE_log:
  "k_log (MC_TRACE c ev f st) = k_log st @
     (if nv_trace_mask st AND MC_TRACE_CAT c \<noteq> 0 then [Trace c ev f] else [])"
  by (simp add: MC_TRACE_def)

text \<open>With the default mask every category but \<open>pte\<close> is recorded.\<close>

lemma default_mask_cats: "MC_TRACE_CAT_DEFAULT AND MC_TRACE_CAT c \<noteq> 0 \<longleftrightarrow> c \<noteq> pte"
  by (cases c) (simp_all add: MC_TRACE_CAT_DEFAULT_def MC_TRACE_CAT_def)

end
