(* ===== verification/Dbell_Cache.thy ===== *)
theory Dbell_Cache
  imports Dbell_State
begin

text \<open>
  The per-(channel, runlist) cache of \<^verbatim>\<open>nv-doorbell-watch.c\<close>, the kthread queue that carries
  its resolver work (\<^verbatim>\<open>nv-kthread-q.c\<close>), and the atomic slot table of watched mappings.  A
  pointer to a cache entry is the entry's index.
\<close>

section \<open>Slots\<close>

text \<open>\<^verbatim>\<open>nv_dbell_claim_slot\<close>: the slot index, or \<open>None\<close> for the \<^verbatim>\<open>-1\<close> of a full table.\<close>

definition nv_dbell_claim_slot :: "ptr \<Rightarrow> dbell_state \<Rightarrow> nat option \<times> dbell_state" where
  "nv_dbell_claim_slot ctx st =
     (case slot_insert (\<lambda>s. sl_claimed s = 0) \<lparr>sl_claimed = 1, sl_ctx = ctx\<rparr> (g_dbell_slots st) of
        Some (i, t) \<Rightarrow> (Some i, st\<lparr>g_dbell_slots := t\<rparr>)
      | None \<Rightarrow> (None, st))"

definition nv_dbell_release_slot :: "nat \<Rightarrow> dbell_state \<Rightarrow> dbell_state" where
  "nv_dbell_release_slot i st =
     (if i < NV_DBELL_SLOTS
      then st\<lparr>g_dbell_slots := (g_dbell_slots st)[i := \<lparr>sl_claimed = 0, sl_ctx = 0\<rparr>]\<rparr>
      else st)"

section \<open>Cache lookup, reservation and invalidation\<close>

definition nv_dbell_cache_find :: "u32 \<Rightarrow> u32 \<Rightarrow> dbell_state \<Rightarrow> nat option" where
  "nv_dbell_cache_find chid runlist st =
     first_idx (\<lambda>e. ce_state e \<noteq> NV_DBELL_CACHE_FREE \<and> ce_chid e = chid \<and> ce_runlist e = runlist)
       (g_dbell_cache st)"

definition cache_reserved :: "u32 \<Rightarrow> u32 \<Rightarrow> ptr \<Rightarrow> nv_dbell_cache_entry" where
  "cache_reserved chid runlist nv =
     \<lparr>ce_state = NV_DBELL_CACHE_PENDING, ce_chid = chid, ce_runlist = runlist, ce_userd_kva = 0,
      ce_gpfifo_kva = 0, ce_gpfifo_entries = 0, ce_nv = nv,
      ce_last_pb_bytes_idx = 0xFFFFFFFF, ce_last_pb_bytes_va = 0\<rparr>"

definition nv_dbell_cache_reserve ::
  "u32 \<Rightarrow> u32 \<Rightarrow> ptr \<Rightarrow> dbell_state \<Rightarrow> nat option \<times> dbell_state" where
  "nv_dbell_cache_reserve chid runlist nv st =
     (case slot_insert (\<lambda>e. ce_state e = NV_DBELL_CACHE_FREE) (cache_reserved chid runlist nv)
        (g_dbell_cache st) of
        Some (i, t) \<Rightarrow> (Some i, st\<lparr>g_dbell_cache := t\<rparr>)
      | None \<Rightarrow> (None, st))"

text \<open>The test and the update of one iteration of \<^verbatim>\<open>nv_dbell_cache_invalidate_range\<close>.\<close>

definition cache_points_into :: "ptr \<Rightarrow> ptr \<Rightarrow> nv_dbell_cache_entry \<Rightarrow> bool" where
  "cache_points_into lo hi e \<longleftrightarrow>
     ce_state e = NV_DBELL_CACHE_RESOLVED \<and>
     ((ce_userd_kva e \<noteq> 0 \<and> lo \<le> ce_userd_kva e \<and> ce_userd_kva e < hi) \<or>
      (ce_gpfifo_kva e \<noteq> 0 \<and> lo \<le> ce_gpfifo_kva e \<and> ce_gpfifo_kva e < hi))"

definition cache_park :: "nv_dbell_cache_entry \<Rightarrow> nv_dbell_cache_entry" where
  "cache_park e = e\<lparr>ce_userd_kva := 0, ce_gpfifo_kva := 0, ce_gpfifo_entries := 0,
     ce_last_pb_bytes_idx := 0xFFFFFFFF, ce_last_pb_bytes_va := 0, ce_state := NV_DBELL_CACHE_FREE\<rparr>"

fun invalidate_loop :: "ptr \<Rightarrow> ptr \<Rightarrow> nat list \<Rightarrow> dbell_state \<Rightarrow> dbell_state" where
  "invalidate_loop lo hi [] st = st"
| "invalidate_loop lo hi (i # is) st =
     (let e = g_dbell_cache st ! i in
      if cache_points_into lo hi e then
        invalidate_loop lo hi is
          (MC_TRACE dbell ''cache'' [(''state'', S ''invalidate''), (''chid'', N (ucast (ce_chid e))),
              (''runlist'', N (ucast (ce_runlist e))), (''reason'', S ''bar1_iounmap'')]
            (st\<lparr>g_dbell_cache := (g_dbell_cache st)[i := cache_park e]\<rparr>))
      else invalidate_loop lo hi is st)"

definition nv_dbell_cache_invalidate_range :: "ptr \<Rightarrow> u64 \<Rightarrow> dbell_state \<Rightarrow> dbell_state" where
  "nv_dbell_cache_invalidate_range kva_base sz st =
     (if kva_base = 0 \<or> sz = 0 then st
      else invalidate_loop kva_base (kva_base + sz) [0..<length (g_dbell_cache st)] st)"

section \<open>The kthread queue\<close>

text \<open>
  \<^verbatim>\<open>_raw_q_schedule\<close> appends an item whose list node is not linked yet; \<open>linked\<close> is
  \<^verbatim>\<open>!list_empty(&q_item->q_list_node)\<close>.  The queue's only user here initialises the item first.
\<close>

definition raw_q_schedule :: "bool \<Rightarrow> nv_dbell_resolve_work \<Rightarrow> dbell_state \<Rightarrow> bool \<times> dbell_state" where
  "raw_q_schedule linked w st =
     (if \<not> linked then (True, st\<lparr>q_list := q_list st @ [w]\<rparr>) else (False, st))"

definition nv_kthread_q_schedule_q_item ::
  "bool \<Rightarrow> nv_dbell_resolve_work \<Rightarrow> dbell_state \<Rightarrow> bool \<times> dbell_state" where
  "nv_kthread_q_schedule_q_item linked w st =
     (if q_should_exit st then (False, st) else raw_q_schedule linked w st)"

section \<open>Enqueueing a resolver\<close>

text \<open>
  What the allocators answer: the work item, whether resource-manager calls run on a stack of
  their own (\<^verbatim>\<open>rm_is_altstack_in_use\<close>), and the object the stack cache hands out then.
\<close>

record enq_env =
  en_work :: ptr
  en_altstack :: bool
  en_stack :: ptr

text \<open>The return code and the stack: no stack is needed, none is left, or one is allocated.\<close>

definition nv_kmem_cache_alloc_stack_atomic :: "enq_env \<Rightarrow> int \<times> ptr" where
  "nv_kmem_cache_alloc_stack_atomic env =
     (if en_altstack env then (if en_stack env = 0 then (- 12, 0) else (0, en_stack env)) else (0, 0))"

abbreviation (input) en_stack_rc :: "enq_env \<Rightarrow> int" where
  "en_stack_rc env \<equiv> fst (nv_kmem_cache_alloc_stack_atomic env)"

abbreviation (input) en_sp :: "enq_env \<Rightarrow> ptr" where
  "en_sp env \<equiv> snd (nv_kmem_cache_alloc_stack_atomic env)"

definition kfree :: "ptr \<Rightarrow> dbell_state \<Rightarrow> dbell_state" where
  "kfree p st = (if p = 0 then st else klog (Kfree p) st)"

definition nv_kmem_cache_free_stack :: "ptr \<Rightarrow> dbell_state \<Rightarrow> dbell_state" where
  "nv_kmem_cache_free_stack sp st = (if sp = 0 then st else klog (Free_stack sp) st)"

definition set_cache_state :: "nat \<Rightarrow> u32 \<Rightarrow> dbell_state \<Rightarrow> dbell_state" where
  "set_cache_state i s st =
     st\<lparr>g_dbell_cache := (g_dbell_cache st)[i := (g_dbell_cache st ! i)\<lparr>ce_state := s\<rparr>]\<rparr>"

text \<open>The \<^verbatim>\<open>fail:\<close> label of \<^verbatim>\<open>nv_dbell_try_enqueue_resolve\<close>.\<close>

definition enqueue_fail :: "nat \<Rightarrow> ptr \<Rightarrow> ptr \<Rightarrow> dbell_state \<Rightarrow> dbell_state" where
  "enqueue_fail i sp work st =
     set_cache_state i NV_DBELL_CACHE_FREE
       (kfree work (if sp \<noteq> 0 then nv_kmem_cache_free_stack sp st else st))"

definition nv_dbell_try_enqueue_resolve :: "enq_env \<Rightarrow> nat \<Rightarrow> dbell_state \<Rightarrow> dbell_state" where
  "nv_dbell_try_enqueue_resolve env i st =
     (let work = en_work env in
      if work = 0 then enqueue_fail i 0 work st
      else let st1 = klog (Alloc work) st in
      if en_stack_rc env \<noteq> 0 then enqueue_fail i 0 work st1
      else let sp = en_sp env;
               st2 = (if sp \<noteq> 0 then klog (Alloc_stack sp) st1 else st1);
               (rc, st3) = nv_kthread_q_schedule_q_item False
                  \<lparr>wk_ptr = work, wk_entry = i, wk_sp = sp\<rparr> st2 in
      if \<not> rc then enqueue_fail i sp work (kfree work (nv_kmem_cache_free_stack sp st3))
      else st3)"

definition nv_dbell_cache_pre_resolve ::
  "enq_env \<Rightarrow> u32 \<Rightarrow> u32 \<Rightarrow> ptr \<Rightarrow> dbell_state \<Rightarrow> dbell_state" where
  "nv_dbell_cache_pre_resolve env chid runlist nv st =
     (if nv = 0 then st
      else case nv_dbell_cache_find chid runlist st of
        Some _ \<Rightarrow> st
      | None \<Rightarrow>
          (case nv_dbell_cache_reserve chid runlist nv st of
             (None, st1) \<Rightarrow> st1
           | (Some i, st1) \<Rightarrow>
               nv_dbell_try_enqueue_resolve env i
                 (MC_TRACE dbell ''cache'' [(''state'', S ''pre_reserve''),
                    (''chid'', N (ucast chid)), (''runlist'', N (ucast runlist))] st1)))"

section \<open>The cache invariant\<close>

text \<open>
  A cache key is held by at most one entry, and the entries in state PENDING are exactly the
  targets of the queued work items: none is stranded, and no worker writes to an entry that
  has moved on.
\<close>

definition ce_key :: "nv_dbell_cache_entry \<Rightarrow> u32 \<times> u32" where
  "ce_key e = (ce_chid e, ce_runlist e)"

definition cache_ok :: "nv_dbell_cache_entry list \<Rightarrow> nat list \<Rightarrow> bool" where
  "cache_ok C Q \<longleftrightarrow>
     length C = NV_DBELL_CACHE_SIZE
   \<and> (\<forall>i < length C. ce_state (C ! i) \<le> NV_DBELL_CACHE_FAILED)
   \<and> (\<forall>i < length C. \<forall>j < length C.
        ce_state (C ! i) \<noteq> NV_DBELL_CACHE_FREE \<longrightarrow> ce_state (C ! j) \<noteq> NV_DBELL_CACHE_FREE \<longrightarrow>
        ce_key (C ! i) = ce_key (C ! j) \<longrightarrow> i = j)
   \<and> distinct Q
   \<and> set Q = {i. i < length C \<and> ce_state (C ! i) = NV_DBELL_CACHE_PENDING}"

definition cache_inv :: "dbell_state \<Rightarrow> bool" where
  "cache_inv st \<longleftrightarrow> cache_ok (g_dbell_cache st) (map wk_entry (q_list st))"

lemma cache_inv_init: "cache_inv dbell_init"
  by (auto simp: cache_inv_def cache_ok_def dbell_init_def cache_zero_def)

lemma cache_inv_log [simp]:
  "cache_inv (klog e st) = cache_inv st" "cache_inv (MC_TRACE c n f st) = cache_inv st"
  by (simp_all add: cache_inv_def)

lemma cache_okD:
  assumes "cache_ok C Q"
  shows "length C = 80" and "distinct Q"
    and "i < length C \<Longrightarrow> ce_state (C ! i) \<le> 3"
    and "i < length C \<Longrightarrow> j < length C \<Longrightarrow> ce_state (C ! i) \<noteq> 0 \<Longrightarrow> ce_state (C ! j) \<noteq> 0 \<Longrightarrow>
      ce_key (C ! i) = ce_key (C ! j) \<Longrightarrow> i = j"
    and "i \<in> set Q \<longleftrightarrow> i < length C \<and> ce_state (C ! i) = 1"
  using assms by (auto simp: cache_ok_def)

text \<open>
  One write to one entry: the invariant survives when the written entry is free or its key is
  held by no other entry, and the queue gains or loses the entry along with its PENDING state.
\<close>

lemma cache_ok_update:
  assumes ok: "cache_ok C Q" and st: "ce_state e \<le> 3"
    and fresh: "ce_state e \<noteq> 0 \<Longrightarrow>
      \<forall>j < length C. j \<noteq> i \<longrightarrow> ce_state (C ! j) \<noteq> 0 \<longrightarrow> ce_key (C ! j) \<noteq> ce_key e"
    and Q': "distinct Q'"
      "i < length C \<Longrightarrow> set Q' = (if ce_state e = 1 then insert i (set Q) else set Q - {i})"
      "\<not> i < length C \<Longrightarrow> Q' = Q"
  shows "cache_ok (C[i := e]) Q'"
proof (cases "i < length C")
  case True
  have "j = k" if "j < length C" "k < length C" "ce_state (C[i := e] ! j) \<noteq> 0"
    "ce_state (C[i := e] ! k) \<noteq> 0" "ce_key (C[i := e] ! j) = ce_key (C[i := e] ! k)" for j k
    using that fresh cache_okD(4) [OF ok, of j k]
    by (cases "j = i"; cases "k = i") (auto simp: True)
  moreover have "set Q' = {j. j < length C \<and> ce_state (C[i := e] ! j) = 1}"
    using cache_okD(5) [OF ok] Q'(2) [OF True] True by (auto simp: nth_list_update)
  ultimately show ?thesis
    using cache_okD(1,3) [OF ok] st Q'(1) True
    unfolding cache_ok_def by (simp add: nth_list_update)
next
  case False
  with assms show ?thesis by (simp add: list_update_beyond)
qed

text \<open>The entry keeps its key and does not enter or leave PENDING, or becomes free.\<close>

lemma cache_ok_touch:
  assumes ok: "cache_ok C Q" and "ce_state e \<le> 3"
    and "ce_state e = 0 \<or> ce_state (C ! i) \<noteq> 0 \<and> ce_key e = ce_key (C ! i)"
    and "i < length C \<Longrightarrow> (ce_state e = 1) = (ce_state (C ! i) = 1)"
  shows "cache_ok (C[i := e]) Q"
proof (cases "i < length C")
  case True
  show ?thesis
    using ok assms(2)
  proof (rule cache_ok_update)
    show "\<forall>j < length C. j \<noteq> i \<longrightarrow> ce_state (C ! j) \<noteq> 0 \<longrightarrow> ce_key (C ! j) \<noteq> ce_key e"
      if "ce_state e \<noteq> 0"
      using that assms(3) cache_okD(4) [OF ok _ True] True by metis
    show "set Q = (if ce_state e = 1 then insert i (set Q) else set Q - {i})"
      using cache_okD(5) [OF ok, of i] assms(4) [OF True] True by auto
  qed (use cache_okD(2) [OF ok] True in simp_all)
qed (use ok in \<open>simp add: list_update_beyond\<close>)

section \<open>Lookup and reservation\<close>

lemma cache_find_Some:
  assumes "nv_dbell_cache_find chid runlist st = Some i"
  shows "i < length (g_dbell_cache st)" and "ce_state (g_dbell_cache st ! i) \<noteq> 0"
    and "ce_key (g_dbell_cache st ! i) = (chid, runlist)"
  using first_idx_SomeD [OF assms [unfolded nv_dbell_cache_find_def]] by (auto simp: ce_key_def)

lemma cache_find_None:
  "nv_dbell_cache_find chid runlist st = None \<longleftrightarrow>
     (\<forall>e \<in> set (g_dbell_cache st). ce_state e \<noteq> 0 \<longrightarrow> ce_key e \<noteq> (chid, runlist))"
  by (auto simp: nv_dbell_cache_find_def first_idx_None ce_key_def)

text \<open>Under the invariant the scan finds the one entry of the key, wherever it is.\<close>

lemma cache_find_unique:
  assumes "cache_inv st" "i < length (g_dbell_cache st)" "ce_state (g_dbell_cache st ! i) \<noteq> 0"
    "ce_key (g_dbell_cache st ! i) = (chid, runlist)"
  shows "nv_dbell_cache_find chid runlist st = Some i"
proof (cases "nv_dbell_cache_find chid runlist st")
  case None
  with assms show ?thesis by (auto simp: cache_find_None)
next
  case (Some j)
  with cache_find_Some [OF Some] assms show ?thesis
    using cache_okD(4) [of "g_dbell_cache st"] unfolding cache_inv_def by metis
qed

lemma cache_reserve_cases:
  obtains (full) "nv_dbell_cache_reserve chid runlist nv st = (None, st)"
      "\<forall>e \<in> set (g_dbell_cache st). ce_state e \<noteq> 0"
    | (slot) i where "i < length (g_dbell_cache st)" "ce_state (g_dbell_cache st ! i) = 0"
      "nv_dbell_cache_reserve chid runlist nv st = (Some i, st\<lparr>g_dbell_cache :=
         (g_dbell_cache st)[i := cache_reserved chid runlist nv]\<rparr>)"
proof (cases "slot_insert (\<lambda>e. ce_state e = 0) (cache_reserved chid runlist nv) (g_dbell_cache st)")
  case None
  have "nv_dbell_cache_reserve chid runlist nv st = (None, st)"
    by (simp add: nv_dbell_cache_reserve_def None)
  moreover have "\<forall>e \<in> set (g_dbell_cache st). ce_state e \<noteq> 0"
    using None by (simp add: slot_insert_None)
  ultimately show thesis by (rule full)
next
  case (Some p)
  then obtain i t where p: "p = (i, t)" by (cases p)
  note D = slot_insert_SomeD [OF Some [unfolded p]]
  show thesis
    using D(1,2) by (rule slot) (simp add: nv_dbell_cache_reserve_def Some p D(3))
qed

section \<open>Enqueueing keeps the invariant\<close>

lemma kfree_sel [simp]:
  "g_dbell_cache (kfree p st) = g_dbell_cache st" "q_list (kfree p st) = q_list st"
  "g_bar1_tracked (kfree p st) = g_bar1_tracked st"
  "g_sysmem_tracked (kfree p st) = g_sysmem_tracked st"
  "g_dbell_slots (kfree p st) = g_dbell_slots st" "g_dbell_seq (kfree p st) = g_dbell_seq st"
  "q_should_exit (kfree p st) = q_should_exit st" "nv_trace_mask (kfree p st) = nv_trace_mask st"
  "g_dbell_cache (nv_kmem_cache_free_stack p st) = g_dbell_cache st"
  "q_list (nv_kmem_cache_free_stack p st) = q_list st"
  "g_bar1_tracked (nv_kmem_cache_free_stack p st) = g_bar1_tracked st"
  "g_sysmem_tracked (nv_kmem_cache_free_stack p st) = g_sysmem_tracked st"
  "g_dbell_slots (nv_kmem_cache_free_stack p st) = g_dbell_slots st"
  "g_dbell_seq (nv_kmem_cache_free_stack p st) = g_dbell_seq st"
  "q_should_exit (nv_kmem_cache_free_stack p st) = q_should_exit st"
  "nv_trace_mask (nv_kmem_cache_free_stack p st) = nv_trace_mask st"
  by (simp_all add: kfree_def nv_kmem_cache_free_stack_def)

lemma enqueue_fail_sel:
  "g_dbell_cache (enqueue_fail i sp w st) =
     (g_dbell_cache st)[i := (g_dbell_cache st ! i)\<lparr>ce_state := 0\<rparr>]"
  "q_list (enqueue_fail i sp w st) = q_list st"
  by (simp_all add: enqueue_fail_def set_cache_state_def)

lemma enqueue_frame [simp]:
  "g_bar1_tracked (nv_dbell_try_enqueue_resolve env i st) = g_bar1_tracked st"
  "g_sysmem_tracked (nv_dbell_try_enqueue_resolve env i st) = g_sysmem_tracked st"
  "g_dbell_slots (nv_dbell_try_enqueue_resolve env i st) = g_dbell_slots st"
  "g_dbell_seq (nv_dbell_try_enqueue_resolve env i st) = g_dbell_seq st"
  "q_should_exit (nv_dbell_try_enqueue_resolve env i st) = q_should_exit st"
  "nv_trace_mask (nv_dbell_try_enqueue_resolve env i st) = nv_trace_mask st"
  by (simp_all add: nv_dbell_try_enqueue_resolve_def enqueue_fail_def set_cache_state_def
      nv_kthread_q_schedule_q_item_def raw_q_schedule_def Let_def)

text \<open>
  The enqueue either leaves the entry alone and appends one work item that points at it, or
  rolls the entry back to FREE and leaves the queue alone.
\<close>

lemma try_enqueue_cases:
  obtains (queued) w where "wk_entry w = i"
      "g_dbell_cache (nv_dbell_try_enqueue_resolve env i st) = g_dbell_cache st"
      "q_list (nv_dbell_try_enqueue_resolve env i st) = q_list st @ [w]"
      "en_work env \<noteq> 0" "en_stack_rc env = 0" "\<not> q_should_exit st"
    | (rolled) "g_dbell_cache (nv_dbell_try_enqueue_resolve env i st) =
         (g_dbell_cache st)[i := (g_dbell_cache st ! i)\<lparr>ce_state := 0\<rparr>]"
      "q_list (nv_dbell_try_enqueue_resolve env i st) = q_list st"
      "en_work env = 0 \<or> en_stack_rc env \<noteq> 0 \<or> q_should_exit st"
proof (cases "en_work env = 0 \<or> en_stack_rc env \<noteq> 0 \<or> q_should_exit st")
  case True
  then show thesis
    by (intro rolled)
      (auto simp: nv_dbell_try_enqueue_resolve_def nv_kthread_q_schedule_q_item_def
        enqueue_fail_sel Let_def split: if_splits)
next
  case False
  then show thesis
    by (intro queued [of "\<lparr>wk_ptr = en_work env, wk_entry = i, wk_sp = en_sp env\<rparr>"])
      (auto simp: nv_dbell_try_enqueue_resolve_def nv_kthread_q_schedule_q_item_def
        raw_q_schedule_def Let_def)
qed

text \<open>Reserving a key that is not in the cache and enqueueing its resolver.\<close>

lemma cache_inv_reserve_enqueue:
  assumes inv: "cache_inv st" and miss: "nv_dbell_cache_find chid runlist st = None"
    and i: "i < length (g_dbell_cache st)" "ce_state (g_dbell_cache st ! i) = 0"
    and st1: "g_dbell_cache st1 = (g_dbell_cache st)[i := cache_reserved chid runlist nv]"
      "q_list st1 = q_list st"
  shows "cache_inv (nv_dbell_try_enqueue_resolve env i st1)"
proof (cases rule: try_enqueue_cases [where env = env and i = i and st = st1])
  case (queued w)
  have "i \<notin> wk_entry ` set (q_list st)"
    using cache_okD(5) [OF inv [unfolded cache_inv_def], of i] i by simp
  moreover have "\<forall>j < length (g_dbell_cache st). j \<noteq> i \<longrightarrow> ce_state (g_dbell_cache st ! j) \<noteq> 0 \<longrightarrow>
      ce_key (g_dbell_cache st ! j) \<noteq> ce_key (cache_reserved chid runlist nv)"
    using miss by (simp add: cache_find_None cache_reserved_def ce_key_def)
  moreover have "distinct (map wk_entry (q_list st))"
    using inv cache_okD(2) by (auto simp: cache_inv_def)
  ultimately show ?thesis
    unfolding cache_inv_def queued(2,3) st1
    by (intro cache_ok_update [OF inv [unfolded cache_inv_def]])
      (use i queued(1) in \<open>auto simp: cache_reserved_def\<close>)
next
  case rolled
  then show ?thesis
    using i unfolding cache_inv_def rolled st1
    by (simp, intro cache_ok_touch [OF inv [unfolded cache_inv_def]]) simp_all
qed

theorem cache_inv_pre_resolve:
  assumes "cache_inv st"
  shows "cache_inv (nv_dbell_cache_pre_resolve env chid runlist nv st)"
proof (cases "nv = 0 \<or> nv_dbell_cache_find chid runlist st \<noteq> None")
  case True
  then show ?thesis using assms by (auto simp: nv_dbell_cache_pre_resolve_def)
next
  case False
  show ?thesis
  proof (cases rule: cache_reserve_cases [of chid runlist nv st])
    case full
    then show ?thesis using False assms by (simp add: nv_dbell_cache_pre_resolve_def)
  next
    case (slot i)
    show ?thesis
      using False slot cache_inv_reserve_enqueue [OF assms, of chid runlist i]
      by (simp add: nv_dbell_cache_pre_resolve_def)
  qed
qed

section \<open>Invalidation\<close>

lemma invalidate_loop_map:
  assumes "distinct is" "\<forall>i \<in> set is. i < length (g_dbell_cache st)"
  shows "g_dbell_cache (invalidate_loop lo hi is st) =
      map (\<lambda>i. let e = g_dbell_cache st ! i in
             if i \<in> set is \<and> cache_points_into lo hi e then cache_park e else e)
        [0..<length (g_dbell_cache st)]"
  using assms
proof (induction "is" arbitrary: st)
  case Nil
  then show ?case by (simp add: map_nth)
next
  case (Cons i "is")
  show ?case
  proof (cases "cache_points_into lo hi (g_dbell_cache st ! i)")
    case True
    then show ?thesis
      using Cons by (auto simp: Let_def nth_list_update intro!: nth_equalityI)
  next
    case False
    then show ?thesis
      using Cons by (auto simp: Let_def intro!: nth_equalityI)
  qed
qed

text \<open>The sweep is a map over the table: entries that point into the range are parked.\<close>

lemma invalidate_range_map:
  "g_dbell_cache (nv_dbell_cache_invalidate_range base sz st) =
     map (\<lambda>e. if base \<noteq> 0 \<and> sz \<noteq> 0 \<and> cache_points_into base (base + sz) e then cache_park e else e)
       (g_dbell_cache st)"
proof -
  have "g_dbell_cache (invalidate_loop base (base + sz) [0..<length (g_dbell_cache st)] st) =
      map (\<lambda>e. if cache_points_into base (base + sz) e then cache_park e else e) (g_dbell_cache st)"
    by (simp add: invalidate_loop_map Let_def) (rule nth_equalityI, auto)
  then show ?thesis
    by (auto simp: nv_dbell_cache_invalidate_range_def)
qed

lemma invalidate_loop_frame [simp]:
  "q_list (invalidate_loop lo hi is st) = q_list st"
  "q_should_exit (invalidate_loop lo hi is st) = q_should_exit st"
  "g_bar1_tracked (invalidate_loop lo hi is st) = g_bar1_tracked st"
  "g_sysmem_tracked (invalidate_loop lo hi is st) = g_sysmem_tracked st"
  "g_dbell_slots (invalidate_loop lo hi is st) = g_dbell_slots st"
  "g_dbell_seq (invalidate_loop lo hi is st) = g_dbell_seq st"
  "nv_trace_mask (invalidate_loop lo hi is st) = nv_trace_mask st"
  "effects (invalidate_loop lo hi is st) = effects st"
  by (induction lo hi "is" st rule: invalidate_loop.induct) (auto simp: Let_def)

lemma invalidate_range_frame [simp]:
  "q_list (nv_dbell_cache_invalidate_range base sz st) = q_list st"
  "q_should_exit (nv_dbell_cache_invalidate_range base sz st) = q_should_exit st"
  "g_bar1_tracked (nv_dbell_cache_invalidate_range base sz st) = g_bar1_tracked st"
  "g_sysmem_tracked (nv_dbell_cache_invalidate_range base sz st) = g_sysmem_tracked st"
  "g_dbell_slots (nv_dbell_cache_invalidate_range base sz st) = g_dbell_slots st"
  "g_dbell_seq (nv_dbell_cache_invalidate_range base sz st) = g_dbell_seq st"
  "nv_trace_mask (nv_dbell_cache_invalidate_range base sz st) = nv_trace_mask st"
  "effects (nv_dbell_cache_invalidate_range base sz st) = effects st"
  by (simp_all add: nv_dbell_cache_invalidate_range_def)

text \<open>After the sweep no RESOLVED entry points into the range that is about to go away.\<close>

lemma invalidate_range_clears:
  assumes "e \<in> set (g_dbell_cache (nv_dbell_cache_invalidate_range base sz st))"
    and "base \<noteq> 0" "sz \<noteq> 0"
  shows "\<not> cache_points_into base (base + sz) e"
  using assms unfolding invalidate_range_map by (auto simp: cache_points_into_def cache_park_def)

lemma cache_ok_park:
  assumes "cache_ok C Q" "\<And>e. P e \<Longrightarrow> ce_state e = 2"
  shows "cache_ok (map (\<lambda>e. if P e then cache_park e else e) C) Q"
  unfolding cache_ok_def
proof (intro conjI allI impI)
  fix i j
  assume "i < length (map (\<lambda>e. if P e then cache_park e else e) C)"
    "j < length (map (\<lambda>e. if P e then cache_park e else e) C)"
    "ce_state (map (\<lambda>e. if P e then cache_park e else e) C ! i) \<noteq> 0"
    "ce_state (map (\<lambda>e. if P e then cache_park e else e) C ! j) \<noteq> 0"
    "ce_key (map (\<lambda>e. if P e then cache_park e else e) C ! i)
       = ce_key (map (\<lambda>e. if P e then cache_park e else e) C ! j)"
  then show "i = j"
    using cache_okD(4) [OF assms(1), of i j]
    by (simp add: cache_park_def split: if_splits)
next
  show "set Q = {i. i < length (map (\<lambda>e. if P e then cache_park e else e) C)
      \<and> ce_state (map (\<lambda>e. if P e then cache_park e else e) C ! i) = 1}"
    using cache_okD(5) [OF assms(1)] assms(2) by (auto simp: cache_park_def split: if_splits)
qed (use cache_okD(1,2,3) [OF assms(1)] in \<open>auto simp: cache_park_def\<close>)

lemma cache_inv_invalidate:
  assumes "cache_inv st"
  shows "cache_inv (nv_dbell_cache_invalidate_range base sz st)"
  unfolding cache_inv_def invalidate_range_map invalidate_range_frame
  by (rule cache_ok_park [OF assms [unfolded cache_inv_def]]) (simp add: cache_points_into_def)

section \<open>Slots\<close>

text \<open>A slot is matched by its claimed context; releasing it makes it vacant.\<close>

definition slot_vacant :: "nv_dbell_slot \<Rightarrow> bool" where
  "slot_vacant s \<longleftrightarrow> sl_claimed s = 0"

definition slot_holds :: "ptr \<Rightarrow> nv_dbell_slot \<Rightarrow> bool" where
  "slot_holds ctx s \<longleftrightarrow> sl_claimed s \<noteq> 0 \<and> sl_ctx s = ctx"

definition slot_reset :: "nv_dbell_slot \<Rightarrow> nv_dbell_slot" where
  "slot_reset s = \<lparr>sl_claimed = 0, sl_ctx = 0\<rparr>"

interpretation slot_tab: fixed_table slot_vacant slot_holds slot_reset "\<lambda>_. True"
  by unfold_locales (simp_all add: slot_vacant_def slot_holds_def slot_reset_def)

lemma claim_slot_eq:
  "nv_dbell_claim_slot ctx st =
     (case slot_insert slot_vacant \<lparr>sl_claimed = 1, sl_ctx = ctx\<rparr> (g_dbell_slots st) of
        Some (i, t) \<Rightarrow> (Some i, st\<lparr>g_dbell_slots := t\<rparr>) | None \<Rightarrow> (None, st))"
  by (simp add: nv_dbell_claim_slot_def slot_vacant_def [abs_def])

lemma claim_slot_Some:
  assumes "nv_dbell_claim_slot ctx st = (Some i, st')"
  shows "i < length (g_dbell_slots st)" and "sl_claimed (g_dbell_slots st ! i) = 0"
    and "st' = st\<lparr>g_dbell_slots := (g_dbell_slots st)[i := \<lparr>sl_claimed = 1, sl_ctx = ctx\<rparr>]\<rparr>"
  using assms unfolding nv_dbell_claim_slot_def
  by (auto split: option.splits dest: slot_insert_SomeD)

text \<open>No claim succeeds exactly when all slots are live: at most four mappings are watched.\<close>

lemma claim_slot_None:
  "fst (nv_dbell_claim_slot ctx st) = None \<longleftrightarrow>
     size (slot_tab.live (g_dbell_slots st)) = length (g_dbell_slots st)"
  using slot_tab.insert_None_full [of "\<lparr>sl_claimed = 1, sl_ctx = ctx\<rparr>" "g_dbell_slots st"]
  by (auto simp: claim_slot_eq split: option.splits)

lemma claim_then_release:
  assumes "nv_dbell_claim_slot ctx st = (Some i, st')" "length (g_dbell_slots st) = 4"
  shows "slot_tab.live (g_dbell_slots (nv_dbell_release_slot i st')) = slot_tab.live (g_dbell_slots st)"
  using claim_slot_Some [OF assms(1)] assms(2)
  by (simp add: nv_dbell_release_slot_def slot_tab.live_def slot_vacant_def mset_filter_update
      del: mset_filter)

section \<open>What an enqueue acquires and frees\<close>

text \<open>An event for the resolver's stack, when there is a stack.\<close>

definition on_stack :: "(ptr \<Rightarrow> kevent) \<Rightarrow> ptr \<Rightarrow> kevent list" where
  "on_stack f sp = (if sp = 0 then [] else [f sp])"

lemma kfree_effects [simp]:
  "effects (kfree p st) = effects st @ (if p = 0 then [] else [Kfree p])"
  "effects (nv_kmem_cache_free_stack p st) = effects st @ on_stack Free_stack p"
  by (simp_all add: kfree_def nv_kmem_cache_free_stack_def on_stack_def)

lemma enqueue_fail_effects [simp]:
  "effects (enqueue_fail i sp w st) =
     effects st @ on_stack Free_stack sp @ (if w = 0 then [] else [Kfree w])"
  by (simp add: enqueue_fail_def set_cache_state_def on_stack_def)

lemma enqueue_effects:
  "effects (nv_dbell_try_enqueue_resolve env i st) = effects st @
     (if en_work env = 0 then []
      else Alloc (en_work env) #
        (if en_stack_rc env \<noteq> 0 then [Kfree (en_work env)]
         else on_stack Alloc_stack (en_sp env) @
           (if q_should_exit st
            then on_stack Free_stack (en_sp env) @ [Kfree (en_work env)] @
                 on_stack Free_stack (en_sp env) @ [Kfree (en_work env)]
            else [])))"
  by (auto simp: nv_dbell_try_enqueue_resolve_def nv_kthread_q_schedule_q_item_def
      raw_q_schedule_def Let_def on_stack_def)

text \<open>
  Every branch of \<^verbatim>\<open>nv_dbell_try_enqueue_resolve\<close>, by the allocations and frees it makes.
  Without memory nothing is allocated; without a stack the work item is freed once; in the
  normal case both stay allocated for the worker.  When the queue is being stopped the branch
  frees both and then jumps to the label that frees both again.
\<close>

theorem try_enqueue_effects:
  "effects (nv_dbell_try_enqueue_resolve env i st) = effects st @
     (if en_work env = 0 then []
      else Alloc (en_work env) #
        (if en_stack_rc env \<noteq> 0 then [Kfree (en_work env)]
         else on_stack Alloc_stack (en_sp env) @
           (if q_should_exit st
            then on_stack Free_stack (en_sp env) @ [Kfree (en_work env)] @
                 on_stack Free_stack (en_sp env) @ [Kfree (en_work env)]
            else [])))"
  by (rule enqueue_effects)

section \<open>Two processors on one channel\<close>

lemma reserve_SomeD:
  assumes "nv_dbell_cache_reserve chid runlist nv st = (Some i, st')"
  shows "i < length (g_dbell_cache st)" and "ce_state (g_dbell_cache st ! i) = 0"
    and "st' = st\<lparr>g_dbell_cache := (g_dbell_cache st)[i := cache_reserved chid runlist nv]\<rparr>"
  using assms by (cases rule: cache_reserve_cases [of chid runlist nv st]; simp)+

text \<open>
  The handler looks a key up and then reserves a slot, without a lock over the two.  Two
  processors that both look up before either reserves both succeed, in different slots: the
  compare-and-swap of \<^verbatim>\<open>nv_dbell_cache_reserve\<close> is on the slot's state and not on the key.
\<close>

theorem reserve_race:
  assumes "nv_dbell_cache_reserve chid runlist nv st = (Some i, st1)"
    and "nv_dbell_cache_reserve chid runlist nv' st1 = (Some j, st2)"
  shows "i \<noteq> j \<and> ce_key (g_dbell_cache st2 ! i) = (chid, runlist)
    \<and> ce_key (g_dbell_cache st2 ! j) = (chid, runlist) \<and> \<not> cache_inv st2"
proof -
  note A = reserve_SomeD [OF assms(1)] and B = reserve_SomeD [OF assms(2)]
  have "i \<noteq> j" using A B by (auto simp: cache_reserved_def)
  moreover from this have "ce_key (g_dbell_cache st2 ! i) = (chid, runlist)"
    "ce_key (g_dbell_cache st2 ! j) = (chid, runlist)"
    "ce_state (g_dbell_cache st2 ! i) \<noteq> 0" "ce_state (g_dbell_cache st2 ! j) \<noteq> 0"
    "i < length (g_dbell_cache st2)" "j < length (g_dbell_cache st2)"
    using A B by (simp_all add: cache_reserved_def ce_key_def)
  ultimately show ?thesis
    using cache_okD(4) unfolding cache_inv_def by metis
qed

lemma replicate_80: "replicate 80 x = x # x # replicate 78 x"
  by (simp add: numeral_eq_Suc)

theorem reserve_race_witness:
  "let (i, st1) = nv_dbell_cache_reserve 5 1 0x100 dbell_init;
       (j, st2) = nv_dbell_cache_reserve 5 1 0x100 st1
   in nv_dbell_cache_find 5 1 dbell_init = None \<and> i = Some 0 \<and> j = Some 1 \<and> \<not> cache_inv st2"
proof -
  have first: "nv_dbell_cache_reserve 5 1 0x100 dbell_init = (Some 0, dbell_init\<lparr>g_dbell_cache :=
      (g_dbell_cache dbell_init)[0 := cache_reserved 5 1 0x100]\<rparr>)" (is "_ = (_, ?s1)")
    by (simp add: nv_dbell_cache_reserve_def slot_insert_def dbell_init_def cache_zero_def
        replicate_80)
  have second: "nv_dbell_cache_reserve 5 1 0x100 ?s1 = (Some 1, ?s1\<lparr>g_dbell_cache :=
      (g_dbell_cache ?s1)[1 := cache_reserved 5 1 0x100]\<rparr>)"
    by (simp add: nv_dbell_cache_reserve_def slot_insert_def dbell_init_def cache_zero_def
        cache_reserved_def replicate_80)
  show ?thesis
    using reserve_race [OF first second] first second
    by (simp add: cache_find_None) (simp add: dbell_init_def cache_zero_def)
qed

end
