(* ===== verification/Dbell_Trackers.thy ===== *)
theory Dbell_Trackers
  imports Dbell_Cache
begin

text \<open>
  The two mapping trackers of \<^verbatim>\<open>nv-doorbell-watch.c\<close>: BAR1 mappings with an \<^verbatim>\<open>ioremap\<close>ed kernel
  alias, and system-memory mappings with a \<^verbatim>\<open>vmap\<close>ed one, together with the address translations
  that the resolver and the trap handler make through them.  The kernel's mapping functions are
  arguments; \<open>0\<close> is their failure.
\<close>

abbreviation (input) ENOMEM :: int where "ENOMEM \<equiv> 12"
abbreviation (input) EINVAL :: int where "EINVAL \<equiv> 22"
abbreviation (input) ENOSPC :: int where "ENOSPC \<equiv> 28"
abbreviation (input) E2BIG :: int where "E2BIG \<equiv> 7"

section \<open>BAR1\<close>

definition bar1_entry :: "vm_area \<Rightarrow> u64 \<Rightarrow> u64 \<Rightarrow> ptr \<Rightarrow> nv_dbell_bar1_entry" where
  "bar1_entry vma phys sz kva =
     \<lparr>b1_vma = vma_ptr vma, b1_phys_start = phys, b1_phys_end = phys + sz,
      b1_user_va_start = vm_start vma, b1_user_va_end = vm_end vma, b1_kernel_va = kva\<rparr>"

definition bar1_vacant :: "nv_dbell_bar1_entry \<Rightarrow> bool" where
  "bar1_vacant e \<longleftrightarrow> b1_vma e = 0"

text \<open>Write-combining first, uncached as the fallback.\<close>

definition bar1_ioremap :: "(u64 \<Rightarrow> u64 \<Rightarrow> ptr) \<Rightarrow> (u64 \<Rightarrow> u64 \<Rightarrow> ptr) \<Rightarrow> u64 \<Rightarrow> u64 \<Rightarrow> ptr" where
  "bar1_ioremap ioremap_wc ioremap phys sz =
     (let kva = ioremap_wc phys sz in if kva = 0 then ioremap phys sz else kva)"

definition nv_dbell_bar1_track_add ::
  "(u64 \<Rightarrow> u64 \<Rightarrow> ptr) \<Rightarrow> (u64 \<Rightarrow> u64 \<Rightarrow> ptr) \<Rightarrow> vm_area \<Rightarrow> u64 \<Rightarrow> u64 \<Rightarrow> dbell_state \<Rightarrow> int \<times> dbell_state"
where
  "nv_dbell_bar1_track_add ioremap_wc ioremap vma phys sz st =
     (let kva = bar1_ioremap ioremap_wc ioremap phys sz in
      if kva = 0 then
        (- ENOMEM, MC_TRACE dbell ''bar1_track''
           [(''state'', S ''ioremap_fail''), (''phys'', N phys), (''size'', N sz)] st)
      else
        (let st1 = klog (Ioremap kva sz) st in
         case slot_insert bar1_vacant (bar1_entry vma phys sz kva) (g_bar1_tracked st1) of
           None \<Rightarrow>
             (- ENOSPC, MC_TRACE dbell ''bar1_track'' [(''state'', S ''table_full'')]
                (klog (Iounmap kva) st1))
         | Some (slot, t) \<Rightarrow>
             (0, MC_TRACE dbell ''bar1_track''
                [(''state'', S ''add''), (''slot'', N (of_nat slot)), (''phys'', N phys),
                 (''size'', N sz), (''kva'', N kva)]
                (st1\<lparr>g_bar1_tracked := t\<rparr>))))"

definition nv_dbell_bar1_track_remove :: "ptr \<Rightarrow> dbell_state \<Rightarrow> dbell_state" where
  "nv_dbell_bar1_track_remove vma st =
     (case slot_clear (\<lambda>e. b1_vma e = vma) (\<lambda>_. bar1_free) (g_bar1_tracked st) of
        None \<Rightarrow> st
      | Some (slot, e, t) \<Rightarrow>
          (let st1 = st\<lparr>g_bar1_tracked := t\<rparr>;
               kva = b1_kernel_va e;
               sz = b1_phys_end e - b1_phys_start e in
           if kva \<noteq> 0 then
             MC_TRACE dbell ''bar1_track''
               [(''state'', S ''remove''), (''slot'', N (of_nat slot)), (''kva'', N kva)]
               (klog (Iounmap kva) (nv_dbell_cache_invalidate_range kva sz st1))
           else st1))"

definition nv_dbell_bar1_lookup_kva :: "u64 \<Rightarrow> u64 \<Rightarrow> dbell_state \<Rightarrow> ptr" where
  "nv_dbell_bar1_lookup_kva phys sz st =
     (case List.find (\<lambda>e. b1_vma e \<noteq> 0 \<and> phys \<ge> b1_phys_start e \<and> phys + sz \<le> b1_phys_end e)
        (g_bar1_tracked st) of
        None \<Rightarrow> 0
      | Some e \<Rightarrow> b1_kernel_va e + (phys - b1_phys_start e))"

text \<open>One iteration of \<^verbatim>\<open>nv_dbell_bar1_offset_kva\<close> on \<open>(best_size, result)\<close>.\<close>

definition offset_kva_step :: "u64 \<Rightarrow> u64 \<Rightarrow> u64 \<times> ptr \<Rightarrow> nv_dbell_bar1_entry \<Rightarrow> u64 \<times> ptr" where
  "offset_kva_step off sz acc e =
     (let entry_size = b1_phys_end e - b1_phys_start e in
      if b1_vma e = 0 \<or> b1_kernel_va e = 0 then acc
      else if entry_size < off + sz then acc
      else if entry_size > fst acc then (entry_size, b1_kernel_va e + off)
      else acc)"

definition nv_dbell_bar1_offset_kva :: "u64 \<Rightarrow> u64 \<Rightarrow> dbell_state \<Rightarrow> ptr" where
  "nv_dbell_bar1_offset_kva off sz st =
     snd (foldl (offset_kva_step off sz) (0, 0) (g_bar1_tracked st))"

definition nv_dbell_bar1_gpu_va_to_kva :: "u64 \<Rightarrow> u64 \<Rightarrow> dbell_state \<Rightarrow> ptr" where
  "nv_dbell_bar1_gpu_va_to_kva gpu_va sz st =
     (case List.find (\<lambda>e. \<not> (b1_vma e = 0 \<or> b1_kernel_va e = 0)
            \<and> \<not> (b1_user_va_start e = 0 \<or> b1_user_va_end e = 0)
            \<and> \<not> gpu_va < b1_user_va_start e \<and> \<not> gpu_va + sz > b1_user_va_end e)
        (g_bar1_tracked st) of
        None \<Rightarrow> 0
      | Some e \<Rightarrow> b1_kernel_va e + (gpu_va - b1_user_va_start e))"

section \<open>System memory\<close>

text \<open>
  What the kernel answers to one \<^verbatim>\<open>nv_dbell_sysmem_track_add\<close>: the page array, the struct page of
  a frame, whether the context may sleep, and the result of \<^verbatim>\<open>vmap\<close> on an array of pages.
\<close>

record sysmem_env =
  en_pages :: ptr
  en_pfn_to_page :: "u64 \<Rightarrow> ptr"
  en_may_sleep :: bool
  en_vmap :: "ptr list \<Rightarrow> ptr"

definition NV_GET_PAGE_STRUCT :: "(u64 \<Rightarrow> ptr) \<Rightarrow> u64 \<Rightarrow> ptr" where
  "NV_GET_PAGE_STRUCT pfn_to_page phys = pfn_to_page (drop_bit 12 phys)"

definition nv_vm_map_pages :: "bool \<Rightarrow> (ptr list \<Rightarrow> ptr) \<Rightarrow> ptr list \<Rightarrow> u32 \<Rightarrow> dbell_state \<Rightarrow> ptr \<times> dbell_state"
where
  "nv_vm_map_pages may_sleep vmap pages cnt st =
     (if \<not> may_sleep then (0, st)
      else let v = vmap (take (unat cnt) pages) in
        (v, if v = 0 then st else klog (Vmap v cnt) st))"

definition nv_vm_unmap_pages :: "bool \<Rightarrow> ptr \<Rightarrow> u32 \<Rightarrow> dbell_state \<Rightarrow> dbell_state" where
  "nv_vm_unmap_pages may_sleep v cnt st = (if \<not> may_sleep then st else klog (Vunmap v cnt) st)"

definition sysmem_entry :: "vm_area \<Rightarrow> ptr \<Rightarrow> u32 \<Rightarrow> nv_dbell_sysmem_entry" where
  "sysmem_entry vma kva n =
     \<lparr>sm_vma = vma_ptr vma, sm_user_va_start = vm_start vma, sm_user_va_end = vm_end vma,
      sm_kernel_va = kva, sm_num_pages = n\<rparr>"

definition sysmem_vacant :: "nv_dbell_sysmem_entry \<Rightarrow> bool" where
  "sysmem_vacant e \<longleftrightarrow> sm_vma e = 0"

definition nv_dbell_sysmem_track_add ::
  "sysmem_env \<Rightarrow> vm_area \<Rightarrow> (u64 \<Rightarrow> u64) option \<Rightarrow> u64 \<Rightarrow> u64 \<Rightarrow> dbell_state \<Rightarrow> int \<times> dbell_state" where
  "nv_dbell_sysmem_track_add env vma page_table page_index num_pages st =
     (case page_table of
        None \<Rightarrow> (- EINVAL, st)
      | Some phys_addr \<Rightarrow>
      if vma_ptr vma = 0 \<or> num_pages = 0 then (- EINVAL, st)
      else if num_pages > 256 * 1024 then (- E2BIG, st)
      else if en_pages env = 0 then (- ENOMEM, st)
      else
        (let st1 = klog (Alloc (en_pages env)) st;
             pages = map (\<lambda>j. NV_GET_PAGE_STRUCT (en_pfn_to_page env) (phys_addr (page_index + of_nat j)))
               [0..<unat num_pages];
             n = ucast num_pages :: u32;
             (kva, st2) = nv_vm_map_pages (en_may_sleep env) (en_vmap env) pages n st1;
             st3 = kfree (en_pages env) st2 in
         if kva = 0 then
           (- ENOMEM, MC_TRACE dbell ''sysmem_track''
              [(''state'', S ''vmap_fail''), (''user_va'', N (vm_start vma)), (''num_pages'', N num_pages)]
              st3)
         else
           (case slot_insert sysmem_vacant (sysmem_entry vma kva n) (g_sysmem_tracked st3) of
              None \<Rightarrow>
                (- ENOSPC, MC_TRACE dbell ''sysmem_track'' [(''state'', S ''table_full'')]
                   (nv_vm_unmap_pages (en_may_sleep env) kva n st3))
            | Some (slot, t) \<Rightarrow>
                (0, MC_TRACE dbell ''sysmem_track''
                   [(''state'', S ''add''), (''slot'', N (of_nat slot)),
                    (''user_va_start'', N (vm_start vma)), (''user_va_end'', N (vm_end vma)),
                    (''num_pages'', N num_pages), (''kva'', N kva)]
                   (st3\<lparr>g_sysmem_tracked := t\<rparr>)))))"

definition nv_dbell_sysmem_track_remove :: "bool \<Rightarrow> ptr \<Rightarrow> dbell_state \<Rightarrow> dbell_state" where
  "nv_dbell_sysmem_track_remove may_sleep vma st =
     (case slot_clear (\<lambda>e. sm_vma e = vma) (\<lambda>_. sysmem_free) (g_sysmem_tracked st) of
        None \<Rightarrow> st
      | Some (slot, e, t) \<Rightarrow>
          (let st1 = st\<lparr>g_sysmem_tracked := t\<rparr>;
               kva = sm_kernel_va e in
           if kva \<noteq> 0 then
             MC_TRACE dbell ''sysmem_track''
               [(''state'', S ''remove''), (''kva'', N kva), (''num_pages'', N (ucast (sm_num_pages e)))]
               (nv_vm_unmap_pages may_sleep kva (sm_num_pages e) st1)
           else st1))"

definition nv_dbell_sysmem_gpu_va_to_kva :: "u64 \<Rightarrow> u64 \<Rightarrow> dbell_state \<Rightarrow> ptr" where
  "nv_dbell_sysmem_gpu_va_to_kva gpu_va sz st =
     (case List.find (\<lambda>e. \<not> (sm_vma e = 0 \<or> sm_kernel_va e = 0)
            \<and> \<not> (sm_user_va_start e = 0 \<or> sm_user_va_end e = 0)
            \<and> \<not> gpu_va < sm_user_va_start e \<and> \<not> gpu_va + sz > sm_user_va_end e)
        (g_sysmem_tracked st) of
        None \<Rightarrow> 0
      | Some e \<Rightarrow> sm_kernel_va e + (gpu_va - sm_user_va_start e))"

section \<open>The tables as fixed tables\<close>

interpretation bar1_tab:
  fixed_table bar1_vacant "\<lambda>v e. b1_vma e = v" "\<lambda>_. bar1_free" "\<lambda>v. v \<noteq> 0"
  by unfold_locales (auto simp: bar1_vacant_def bar1_free_def)

interpretation sysmem_tab:
  fixed_table sysmem_vacant "\<lambda>v e. sm_vma e = v" "\<lambda>_. sysmem_free" "\<lambda>v. v \<noteq> 0"
  by unfold_locales (auto simp: sysmem_vacant_def sysmem_free_def)

section \<open>What the kernel owes and holds\<close>

text \<open>
  Every event moves a balance: \<open>balance d st\<close> adds the contributions \<open>d\<close> of the events logged so
  far.  \<open>delta r\<close> counts what is held of the resource \<open>r\<close>: an \<^verbatim>\<open>ioremap\<close> at an address, a \<^verbatim>\<open>vmap\<close> of a
  number of pages, a heap object, a page, a hardware breakpoint, a resource-manager stack.
\<close>

definition balance :: "(kevent \<Rightarrow> int) \<Rightarrow> dbell_state \<Rightarrow> int" where
  "balance d st = sum_list (map d (effects st))"

datatype resource =
    R_io ptr | R_vm ptr u32 | R_heap ptr | R_page ptr | R_bp ptr | R_stack ptr

fun acquires :: "kevent \<Rightarrow> resource option" where
  "acquires (Ioremap p n) = Some (R_io p)"
| "acquires (Vmap p n) = Some (R_vm p n)"
| "acquires (Alloc p) = Some (R_heap p)"
| "acquires (Alloc_page p) = Some (R_page p)"
| "acquires (Bp_register p va) = Some (R_bp p)"
| "acquires (Alloc_stack p) = Some (R_stack p)"
| "acquires _ = None"

fun releases :: "kevent \<Rightarrow> resource option" where
  "releases (Iounmap p) = Some (R_io p)"
| "releases (Vunmap p n) = Some (R_vm p n)"
| "releases (Kfree p) = Some (R_heap p)"
| "releases (Free_page p) = Some (R_page p)"
| "releases (Bp_unregister p) = Some (R_bp p)"
| "releases (Free_stack p) = Some (R_stack p)"
| "releases _ = None"

definition delta :: "resource \<Rightarrow> kevent \<Rightarrow> int" where
  [simp]: "delta r e = (if acquires e = Some r then 1 else 0) - (if releases e = Some r then 1 else 0)"

lemma balance_simps [simp]:
  "balance d (klog e st) = balance d st + (if is_trace e then 0 else d e)"
  "balance d (MC_TRACE c ev f st) = balance d st"
  "balance d (st\<lparr>g_bar1_tracked := a\<rparr>) = balance d st"
  "balance d (st\<lparr>g_sysmem_tracked := b\<rparr>) = balance d st"
  "balance d (st\<lparr>g_dbell_slots := sl\<rparr>) = balance d st"
  "balance d (st\<lparr>g_dbell_cache := ca\<rparr>) = balance d st"
  "balance d (nv_dbell_cache_invalidate_range base sz st) = balance d st"
  "balance d (kfree p st) = balance d st + (if p = 0 then 0 else d (Kfree p))"
  by (simp_all add: balance_def)

definition bar1_kvas :: "dbell_state \<Rightarrow> ptr multiset" where
  "bar1_kvas st = image_mset b1_kernel_va (bar1_tab.live (g_bar1_tracked st))"

definition sysmem_kvas :: "dbell_state \<Rightarrow> (ptr \<times> u32) multiset" where
  "sysmem_kvas st =
     image_mset (\<lambda>e. (sm_kernel_va e, sm_num_pages e)) (sysmem_tab.live (g_sysmem_tracked st))"

text \<open>Free cells are zero and live cells have a mapping.\<close>

definition bar1_ok :: "dbell_state \<Rightarrow> bool" where
  "bar1_ok st \<longleftrightarrow> length (g_bar1_tracked st) = NV_DBELL_BAR1_TABLE_SIZE \<and>
     (\<forall>e \<in> set (g_bar1_tracked st). if b1_vma e = 0 then e = bar1_free else b1_kernel_va e \<noteq> 0)"

definition sysmem_ok :: "dbell_state \<Rightarrow> bool" where
  "sysmem_ok st \<longleftrightarrow> length (g_sysmem_tracked st) = NV_DBELL_SYSMEM_TABLE_SIZE \<and>
     (\<forall>e \<in> set (g_sysmem_tracked st). if sm_vma e = 0 then e = sysmem_free else sm_kernel_va e \<noteq> 0)"

lemma bar1_ok_init: "bar1_ok dbell_init" and sysmem_ok_init: "sysmem_ok dbell_init"
  by (simp_all add: bar1_ok_def sysmem_ok_def dbell_init_def bar1_free_def sysmem_free_def)

text \<open>The three ways an add ends, and the two ways a remove ends.\<close>

lemma bar1_add_cases:
  obtains (nomap) "fst (nv_dbell_bar1_track_add wc io vma phys sz st) = - 12"
      "effects (snd (nv_dbell_bar1_track_add wc io vma phys sz st)) = effects st"
      "g_bar1_tracked (snd (nv_dbell_bar1_track_add wc io vma phys sz st)) = g_bar1_tracked st"
    | (full) kva where "kva \<noteq> 0" "fst (nv_dbell_bar1_track_add wc io vma phys sz st) = - 28"
      "effects (snd (nv_dbell_bar1_track_add wc io vma phys sz st)) =
         effects st @ [Ioremap kva sz, Iounmap kva]"
      "g_bar1_tracked (snd (nv_dbell_bar1_track_add wc io vma phys sz st)) = g_bar1_tracked st"
      "\<forall>e \<in> set (g_bar1_tracked st). \<not> bar1_vacant e"
    | (added) kva i t where "kva \<noteq> 0" "fst (nv_dbell_bar1_track_add wc io vma phys sz st) = 0"
      "effects (snd (nv_dbell_bar1_track_add wc io vma phys sz st)) = effects st @ [Ioremap kva sz]"
      "slot_insert bar1_vacant (bar1_entry vma phys sz kva) (g_bar1_tracked st) = Some (i, t)"
      "g_bar1_tracked (snd (nv_dbell_bar1_track_add wc io vma phys sz st)) = t"
proof -
  define kva where "kva = bar1_ioremap wc io phys sz"
  note unf = nv_dbell_bar1_track_add_def [of wc io vma phys sz st, folded kva_def, unfolded Let_def]
  consider "kva = 0" | "kva \<noteq> 0" "slot_insert bar1_vacant (bar1_entry vma phys sz kva) (g_bar1_tracked st) = None"
    | i t where "kva \<noteq> 0" "slot_insert bar1_vacant (bar1_entry vma phys sz kva) (g_bar1_tracked st) = Some (i, t)"
    by (cases "slot_insert bar1_vacant (bar1_entry vma phys sz kva) (g_bar1_tracked st)") auto
  then show thesis
  proof cases
    case 1
    then show thesis by (intro nomap) (simp_all add: unf)
  next
    case 2
    then have "\<forall>e \<in> set (g_bar1_tracked st). \<not> bar1_vacant e" by (simp add: slot_insert_None)
    with 2 show thesis
      by (intro full [of kva]) (simp_all add: unf)
  next
    case (3 i t)
    then show thesis by (intro added [of kva i t]) (simp_all add: unf)
  qed
qed

lemma bar1_remove_cases:
  obtains (absent) "nv_dbell_bar1_track_remove vma st = st"
      "\<forall>e \<in> set (g_bar1_tracked st). b1_vma e \<noteq> vma"
    | (unmapped) i e t where "b1_kernel_va e = 0"
      "slot_clear (\<lambda>e. b1_vma e = vma) (\<lambda>_. bar1_free) (g_bar1_tracked st) = Some (i, e, t)"
      "nv_dbell_bar1_track_remove vma st = st\<lparr>g_bar1_tracked := t\<rparr>"
    | (removed) i e t where "b1_kernel_va e \<noteq> 0"
      "slot_clear (\<lambda>e. b1_vma e = vma) (\<lambda>_. bar1_free) (g_bar1_tracked st) = Some (i, e, t)"
      "g_bar1_tracked (nv_dbell_bar1_track_remove vma st) = t"
      "effects (nv_dbell_bar1_track_remove vma st) = effects st @ [Iounmap (b1_kernel_va e)]"
      "g_dbell_cache (nv_dbell_bar1_track_remove vma st) =
         g_dbell_cache (nv_dbell_cache_invalidate_range (b1_kernel_va e) (b1_phys_end e - b1_phys_start e)
           (st\<lparr>g_bar1_tracked := t\<rparr>))"
proof (cases "slot_clear (\<lambda>e. b1_vma e = vma) (\<lambda>_. bar1_free) (g_bar1_tracked st)")
  case None
  have "nv_dbell_bar1_track_remove vma st = st" by (simp add: nv_dbell_bar1_track_remove_def None)
  moreover have "\<forall>e \<in> set (g_bar1_tracked st). b1_vma e \<noteq> vma" using None by (simp add: slot_clear_None)
  ultimately show thesis by (rule absent)
next
  case (Some x)
  then obtain i e t where x: "slot_clear (\<lambda>e. b1_vma e = vma) (\<lambda>_. bar1_free) (g_bar1_tracked st) = Some (i, e, t)"
    by (cases x) auto
  show thesis
  proof (cases "b1_kernel_va e = 0")
    case True
    then show thesis using x by (intro unmapped [of e i t]) (simp_all add: nv_dbell_bar1_track_remove_def)
  next
    case False
    then show thesis
      using x by (intro removed [of e i t]) (simp_all add: nv_dbell_bar1_track_remove_def Let_def)
  qed
qed

section \<open>BAR1: invariant and balance\<close>

lemma bar1_ok_add:
  assumes "bar1_ok st" "vma_ptr vma \<noteq> 0"
  shows "bar1_ok (snd (nv_dbell_bar1_track_add wc io vma phys sz st))"
proof (cases rule: bar1_add_cases [of wc io vma phys sz st])
  case (added kva i t)
  from slot_insert_SomeD [OF added(4)] assms added(1,5) show ?thesis
    unfolding bar1_ok_def by (auto dest!: set_update_subset_insert [THEN subsetD] simp: bar1_entry_def)
qed (use assms in \<open>simp_all add: bar1_ok_def\<close>)

lemma bar1_ok_remove:
  assumes "bar1_ok st"
  shows "bar1_ok (nv_dbell_bar1_track_remove vma st)"
proof (cases rule: bar1_remove_cases [of vma st])
  case (unmapped i e t)
  from slot_clear_SomeD [OF unmapped(2)] assms unmapped(3) show ?thesis
    unfolding bar1_ok_def
    by (auto dest!: set_update_subset_insert [THEN subsetD] simp: bar1_free_def split: if_splits)
next
  case (removed i e t)
  from slot_clear_SomeD [OF removed(2)] assms removed(3) show ?thesis
    unfolding bar1_ok_def
    by (auto dest!: set_update_subset_insert [THEN subsetD] simp: bar1_free_def split: if_splits)
qed (use assms in simp)

text \<open>An entry that is cleared without an unmap was vacant, so clearing it changes nothing.\<close>

lemma bar1_clear_vacant:
  assumes "bar1_ok st" "b1_kernel_va e = 0"
    "slot_clear (\<lambda>e. b1_vma e = vma) (\<lambda>_. bar1_free) (g_bar1_tracked st) = Some (i, e, t)"
  shows "t = g_bar1_tracked st"
proof -
  note D = slot_clear_SomeD [OF assms(3)]
  have "e = bar1_free"
    using assms(1,2) D(1,3) unfolding bar1_ok_def by (metis nth_mem)
  then show ?thesis using D(3,4) by (metis list_update_id)
qed

lemma bar1_cleared_vma:
  assumes "bar1_ok st" "b1_kernel_va e \<noteq> 0"
    "slot_clear (\<lambda>e. b1_vma e = vma) (\<lambda>_. bar1_free) (g_bar1_tracked st) = Some (i, e, t)"
  shows "vma \<noteq> 0"
  using assms(1,2) slot_clear_SomeD [OF assms(3)]
  unfolding bar1_ok_def by (metis bar1_free_def nth_mem nv_dbell_bar1_entry.select_convs(6))

text \<open>The balance of \<^verbatim>\<open>ioremap\<close>s moves with the table: neither operation leaks a mapping.\<close>

lemma bar1_add_balance:
  assumes "vma_ptr vma \<noteq> 0"
  shows "balance (delta (R_io p)) (snd (nv_dbell_bar1_track_add wc io vma phys sz st))
      - int (count (bar1_kvas (snd (nv_dbell_bar1_track_add wc io vma phys sz st))) p)
    = balance (delta (R_io p)) st - int (count (bar1_kvas st) p)"
proof (cases rule: bar1_add_cases [of wc io vma phys sz st])
  case (added kva i t)
  have "\<not> bar1_vacant (bar1_entry vma phys sz kva)"
    using assms by (simp add: bar1_vacant_def bar1_entry_def)
  from bar1_tab.live_insert [OF added(4) this] show ?thesis
    using added by (simp add: balance_def bar1_kvas_def bar1_entry_def)
qed (simp_all add: balance_def bar1_kvas_def)

lemma bar1_remove_balance:
  assumes "bar1_ok st"
  shows "balance (delta (R_io p)) (nv_dbell_bar1_track_remove vma st)
      - int (count (bar1_kvas (nv_dbell_bar1_track_remove vma st)) p)
    = balance (delta (R_io p)) st - int (count (bar1_kvas st) p)"
proof (cases rule: bar1_remove_cases [of vma st])
  case (unmapped i e t)
  with bar1_clear_vacant [OF assms unmapped(1,2)] show ?thesis by simp
next
  case (removed i e t)
  from bar1_tab.live_clear [OF removed(2) bar1_cleared_vma [OF assms removed(1,2)]]
  obtain L where L: "bar1_tab.live (g_bar1_tracked st) = add_mset e L" "bar1_tab.live t = L"
    using multi_member_split by (metis add_mset_remove_trivial)
  show ?thesis
    using removed(3,4) L by (simp add: balance_def bar1_kvas_def)
qed simp

text \<open>
  A mapping that is tracked and then released leaves no trace in the tables: for a VMA that
  is not tracked yet, \<^verbatim>\<open>nv_dbell_bar1_track_add\<close> followed by \<^verbatim>\<open>nv_dbell_bar1_track_remove\<close> leaves
  the same live entries, maps and unmaps the same kernel address once, and leaves no resolved
  cache entry that points into it.
\<close>

theorem bar1_add_remove_roundtrip:
  assumes fresh: "\<forall>e \<in> set (g_bar1_tracked st). b1_vma e \<noteq> vma_ptr vma" and "vma_ptr vma \<noteq> 0"
    and add: "nv_dbell_bar1_track_add wc io vma phys sz st = (0, st1)" and "sz \<noteq> 0"
  shows "bar1_tab.live (g_bar1_tracked (nv_dbell_bar1_track_remove (vma_ptr vma) st1))
      = bar1_tab.live (g_bar1_tracked st)
    \<and> (\<exists>kva. kva \<noteq> 0 \<and> effects (nv_dbell_bar1_track_remove (vma_ptr vma) st1)
          = effects st @ [Ioremap kva sz, Iounmap kva]
        \<and> (\<forall>e \<in> set (g_dbell_cache (nv_dbell_bar1_track_remove (vma_ptr vma) st1)).
             \<not> cache_points_into kva (kva + sz) e))"
proof -
  from add obtain kva i t where A: "kva \<noteq> 0" "effects st1 = effects st @ [Ioremap kva sz]"
    "slot_insert bar1_vacant (bar1_entry vma phys sz kva) (g_bar1_tracked st) = Some (i, t)"
    "g_bar1_tracked st1 = t"
    by (cases rule: bar1_add_cases [of wc io vma phys sz st]) auto
  have "\<forall>x \<in># bar1_tab.live (g_bar1_tracked st). b1_vma x \<noteq> vma_ptr vma"
    using fresh by (auto simp: bar1_tab.live_def)
  from bar1_tab.insert_then_clear [OF A(3) _ assms(2) this]
  obtain t'' where B: "slot_clear (\<lambda>e. b1_vma e = vma_ptr vma) (\<lambda>_. bar1_free) t
      = Some (i, bar1_entry vma phys sz kva, t'')"
    "bar1_tab.live t'' = bar1_tab.live (g_bar1_tracked st)"
    by (auto simp: bar1_entry_def)
  have "g_bar1_tracked (nv_dbell_bar1_track_remove (vma_ptr vma) st1) = t''"
    "effects (nv_dbell_bar1_track_remove (vma_ptr vma) st1) = effects st1 @ [Iounmap kva]"
    "g_dbell_cache (nv_dbell_bar1_track_remove (vma_ptr vma) st1) =
       g_dbell_cache (nv_dbell_cache_invalidate_range kva sz (st1\<lparr>g_bar1_tracked := t''\<rparr>))"
    using A(1,4) B(1) by (simp_all add: nv_dbell_bar1_track_remove_def bar1_entry_def Let_def)
  with A B(2) invalidate_range_clears [of _ kva sz] assms(4) show ?thesis by auto
qed

section \<open>System memory: invariant and balance\<close>

text \<open>
  An add that fails leaves the table alone and every balance as it was; an add that succeeds
  writes one entry for the range it mapped.
\<close>

lemma sysmem_add_cases:
  obtains (failed) "fst (nv_dbell_sysmem_track_add env vma pt ix n st) < 0"
      "g_sysmem_tracked (snd (nv_dbell_sysmem_track_add env vma pt ix n st)) = g_sysmem_tracked st"
      "\<And>r. balance (delta r) (snd (nv_dbell_sysmem_track_add env vma pt ix n st)) = balance (delta r) st"
    | (added) kva i t where "fst (nv_dbell_sysmem_track_add env vma pt ix n st) = 0"
      "kva \<noteq> 0" "vma_ptr vma \<noteq> 0" "0 < n" "n \<le> 256 * 1024"
      "slot_insert sysmem_vacant (sysmem_entry vma kva (ucast n)) (g_sysmem_tracked st) = Some (i, t)"
      "g_sysmem_tracked (snd (nv_dbell_sysmem_track_add env vma pt ix n st)) = t"
      "effects (snd (nv_dbell_sysmem_track_add env vma pt ix n st)) =
         effects st @ [Alloc (en_pages env), Vmap kva (ucast n), Kfree (en_pages env)]"
      "\<exists>pages. kva = en_vmap env pages"
proof -
  consider "pt = None" | pa where "pt = Some pa" "vma_ptr vma = 0 \<or> n = 0 \<or> n > 256 * 1024 \<or> en_pages env = 0"
    | pa where "pt = Some pa" "\<not> (vma_ptr vma = 0 \<or> n = 0 \<or> n > 256 * 1024 \<or> en_pages env = 0)"
    by (cases pt) auto
  then show thesis
  proof cases
    case 1
    then show thesis by (intro failed) (simp_all add: nv_dbell_sysmem_track_add_def)
  next
    case 2
    then show thesis by (intro failed) (auto simp: nv_dbell_sysmem_track_add_def)
  next
    case (3 pa)
    define pages where "pages = map (\<lambda>j. NV_GET_PAGE_STRUCT (en_pfn_to_page env) (pa (ix + of_nat j)))
      [0..<unat n]"
    define m where "m = (ucast n :: u32)"
    define kva where "kva = (if en_may_sleep env then en_vmap env (take (unat m) pages) else 0)"
    note unf = nv_dbell_sysmem_track_add_def
    have g: "vma_ptr vma \<noteq> 0" "n \<noteq> 0" "\<not> n > 256 * 1024" "en_pages env \<noteq> 0" using 3(2) by auto
    show thesis
    proof (cases "kva = 0")
      case True
      then show thesis
        using 3(1) g by (intro failed)
          (auto simp: unf nv_vm_map_pages_def Let_def kva_def pages_def m_def split: if_splits)
    next
      case False
      then have may: "en_may_sleep env" "en_vmap env (take (unat m) pages) = kva"
        by (auto simp: kva_def split: if_splits)
      have map: "nv_vm_map_pages True (en_vmap env) pages m st' = (kva, klog (Vmap kva m) st')"
        for st' using False may by (simp add: nv_vm_map_pages_def Let_def)
      show thesis
      proof (cases "slot_insert sysmem_vacant (sysmem_entry vma kva m) (g_sysmem_tracked st)")
        case None
        then show thesis
          using 3(1) g False may by (intro failed)
            (simp_all add: unf Let_def pages_def [symmetric] m_def [symmetric] map
              nv_vm_unmap_pages_def kfree_def)
      next
        case (Some x)
        have "\<exists>pages. kva = en_vmap env pages" using may(2) by metis
        with Some show thesis
          using 3(1) g False may word_neq_0_conv [of n]
          by (cases x, intro added [of kva "fst x" "snd x"])
            (simp_all add: unf Let_def pages_def [symmetric] m_def [symmetric] map kfree_def)
      qed
    qed
  qed
qed

lemma sysmem_ok_add:
  assumes "sysmem_ok st"
  shows "sysmem_ok (snd (nv_dbell_sysmem_track_add env vma pt ix n st))"
proof (cases rule: sysmem_add_cases [of env vma pt ix n st])
  case (added kva i t)
  from slot_insert_SomeD [OF added(6)] assms added(2,3,7) show ?thesis
    unfolding sysmem_ok_def
    by (auto dest!: set_update_subset_insert [THEN subsetD] simp: sysmem_entry_def)
qed (use assms in \<open>simp add: sysmem_ok_def\<close>)

lemma sysmem_add_balance:
  "balance (delta (R_vm p m)) (snd (nv_dbell_sysmem_track_add env vma pt ix n st))
      - int (count (sysmem_kvas (snd (nv_dbell_sysmem_track_add env vma pt ix n st))) (p, m))
    = balance (delta (R_vm p m)) st - int (count (sysmem_kvas st) (p, m))"
proof (cases rule: sysmem_add_cases [of env vma pt ix n st])
  case (added kva i t)
  have "\<not> sysmem_vacant (sysmem_entry vma kva (ucast n))"
    using added(3) by (simp add: sysmem_vacant_def sysmem_entry_def)
  from sysmem_tab.live_insert [OF added(6) this] show ?thesis
    using added(7,8) by (simp add: balance_def sysmem_kvas_def sysmem_entry_def)
qed (simp add: sysmem_kvas_def)

lemma sysmem_remove_cases:
  assumes "sysmem_ok st"
  obtains (absent) "nv_dbell_sysmem_track_remove True vma st = st"
    | (removed) i e t where "vma \<noteq> 0" "sm_kernel_va e \<noteq> 0"
      "slot_clear (\<lambda>e. sm_vma e = vma) (\<lambda>_. sysmem_free) (g_sysmem_tracked st) = Some (i, e, t)"
      "g_sysmem_tracked (nv_dbell_sysmem_track_remove True vma st) = t"
      "effects (nv_dbell_sysmem_track_remove True vma st) =
         effects st @ [Vunmap (sm_kernel_va e) (sm_num_pages e)]"
proof (cases "slot_clear (\<lambda>e. sm_vma e = vma) (\<lambda>_. sysmem_free) (g_sysmem_tracked st)")
  case None
  then show thesis by (intro absent) (simp add: nv_dbell_sysmem_track_remove_def None)
next
  case (Some x)
  then obtain i e t where x: "slot_clear (\<lambda>e. sm_vma e = vma) (\<lambda>_. sysmem_free) (g_sysmem_tracked st) = Some (i, e, t)"
    by (cases x) auto
  note D = slot_clear_SomeD [OF x]
  have e: "if sm_vma e = 0 then e = sysmem_free else sm_kernel_va e \<noteq> 0"
    using assms D(1,3) unfolding sysmem_ok_def by (metis nth_mem)
  show thesis
  proof (cases "vma = 0")
    case True
    with e D(2) have "e = sysmem_free" by simp
    moreover from this D(3,4) have "t = g_sysmem_tracked st" by (metis list_update_id)
    ultimately show thesis
      using x by (intro absent) (simp add: nv_dbell_sysmem_track_remove_def sysmem_free_def)
  next
    case False
    with e D(2) x show thesis
      by (intro removed [of e i t])
        (simp_all add: nv_dbell_sysmem_track_remove_def nv_vm_unmap_pages_def Let_def)
  qed
qed

lemma sysmem_ok_remove:
  assumes "sysmem_ok st"
  shows "sysmem_ok (nv_dbell_sysmem_track_remove True vma st)"
proof (cases rule: sysmem_remove_cases [OF assms, of vma])
  case (2 i e t)
  from slot_clear_SomeD [OF 2(3)] assms 2(4) show ?thesis
    unfolding sysmem_ok_def
    by (auto dest!: set_update_subset_insert [THEN subsetD] simp: sysmem_free_def split: if_splits)
qed (use assms in simp)

lemma sysmem_remove_balance:
  assumes "sysmem_ok st"
  shows "balance (delta (R_vm p m)) (nv_dbell_sysmem_track_remove True vma st)
      - int (count (sysmem_kvas (nv_dbell_sysmem_track_remove True vma st)) (p, m))
    = balance (delta (R_vm p m)) st - int (count (sysmem_kvas st) (p, m))"
proof (cases rule: sysmem_remove_cases [OF assms, of vma])
  case (2 i e t)
  from sysmem_tab.live_clear [OF 2(3,1)]
  obtain L where "sysmem_tab.live (g_sysmem_tracked st) = add_mset e L" "sysmem_tab.live t = L"
    using multi_member_split by (metis add_mset_remove_trivial)
  then show ?thesis using 2(4,5) by (simp add: balance_def sysmem_kvas_def)
qed simp

section \<open>Address translation\<close>

definition bar1_usable :: "nv_dbell_bar1_entry \<Rightarrow> bool" where
  "bar1_usable e \<longleftrightarrow> b1_vma e \<noteq> 0 \<and> b1_kernel_va e \<noteq> 0 \<and> b1_user_va_start e \<noteq> 0 \<and> b1_user_va_end e \<noteq> 0"

definition sysmem_usable :: "nv_dbell_sysmem_entry \<Rightarrow> bool" where
  "sysmem_usable e \<longleftrightarrow> sm_vma e \<noteq> 0 \<and> sm_kernel_va e \<noteq> 0 \<and> sm_user_va_start e \<noteq> 0 \<and> sm_user_va_end e \<noteq> 0"

text \<open>The kernel aliases do not wrap around the address space.\<close>

definition bar1_alias_ok :: "nv_dbell_bar1_entry \<Rightarrow> bool" where
  "bar1_alias_ok e \<longleftrightarrow>
     unat (b1_kernel_va e) + (unat (b1_user_va_end e) - unat (b1_user_va_start e)) < 2 ^ 64"

definition sysmem_alias_ok :: "nv_dbell_sysmem_entry \<Rightarrow> bool" where
  "sysmem_alias_ok e \<longleftrightarrow>
     unat (sm_kernel_va e) + (unat (sm_user_va_end e) - unat (sm_user_va_start e)) < 2 ^ 64"

lemma find_first:
  "(case List.find P xs of None \<Rightarrow> z | Some x \<Rightarrow> f x) = y \<longleftrightarrow>
     (\<forall>x \<in> set xs. \<not> P x) \<and> y = z \<or> (\<exists>x \<in> set xs. P x \<and> List.find P xs = Some x \<and> y = f x)"
  by (auto simp: find_None_iff dest: find_Some_iff [THEN iffD1] split: option.splits)

lemma bar1_find_eq:
  assumes "unat va + unat sz < 2 ^ 64"
  shows "nv_dbell_bar1_gpu_va_to_kva va sz st =
     (case List.find (\<lambda>e. bar1_usable e \<and> covers (b1_user_va_start e) (b1_user_va_end e) va sz)
        (g_bar1_tracked st) of
        None \<Rightarrow> 0 | Some e \<Rightarrow> b1_kernel_va e + (va - b1_user_va_start e))"
proof -
  have "(\<lambda>e. \<not> (b1_vma e = 0 \<or> b1_kernel_va e = 0) \<and> \<not> (b1_user_va_start e = 0 \<or> b1_user_va_end e = 0)
      \<and> \<not> va < b1_user_va_start e \<and> \<not> va + sz > b1_user_va_end e) =
    (\<lambda>e. bar1_usable e \<and> covers (b1_user_va_start e) (b1_user_va_end e) va sz)"
    by (auto simp: bar1_usable_def covers_nowrap(1) [OF assms, symmetric] fun_eq_iff)
  then show ?thesis by (simp add: nv_dbell_bar1_gpu_va_to_kva_def)
qed

lemma sysmem_find_eq:
  assumes "unat va + unat sz < 2 ^ 64"
  shows "nv_dbell_sysmem_gpu_va_to_kva va sz st =
     (case List.find (\<lambda>e. sysmem_usable e \<and> covers (sm_user_va_start e) (sm_user_va_end e) va sz)
        (g_sysmem_tracked st) of
        None \<Rightarrow> 0 | Some e \<Rightarrow> sm_kernel_va e + (va - sm_user_va_start e))"
proof -
  have "(\<lambda>e. \<not> (sm_vma e = 0 \<or> sm_kernel_va e = 0) \<and> \<not> (sm_user_va_start e = 0 \<or> sm_user_va_end e = 0)
      \<and> \<not> va < sm_user_va_start e \<and> \<not> va + sz > sm_user_va_end e) =
    (\<lambda>e. sysmem_usable e \<and> covers (sm_user_va_start e) (sm_user_va_end e) va sz)"
    by (auto simp: sysmem_usable_def covers_nowrap(1) [OF assms, symmetric] fun_eq_iff)
  then show ?thesis by (simp add: nv_dbell_sysmem_gpu_va_to_kva_def)
qed

lemma alias_nonzero:
  assumes "covers lo hi a n" "unat k + (unat hi - unat lo) < 2 ^ 64" "k \<noteq> 0"
  shows "k + (a - lo) \<noteq> 0"
  using translate_inside(1) [OF assms(1,2)] assms(3) by (metis add_is_0 unsigned_0 unat_eq_zero)

lemma bar1_translate_Some:
  assumes "unat va + unat sz < 2 ^ 64" "nv_dbell_bar1_gpu_va_to_kva va sz st = r" "r \<noteq> 0"
  shows "\<exists>e \<in> set (g_bar1_tracked st). bar1_usable e
    \<and> covers (b1_user_va_start e) (b1_user_va_end e) va sz
    \<and> r = b1_kernel_va e + (va - b1_user_va_start e)"
  using assms unfolding bar1_find_eq [OF assms(1)] find_first by blast

lemma sysmem_translate_Some:
  assumes "unat va + unat sz < 2 ^ 64" "nv_dbell_sysmem_gpu_va_to_kva va sz st = r" "r \<noteq> 0"
  shows "\<exists>e \<in> set (g_sysmem_tracked st). sysmem_usable e
    \<and> covers (sm_user_va_start e) (sm_user_va_end e) va sz
    \<and> r = sm_kernel_va e + (va - sm_user_va_start e)"
  using assms unfolding sysmem_find_eq [OF assms(1)] find_first by blast


text \<open>
  Without the no-wrap hypothesis the promise fails: for a non-empty request that ends exactly at
  the top of the address space \<^verbatim>\<open>gpu_va + size\<close> is \<open>0\<close>, the upper bound test passes for every
  mapping, and the translation answers with a pointer outside the mapping it used.
\<close>

theorem bar1_translation_wraps:
  assumes "e \<in> set (g_bar1_tracked st)" "bar1_usable e" "sz \<noteq> 0"
    and "\<forall>e \<in> set (g_bar1_tracked st). b1_user_va_start e \<le> - sz"
  shows "\<exists>e' \<in> set (g_bar1_tracked st). bar1_usable e'
    \<and> \<not> covers (b1_user_va_start e') (b1_user_va_end e') (- sz) sz
    \<and> nv_dbell_bar1_gpu_va_to_kva (- sz) sz st = b1_kernel_va e' + (- sz - b1_user_va_start e')"
proof -
  let ?P = "\<lambda>e. \<not> (b1_vma e = 0 \<or> b1_kernel_va e = 0) \<and> \<not> (b1_user_va_start e = 0 \<or> b1_user_va_end e = 0)
      \<and> \<not> - sz < b1_user_va_start e \<and> \<not> - sz + sz > b1_user_va_end e"
  have "?P e" using assms by (auto simp: bar1_usable_def)
  then obtain e' where e': "List.find ?P (g_bar1_tracked st) = Some e'"
    using assms(1) by (cases "List.find ?P (g_bar1_tracked st)") (auto simp: find_None_iff)
  then have "e' \<in> set (g_bar1_tracked st)" "?P e'"
    by (auto dest: find_Some_iff [THEN iffD1])
  with e' wrapped_range [OF assms(3)] show ?thesis
    by (intro bexI [of _ e']) (auto simp: nv_dbell_bar1_gpu_va_to_kva_def bar1_usable_def)
qed

section \<open>The largest mapping\<close>

definition bar1_size :: "nv_dbell_bar1_entry \<Rightarrow> u64" where
  "bar1_size e = b1_phys_end e - b1_phys_start e"

definition bar1_holds :: "u64 \<Rightarrow> u64 \<Rightarrow> nv_dbell_bar1_entry \<Rightarrow> bool" where
  "bar1_holds off sz e \<longleftrightarrow> b1_vma e \<noteq> 0 \<and> b1_kernel_va e \<noteq> 0 \<and> unat off + unat sz \<le> unat (bar1_size e)"

lemma offset_fold:
  assumes nowrap: "unat off + unat sz < 2 ^ 64" and "foldl (offset_kva_step off sz) (b, r) es = (b', r')"
  shows "b' = b \<and> r' = r \<and> (\<forall>e \<in> set es. bar1_holds off sz e \<longrightarrow> bar1_size e \<le> b)
    \<or> (\<exists>e \<in> set es. bar1_holds off sz e \<and> bar1_size e > b \<and> b' = bar1_size e \<and> r' = b1_kernel_va e + off
         \<and> (\<forall>e' \<in> set es. bar1_holds off sz e' \<longrightarrow> bar1_size e' \<le> b'))"
  using assms(2)
proof (induction es arbitrary: b r)
  case Nil
  then show ?case by simp
next
  case (Cons e es)
  have step: "offset_kva_step off sz (b, r) e =
      (if bar1_holds off sz e \<and> b < bar1_size e then (bar1_size e, b1_kernel_va e + off) else (b, r))"
    using unat_add_nowrap [of off sz] nowrap
    by (auto simp: offset_kva_step_def bar1_holds_def bar1_size_def Let_def word_less_nat_alt)
  show ?case
  proof (cases "bar1_holds off sz e \<and> b < bar1_size e")
    case True
    then have "foldl (offset_kva_step off sz) (bar1_size e, b1_kernel_va e + off) es = (b', r')"
      using Cons.prems step by simp
    from Cons.IH [OF this] True show ?thesis by (auto intro: order.strict_trans)
  next
    case False
    then have "offset_kva_step off sz (b, r) e = (b, r)" unfolding step by (rule if_not_P)
    then have "foldl (offset_kva_step off sz) (b, r) es = (b', r')"
      using Cons.prems by simp
    from Cons.IH [OF this] False show ?thesis by (auto simp: not_less)
  qed
qed

lemma offset_kva_cases:
  assumes "unat off + unat sz < 2 ^ 64" "sz \<noteq> 0"
  obtains (none) "nv_dbell_bar1_offset_kva off sz st = 0" "\<forall>e \<in> set (g_bar1_tracked st). \<not> bar1_holds off sz e"
    | (some) e where "e \<in> set (g_bar1_tracked st)" "bar1_holds off sz e"
      "nv_dbell_bar1_offset_kva off sz st = b1_kernel_va e + off"
      "\<forall>e' \<in> set (g_bar1_tracked st). bar1_holds off sz e' \<longrightarrow> bar1_size e' \<le> bar1_size e"
proof -
  obtain b' r' where f: "foldl (offset_kva_step off sz) (0, 0) (g_bar1_tracked st) = (b', r')"
    by (cases "foldl (offset_kva_step off sz) (0, 0) (g_bar1_tracked st)")
  have pos: "bar1_holds off sz e \<Longrightarrow> \<not> bar1_size e \<le> 0" for e
    using assms(2) by (auto simp: bar1_holds_def unat_gt_0 [symmetric])
  from offset_fold [OF assms(1) f] show thesis
    using none some f pos by (auto simp: nv_dbell_bar1_offset_kva_def)
qed

text \<open>
  \<^verbatim>\<open>nv_dbell_bar1_offset_kva\<close> picks the largest tracked mapping that has room for
  \<open>[off, off + size)\<close>: it answers exactly when there is one, with the alias of \<open>off\<close> in a mapping no
  smaller than any other candidate, and the range stays inside that alias.
\<close>

theorem bar1_offset_kva_largest:
  assumes nowrap: "unat off + unat sz < 2 ^ 64" and "sz \<noteq> 0"
    and maps: "\<forall>e \<in> set (g_bar1_tracked st). unat (b1_kernel_va e) + unat (bar1_size e) < 2 ^ 64"
  shows "(nv_dbell_bar1_offset_kva off sz st = 0 \<longleftrightarrow> (\<forall>e \<in> set (g_bar1_tracked st). \<not> bar1_holds off sz e))
    \<and> (nv_dbell_bar1_offset_kva off sz st \<noteq> 0 \<longrightarrow>
       (\<exists>e \<in> set (g_bar1_tracked st). bar1_holds off sz e
         \<and> unat (nv_dbell_bar1_offset_kva off sz st) = unat (b1_kernel_va e) + unat off
         \<and> (\<forall>e' \<in> set (g_bar1_tracked st). bar1_holds off sz e' \<longrightarrow> bar1_size e' \<le> bar1_size e)))"
proof (cases rule: offset_kva_cases [OF nowrap assms(2), of st])
  case 1
  then show ?thesis by simp
next
  case (2 e)
  have "unat (b1_kernel_va e) + unat off < 2 ^ LENGTH(64)"
    using 2(1,2) maps by (fastforce simp: bar1_holds_def)
  then have u: "unat (b1_kernel_va e + off) = unat (b1_kernel_va e) + unat off"
    by (rule unat_add_nowrap)
  moreover have "unat (b1_kernel_va e) \<noteq> 0" using 2(2) by (simp add: bar1_holds_def unat_eq_zero)
  ultimately have "b1_kernel_va e + off \<noteq> 0" by (metis add_is_0 unsigned_0)
  with 2 u show ?thesis by auto
qed

section \<open>Examples\<close>

text \<open>One 2 MiB mapping at the addresses of an H100, and the table that tracks it.\<close>

definition ex_vma :: vm_area where
  "ex_vma = \<lparr>vma_ptr = 0x1000, vm_start = 0x7f0000000000, vm_end = 0x7f0000200000\<rparr>"

definition ex_tracked :: dbell_state where
  "ex_tracked = snd (nv_dbell_bar1_track_add (\<lambda>_ _. 0xffffc90000000000) (\<lambda>_ _. 0) ex_vma 0x1fc022000000 0x200000
     dbell_init)"

lemma replicate_16: "replicate 16 x = x # replicate 15 x"
  by (simp add: numeral_eq_Suc)

lemma ex_tracked_table:
  "g_bar1_tracked ex_tracked =
     bar1_entry ex_vma 0x1fc022000000 0x200000 0xffffc90000000000 # replicate 15 bar1_free"
  "nv_dbell_bar1_track_add (\<lambda>_ _. 0xffffc90000000000) (\<lambda>_ _. 0) ex_vma 0x1fc022000000 0x200000 dbell_init
     = (0, ex_tracked)"
  by (simp_all add: ex_tracked_def nv_dbell_bar1_track_add_def bar1_ioremap_def slot_insert_def
      dbell_init_def bar1_vacant_def bar1_free_def replicate_16 Let_def)

theorem bar1_add_remove_roundtrip_witness:
  "bar1_tab.live (g_bar1_tracked (nv_dbell_bar1_track_remove (vma_ptr ex_vma) ex_tracked))
     = bar1_tab.live (g_bar1_tracked dbell_init)"
  using bar1_add_remove_roundtrip [OF _ _ ex_tracked_table(2)]
  by (simp add: dbell_init_def bar1_free_def ex_vma_def)


theorem bar1_translation_wraps_witness:
  "\<exists>e' \<in> set (g_bar1_tracked ex_tracked).
     \<not> covers (b1_user_va_start e') (b1_user_va_end e') (- 8) 8
     \<and> nv_dbell_bar1_gpu_va_to_kva (- 8) 8 ex_tracked = b1_kernel_va e' + (- 8 - b1_user_va_start e')"
proof -
  have "bar1_usable (bar1_entry ex_vma 0x1fc022000000 0x200000 0xffffc90000000000)"
    by (simp add: bar1_usable_def bar1_entry_def ex_vma_def)
  moreover have "\<forall>e \<in> set (g_bar1_tracked ex_tracked). b1_user_va_start e \<le> - 8"
    by (simp add: ex_tracked_table bar1_entry_def ex_vma_def bar1_free_def)
  ultimately show ?thesis
    using bar1_translation_wraps [of _ ex_tracked 8] by (simp add: ex_tracked_table(1)) blast
qed

theorem bar1_offset_kva_largest_witness:
  "nv_dbell_bar1_offset_kva 0x3000 0x200 ex_tracked \<noteq> 0"
  using bar1_offset_kva_largest [of "0x3000" "0x200" ex_tracked]
  by (simp add: ex_tracked_table bar1_entry_def ex_vma_def bar1_free_def bar1_holds_def bar1_size_def)

end
