(* ===== verification/Gpfifo_Table.thy ===== *)
theory Gpfifo_Table
  imports Interfaces
begin

text \<open>
  The doorbell GPFIFO table of \<^verbatim>\<open>src/nvidia/src/kernel/rmapi/nv_gpu_ops.c\<close>: an open-addressing
  hash table with linear probing and tombstones that maps (GPU, runlist, channel id) to the
  GPFIFO ring's GPU address and entry count.  The static array
  \<^verbatim>\<open>g_dbellGpfifoTable[4096]\<close> is a function on the 32-bit index, because the code only ever
  reads it at masked indices; the three probe loops are recursions on the number of
  iterations that are left.
\<close>

section \<open>Slots, hash and probe loops\<close>

record dbellGpfifoSlot =
  gs_pGpu :: ptr
  gs_runlist :: u32
  gs_chid :: u32
  gs_gpFifoOffset :: u64
  gs_gpFifoEntries :: u32
  gs_state :: u32

type_synonym gpfifo_table = "u32 \<Rightarrow> dbellGpfifoSlot"

text \<open>A channel's key \<open>(pGpu, runlist, chid)\<close> and the value stored for it.\<close>

type_synonym gpfifo_key = "ptr \<times> u32 \<times> u32"
type_synonym gpfifo_val = "u64 \<times> u32"

abbreviation (input) TRACE_DBELL_GPFIFO_SLOTS :: nat where
  "TRACE_DBELL_GPFIFO_SLOTS \<equiv> 4096"

text \<open>The zero-initialised static array.\<close>

definition g_dbellGpfifoTable :: gpfifo_table where
  "g_dbellGpfifoTable = (\<lambda>_. \<lparr>gs_pGpu = 0, gs_runlist = 0, gs_chid = 0,
     gs_gpFifoOffset = 0, gs_gpFifoEntries = 0, gs_state = 0\<rparr>)"

definition dbellGpfifoHash :: "gpfifo_key \<Rightarrow> u32" where
  "dbellGpfifoHash key = (case key of (pGpu, runlist, chid) \<Rightarrow>
     let k0 = pGpu;
         k1 = k0 XOR (push_bit 32 (ucast runlist) OR ucast chid);
         k2 = k1 XOR drop_bit 33 k1;
         k3 = k2 * 0xff51afd7ed558ccd;
         k4 = k3 XOR drop_bit 33 k3
     in ucast (k4 AND (4096 - 1)))"

text \<open>\<open>idx = (start + i) & (TRACE_DBELL_GPFIFO_SLOTS - 1)\<close>.\<close>

definition probe :: "u32 \<Rightarrow> nat \<Rightarrow> u32" where
  "probe start i = (start + of_nat i) AND (4096 - 1)"

definition slot_hit :: "gpfifo_key \<Rightarrow> dbellGpfifoSlot \<Rightarrow> bool" where
  "slot_hit key s = (case key of (pGpu, runlist, chid) \<Rightarrow>
     gs_state s = 1 \<and> gs_pGpu s = pGpu \<and> gs_runlist s = runlist \<and> gs_chid s = chid)"

definition slot_fill :: "gpfifo_key \<Rightarrow> gpfifo_val \<Rightarrow> dbellGpfifoSlot" where
  "slot_fill key v = \<lparr>gs_pGpu = fst key, gs_runlist = fst (snd key), gs_chid = snd (snd key),
     gs_gpFifoOffset = fst v, gs_gpFifoEntries = snd v, gs_state = 1\<rparr>"

datatype register_result = Reg_Updated | Reg_New | Reg_Full | Reg_Ignored

text \<open>
  The body of \<^verbatim>\<open>nvGpuOpsDbellGpfifoRegister\<close> after its argument check.  \<open>ft\<close> is
  \<^verbatim>\<open>firstTombstone\<close> (\<open>None\<close> is the \<^verbatim>\<open>-1\<close> it starts with), \<open>i\<close> the loop counter and the last
  argument the iterations left.
\<close>

fun register_loop ::
  "gpfifo_table \<Rightarrow> gpfifo_key \<Rightarrow> gpfifo_val \<Rightarrow> u32 \<Rightarrow> u32 option \<Rightarrow> nat \<Rightarrow> nat
     \<Rightarrow> gpfifo_table \<times> register_result" where
  "register_loop T key v start ft i 0 =
     (case ft of
        Some t \<Rightarrow> (T(t := slot_fill key v), Reg_New)
      | None \<Rightarrow> (T, Reg_Full))"
| "register_loop T key v start ft i (Suc n) =
     (let idx = probe start i; s = T idx in
      if slot_hit key s then
        (T(idx := s\<lparr>gs_gpFifoOffset := fst v, gs_gpFifoEntries := snd v\<rparr>), Reg_Updated)
      else
        let ft' = (if gs_state s = 2 \<and> ft = None then Some idx else ft) in
        if gs_state s = 0 then
          let dst = (case ft' of Some t \<Rightarrow> t | None \<Rightarrow> idx)
          in (T(dst := slot_fill key v), Reg_New)
        else register_loop T key v start ft' (Suc i) n)"

definition dbellGpfifoRegister ::
  "gpfifo_key \<Rightarrow> gpfifo_val \<Rightarrow> gpfifo_table \<Rightarrow> gpfifo_table \<times> register_result" where
  "dbellGpfifoRegister key v T =
     (if fst key = 0 \<or> snd v = 0 then (T, Reg_Ignored)
      else register_loop T key v (dbellGpfifoHash key) None 0 TRACE_DBELL_GPFIFO_SLOTS)"

fun unregister_loop :: "gpfifo_table \<Rightarrow> gpfifo_key \<Rightarrow> u32 \<Rightarrow> nat \<Rightarrow> nat \<Rightarrow> gpfifo_table" where
  "unregister_loop T key start i 0 = T"
| "unregister_loop T key start i (Suc n) =
     (let idx = probe start i; s = T idx in
      if gs_state s = 0 then T
      else if slot_hit key s then
        T(idx := s\<lparr>gs_pGpu := 0, gs_gpFifoEntries := 0, gs_state := 2\<rparr>)
      else unregister_loop T key start (Suc i) n)"

definition nvGpuOpsDbellGpfifoUnregister :: "gpfifo_key \<Rightarrow> gpfifo_table \<Rightarrow> gpfifo_table" where
  "nvGpuOpsDbellGpfifoUnregister key T =
     (if fst key = 0 then T
      else unregister_loop T key (dbellGpfifoHash key) 0 TRACE_DBELL_GPFIFO_SLOTS)"

fun lookup_loop :: "gpfifo_table \<Rightarrow> gpfifo_key \<Rightarrow> u32 \<Rightarrow> nat \<Rightarrow> nat \<Rightarrow> gpfifo_val option" where
  "lookup_loop T key start i 0 = None"
| "lookup_loop T key start i (Suc n) =
     (let s = T (probe start i) in
      if gs_state s = 0 then None
      else if slot_hit key s then Some (gs_gpFifoOffset s, gs_gpFifoEntries s)
      else lookup_loop T key start (Suc i) n)"

definition dbellGpfifoLookup :: "gpfifo_table \<Rightarrow> gpfifo_key \<Rightarrow> gpfifo_val option" where
  "dbellGpfifoLookup T key =
     (if fst key = 0 then None
      else lookup_loop T key (dbellGpfifoHash key) 0 TRACE_DBELL_GPFIFO_SLOTS)"

section \<open>Probe arithmetic\<close>

lemma unat_probe: "unat (probe start i) = (unat start + i) mod 4096"
proof -
  have "unat (start + of_nat i) mod 4096 = ((unat start + i) mod 2 ^ 32) mod 4096"
    by (simp add: unat_word_ariths unat_of_nat mod_simps)
  also have "\<dots> = (unat start + i) mod 4096"
    by (simp add: mod_mod_cancel)
  finally show ?thesis
    using unat_and_mask [of "start + of_nat i" 12]
    by (simp add: probe_def mask_eq_exp_minus_1)
qed

lemma probe_less: "unat (probe start i) < 4096"
  by (simp add: unat_probe)

lemma probe_inj:
  assumes "probe start i = probe start j" "i < 4096" "j < 4096"
  shows "i = j"
proof -
  have "(unat start + i) mod 4096 = (unat start + j) mod 4096"
    using assms(1) by (metis unat_probe)
  then show ?thesis using assms(2,3) by (rule mod_add_cancel_less)
qed

lemma probe_surj:
  assumes "unat idx < 4096"
  shows "\<exists>j < 4096. probe start j = idx"
proof -
  define j where "j = (unat idx + (4096 - unat start mod 4096)) mod 4096"
  have "(unat start + j) mod 4096 = unat idx"
  proof -
    have "(unat start + j) mod 4096
        = (unat start + (unat idx + (4096 - unat start mod 4096))) mod 4096"
      by (simp only: j_def mod_add_right_eq)
    also have "\<dots> = (unat start mod 4096 + (unat idx + (4096 - unat start mod 4096))) mod 4096"
      by (simp only: mod_add_left_eq)
    also have "unat start mod 4096 + (unat idx + (4096 - unat start mod 4096)) = unat idx + 4096"
      by (simp add: less_imp_le)
    finally show ?thesis using assms by simp
  qed
  then have "probe start j = idx"
    by (simp add: word_eq_iff_unsigned [where 'a = nat] unat_probe)
  moreover have "j < 4096" by (simp add: j_def)
  ultimately show ?thesis by blast
qed

section \<open>The table invariant\<close>

definition slot_key :: "dbellGpfifoSlot \<Rightarrow> gpfifo_key" where
  "slot_key s = (gs_pGpu s, gs_runlist s, gs_chid s)"

definition slot_val :: "dbellGpfifoSlot \<Rightarrow> gpfifo_val" where
  "slot_val s = (gs_gpFifoOffset s, gs_gpFifoEntries s)"

text \<open>
  States are 0 (empty), 1 (live) and 2 (tombstone); nothing is live outside the array or
  under a NULL GPU; a key is live at most once; and no empty slot lies on the probe path of
  a live slot before that slot, which is what lets the loops stop at the first empty slot.
\<close>

definition gpfifo_inv :: "gpfifo_table \<Rightarrow> bool" where
  "gpfifo_inv T \<longleftrightarrow>
     (\<forall>idx. gs_state (T idx) = 0 \<or> gs_state (T idx) = 1 \<or> gs_state (T idx) = 2)
   \<and> (\<forall>idx. 4096 \<le> unat idx \<longrightarrow> gs_state (T idx) = 0)
   \<and> (\<forall>idx. gs_state (T idx) = 1 \<longrightarrow> gs_pGpu (T idx) \<noteq> 0)
   \<and> (\<forall>idx idx'. gs_state (T idx) = 1 \<longrightarrow> gs_state (T idx') = 1 \<longrightarrow>
        slot_key (T idx) = slot_key (T idx') \<longrightarrow> idx = idx')
   \<and> (\<forall>j m. j < 4096 \<longrightarrow> m < j \<longrightarrow> (\<forall>key. slot_hit key (T (probe (dbellGpfifoHash key) j)) \<longrightarrow>
        gs_state (T (probe (dbellGpfifoHash key) m)) \<noteq> 0))"

lemma slot_hit_iff: "slot_hit key s \<longleftrightarrow> gs_state s = 1 \<and> slot_key s = key"
  by (auto simp: slot_hit_def slot_key_def split: prod.splits)

lemma slot_fill_sel [simp]:
  "gs_state (slot_fill key v) = 1" "slot_key (slot_fill key v) = key"
  "slot_val (slot_fill key v) = v" "gs_pGpu (slot_fill key v) = fst key"
  by (simp_all add: slot_fill_def slot_key_def slot_val_def)

lemma slot_key_fst [simp]: "fst (slot_key s) = gs_pGpu s"
  by (simp add: slot_key_def)

lemma gpfifo_invI:
  assumes "\<And>idx. gs_state (T idx) = 0 \<or> gs_state (T idx) = 1 \<or> gs_state (T idx) = 2"
    and "\<And>idx. 4096 \<le> unat idx \<Longrightarrow> gs_state (T idx) = 0"
    and "\<And>idx. gs_state (T idx) = 1 \<Longrightarrow> gs_pGpu (T idx) \<noteq> 0"
    and "\<And>key a b. slot_hit key (T a) \<Longrightarrow> slot_hit key (T b) \<Longrightarrow> a = b"
    and "\<And>key j m. j < 4096 \<Longrightarrow> m < j \<Longrightarrow> slot_hit key (T (probe (dbellGpfifoHash key) j)) \<Longrightarrow>
      gs_state (T (probe (dbellGpfifoHash key) m)) \<noteq> 0"
  shows "gpfifo_inv T"
  unfolding gpfifo_inv_def
  by (intro conjI allI impI; (fact assms(1,2,3,5))?)
    (rule assms(4); auto simp: slot_hit_iff)

lemma gpfifo_invD:
  assumes "gpfifo_inv T"
  shows "gs_state (T idx) = 0 \<or> gs_state (T idx) = 1 \<or> gs_state (T idx) = 2"
    and "4096 \<le> unat idx \<Longrightarrow> gs_state (T idx) = 0"
    and "gs_state (T idx) = 1 \<Longrightarrow> gs_pGpu (T idx) \<noteq> 0"
  using assms unfolding gpfifo_inv_def by blast+

lemma gpfifo_inv_empty: "gpfifo_inv g_dbellGpfifoTable"
  by (simp add: gpfifo_inv_def g_dbellGpfifoTable_def slot_hit_iff)

lemma inv_hit_less:
  assumes "gpfifo_inv T" "slot_hit key (T idx)"
  shows "unat idx < 4096"
proof (rule ccontr)
  assume "\<not> unat idx < 4096"
  then have "gs_state (T idx) = 0"
    using assms(1) by (simp add: gpfifo_inv_def)
  with assms(2) show False by (simp add: slot_hit_iff)
qed

lemma inv_hit_unique:
  "gpfifo_inv T \<Longrightarrow> slot_hit key (T a) \<Longrightarrow> slot_hit key (T b) \<Longrightarrow> a = b"
  unfolding gpfifo_inv_def slot_hit_iff by blast

lemma inv_path:
  "gpfifo_inv T \<Longrightarrow> slot_hit key (T (probe (dbellGpfifoHash key) j)) \<Longrightarrow> j < 4096 \<Longrightarrow> m < j \<Longrightarrow>
     gs_state (T (probe (dbellGpfifoHash key) m)) \<noteq> 0"
  unfolding gpfifo_inv_def by blast

lemma inv_path_nohit:
  assumes "gpfifo_inv T" "slot_hit key (T (probe s j))" "j < 4096" "m < j"
  shows "\<not> slot_hit key (T (probe s m))"
proof
  assume "slot_hit key (T (probe s m))"
  then have "probe s m = probe s j"
    by (rule inv_hit_unique [OF assms(1) _ assms(2)])
  with assms(3,4) show False using probe_inj [of s m j] by simp
qed

text \<open>A live slot is on its own key's probe path, at some distance from the hash.\<close>

lemma inv_hit_probe:
  assumes "gpfifo_inv T" "slot_hit key (T idx)"
  obtains j where "j < 4096" "probe (dbellGpfifoHash key) j = idx"
    "\<forall>m < j. gs_state (T (probe (dbellGpfifoHash key) m)) \<noteq> 0
       \<and> \<not> slot_hit key (T (probe (dbellGpfifoHash key) m))"
proof -
  obtain j where j: "j < 4096" "probe (dbellGpfifoHash key) j = idx"
    using probe_surj [OF inv_hit_less [OF assms]] by blast
  from j assms(2) have hit: "slot_hit key (T (probe (dbellGpfifoHash key) j))" by simp
  show ?thesis
    using inv_path [OF assms(1) hit j(1)] inv_path_nohit [OF assms(1) hit j(1)]
    by (intro that [OF j]) blast
qed

section \<open>What the loops compute\<close>

lemma lookup_loop_hit:
  assumes "slot_hit key (T (probe s (i + j)))" "j < n"
    "\<forall>m < j. gs_state (T (probe s (i + m))) \<noteq> 0 \<and> \<not> slot_hit key (T (probe s (i + m)))"
  shows "lookup_loop T key s i n = Some (slot_val (T (probe s (i + j))))"
  using assms
proof (induction j arbitrary: i n)
  case 0
  then obtain n' where "n = Suc n'" by (cases n) auto
  with 0 show ?case by (simp add: Let_def slot_hit_iff slot_val_def)
next
  case (Suc j)
  then obtain n' where n: "n = Suc n'" by (cases n) auto
  have "lookup_loop T key s (Suc i) n' = Some (slot_val (T (probe s (Suc i + j))))"
    using Suc.prems n by (intro Suc.IH) (auto simp: All_less_Suc2)
  with Suc.prems(3) n show ?case by (simp add: Let_def All_less_Suc2)
qed

lemma lookup_loop_SomeD:
  "lookup_loop T key s i n = Some v \<Longrightarrow> \<exists>idx. slot_hit key (T idx) \<and> v = slot_val (T idx)"
  by (induction n arbitrary: i) (auto simp: Let_def slot_val_def split: if_splits)

lemma unregister_loop_hit:
  assumes "slot_hit key (T (probe s (i + j)))" "j < n"
    "\<forall>m < j. gs_state (T (probe s (i + m))) \<noteq> 0 \<and> \<not> slot_hit key (T (probe s (i + m)))"
  shows "unregister_loop T key s i n
    = T(probe s (i + j) := (T (probe s (i + j)))\<lparr>gs_pGpu := 0, gs_gpFifoEntries := 0, gs_state := 2\<rparr>)"
  using assms
proof (induction j arbitrary: i n)
  case 0
  then obtain n' where "n = Suc n'" by (cases n) auto
  with 0 show ?case by (simp add: Let_def slot_hit_iff)
next
  case (Suc j)
  then obtain n' where n: "n = Suc n'" by (cases n) auto
  have "unregister_loop T key s (Suc i) n' = T(probe s (Suc i + j) :=
      (T (probe s (Suc i + j)))\<lparr>gs_pGpu := 0, gs_gpFifoEntries := 0, gs_state := 2\<rparr>)"
    using Suc.prems n by (intro Suc.IH) (auto simp: All_less_Suc2)
  with Suc.prems(3) n show ?case by (simp add: Let_def All_less_Suc2)
qed

lemma unregister_loop_miss:
  "(\<And>idx. \<not> slot_hit key (T idx)) \<Longrightarrow> unregister_loop T key s i n = T"
  by (induction n arbitrary: i) (auto simp: Let_def)

text \<open>
  The three ways the registration loop ends: the key is live on the probe path and is
  updated in place; the key is not reachable and the first free slot of the path is filled;
  or all slots are live under other keys.
\<close>

definition register_post ::
  "nat \<Rightarrow> gpfifo_table \<Rightarrow> gpfifo_key \<Rightarrow> gpfifo_val \<Rightarrow> u32 \<Rightarrow> gpfifo_table \<times> register_result \<Rightarrow> bool" where
  "register_post N T key v s out \<longleftrightarrow>
     (\<exists>j < N. slot_hit key (T (probe s j)) \<and>
        out = (T(probe s j := (T (probe s j))
          \<lparr>gs_gpFifoOffset := fst v, gs_gpFifoEntries := snd v\<rparr>), Reg_Updated))
   \<or> (\<exists>j < N. gs_state (T (probe s j)) \<noteq> 1 \<and> (\<forall>m < j. gs_state (T (probe s m)) \<noteq> 0) \<and>
        (\<forall>p < N. slot_hit key (T (probe s p)) \<longrightarrow> (\<exists>m < p. gs_state (T (probe s m)) = 0)) \<and>
        out = (T(probe s j := slot_fill key v), Reg_New))
   \<or> ((\<forall>j < N. gs_state (T (probe s j)) \<noteq> 0 \<and> gs_state (T (probe s j)) \<noteq> 2
          \<and> \<not> slot_hit key (T (probe s j))) \<and> out = (T, Reg_Full))"

lemma register_postI:
  "j < N \<Longrightarrow> slot_hit key (T (probe s j)) \<Longrightarrow> register_post N T key v s
     (T(probe s j := (T (probe s j))\<lparr>gs_gpFifoOffset := fst v, gs_gpFifoEntries := snd v\<rparr>), Reg_Updated)"
  "j < N \<Longrightarrow> gs_state (T (probe s j)) \<noteq> 1 \<Longrightarrow> \<forall>m < j. gs_state (T (probe s m)) \<noteq> 0 \<Longrightarrow>
     \<forall>p < N. slot_hit key (T (probe s p)) \<longrightarrow> (\<exists>m < p. gs_state (T (probe s m)) = 0) \<Longrightarrow>
     register_post N T key v s (T(probe s j := slot_fill key v), Reg_New)"
  "\<forall>j < N. gs_state (T (probe s j)) \<noteq> 0 \<and> gs_state (T (probe s j)) \<noteq> 2
     \<and> \<not> slot_hit key (T (probe s j)) \<Longrightarrow> register_post N T key v s (T, Reg_Full)"
  unfolding register_post_def by blast+

lemma register_loop_result:
  assumes "i + n = N"
    and "\<forall>m < i. gs_state (T (probe s m)) \<noteq> 0 \<and> \<not> slot_hit key (T (probe s m))"
    and "case ft of None \<Rightarrow> \<forall>m < i. gs_state (T (probe s m)) \<noteq> 2
         | Some t \<Rightarrow> \<exists>m < i. t = probe s m \<and> gs_state (T t) = 2"
  shows "register_post N T key v s (register_loop T key v s ft i n)"
  using assms
proof (induction n arbitrary: i ft)
  case 0
  show ?case
  proof (cases ft)
    case None
    with 0 show ?thesis by (auto intro!: register_postI(3))
  next
    case (Some t)
    with 0 obtain m where "m < i" "t = probe s m" "gs_state (T t) = 2" by auto
    with 0 Some show ?thesis
      using register_postI(2) [of m N T s key v] by auto
  qed
next
  case (Suc n)
  let ?s = "T (probe s i)"
  let ?ft = "if gs_state ?s = 2 \<and> ft = None then Some (probe s i) else ft"
  have i: "i < N" using Suc.prems(1) by simp
  consider (hit) "slot_hit key ?s" | (empty) "\<not> slot_hit key ?s" "gs_state ?s = 0"
    | (next_probe) "\<not> slot_hit key ?s" "gs_state ?s \<noteq> 0" by blast
  then show ?case
  proof cases
    case hit
    then show ?thesis using register_postI(1) [OF i] by (simp add: Let_def)
  next
    case empty
    have unreach: "\<forall>p < N. slot_hit key (T (probe s p)) \<longrightarrow> (\<exists>m < p. gs_state (T (probe s m)) = 0)"
      using empty Suc.prems(2) by (metis linorder_neqE_nat)
    show ?thesis
    proof (cases ft)
      case None
      with empty i unreach Suc.prems(2) show ?thesis
        using register_postI(2) [of i N T s key v] by (simp add: Let_def)
    next
      case (Some t)
      with Suc.prems(3) obtain m where m: "m < i" "t = probe s m" "gs_state (T t) = 2" by auto
      with Some empty i unreach Suc.prems(2) show ?thesis
        using register_postI(2) [of m N T s key v] by (simp add: Let_def)
    qed
  next
    case next_probe
    have ft: "case ?ft of None \<Rightarrow> \<forall>m < Suc i. gs_state (T (probe s m)) \<noteq> 2
       | Some t \<Rightarrow> \<exists>m < Suc i. t = probe s m \<and> gs_state (T t) = 2"
      using Suc.prems(3) by (cases ft) (auto simp: less_Suc_eq)
    have "register_loop T key v s ft i (Suc n) = register_loop T key v s ?ft (Suc i) n"
      using next_probe by (simp add: Let_def)
    moreover have "\<forall>m < Suc i. gs_state (T (probe s m)) \<noteq> 0 \<and> \<not> slot_hit key (T (probe s m))"
      using Suc.prems(2) next_probe by (simp add: less_Suc_eq all_conj_distrib)
    ultimately show ?thesis
      using Suc.IH [OF _ _ ft] Suc.prems(1) by simp
  qed
qed

section \<open>Every operation keeps the invariant\<close>

lemma gpfifo_inv_cong:
  assumes "gpfifo_inv T" "\<And>idx. gs_state (T' idx) = gs_state (T idx)"
    "\<And>idx. slot_key (T' idx) = slot_key (T idx)"
  shows "gpfifo_inv T'"
proof -
  have pGpu: "gs_pGpu (T' idx) = gs_pGpu (T idx)" for idx
    using assms(3) [of idx] by (simp add: slot_key_def)
  have hit: "slot_hit k (T' idx) = slot_hit k (T idx)" for k idx
    by (simp add: slot_hit_iff assms(2,3))
  show ?thesis
    by (rule gpfifo_invI; unfold assms(2) pGpu hit;
      rule gpfifo_invD [OF assms(1)] inv_path [OF assms(1)] inv_hit_unique [OF assms(1)])
qed

lemma gpfifo_inv_fill:
  assumes inv: "gpfifo_inv T" and key: "fst key \<noteq> 0" and j: "j < 4096"
    and free: "gs_state (T (probe (dbellGpfifoHash key) j)) \<noteq> 1"
    and path: "\<forall>m < j. gs_state (T (probe (dbellGpfifoHash key) m)) \<noteq> 0"
    and fresh: "\<And>idx. \<not> slot_hit key (T idx)"
  shows "gpfifo_inv (T(probe (dbellGpfifoHash key) j := slot_fill key v))"
    (is "gpfifo_inv ?T")
proof -
  let ?d = "probe (dbellGpfifoHash key) j"
  have keep: "gs_state (T idx) \<noteq> 0 \<Longrightarrow> gs_state (?T idx) \<noteq> 0" for idx by simp
  have pth: "gs_state (?T (probe (dbellGpfifoHash k) m)) \<noteq> 0"
    if "p < 4096" "m < p" "slot_hit k (?T (probe (dbellGpfifoHash k) p))" for k p m
  proof (cases "probe (dbellGpfifoHash k) p = ?d")
    case True
    with that have "k = key" by (simp add: slot_hit_iff)
    with True that j have "p = j" using probe_inj by metis
    with path that \<open>k = key\<close> show ?thesis by (intro keep) simp
  next
    case False
    with that have "slot_hit k (T (probe (dbellGpfifoHash k) p))" by simp
    from inv_path [OF inv this that(1,2)] show ?thesis by (rule keep)
  qed
  have uniq: "a = b" if "slot_hit k (?T a)" "slot_hit k (?T b)" for k a b
  proof (cases "k = key")
    case True
    with that fresh have "a = ?d" "b = ?d"
      by (metis fun_upd_apply)+
    then show ?thesis by simp
  next
    case False
    with that have "slot_hit k (T a)" "slot_hit k (T b)"
      by (auto simp: slot_hit_iff split: if_splits)
    then show ?thesis by (rule inv_hit_unique [OF inv])
  qed
  show ?thesis
  proof (rule gpfifo_invI)
    fix idx
    show "gs_state (?T idx) = 0 \<or> gs_state (?T idx) = 1 \<or> gs_state (?T idx) = 2"
      using gpfifo_invD(1) [OF inv, of idx] by simp
    show "gs_state (?T idx) = 0" if "4096 \<le> unat idx"
      using gpfifo_invD(2) [OF inv that] that probe_less [of "dbellGpfifoHash key" j] by auto
    show "gs_pGpu (?T idx) \<noteq> 0" if "gs_state (?T idx) = 1"
      using gpfifo_invD(3) [OF inv, of idx] that key by (cases "idx = ?d") auto
  qed (fact uniq pth)+
qed

lemma gpfifo_inv_tombstone:
  assumes inv: "gpfifo_inv T" and live: "gs_state (T idx) = 1"
  shows "gpfifo_inv (T(idx := (T idx)\<lparr>gs_pGpu := 0, gs_gpFifoEntries := 0, gs_state := 2\<rparr>))"
    (is "gpfifo_inv ?T")
proof -
  have hitD: "slot_hit k (T a)" and "a \<noteq> idx" if "slot_hit k (?T a)" for k a
    using that by (auto simp: slot_hit_iff split: if_splits)
  have keep: "gs_state (T a) \<noteq> 0 \<Longrightarrow> gs_state (?T a) \<noteq> 0" for a by simp
  have pth: "gs_state (?T (probe (dbellGpfifoHash k) m)) \<noteq> 0"
    if "p < 4096" "m < p" "slot_hit k (?T (probe (dbellGpfifoHash k) p))" for k p m
    using inv_path [OF inv hitD [OF that(3)] that(1,2)] by (rule keep)
  have less: "unat idx < 4096"
    using inv_hit_less [OF inv, of "slot_key (T idx)" idx] live by (simp add: slot_hit_iff)
  show ?thesis
  proof (rule gpfifo_invI)
    fix a
    show "gs_state (?T a) = 0 \<or> gs_state (?T a) = 1 \<or> gs_state (?T a) = 2"
      using gpfifo_invD(1) [OF inv, of a] by simp
    show "gs_state (?T a) = 0" if "4096 \<le> unat a"
      using gpfifo_invD(2) [OF inv that] that less by auto
    show "gs_pGpu (?T a) \<noteq> 0" if "gs_state (?T a) = 1"
      using gpfifo_invD(3) [OF inv, of a] that by (cases "a = idx") auto
    show "a = b" if "slot_hit k (?T a)" "slot_hit k (?T b)" for k b
      using hitD [OF that(1)] hitD [OF that(2)] by (rule inv_hit_unique [OF inv])
  qed (fact pth)
qed

section \<open>Refinement of a bounded map\<close>

lemma lookup_hit:
  assumes "gpfifo_inv T" "slot_hit key (T idx)"
  shows "dbellGpfifoLookup T key = Some (slot_val (T idx))"
proof -
  obtain j where j: "j < 4096" "probe (dbellGpfifoHash key) j = idx"
    "\<forall>m < j. gs_state (T (probe (dbellGpfifoHash key) m)) \<noteq> 0
       \<and> \<not> slot_hit key (T (probe (dbellGpfifoHash key) m))"
    using inv_hit_probe [OF assms] by blast
  have "fst key \<noteq> 0"
    using gpfifo_invD(3) [OF assms(1), of idx] assms(2) by (auto simp: slot_hit_iff)
  then show ?thesis
    using lookup_loop_hit [of key T "dbellGpfifoHash key" 0 j 4096] j assms(2)
    by (simp add: dbellGpfifoLookup_def)
qed

lemma lookup_iff:
  assumes "gpfifo_inv T"
  shows "dbellGpfifoLookup T key = Some v \<longleftrightarrow> (\<exists>idx. slot_hit key (T idx) \<and> v = slot_val (T idx))"
proof
  assume "dbellGpfifoLookup T key = Some v"
  then show "\<exists>idx. slot_hit key (T idx) \<and> v = slot_val (T idx)"
    by (auto simp: dbellGpfifoLookup_def dest: lookup_loop_SomeD split: if_splits)
qed (auto simp: lookup_hit [OF assms])

lemma lookup_None_iff:
  "gpfifo_inv T \<Longrightarrow> dbellGpfifoLookup T key = None \<longleftrightarrow> (\<forall>idx. \<not> slot_hit key (T idx))"
  using lookup_iff [of T key] by (metis not_None_eq)

text \<open>The live slots are in bijection with the keys of the abstract map.\<close>

lemma card_dom_lookup:
  assumes "gpfifo_inv T"
  shows "card (dom (dbellGpfifoLookup T)) = card {idx. gs_state (T idx) = 1}"
proof -
  let ?L = "{idx. gs_state (T idx) = 1}"
  have "dom (dbellGpfifoLookup T) = (\<lambda>idx. slot_key (T idx)) ` ?L"
    unfolding dom_def lookup_None_iff [OF assms] slot_hit_iff by (force simp: image_iff)
  moreover have "inj_on (\<lambda>idx. slot_key (T idx)) ?L"
    using inv_hit_unique [OF assms] by (auto simp: inj_on_def slot_hit_iff)
  ultimately show ?thesis by (simp add: card_image)
qed

lemma card_array: "card {idx :: u32. unat idx < 4096} = 4096"
proof -
  have "bij_betw unat {idx :: u32. unat idx < 4096} {..<4096}"
    unfolding bij_betw_def
  proof
    show "inj_on unat {idx :: u32. unat idx < 4096}"
      by (simp add: inj_on_def word_eq_iff_unsigned [where 'a = nat])
    show "unat ` {idx :: u32. unat idx < 4096} = {..<4096}"
    proof (intro equalityI subsetI)
      fix n :: nat assume "n \<in> {..<4096}"
      then have "unat (of_nat n :: u32) = n" by (simp add: unat_of_nat)
      with \<open>n \<in> {..<4096}\<close> show "n \<in> unat ` {idx :: u32. unat idx < 4096}"
        by (metis imageI lessThan_iff mem_Collect_eq)
    qed auto
  qed
  then show ?thesis by (simp add: bij_betw_same_card)
qed

lemma live_subset_array:
  "gpfifo_inv T \<Longrightarrow> {idx. gs_state (T idx) = 1} \<subseteq> {idx. unat idx < 4096}"
  using gpfifo_invD(2) [of T] by (force simp: not_less [symmetric])

lemma dbellGpfifoRegister_cases:
  assumes inv: "gpfifo_inv T" and valid: "fst key \<noteq> 0" "snd v \<noteq> 0"
  obtains (updated) idx where "slot_hit key (T idx)"
      "dbellGpfifoRegister key v T = (T(idx := (T idx)
         \<lparr>gs_gpFifoOffset := fst v, gs_gpFifoEntries := snd v\<rparr>), Reg_Updated)"
    | (new_key) j where "j < 4096" "gs_state (T (probe (dbellGpfifoHash key) j)) \<noteq> 1"
      "\<forall>m < j. gs_state (T (probe (dbellGpfifoHash key) m)) \<noteq> 0" "\<And>idx. \<not> slot_hit key (T idx)"
      "dbellGpfifoRegister key v T = (T(probe (dbellGpfifoHash key) j := slot_fill key v), Reg_New)"
    | (full) "\<And>idx. unat idx < 4096 \<Longrightarrow> gs_state (T idx) = 1" "\<And>idx. \<not> slot_hit key (T idx)"
      "dbellGpfifoRegister key v T = (T, Reg_Full)"
proof -
  let ?h = "dbellGpfifoHash key"
  have reg: "dbellGpfifoRegister key v T = register_loop T key v ?h None 0 4096"
    using valid by (simp add: dbellGpfifoRegister_def)
  have "register_post 4096 T key v ?h (register_loop T key v ?h None 0 4096)"
    by (rule register_loop_result) simp_all
  then consider
    (u) j where "slot_hit key (T (probe ?h j))" "register_loop T key v ?h None 0 4096
        = (T(probe ?h j := (T (probe ?h j))\<lparr>gs_gpFifoOffset := fst v, gs_gpFifoEntries := snd v\<rparr>), Reg_Updated)"
  | (n) j where "j < 4096" "gs_state (T (probe ?h j)) \<noteq> 1" "\<forall>m < j. gs_state (T (probe ?h m)) \<noteq> 0"
      "\<forall>p < 4096. slot_hit key (T (probe ?h p)) \<longrightarrow> (\<exists>m < p. gs_state (T (probe ?h m)) = 0)"
      "register_loop T key v ?h None 0 4096 = (T(probe ?h j := slot_fill key v), Reg_New)"
  | (f) "\<forall>j < 4096. gs_state (T (probe ?h j)) \<noteq> 0 \<and> gs_state (T (probe ?h j)) \<noteq> 2
      \<and> \<not> slot_hit key (T (probe ?h j))" "register_loop T key v ?h None 0 4096 = (T, Reg_Full)"
    unfolding register_post_def by blast
  then show thesis
  proof cases
    case u
    then show thesis using updated reg by simp
  next
    case n
    have "\<not> slot_hit key (T idx)" for idx
      using n(4) inv_hit_probe [OF inv, of key idx] by metis
    with n reg show thesis using new_key by simp
  next
    case f
    have 1: "gs_state (T idx) = 1" if "unat idx < 4096" for idx
      using probe_surj [OF that, of ?h] f(1) gpfifo_invD(1) [OF inv, of idx] by blast
    have 2: "\<not> slot_hit key (T idx)" for idx
      using f(1) inv_hit_probe [OF inv, of key idx] by metis
    show thesis using full [OF 1 2] f(2) reg by simp
  qed
qed

lemma lookup_change_one:
  assumes inv: "gpfifo_inv T" "gpfifo_inv T'"
    and frame: "\<And>k i. k \<noteq> key \<Longrightarrow> slot_hit k (T' i) = slot_hit k (T i)"
      "\<And>k i. k \<noteq> key \<Longrightarrow> slot_hit k (T i) \<Longrightarrow> slot_val (T' i) = slot_val (T i)"
  shows "dbellGpfifoLookup T' = (dbellGpfifoLookup T)(key := dbellGpfifoLookup T' key)"
proof
  fix k
  show "dbellGpfifoLookup T' k = ((dbellGpfifoLookup T)(key := dbellGpfifoLookup T' key)) k"
  proof (cases "k = key")
    case False
    have "dbellGpfifoLookup T' k = Some v \<longleftrightarrow> dbellGpfifoLookup T k = Some v" for v
      unfolding lookup_iff [OF inv(1)] lookup_iff [OF inv(2)]
      using frame [OF False] by metis
    then have "dbellGpfifoLookup T' k = dbellGpfifoLookup T k"
      by (metis not_None_eq)
    with False show ?thesis by simp
  qed simp
qed

lemma gpfifo_inv_register:
  assumes "gpfifo_inv T"
  shows "gpfifo_inv (fst (dbellGpfifoRegister key v T))"
proof (cases "fst key \<noteq> 0 \<and> snd v \<noteq> 0")
  case True
  then have "fst key \<noteq> 0" "snd v \<noteq> 0" by auto
  from assms this show ?thesis
  proof (cases rule: dbellGpfifoRegister_cases)
    case (updated idx)
    then show ?thesis
      by (auto intro!: gpfifo_inv_cong [OF assms] simp: slot_key_def)
  next
    case (new_key j)
    then show ?thesis using gpfifo_inv_fill [OF assms \<open>fst key \<noteq> 0\<close>] by simp
  next
    case full
    with assms show ?thesis by simp
  qed
next
  case False
  with assms show ?thesis by (auto simp: dbellGpfifoRegister_def)
qed

lemma lookup_after_register:
  assumes inv: "gpfifo_inv T"
  shows "dbellGpfifoLookup (fst (dbellGpfifoRegister key v T))
    = abs_store_step 4096 (\<lambda>k. fst k \<noteq> 0) (\<lambda>v. snd v \<noteq> 0) (dbellGpfifoLookup T) (Register key v)"
proof (cases "fst key \<noteq> 0 \<and> snd v \<noteq> 0")
  case True
  then have valid: "fst key \<noteq> 0" "snd v \<noteq> 0" by auto
  note inv' = gpfifo_inv_register [OF inv, of key v]
  let ?T = "fst (dbellGpfifoRegister key v T)"
  have sub: "card {idx. gs_state (T idx) = 1} \<le> 4096"
    using card_mono [OF _ live_subset_array [OF inv]] card_array by simp
  from inv valid show ?thesis
  proof (cases rule: dbellGpfifoRegister_cases)
    case (updated idx)
    have "dbellGpfifoLookup ?T key = Some v"
      using lookup_hit [OF inv', of key idx] updated by (simp add: slot_hit_iff slot_key_def slot_val_def)
    moreover have "dbellGpfifoLookup ?T = (dbellGpfifoLookup T)(key := dbellGpfifoLookup ?T key)"
      by (rule lookup_change_one [OF inv inv'])
        (use updated in \<open>auto simp: slot_hit_iff slot_key_def slot_val_def\<close>)
    moreover have "key \<in> dom (dbellGpfifoLookup T)"
      using lookup_hit [OF inv updated(1)] by blast
    ultimately show ?thesis using valid by simp
  next
    case (new_key j)
    let ?d = "probe (dbellGpfifoHash key) j"
    have "dbellGpfifoLookup ?T key = Some v"
      using lookup_hit [OF inv', of key ?d] new_key(5) by (simp add: slot_hit_iff)
    moreover have "dbellGpfifoLookup ?T = (dbellGpfifoLookup T)(key := dbellGpfifoLookup ?T key)"
      by (rule lookup_change_one [OF inv inv'])
        (use new_key in \<open>auto simp: slot_hit_iff\<close>)
    moreover have "card {idx. gs_state (T idx) = 1} < card {idx :: u32. unat idx < 4096}"
      using live_subset_array [OF inv] new_key(2) probe_less [of "dbellGpfifoHash key" j]
      by (intro psubset_card_mono) auto
    then have "card (dom (dbellGpfifoLookup T)) < 4096"
      by (simp add: card_dom_lookup [OF inv] card_array)
    ultimately show ?thesis using valid by simp
  next
    case full
    have "{idx. gs_state (T idx) = 1} = {idx. unat idx < 4096}"
      using live_subset_array [OF inv] full(1) by auto
    then have "card (dom (dbellGpfifoLookup T)) = 4096"
      by (simp add: card_dom_lookup [OF inv] card_array)
    moreover have "key \<notin> dom (dbellGpfifoLookup T)"
      using full(2) by (simp add: lookup_None_iff [OF inv] domIff)
    ultimately show ?thesis using full(3) by simp
  qed
next
  case False
  then show ?thesis by (auto simp: dbellGpfifoRegister_def)
qed

lemma unregister_cases:
  assumes inv: "gpfifo_inv T"
  obtains (live_key) idx where "slot_hit key (T idx)" "nvGpuOpsDbellGpfifoUnregister key T
      = T(idx := (T idx)\<lparr>gs_pGpu := 0, gs_gpFifoEntries := 0, gs_state := 2\<rparr>)"
    | (absent) "\<And>idx. \<not> slot_hit key (T idx)" "nvGpuOpsDbellGpfifoUnregister key T = T"
proof (cases "\<exists>idx. slot_hit key (T idx)")
  case True
  then obtain idx where hit: "slot_hit key (T idx)" by blast
  then have "fst key \<noteq> 0"
    using gpfifo_invD(3) [OF inv, of idx] by (auto simp: slot_hit_iff)
  moreover obtain j where "j < 4096" "probe (dbellGpfifoHash key) j = idx"
    "\<forall>m < j. gs_state (T (probe (dbellGpfifoHash key) m)) \<noteq> 0
       \<and> \<not> slot_hit key (T (probe (dbellGpfifoHash key) m))"
    using inv_hit_probe [OF inv hit] by blast
  ultimately show thesis
    using live_key [OF hit] unregister_loop_hit [of key T "dbellGpfifoHash key" 0 j 4096] hit
    by (simp add: nvGpuOpsDbellGpfifoUnregister_def)
next
  case False
  then show thesis
    using absent by (simp add: nvGpuOpsDbellGpfifoUnregister_def unregister_loop_miss)
qed

lemma gpfifo_inv_unregister:
  assumes "gpfifo_inv T"
  shows "gpfifo_inv (nvGpuOpsDbellGpfifoUnregister key T)"
  using assms
proof (cases rule: unregister_cases [where key = key])
  case (live_key idx)
  then show ?thesis using gpfifo_inv_tombstone [OF assms, of idx] by (simp add: slot_hit_iff)
next
  case absent
  from assms show ?thesis by (simp only: absent(2))
qed

lemma lookup_after_unregister:
  assumes inv: "gpfifo_inv T"
  shows "dbellGpfifoLookup (nvGpuOpsDbellGpfifoUnregister key T) = (dbellGpfifoLookup T)(key := None)"
  using inv
proof (cases rule: unregister_cases [where key = key])
  case (live_key idx)
  let ?T = "nvGpuOpsDbellGpfifoUnregister key T"
  note inv' = gpfifo_inv_unregister [OF inv, of key]
  have "\<not> slot_hit key (?T i)" for i
  proof (cases "i = idx")
    case True
    then show ?thesis by (simp add: live_key(2) slot_hit_iff)
  next
    case False
    then have "\<not> slot_hit key (T i)"
      using inv_hit_unique [OF inv live_key(1)] by blast
    with False show ?thesis by (simp add: live_key(2))
  qed
  then have "dbellGpfifoLookup ?T key = None"
    by (simp add: lookup_None_iff [OF inv'])
  moreover have "dbellGpfifoLookup ?T = (dbellGpfifoLookup T)(key := dbellGpfifoLookup ?T key)"
    by (rule lookup_change_one [OF inv inv'])
      (use live_key(1) in \<open>auto simp: live_key(2) slot_hit_iff\<close>)
  ultimately show ?thesis by simp
next
  case absent
  then show ?thesis by (metis fun_upd_triv lookup_None_iff [OF inv])
qed

interpretation gpfifo: bounded_store gpfifo_inv dbellGpfifoLookup
  "\<lambda>key v T. fst (dbellGpfifoRegister key v T)" nvGpuOpsDbellGpfifoUnregister
  "\<lambda>k. fst k \<noteq> 0" "\<lambda>v. snd v \<noteq> 0" 4096
  by unfold_locales
    (rule gpfifo_inv_register gpfifo_inv_unregister lookup_after_register lookup_after_unregister;
     assumption)+

section \<open>Histories of the table\<close>

text \<open>Channel construction registers and channel destruction unregisters, in any order.\<close>

primrec gpfifo_step :: "gpfifo_table \<Rightarrow> (gpfifo_key, gpfifo_val) store_op \<Rightarrow> gpfifo_table" where
  "gpfifo_step T (Register key v) = fst (dbellGpfifoRegister key v T)"
| "gpfifo_step T (Unregister key) = nvGpuOpsDbellGpfifoUnregister key T"

lemma gpfifo_step_eq: "gpfifo_step T a = gpfifo.step T a"
  by (cases a) simp_all

lemma gpfifo_steps_eq: "foldl gpfifo_step T ops = foldl gpfifo.step T ops"
  by (simp add: gpfifo_step_eq [abs_def])

lemma lookup_empty: "dbellGpfifoLookup g_dbellGpfifoTable = Map.empty"
proof -
  have "lookup_loop g_dbellGpfifoTable key start i n = None" for key start i n
    by (cases n) (simp_all add: g_dbellGpfifoTable_def)
  then show ?thesis by (simp add: dbellGpfifoLookup_def fun_eq_iff)
qed

text \<open>
  C1.  The hash table with tombstones implements a finite map.  After any sequence of registrations
  and unregistrations, \<^verbatim>\<open>_dbellGpfifoLookup\<close> answers for every key as a map does that holds at
  most 4096 keys and ignores a null GPU or a zero entry count: collisions, probe chains across
  tombstones and slot reuse are never visible.
\<close>

theorem gpfifo_history:
  "dbellGpfifoLookup (foldl gpfifo_step g_dbellGpfifoTable ops) =
     foldl (abs_store_step 4096 (\<lambda>k. fst k \<noteq> 0) (\<lambda>v. snd v \<noteq> 0)) Map.empty ops"
  using gpfifo.history_refines [OF gpfifo_inv_empty, of ops]
  by (simp add: gpfifo_steps_eq lookup_empty)

lemma gpfifo_inv_history: "gpfifo_inv (foldl gpfifo_step g_dbellGpfifoTable ops)"
  using gpfifo.history_refines [OF gpfifo_inv_empty, of ops] by (simp add: gpfifo_steps_eq)

lemma register_full_iff:
  assumes inv: "gpfifo_inv T"
  shows "snd (dbellGpfifoRegister key v T) = Reg_Full \<longleftrightarrow>
    fst key \<noteq> 0 \<and> snd v \<noteq> 0 \<and> dbellGpfifoLookup T key = None \<and> card (dom (dbellGpfifoLookup T)) = 4096"
proof (cases "fst key \<noteq> 0 \<and> snd v \<noteq> 0")
  case False
  then show ?thesis by (auto simp: dbellGpfifoRegister_def)
next
  case True
  have card: "card (dom (dbellGpfifoLookup T)) = card {idx. gs_state (T idx) = 1}"
    by (rule card_dom_lookup [OF inv])
  have none: "dbellGpfifoLookup T key = None \<longleftrightarrow> (\<forall>idx. \<not> slot_hit key (T idx))"
    using lookup_None_iff [OF inv, of key] True by auto
  from True have valid: "fst key \<noteq> 0" "snd v \<noteq> 0" by simp_all
  from inv valid show ?thesis
  proof (cases rule: dbellGpfifoRegister_cases)
    case (updated idx)
    then show ?thesis using none by auto
  next
    case (new_key j)
    have "{idx. gs_state (T idx) = 1} \<noteq> {idx. unat idx < 4096}"
      using new_key(2) probe_less [of "dbellGpfifoHash key" j] by blast
    then have "card {idx. gs_state (T idx) = 1} < 4096"
      using psubset_card_mono [OF _ psubsetI [OF live_subset_array [OF inv]]] card_array by simp
    then show ?thesis using new_key(5) card by simp
  next
    case full
    have "{idx. gs_state (T idx) = 1} = {idx. unat idx < 4096}"
      using full(1) live_subset_array [OF inv] by blast
    then show ?thesis using full none card card_array True by simp
  qed
qed

text \<open>
  C7.  A registration is refused as \<^verbatim>\<open>table_full\<close> only when it must be: after any history, exactly
  when the arguments are valid, the key is not registered and 4096 other channels are.  Tombstones
  left by unregistered channels never use up the table.
\<close>

theorem gpfifo_full_exact:
  "snd (dbellGpfifoRegister key v (foldl gpfifo_step g_dbellGpfifoTable ops)) = Reg_Full \<longleftrightarrow>
     fst key \<noteq> 0 \<and> snd v \<noteq> 0
     \<and> dbellGpfifoLookup (foldl gpfifo_step g_dbellGpfifoTable ops) key = None
     \<and> card (dom (dbellGpfifoLookup (foldl gpfifo_step g_dbellGpfifoTable ops))) = 4096"
  by (rule register_full_iff [OF gpfifo_inv_history])

end
