(* ===== verification/Dbell_Resolve.thy ===== *)
theory Dbell_Resolve
  imports Dbell_Trackers Gpfifo_Table
begin

text \<open>
  Resolving a channel: the resource-manager side of \<^verbatim>\<open>nv_gpu_ops.c\<close> that finds a channel's USERD
  and GPFIFO (\<^verbatim>\<open>_dbellResolveGpfifo\<close>, \<^verbatim>\<open>_dbellResolveUserd\<close>, \<^verbatim>\<open>nvGpuOpsDbellResolveChannel\<close>), its
  trampoline in \<^verbatim>\<open>rm-gpu-ops.c\<close>, the resolver work item of \<^verbatim>\<open>nv-doorbell-watch.c\<close> and the
  registration hook that starts it.  The resource manager's own object tables (GPUs, channel id
  managers, memory descriptors) are the fields of an environment.
\<close>

section \<open>The resource manager\<close>

record memdesc =
  md_addrspace :: u32
  md_subMemOffset :: u64
  md_size :: u64
  md_phys :: u64

text \<open>
  What the resource manager's tables hold: the GPU object of an \<^verbatim>\<open>nv_state_t\<close>, the status of the
  lock acquisition, the fifo of a GPU with its preallocated USERD pool (address and size), the
  channel id manager of a runlist, the GPU's subdevice instance, and the channels with the USERD
  descriptor of that subdevice.
\<close>

record rm_env =
  re_pgpu :: "ptr \<Rightarrow> ptr"
  re_lock_status :: u32
  re_fifo :: "ptr \<Rightarrow> bool"
  re_pool :: "ptr \<Rightarrow> (ptr \<times> u64) option"
  re_chidmgr :: "ptr \<Rightarrow> u32 \<Rightarrow> bool"
  re_subdev :: "ptr \<Rightarrow> u32"
  re_channel :: "ptr \<Rightarrow> u32 \<Rightarrow> u32 \<Rightarrow> memdesc option option"
  re_phys_to_virt :: "u64 \<Rightarrow> ptr"

record resolve_out =
  ro_userd_kva :: ptr
  ro_userd_phys :: u64
  ro_userd_size :: u64
  ro_addrspace :: u32
  ro_gpfifo_gpu_va :: u64
  ro_gpfifo_entries :: u32

definition resolve_zero :: resolve_out where
  "resolve_zero = \<lparr>ro_userd_kva = 0, ro_userd_phys = 0, ro_userd_size = 0, ro_addrspace = 0,
     ro_gpfifo_gpu_va = 0, ro_gpfifo_entries = 0\<rparr>"

abbreviation (input) NV_OK :: u32 where "NV_OK \<equiv> 0"
abbreviation (input) NV_ERR_INVALID_ARGUMENT :: u32 where "NV_ERR_INVALID_ARGUMENT \<equiv> 0x1f"
abbreviation (input) NV_ERR_INVALID_CHANNEL :: u32 where "NV_ERR_INVALID_CHANNEL \<equiv> 0x21"
abbreviation (input) NV_ERR_INVALID_STATE :: u32 where "NV_ERR_INVALID_STATE \<equiv> 0x40"

definition dbellResolveGpfifo ::
  "gpfifo_table \<Rightarrow> ptr \<Rightarrow> u32 \<Rightarrow> u32 \<Rightarrow> resolve_out \<Rightarrow> dbell_state \<Rightarrow> resolve_out \<times> dbell_state" where
  "dbellResolveGpfifo T pGpu chid runlist out st =
     (case dbellGpfifoLookup T (pGpu, runlist, chid) of
        Some (tbl_offset, tbl_entries) \<Rightarrow>
          (out\<lparr>ro_gpfifo_gpu_va := tbl_offset, ro_gpfifo_entries := tbl_entries\<rparr>,
           MC_TRACE dbell ''gpfifo_lookup'' [(''result'', S ''table''), (''chid'', N (ucast chid)),
             (''gpu_va'', N tbl_offset), (''entries'', N (ucast tbl_entries))] st)
      | None \<Rightarrow>
          (out, MC_TRACE dbell ''gpfifo_lookup'' [(''result'', S ''not_in_table''), (''chid'', N (ucast chid)),
             (''runlist'', N (ucast runlist))] st))"

definition dbellResolveUserd ::
  "(ptr \<times> u64) option \<Rightarrow> memdesc \<Rightarrow> u32 \<Rightarrow> resolve_out \<Rightarrow> dbell_state \<Rightarrow> resolve_out \<times> dbell_state" where
  "dbellResolveUserd pUserdInfo md chid out st =
     (let addrspace = md_addrspace md;
          subOff = md_subMemOffset md;
          poolSize = (case pUserdInfo of Some (_, n) \<Rightarrow> n | None \<Rightarrow> 0);
          pool_kva = (case pUserdInfo of Some (p, _) \<Rightarrow> p | None \<Rightarrow> 0);
          out1 = out\<lparr>ro_userd_size := md_size md, ro_addrspace := addrspace\<rparr> in
      if addrspace = 2 then
        let out2 = out1\<lparr>ro_userd_phys := subOff\<rparr> in
        if pool_kva \<noteq> 0 \<and> subOff + ro_userd_size out2 \<le> poolSize then
          (out2\<lparr>ro_userd_kva := pool_kva + subOff\<rparr>,
           MC_TRACE dbell ''resolve'' [(''state'', S ''fbmem_pool''), (''chid'', N (ucast chid)),
             (''pool_kva'', N pool_kva), (''suboff'', N subOff), (''kva'', N (pool_kva + subOff))] st)
        else
          (out2, MC_TRACE dbell ''resolve'' [(''state'', S ''fbmem_no_pool''), (''chid'', N (ucast chid)),
             (''suboff'', N subOff)] st)
      else if addrspace = 1 then
        (out1\<lparr>ro_userd_phys := md_phys md\<rparr>,
         MC_TRACE dbell ''resolve'' [(''state'', S ''sysmem''), (''chid'', N (ucast chid)),
           (''phys'', N (md_phys md))] st)
      else
        (out1, MC_TRACE dbell ''resolve'' [(''state'', S ''unknown''), (''chid'', N (ucast chid)),
           (''addrspace'', N (ucast addrspace)), (''suboff'', N subOff)] st))"

text \<open>The body of \<^verbatim>\<open>nvGpuOpsDbellResolveChannel\<close> under the locks, up to its \<^verbatim>\<open>out\<close> label.\<close>

definition resolve_locked ::
  "rm_env \<Rightarrow> gpfifo_table \<Rightarrow> ptr \<Rightarrow> u32 \<Rightarrow> u32 \<Rightarrow> dbell_state \<Rightarrow> u32 \<times> resolve_out \<times> dbell_state" where
  "resolve_locked env T pGpu chid runlist st =
     (if \<not> re_fifo env pGpu then
        (NV_ERR_INVALID_STATE, resolve_zero, MC_TRACE dbell ''resolve'' [(''state'', S ''no_fifo'')] st)
      else if \<not> re_chidmgr env pGpu runlist then
        (NV_ERR_INVALID_ARGUMENT, resolve_zero,
         MC_TRACE dbell ''resolve'' [(''state'', S ''no_chid_mgr''), (''runlist'', N (ucast runlist))] st)
      else case re_channel env pGpu runlist chid of
        None \<Rightarrow>
          (NV_ERR_INVALID_CHANNEL, resolve_zero,
           MC_TRACE dbell ''resolve'' [(''state'', S ''no_channel''), (''chid'', N (ucast chid)),
             (''runlist'', N (ucast runlist))] st)
      | Some None \<Rightarrow>
          (NV_ERR_INVALID_STATE, resolve_zero,
           MC_TRACE dbell ''resolve'' [(''state'', S ''no_userd''), (''chid'', N (ucast chid)),
             (''sub'', N (ucast (re_subdev env pGpu)))] st)
      | Some (Some md) \<Rightarrow>
          (let (out1, st1) = dbellResolveGpfifo T pGpu chid runlist resolve_zero st;
               (out2, st2) = dbellResolveUserd (re_pool env pGpu) md chid out1 st1 in
           (NV_OK, out2,
            MC_TRACE dbell ''resolve'' [(''state'', S ''done''), (''chid'', N (ucast chid)),
              (''phys'', N (ro_userd_phys out2)), (''size'', N (ro_userd_size out2)),
              (''addrspace'', N (ucast (ro_addrspace out2)))] st2)))"

definition nvGpuOpsDbellResolveChannel ::
  "rm_env \<Rightarrow> gpfifo_table \<Rightarrow> ptr \<Rightarrow> u32 \<Rightarrow> u32 \<Rightarrow> dbell_state \<Rightarrow> u32 \<times> resolve_out \<times> dbell_state" where
  "nvGpuOpsDbellResolveChannel env T pGpu chid runlist st =
     (let st1 = MC_TRACE dbell ''resolve'' [(''state'', S ''enter''), (''chid'', N (ucast chid)),
            (''runlist'', N (ucast runlist)), (''pgpu'', N pGpu)] st in
      if pGpu = 0 then (NV_ERR_INVALID_ARGUMENT, resolve_zero, st1)
      else if re_lock_status env \<noteq> NV_OK then (re_lock_status env, resolve_zero, st1)
      else
        let (status, out, st2) = resolve_locked env T pGpu chid runlist (klog (Rm_lock pGpu) st1) in
        (status, out, klog (Rm_unlock pGpu) st2))"

definition rm_gpu_ops_dbell_resolve_channel ::
  "rm_env \<Rightarrow> gpfifo_table \<Rightarrow> ptr \<Rightarrow> u32 \<Rightarrow> u32 \<Rightarrow> dbell_state \<Rightarrow> u32 \<times> resolve_out \<times> dbell_state" where
  "rm_gpu_ops_dbell_resolve_channel env T pNv chid runlist st =
     (if pNv = 0 then (NV_ERR_INVALID_ARGUMENT, resolve_zero, st)
      else let pGpu = re_pgpu env pNv in
      if pGpu = 0 then
        (NV_ERR_INVALID_STATE, resolve_zero,
         MC_TRACE dbell ''resolve'' [(''state'', S ''wrap_no_gpu''), (''nv'', N pNv)] st)
      else nvGpuOpsDbellResolveChannel env T pGpu chid runlist st)"

section \<open>The resolver work item\<close>

text \<open>
  \<^verbatim>\<open>nv_dbell_resolve_fn\<close> in its two halves: everything it reads (\<open>resolve_begin\<close>: the status, the
  outputs and the two kernel addresses), and the update of the entry with the frees that follow
  (\<open>resolve_publish\<close>).  The code holds no lock across the two.
\<close>

definition resolve_userd :: "rm_env \<Rightarrow> u32 \<Rightarrow> resolve_out \<Rightarrow> dbell_state \<Rightarrow> ptr" where
  "resolve_userd env status out st =
     (let k0 = ro_userd_kva out;
          k1 = (if status = NV_OK \<and> k0 = 0 \<and> ro_addrspace out = 2 \<and> ro_userd_size out > 0
                then nv_dbell_bar1_offset_kva (ro_userd_phys out) (ro_userd_size out) st else k0) in
      if status = NV_OK \<and> k1 = 0 \<and> ro_addrspace out = 1 \<and> ro_userd_phys out \<noteq> 0
      then re_phys_to_virt env (ro_userd_phys out) else k1)"

definition resolve_gpfifo :: "u32 \<Rightarrow> u32 \<Rightarrow> resolve_out \<Rightarrow> dbell_state \<Rightarrow> ptr \<times> dbell_state" where
  "resolve_gpfifo chid status out st =
     (if status = NV_OK \<and> ro_gpfifo_gpu_va out \<noteq> 0 \<and> ro_gpfifo_entries out > 0 then
        let ring_bytes = ucast (ro_gpfifo_entries out) * 8;
            k = nv_dbell_bar1_gpu_va_to_kva (ro_gpfifo_gpu_va out) ring_bytes st in
        (k, if k = 0 then
              MC_TRACE dbell ''gpfifo_lookup'' [(''result'', S ''miss''), (''chid'', N (ucast chid)),
                (''gpu_va'', N (ro_gpfifo_gpu_va out)), (''entries'', N (ucast (ro_gpfifo_entries out)))] st
            else st)
      else (0, st))"

definition resolve_begin ::
  "rm_env \<Rightarrow> gpfifo_table \<Rightarrow> nv_dbell_resolve_work \<Rightarrow> dbell_state
     \<Rightarrow> u32 \<times> resolve_out \<times> ptr \<times> ptr \<times> dbell_state" where
  "resolve_begin env T work st =
     (let e = g_dbell_cache st ! wk_entry work;
          (status, out, st1) =
            rm_gpu_ops_dbell_resolve_channel env T (ce_nv e) (ce_chid e) (ce_runlist e) st;
          userd_kva = resolve_userd env status out st1;
          (gpfifo_kva, st2) = resolve_gpfifo (ce_chid e) status out st1 in
      (status, out, userd_kva, gpfifo_kva, st2))"

definition resolve_publish ::
  "nv_dbell_resolve_work \<Rightarrow> u32 \<Rightarrow> resolve_out \<Rightarrow> ptr \<Rightarrow> ptr \<Rightarrow> dbell_state \<Rightarrow> dbell_state" where
  "resolve_publish work status out userd_kva gpfifo_kva st =
     (let i = wk_entry work;
          e = g_dbell_cache st ! i;
          put = (\<lambda>e'. st\<lparr>g_dbell_cache := (g_dbell_cache st)[i := e']\<rparr>);
          who = [(''chid'', N (ucast (ce_chid e))), (''runlist'', N (ucast (ce_runlist e)))];
          st1 =
            (if userd_kva \<noteq> 0 then
               MC_TRACE dbell ''cache'' ([(''state'', S ''resolved'')] @ who @
                   [(''userd_kva'', N userd_kva), (''gpfifo_kva'', N gpfifo_kva),
                    (''entries'', N (ucast (ro_gpfifo_entries out)))])
                 (put (e\<lparr>ce_userd_kva := userd_kva, ce_gpfifo_kva := gpfifo_kva,
                   ce_gpfifo_entries := ro_gpfifo_entries out, ce_state := NV_DBELL_CACHE_RESOLVED\<rparr>))
             else if status = NV_OK then
               MC_TRACE dbell ''cache'' ([(''state'', S ''retry'')] @ who @
                   [(''phys'', N (ro_userd_phys out)), (''addrspace'', N (ucast (ro_addrspace out)))])
                 (put (e\<lparr>ce_state := NV_DBELL_CACHE_FREE\<rparr>))
             else
               MC_TRACE dbell ''cache'' ([(''state'', S ''failed'')] @ who @
                   [(''status'', N (ucast status)), (''phys'', N (ro_userd_phys out)),
                    (''addrspace'', N (ucast (ro_addrspace out)))])
                 (put (e\<lparr>ce_state := NV_DBELL_CACHE_FAILED\<rparr>))) in
      kfree (wk_ptr work) (nv_kmem_cache_free_stack (wk_sp work) st1))"

definition nv_dbell_resolve_fn ::
  "rm_env \<Rightarrow> gpfifo_table \<Rightarrow> nv_dbell_resolve_work \<Rightarrow> dbell_state \<Rightarrow> dbell_state" where
  "nv_dbell_resolve_fn env T work st =
     (let (status, out, userd_kva, gpfifo_kva, st1) = resolve_begin env T work st in
      resolve_publish work status out userd_kva gpfifo_kva st1)"

text \<open>The queue's worker takes the oldest item off the list and runs it.\<close>

definition q_worker :: "rm_env \<Rightarrow> gpfifo_table \<Rightarrow> dbell_state \<Rightarrow> dbell_state" where
  "q_worker env T st =
     (case q_list st of
        [] \<Rightarrow> st
      | w # ws \<Rightarrow> nv_dbell_resolve_fn env T w (st\<lparr>q_list := ws\<rparr>))"

section \<open>Registration\<close>

text \<open>
  The whole of \<^verbatim>\<open>nvGpuOpsDbellGpfifoRegister\<close>: the table update, the record for a full table, and
  the pre-resolve for a new registration; \<open>pOsGpuInfo\<close> is the GPU's \<^verbatim>\<open>nv_state_t\<close>.
\<close>

definition nvGpuOpsDbellGpfifoRegister ::
  "enq_env \<Rightarrow> (ptr \<Rightarrow> ptr) \<Rightarrow> gpfifo_key \<Rightarrow> gpfifo_val \<Rightarrow> gpfifo_table \<times> dbell_state
     \<Rightarrow> gpfifo_table \<times> dbell_state" where
  "nvGpuOpsDbellGpfifoRegister env pOsGpuInfo key v S0 =
     (case S0 of (T, st) \<Rightarrow> case key of (pGpu, runlist, chid) \<Rightarrow>
        (case dbellGpfifoRegister key v T of
           (T', Reg_New) \<Rightarrow> (T', nv_dbell_cache_pre_resolve env chid runlist (pOsGpuInfo pGpu) st)
         | (T', Reg_Full) \<Rightarrow>
             (T', MC_TRACE dbell ''gpfifo_register'' [(''result'', S ''table_full''),
                (''chid'', N (ucast chid)), (''runlist'', N (ucast runlist))] st)
         | (T', _) \<Rightarrow> (T', st)))"

section \<open>What resolving leaves alone\<close>

definition same_tables :: "dbell_state \<Rightarrow> dbell_state \<Rightarrow> bool" where
  "same_tables st st' \<longleftrightarrow> g_bar1_tracked st' = g_bar1_tracked st \<and> g_sysmem_tracked st' = g_sysmem_tracked st
     \<and> g_dbell_slots st' = g_dbell_slots st \<and> g_dbell_cache st' = g_dbell_cache st
     \<and> g_dbell_seq st' = g_dbell_seq st \<and> nv_trace_mask st' = nv_trace_mask st
     \<and> q_list st' = q_list st \<and> q_should_exit st' = q_should_exit st"

lemma same_tables_log [simp, intro]:
  "same_tables st st" "same_tables st (klog e st') = same_tables st st'"
  "same_tables st (MC_TRACE c n f st') = same_tables st st'"
  by (simp_all add: same_tables_def)

lemma resolve_locked_frame:
  assumes "resolve_locked env T pGpu chid runlist st = (status, out, st')"
  shows "same_tables st st'" and "effects st' = effects st"
proof -
  have "same_tables st st' \<and> effects st' = effects st"
    using assms
    by (auto simp: resolve_locked_def dbellResolveGpfifo_def dbellResolveUserd_def Let_def
        split: if_splits option.splits prod.splits)
  then show "same_tables st st'" and "effects st' = effects st" by auto
qed

lemma resolve_channel_frame:
  assumes "rm_gpu_ops_dbell_resolve_channel env T pNv chid runlist st = (status, out, st')"
  shows "same_tables st st'"
    and "effects st' = effects st \<or> (\<exists>g. effects st' = effects st @ [Rm_lock g, Rm_unlock g])"
proof -
  have "same_tables st st' \<and>
      (effects st' = effects st \<or> (\<exists>g. effects st' = effects st @ [Rm_lock g, Rm_unlock g]))"
  proof (cases "pNv = 0 \<or> re_pgpu env pNv = 0 \<or> re_lock_status env \<noteq> 0")
    case True
    then show ?thesis
      using assms by (auto simp: rm_gpu_ops_dbell_resolve_channel_def nvGpuOpsDbellResolveChannel_def
          Let_def split: if_splits)
  next
    case False
    let ?st1 = "klog (Rm_lock (re_pgpu env pNv)) (MC_TRACE dbell ''resolve'' [(''state'', S ''enter''),
      (''chid'', N (ucast chid)), (''runlist'', N (ucast runlist)), (''pgpu'', N (re_pgpu env pNv))] st)"
    obtain s o2 st2 where r: "resolve_locked env T (re_pgpu env pNv) chid runlist ?st1 = (s, o2, st2)"
      by (metis prod_cases3)
    with False assms have "st' = klog (Rm_unlock (re_pgpu env pNv)) st2"
      by (simp add: rm_gpu_ops_dbell_resolve_channel_def nvGpuOpsDbellResolveChannel_def Let_def)
    with resolve_locked_frame [OF r] show ?thesis by (simp add: same_tables_def)
  qed
  then show "same_tables st st'"
    and "effects st' = effects st \<or> (\<exists>g. effects st' = effects st @ [Rm_lock g, Rm_unlock g])" by auto
qed

lemma resolve_begin_frame:
  assumes "resolve_begin env T work st = (status, out, u, g, st')"
  shows "same_tables st st'"
    and "effects st' = effects st \<or> (\<exists>p. effects st' = effects st @ [Rm_lock p, Rm_unlock p])"
proof -
  let ?e = "g_dbell_cache st ! wk_entry work"
  obtain s1 o1 st1 where r:
    "rm_gpu_ops_dbell_resolve_channel env T (ce_nv ?e) (ce_chid ?e) (ce_runlist ?e) st = (s1, o1, st1)"
    by (metis prod_cases3)
  with assms have "same_tables st1 st'" "effects st' = effects st1"
    by (auto simp: resolve_begin_def resolve_gpfifo_def Let_def split: if_splits prod.splits)
  with resolve_channel_frame [OF r]
  show "same_tables st st'"
    and "effects st' = effects st \<or> (\<exists>p. effects st' = effects st @ [Rm_lock p, Rm_unlock p])"
    by (auto simp: same_tables_def)
qed

section \<open>The resolver keeps the cache invariant\<close>

text \<open>The entry that the worker publishes: resolved, failed, or free again for a retry.\<close>

definition published ::
  "u32 \<Rightarrow> resolve_out \<Rightarrow> ptr \<Rightarrow> ptr \<Rightarrow> nv_dbell_cache_entry \<Rightarrow> nv_dbell_cache_entry" where
  "published status out u g e =
     (if u \<noteq> 0 then e\<lparr>ce_userd_kva := u, ce_gpfifo_kva := g,
         ce_gpfifo_entries := ro_gpfifo_entries out, ce_state := 2\<rparr>
      else if status = 0 then e\<lparr>ce_state := 0\<rparr> else e\<lparr>ce_state := 3\<rparr>)"

lemma resolve_publish_sel:
  "g_dbell_cache (resolve_publish work status out u g st) =
     (g_dbell_cache st)[wk_entry work := published status out u g (g_dbell_cache st ! wk_entry work)]"
  "q_list (resolve_publish work status out u g st) = q_list st"
  "g_bar1_tracked (resolve_publish work status out u g st) = g_bar1_tracked st"
  "g_sysmem_tracked (resolve_publish work status out u g st) = g_sysmem_tracked st"
  "effects (resolve_publish work status out u g st) = effects st @
     on_stack Free_stack (wk_sp work) @ (if wk_ptr work = 0 then [] else [Kfree (wk_ptr work)])"
  by (simp_all add: resolve_publish_def published_def Let_def)

lemma cache_inv_worker:
  assumes inv: "cache_inv st"
  shows "cache_inv (q_worker env T st)"
proof (cases "q_list st")
  case Nil
  with inv show ?thesis by (simp add: q_worker_def)
next
  case (Cons w ws)
  obtain status out u g st1 where b: "resolve_begin env T w (st\<lparr>q_list := ws\<rparr>) = (status, out, u, g, st1)"
    by (metis prod_cases5)
  let ?C = "g_dbell_cache st" and ?i = "wk_entry w"
  let ?e = "published status out u g (?C ! ?i)"
  have ok: "cache_ok ?C (?i # map wk_entry ws)" using inv Cons by (simp add: cache_inv_def)
  have "cache_ok (?C[?i := ?e]) (map wk_entry ws)"
    using ok
  proof (rule cache_ok_update)
    show "\<forall>j < length ?C. j \<noteq> ?i \<longrightarrow> ce_state (?C ! j) \<noteq> 0 \<longrightarrow> ce_key (?C ! j) \<noteq> ce_key ?e"
      using cache_okD(4) [OF ok, of _ ?i] cache_okD(5) [OF ok, of ?i]
      by (auto simp: published_def ce_key_def)
  qed (use cache_okD(2) [OF ok] cache_okD(5) [OF ok, of ?i] in \<open>auto simp: published_def\<close>)
  moreover have "q_worker env T st = resolve_publish w status out u g st1"
    using Cons b by (simp add: q_worker_def nv_dbell_resolve_fn_def)
  ultimately show ?thesis
    using resolve_begin_frame(1) [OF b] by (simp add: cache_inv_def resolve_publish_sel same_tables_def)
qed

section \<open>Where resolved pointers point\<close>

text \<open>The \<open>n\<close> bytes at \<open>p\<close> lie inside the kernel alias of a tracked BAR1 mapping.\<close>

definition in_bar1 :: "dbell_state \<Rightarrow> ptr \<Rightarrow> nat \<Rightarrow> bool" where
  "in_bar1 st p n \<longleftrightarrow> (\<exists>e \<in> set (g_bar1_tracked st). b1_vma e \<noteq> 0 \<and> b1_kernel_va e \<noteq> 0
     \<and> unat (b1_kernel_va e) \<le> unat p \<and> unat p + n \<le> unat (b1_kernel_va e) + unat (bar1_size e))"

text \<open>
  A tracked mapping is as large in the kernel as in user space, is not empty, and neither of its
  two ranges wraps.
\<close>

definition bar1_entry_wf :: "nv_dbell_bar1_entry \<Rightarrow> bool" where
  "bar1_entry_wf e \<longleftrightarrow> unat (b1_kernel_va e) + unat (bar1_size e) < 2 ^ 64 \<and> bar1_size e \<noteq> 0
     \<and> unat (b1_user_va_end e) = unat (b1_user_va_start e) + unat (bar1_size e)"

definition bar1_wf :: "dbell_state \<Rightarrow> bool" where
  "bar1_wf st \<longleftrightarrow> bar1_ok st \<and> (\<forall>e \<in> set (g_bar1_tracked st). b1_vma e \<noteq> 0 \<longrightarrow> bar1_entry_wf e)"

text \<open>
  Every resolved entry has a USERD pointer that the resource manager gave (\<open>X\<close>) or that has the
  control area up to \<^verbatim>\<open>GP_PUT\<close> inside a tracked mapping, and if it has a ring, the whole ring is
  inside a tracked mapping.
\<close>

definition entry_resolved_ok :: "ptr set \<Rightarrow> dbell_state \<Rightarrow> nv_dbell_cache_entry \<Rightarrow> bool" where
  "entry_resolved_ok X st e \<longleftrightarrow> ce_state e = NV_DBELL_CACHE_RESOLVED \<longrightarrow>
     ce_userd_kva e \<noteq> 0 \<and> (ce_userd_kva e \<in> X \<or> in_bar1 st (ce_userd_kva e) 0x90)
     \<and> (ce_gpfifo_kva e \<noteq> 0 \<longrightarrow>
          0 < ce_gpfifo_entries e \<and> in_bar1 st (ce_gpfifo_kva e) (8 * unat (ce_gpfifo_entries e)))"

definition resolved_ok :: "ptr set \<Rightarrow> dbell_state \<Rightarrow> bool" where
  "resolved_ok X st \<longleftrightarrow> (\<forall>e \<in> set (g_dbell_cache st). entry_resolved_ok X st e)"

text \<open>
  What the resolver relies on: USERD descriptors hold at least the control area and do not wrap,
  and \<open>X\<close> contains the direct map and the pool; registered rings do not wrap.
\<close>

definition rm_env_ok :: "ptr set \<Rightarrow> rm_env \<Rightarrow> bool" where
  "rm_env_ok X env \<longleftrightarrow>
     (\<forall>g rl c md. re_channel env g rl c = Some (Some md) \<longrightarrow>
        0x90 \<le> md_size md \<and> unat (md_subMemOffset md) + unat (md_size md) < 2 ^ 64)
   \<and> (\<forall>g p n off. re_pool env g = Some (p, n) \<longrightarrow> p + off \<in> X)
   \<and> (\<forall>a. re_phys_to_virt env a \<in> X)"

definition gpfifo_fits :: "gpfifo_table \<Rightarrow> bool" where
  "gpfifo_fits T \<longleftrightarrow> (\<forall>k v. dbellGpfifoLookup T k = Some v \<longrightarrow> unat (fst v) + 8 * unat (snd v) < 2 ^ 64)"

lemma resolve_status_error:
  assumes "rm_gpu_ops_dbell_resolve_channel env T pNv chid runlist st = (status, out, st')" "status \<noteq> 0"
  shows "out = resolve_zero"
  using assms
  by (auto simp: rm_gpu_ops_dbell_resolve_channel_def nvGpuOpsDbellResolveChannel_def resolve_locked_def
      Let_def split: if_splits option.splits prod.splits)

lemma resolve_status_ok:
  assumes "rm_gpu_ops_dbell_resolve_channel env T pNv chid runlist st = (0, out, st')"
  obtains pGpu md where "re_channel env pGpu runlist chid = Some (Some md)"
    "ro_userd_size out = md_size md" "ro_addrspace out = md_addrspace md"
    "ro_addrspace out = 2 \<Longrightarrow> ro_userd_phys out = md_subMemOffset md"
    "ro_userd_kva out = 0 \<or> (\<exists>p n. re_pool env pGpu = Some (p, n) \<and> ro_userd_kva out = p + md_subMemOffset md)"
    "ro_gpfifo_gpu_va out = 0 \<or>
       dbellGpfifoLookup T (pGpu, runlist, chid) = Some (ro_gpfifo_gpu_va out, ro_gpfifo_entries out)"
proof -
  let ?g = "re_pgpu env pNv"
  let ?st1 = "klog (Rm_lock ?g) (MC_TRACE dbell ''resolve'' [(''state'', S ''enter''),
      (''chid'', N (ucast chid)), (''runlist'', N (ucast runlist)), (''pgpu'', N ?g)] st)"
  obtain st2 where r: "resolve_locked env T ?g chid runlist ?st1 = (0, out, st2)"
    using assms by (auto simp: rm_gpu_ops_dbell_resolve_channel_def nvGpuOpsDbellResolveChannel_def Let_def
        split: if_splits prod.splits)
  then obtain md where md: "re_channel env ?g runlist chid = Some (Some md)"
    by (auto simp: resolve_locked_def split: if_splits option.splits)
  obtain out1 st3 where g: "dbellResolveGpfifo T ?g chid runlist resolve_zero ?st1 = (out1, st3)"
    by (cases "dbellResolveGpfifo T ?g chid runlist resolve_zero ?st1")
  obtain st4 where u: "dbellResolveUserd (re_pool env ?g) md chid out1 st3 = (out, st4)"
    using r md g by (auto simp: resolve_locked_def Let_def split: if_splits prod.splits)
  have o1: "ro_userd_kva out1 = 0" "ro_gpfifo_gpu_va out1 = 0 \<or>
       dbellGpfifoLookup T (?g, runlist, chid) = Some (ro_gpfifo_gpu_va out1, ro_gpfifo_entries out1)"
    using g by (auto simp: dbellResolveGpfifo_def resolve_zero_def split: option.splits)
  have o2: "ro_gpfifo_gpu_va out = ro_gpfifo_gpu_va out1" "ro_gpfifo_entries out = ro_gpfifo_entries out1"
    "ro_userd_size out = md_size md" "ro_addrspace out = md_addrspace md"
    using u by (auto simp: dbellResolveUserd_def Let_def split: if_splits)
  have o3: "ro_addrspace out = 2 \<Longrightarrow> ro_userd_phys out = md_subMemOffset md"
    using u by (auto simp: dbellResolveUserd_def Let_def split: if_splits)
  have o4: "ro_userd_kva out = 0 \<or> (\<exists>p n. re_pool env ?g = Some (p, n) \<and> ro_userd_kva out = p + md_subMemOffset md)"
    using u o1(1) by (auto simp: dbellResolveUserd_def Let_def split: if_splits option.splits)
  show thesis
    using md o1(2) o2 o3 o4 by (intro that) simp_all
qed

end
