(* ===== verification/Dbell_Safety.thy ===== *)
theory Dbell_Safety
  imports Dbell_Resolve
begin

text \<open>
  Memory safety of the cached pointers: every operation of the trackers, the cache and the
  resolver keeps the invariant that resolved entries point into mappings that are still tracked,
  and the interleaving that breaks it.
\<close>

section \<open>Pointers that the translations return\<close>

lemma in_bar1_cong: "g_bar1_tracked st' = g_bar1_tracked st \<Longrightarrow> in_bar1 st' = in_bar1 st"
  by (simp add: in_bar1_def fun_eq_iff)

lemma bar1_wf_cong: "g_bar1_tracked st' = g_bar1_tracked st \<Longrightarrow> bar1_wf st' = bar1_wf st"
  by (simp add: bar1_wf_def bar1_ok_def)

lemma bar1_wfD:
  assumes "bar1_wf st" "e \<in> set (g_bar1_tracked st)" "b1_vma e \<noteq> 0"
  shows "unat (b1_kernel_va e) + unat (bar1_size e) < 2 ^ 64" and "bar1_size e \<noteq> 0"
    and "unat (b1_user_va_end e) = unat (b1_user_va_start e) + unat (bar1_size e)"
    and "b1_kernel_va e \<noteq> 0"
  using assms by (auto simp: bar1_wf_def bar1_ok_def bar1_entry_wf_def)

lemma offset_in_bar1:
  assumes "bar1_wf st" "unat off + unat sz < 2 ^ 64" "n \<le> unat sz" "sz \<noteq> 0"
    and "nv_dbell_bar1_offset_kva off sz st \<noteq> 0"
  shows "in_bar1 st (nv_dbell_bar1_offset_kva off sz st) n"
proof (cases rule: offset_kva_cases [OF assms(2,4), of st])
  case 1
  with assms(5) show ?thesis by simp
next
  case (2 e)
  then have e: "b1_vma e \<noteq> 0" "unat off + unat sz \<le> unat (bar1_size e)"
    by (simp_all add: bar1_holds_def)
  note wf = bar1_wfD [OF assms(1) 2(1) e(1)]
  have "unat (b1_kernel_va e + off) = unat (b1_kernel_va e) + unat off"
    using wf(1) e(2) by (intro unat_add_nowrap) simp
  then show ?thesis
    unfolding in_bar1_def using 2(1,3) e wf(4) assms(3) by (intro bexI [of _ e]) auto
qed

lemma gpu_va_in_bar1:
  assumes "bar1_wf st" "unat va + unat sz < 2 ^ 64" "nv_dbell_bar1_gpu_va_to_kva va sz st \<noteq> 0"
  shows "in_bar1 st (nv_dbell_bar1_gpu_va_to_kva va sz st) (unat sz)"
proof -
  from bar1_translate_Some [OF assms(2) refl assms(3)] obtain e where
    e: "e \<in> set (g_bar1_tracked st)" "bar1_usable e"
      "covers (b1_user_va_start e) (b1_user_va_end e) va sz"
      "nv_dbell_bar1_gpu_va_to_kva va sz st = b1_kernel_va e + (va - b1_user_va_start e)" by blast
  then have vma: "b1_vma e \<noteq> 0" by (simp add: bar1_usable_def)
  note wf = bar1_wfD [OF assms(1) e(1) vma]
  from translate_inside [OF e(3), of "b1_kernel_va e"] wf show ?thesis
    unfolding in_bar1_def e(4) by (intro bexI [OF _ e(1)]) (simp add: vma)
qed

lemma ring_bytes: "unat (ucast (n :: u32) * 8 :: u64) = 8 * unat n"
proof -
  have "unat n < 2 ^ 32" using unsigned_less [of n, where 'a = nat] by simp
  then show ?thesis by (simp add: unat_word_ariths unsigned_ucast_eq take_bit_nat_eq_self)
qed

text \<open>What the first half of the resolver found is safe to publish right away.\<close>

lemma resolve_begin_safe:
  assumes wf: "bar1_wf st" and env: "rm_env_ok X env" and fits: "gpfifo_fits T"
    and b: "resolve_begin env T work st = (status, out, u, g, st')"
  shows "u \<noteq> 0 \<Longrightarrow> u \<in> X \<or> in_bar1 st u 0x90"
    and "g \<noteq> 0 \<Longrightarrow> 0 < ro_gpfifo_entries out \<and> in_bar1 st g (8 * unat (ro_gpfifo_entries out))"
proof -
  let ?e = "g_dbell_cache st ! wk_entry work"
  obtain st1 where r:
    "rm_gpu_ops_dbell_resolve_channel env T (ce_nv ?e) (ce_chid ?e) (ce_runlist ?e) st = (status, out, st1)"
    and u: "u = resolve_userd env status out st1"
    and g: "g = fst (resolve_gpfifo (ce_chid ?e) status out st1)"
    using b by (auto simp: resolve_begin_def Let_def split: prod.splits)
  have t: "g_bar1_tracked st1 = g_bar1_tracked st"
    using resolve_channel_frame(1) [OF r] by (simp add: same_tables_def)
  note t' = in_bar1_cong [OF t] bar1_wf_cong [OF t]
  show "u \<in> X \<or> in_bar1 st u 0x90" if "u \<noteq> 0"
  proof (cases "status = 0")
    case False
    with resolve_status_error [OF r] u that show ?thesis
      by (simp add: resolve_userd_def resolve_zero_def)
  next
    case True
    from resolve_status_ok [OF r [unfolded True]] obtain pGpu md where
      md: "re_channel env pGpu (ce_runlist ?e) (ce_chid ?e) = Some (Some md)"
        "ro_userd_size out = md_size md"
        "ro_addrspace out = 2 \<Longrightarrow> ro_userd_phys out = md_subMemOffset md"
        "ro_userd_kva out = 0 \<or> (\<exists>p n. re_pool env pGpu = Some (p, n) \<and> ro_userd_kva out = p + md_subMemOffset md)"
      by metis
    have sz: "0x90 \<le> md_size md" "unat (md_subMemOffset md) + unat (md_size md) < 2 ^ 64"
      using env md(1) unfolding rm_env_ok_def by blast+
    have "unat (0x90 :: u64) \<le> unat (md_size md)" "md_size md \<noteq> 0"
      using sz(1) by (auto simp: word_le_nat_alt)
    then have "in_bar1 st (nv_dbell_bar1_offset_kva (md_subMemOffset md) (md_size md) st1) 0x90"
      if "nv_dbell_bar1_offset_kva (md_subMemOffset md) (md_size md) st1 \<noteq> 0"
      using offset_in_bar1 [of st1 "md_subMemOffset md" "md_size md" "0x90"] wf sz(2) that t'
      by simp
    moreover have "ro_userd_kva out \<in> X" if "ro_userd_kva out \<noteq> 0"
      using md(4) env that unfolding rm_env_ok_def by metis
    moreover have "re_phys_to_virt env a \<in> X" for a
      using env by (simp add: rm_env_ok_def)
    ultimately show ?thesis
      using that True md(2,3) unfolding u resolve_userd_def by (auto simp: Let_def split: if_splits)
  qed
  show "0 < ro_gpfifo_entries out \<and> in_bar1 st g (8 * unat (ro_gpfifo_entries out))" if "g \<noteq> 0"
  proof -
    have c: "status = 0" "ro_gpfifo_gpu_va out \<noteq> 0" "ro_gpfifo_entries out > 0"
      and geq: "g = nv_dbell_bar1_gpu_va_to_kva (ro_gpfifo_gpu_va out) (ucast (ro_gpfifo_entries out) * 8) st1"
      using that unfolding g by (auto simp: resolve_gpfifo_def Let_def split: if_splits)
    from resolve_status_ok [OF r [unfolded c(1)]] c(2) obtain k where
      "dbellGpfifoLookup T k = Some (ro_gpfifo_gpu_va out, ro_gpfifo_entries out)" by metis
    then have "unat (ro_gpfifo_gpu_va out) + unat (ucast (ro_gpfifo_entries out) * 8 :: u64) < 2 ^ 64"
      using fits unfolding ring_bytes gpfifo_fits_def by fastforce
    from gpu_va_in_bar1 [OF _ this, of st1] that wf c(3) show ?thesis
      by (simp add: t' geq [symmetric] ring_bytes)
  qed
qed

section \<open>Every operation keeps resolved pointers safe\<close>

lemma resolved_okI:
  assumes "resolved_ok X st" "\<And>p n. in_bar1 st p n \<Longrightarrow> in_bar1 st' p n"
    and "\<And>e. e \<in> set (g_dbell_cache st') \<Longrightarrow> ce_state e = 2 \<Longrightarrow>
      \<exists>e0 \<in> set (g_dbell_cache st). ce_state e0 = 2 \<and> ce_userd_kva e0 = ce_userd_kva e
        \<and> ce_gpfifo_kva e0 = ce_gpfifo_kva e \<and> ce_gpfifo_entries e0 = ce_gpfifo_entries e"
  shows "resolved_ok X st'"
  unfolding resolved_ok_def entry_resolved_ok_def
proof (intro ballI impI)
  fix e
  assume "e \<in> set (g_dbell_cache st')" "ce_state e = 2"
  from assms(3) [OF this] obtain e0 where e0: "e0 \<in> set (g_dbell_cache st)" "ce_state e0 = 2"
    "ce_userd_kva e0 = ce_userd_kva e" "ce_gpfifo_kva e0 = ce_gpfifo_kva e"
    "ce_gpfifo_entries e0 = ce_gpfifo_entries e" by blast
  then have "entry_resolved_ok X st e0" using assms(1) by (simp add: resolved_ok_def)
  with e0 assms(2) show "ce_userd_kva e \<noteq> 0 \<and> (ce_userd_kva e \<in> X \<or> in_bar1 st' (ce_userd_kva e) 0x90)
     \<and> (ce_gpfifo_kva e \<noteq> 0 \<longrightarrow>
          0 < ce_gpfifo_entries e \<and> in_bar1 st' (ce_gpfifo_kva e) (8 * unat (ce_gpfifo_entries e)))"
    unfolding entry_resolved_ok_def by auto
qed

lemma resolved_ok_same:
  assumes "resolved_ok X st" "g_dbell_cache st' = g_dbell_cache st" "g_bar1_tracked st' = g_bar1_tracked st"
  shows "resolved_ok X st'"
  using assms(1) unfolding resolved_ok_def entry_resolved_ok_def assms(2) in_bar1_cong [OF assms(3)] .

lemma resolved_ok_worker:
  assumes ok: "resolved_ok X st" and wf: "bar1_wf st" and env: "rm_env_ok X env" and fits: "gpfifo_fits T"
  shows "resolved_ok X (q_worker env T st)"
proof (cases "q_list st")
  case Nil
  with ok show ?thesis by (simp add: q_worker_def)
next
  case (Cons w ws)
  obtain status out u g st1 where b: "resolve_begin env T w (st\<lparr>q_list := ws\<rparr>) = (status, out, u, g, st1)"
    by (metis prod_cases5)
  have eq: "q_worker env T st = resolve_publish w status out u g st1"
    using Cons b by (simp add: q_worker_def nv_dbell_resolve_fn_def)
  have wf': "bar1_wf (st\<lparr>q_list := ws\<rparr>)" using wf bar1_wf_cong [of "st\<lparr>q_list := ws\<rparr>" st] by simp
  note safe = resolve_begin_safe [OF wf' env fits b]
  have t: "g_dbell_cache st1 = g_dbell_cache st" "g_bar1_tracked st1 = g_bar1_tracked st"
    using resolve_begin_frame(1) [OF b] by (simp_all add: same_tables_def)
  have ib: "in_bar1 (q_worker env T st) = in_bar1 st" "in_bar1 (st\<lparr>q_list := ws\<rparr>) = in_bar1 st"
    by (rule in_bar1_cong, simp add: eq resolve_publish_sel t)+
  have "entry_resolved_ok X (q_worker env T st) (published status out u g e)" for e
    using safe by (auto simp: entry_resolved_ok_def published_def ib)
  moreover have "entry_resolved_ok X (q_worker env T st) e" if "e \<in> set (g_dbell_cache st)" for e
    using ok that by (simp add: resolved_ok_def entry_resolved_ok_def ib)
  ultimately show ?thesis
    using set_update_subset_insert [of "g_dbell_cache st" "wk_entry w"]
    unfolding resolved_ok_def eq resolve_publish_sel t by blast
qed

text \<open>
  What the mmap path guarantees when it tracks a mapping: the VMA is as large as the physical range,
  which is not empty, and the kernel's alias does not wrap.
\<close>

definition track_ok :: "(u64 \<Rightarrow> u64 \<Rightarrow> ptr) \<Rightarrow> (u64 \<Rightarrow> u64 \<Rightarrow> ptr) \<Rightarrow> vm_area \<Rightarrow> u64 \<Rightarrow> u64 \<Rightarrow> bool" where
  "track_ok wc io vma phys sz \<longleftrightarrow> vma_ptr vma \<noteq> 0 \<and> sz \<noteq> 0
     \<and> unat (vm_end vma) = unat (vm_start vma) + unat sz
     \<and> unat (bar1_ioremap wc io phys sz) + unat sz < 2 ^ 64"

lemma set_update_keep: "x \<in> set xs \<Longrightarrow> x \<noteq> xs ! i \<Longrightarrow> x \<in> set (xs[i := y])"
  by (metis in_set_conv_nth length_list_update nth_list_update_neq)

lemma bar1_add_table:
  assumes "bar1_wf st" "track_ok wc io vma phys sz"
  shows "bar1_wf (snd (nv_dbell_bar1_track_add wc io vma phys sz st))"
    and "in_bar1 st p n \<Longrightarrow> in_bar1 (snd (nv_dbell_bar1_track_add wc io vma phys sz st)) p n"
    and "g_dbell_cache (snd (nv_dbell_bar1_track_add wc io vma phys sz st)) = g_dbell_cache st"
    and "q_list (snd (nv_dbell_bar1_track_add wc io vma phys sz st)) = q_list st"
proof -
  define kva where "kva = bar1_ioremap wc io phys sz"
  let ?st' = "snd (nv_dbell_bar1_track_add wc io vma phys sz st)"
  have vma: "vma_ptr vma \<noteq> 0" using assms(2) by (simp add: track_ok_def)
  have wf: "bar1_entry_wf (bar1_entry vma phys sz kva)"
    using assms(2) by (simp add: track_ok_def bar1_entry_wf_def bar1_entry_def bar1_size_def kva_def)
  have tab: "g_bar1_tracked ?st' = g_bar1_tracked st \<or> (\<exists>i t. slot_insert bar1_vacant
      (bar1_entry vma phys sz kva) (g_bar1_tracked st) = Some (i, t) \<and> g_bar1_tracked ?st' = t)"
    and rest: "g_dbell_cache ?st' = g_dbell_cache st" "q_list ?st' = q_list st"
    by (auto simp: nv_dbell_bar1_track_add_def kva_def Let_def split: option.splits)
  show "g_dbell_cache ?st' = g_dbell_cache st" "q_list ?st' = q_list st" by (fact rest)+
  show "bar1_wf ?st'"
    unfolding bar1_wf_def
  proof (intro conjI ballI impI)
    show "bar1_ok ?st'" using assms(1) vma by (simp add: bar1_wf_def bar1_ok_add)
    fix e
    assume e: "e \<in> set (g_bar1_tracked ?st')" "b1_vma e \<noteq> 0"
    from tab show "bar1_entry_wf e"
    proof (elim disjE exE conjE)
      fix i t
      assume t: "slot_insert bar1_vacant (bar1_entry vma phys sz kva) (g_bar1_tracked st) = Some (i, t)"
        "g_bar1_tracked ?st' = t"
      with e(1) slot_insert_SomeD(3) [OF t(1)]
      have "e = bar1_entry vma phys sz kva \<or> e \<in> set (g_bar1_tracked st)"
        using set_update_subset_insert by fastforce
      with wf assms(1) e(2) show ?thesis by (auto simp: bar1_wf_def)
    qed (use e assms(1) in \<open>simp add: bar1_wf_def\<close>)
  qed
  show "in_bar1 ?st' p n" if "in_bar1 st p n"
    using tab
  proof (elim disjE exE conjE)
    assume "g_bar1_tracked ?st' = g_bar1_tracked st"
    then show ?thesis using that in_bar1_cong by metis
  next
    fix i t
    assume t: "slot_insert bar1_vacant (bar1_entry vma phys sz kva) (g_bar1_tracked st) = Some (i, t)"
      "g_bar1_tracked ?st' = t"
    have "e \<in> set t" if "e \<in> set (g_bar1_tracked st)" "b1_vma e \<noteq> 0" for e
      using that slot_insert_SomeD [OF t(1)] set_update_keep [OF that(1), of i]
      by (auto simp: bar1_vacant_def)
    then show ?thesis using \<open>in_bar1 st p n\<close> unfolding in_bar1_def t(2) by blast
  qed
qed

lemma resolved_ok_add:
  assumes "resolved_ok X st" "bar1_wf st" "track_ok wc io vma phys sz"
  shows "resolved_ok X (snd (nv_dbell_bar1_track_add wc io vma phys sz st))"
  using assms(1)
proof (rule resolved_okI)
  show "in_bar1 st p n \<Longrightarrow> in_bar1 (snd (nv_dbell_bar1_track_add wc io vma phys sz st)) p n" for p n
    by (rule bar1_add_table(2) [OF assms(2,3)])
qed (auto simp: bar1_add_table(3) [OF assms(2,3)])

text \<open>A pointer whose target is inside the range that goes away is found by the sweep.\<close>

lemma range_word:
  assumes "unat k \<le> unat p" "unat p + n \<le> unat k + unat sz" "0 < n" "unat k + unat sz < 2 ^ 64"
  shows "k \<le> p" and "(p :: u64) < k + sz"
  using assms unat_add_nowrap [of k sz] by (simp_all add: word_le_nat_alt word_less_nat_alt)

lemma resolved_ok_remove:
  assumes ok: "resolved_ok X st" and wf: "bar1_wf st"
  shows "resolved_ok X (nv_dbell_bar1_track_remove vma st)"
proof (cases rule: bar1_remove_cases [of vma st])
  case absent
  with ok show ?thesis by simp
next
  case (unmapped i e t)
  have "t = g_bar1_tracked st" using bar1_clear_vacant [OF _ unmapped(1,2)] wf by (simp add: bar1_wf_def)
  then show ?thesis using ok unmapped(3) by simp
next
  case (removed i r t)
  let ?st' = "nv_dbell_bar1_track_remove vma st" and ?k = "b1_kernel_va r"
  note D = slot_clear_SomeD [OF removed(2)]
  have r0: "r \<in> set (g_bar1_tracked st)" using D(1,3) by simp
  with removed(1) wf have "b1_vma r \<noteq> 0"
    by (auto simp: bar1_wf_def bar1_ok_def bar1_free_def split: if_splits)
  note r = r0 this
  note rwf = bar1_wfD [OF wf r]
  have keep: "in_bar1 ?st' p n" if "in_bar1 st p n" "0 < n" "\<not> (?k \<le> p \<and> p < ?k + bar1_size r)" for p n
  proof -
    from that(1) obtain e where e: "e \<in> set (g_bar1_tracked st)" "b1_vma e \<noteq> 0" "b1_kernel_va e \<noteq> 0"
      "unat (b1_kernel_va e) \<le> unat p" "unat p + n \<le> unat (b1_kernel_va e) + unat (bar1_size e)"
      unfolding in_bar1_def by blast
    have "e \<noteq> r" using range_word [OF e(4,5) that(2)] that(3) rwf(1) by auto
    then have "e \<in> set t" using set_update_keep [OF e(1), of i] D(3,4) by simp
    with e removed(3) show ?thesis unfolding in_bar1_def by blast
  qed
  show ?thesis
    unfolding resolved_ok_def
  proof
    fix e
    assume "e \<in> set (g_dbell_cache ?st')"
    then have e: "ce_state e = 2 \<Longrightarrow> e \<in> set (g_dbell_cache st) \<and> \<not> cache_points_into ?k (?k + bar1_size r) e"
      using removed(1) rwf(2) unfolding removed(5) invalidate_range_map bar1_size_def
      by (auto simp: cache_park_def split: if_splits)
    have pos: "0 < 8 * unat (ce_gpfifo_entries e)" if "0 < ce_gpfifo_entries e"
      using that by (simp add: word_less_nat_alt)
    show "entry_resolved_ok X ?st' e"
      unfolding entry_resolved_ok_def
    proof (intro impI)
      assume s: "ce_state e = 2"
      with e ok have old: "entry_resolved_ok X st e" by (simp add: resolved_ok_def)
      from e [OF s] s have np: "ce_userd_kva e \<noteq> 0 \<Longrightarrow> \<not> (?k \<le> ce_userd_kva e \<and> ce_userd_kva e < ?k + bar1_size r)"
        "ce_gpfifo_kva e \<noteq> 0 \<Longrightarrow> \<not> (?k \<le> ce_gpfifo_kva e \<and> ce_gpfifo_kva e < ?k + bar1_size r)"
        by (auto simp: cache_points_into_def)
      show "ce_userd_kva e \<noteq> 0 \<and> (ce_userd_kva e \<in> X \<or> in_bar1 ?st' (ce_userd_kva e) 0x90)
        \<and> (ce_gpfifo_kva e \<noteq> 0 \<longrightarrow> 0 < ce_gpfifo_entries e
             \<and> in_bar1 ?st' (ce_gpfifo_kva e) (8 * unat (ce_gpfifo_entries e)))"
        using old s np keep [of "ce_userd_kva e" "0x90"]
          keep [of "ce_gpfifo_kva e" "8 * unat (ce_gpfifo_entries e)"] pos
        unfolding entry_resolved_ok_def by auto
    qed
  qed
qed

lemma bar1_wf_remove:
  assumes "bar1_wf st"
  shows "bar1_wf (nv_dbell_bar1_track_remove vma st)"
proof (cases rule: bar1_remove_cases [of vma st])
  case absent
  with assms show ?thesis by simp
next
  case (unmapped i e t)
  have "t = g_bar1_tracked st" using bar1_clear_vacant [OF _ unmapped(1,2)] assms by (simp add: bar1_wf_def)
  then show ?thesis using assms unmapped(3) by simp
next
  case (removed i e t)
  have "set t \<subseteq> insert bar1_free (set (g_bar1_tracked st))"
    using slot_clear_SomeD(4) [OF removed(2)] set_update_subset_insert by metis
  then show ?thesis
    using assms bar1_ok_remove [of st vma] unfolding bar1_wf_def removed(3)
    by (auto simp: bar1_free_def)
qed

lemma resolved_ok_write:
  assumes "resolved_ok X st" "g_bar1_tracked st' = g_bar1_tracked st"
    and "g_dbell_cache st' = (g_dbell_cache st)[i := e]" "ce_state e \<noteq> 2"
  shows "resolved_ok X st'"
  using assms(1)
proof (rule resolved_okI)
  show "in_bar1 st p n \<Longrightarrow> in_bar1 st' p n" for p n using in_bar1_cong [OF assms(2)] by simp
  fix e'
  assume "e' \<in> set (g_dbell_cache st')" "ce_state e' = 2"
  then have "e' \<in> set (g_dbell_cache st)"
    using assms(3,4) set_update_subset_insert [of "g_dbell_cache st" i e] by auto
  with \<open>ce_state e' = 2\<close> show "\<exists>e0 \<in> set (g_dbell_cache st). ce_state e0 = 2 \<and> ce_userd_kva e0 = ce_userd_kva e'
      \<and> ce_gpfifo_kva e0 = ce_gpfifo_kva e' \<and> ce_gpfifo_entries e0 = ce_gpfifo_entries e'" by blast
qed

lemma resolved_ok_reserve_enqueue:
  assumes "resolved_ok X st" "g_bar1_tracked st1 = g_bar1_tracked st" "i < length (g_dbell_cache st)"
    and "g_dbell_cache st1 = (g_dbell_cache st)[i := cache_reserved chid runlist nv]"
  shows "resolved_ok X (nv_dbell_try_enqueue_resolve env i st1)"
proof (cases rule: try_enqueue_cases [where env = env and i = i and st = st1])
  case (queued w)
  show ?thesis
    by (rule resolved_ok_write [OF assms(1), of _ i "cache_reserved chid runlist nv"])
      (simp_all add: queued(2) assms(2,4) cache_reserved_def)
next
  case rolled
  show ?thesis
    by (rule resolved_ok_write [OF assms(1), of _ i "(cache_reserved chid runlist nv)\<lparr>ce_state := 0\<rparr>"])
      (use assms(3) in \<open>simp_all add: rolled(1) assms(2,4)\<close>)
qed

lemma resolved_ok_pre_resolve:
  assumes "resolved_ok X st"
  shows "resolved_ok X (nv_dbell_cache_pre_resolve env chid runlist nv st)"
proof (cases "nv = 0 \<or> nv_dbell_cache_find chid runlist st \<noteq> None")
  case True
  then show ?thesis using assms by (auto simp: nv_dbell_cache_pre_resolve_def)
next
  case False
  show ?thesis
  proof (cases rule: cache_reserve_cases [of chid runlist nv st])
    case full
    then show ?thesis using False assms by (simp add: nv_dbell_cache_pre_resolve_def)
  next
    case (slot i)
    show ?thesis
      using False slot resolved_ok_reserve_enqueue [OF assms, of _ i chid runlist nv]
      by (simp add: nv_dbell_cache_pre_resolve_def)
  qed
qed

section \<open>The window between lookup and publication\<close>

text \<open>
  C11.  The resolver looks its addresses up and publishes them later, with no lock held in between.
  If the mapping is released in that window, the sweep of \<^verbatim>\<open>nv_dbell_bar1_track_remove\<close> skips the
  entry because it is still PENDING, the alias is unmapped, and the resolver then publishes a
  RESOLVED entry that points into it: the next doorbell reads unmapped memory.
\<close>

theorem resolve_remove_race:
  assumes b: "resolve_begin env T w st = (status, out, u, g, st1)"
    and r: "slot_clear (\<lambda>e. b1_vma e = vma) (\<lambda>_. bar1_free) (g_bar1_tracked st) = Some (i, r, t)"
    and "b1_kernel_va r \<noteq> 0" "b1_kernel_va r \<le> u" "u < b1_kernel_va r + bar1_size r" "u \<noteq> 0"
    and "wk_entry w < length (g_dbell_cache st)"
  shows "cache_points_into (b1_kernel_va r) (b1_kernel_va r + bar1_size r)
      (g_dbell_cache (resolve_publish w status out u g (nv_dbell_bar1_track_remove vma st1)) ! wk_entry w)
    \<and> Iounmap (b1_kernel_va r)
        \<in> set (effects (resolve_publish w status out u g (nv_dbell_bar1_track_remove vma st1)))"
proof -
  have t: "g_bar1_tracked st1 = g_bar1_tracked st" "g_dbell_cache st1 = g_dbell_cache st"
    using resolve_begin_frame(1) [OF b] by (simp_all add: same_tables_def)
  let ?st2 = "nv_dbell_bar1_track_remove vma st1"
  have "length (g_dbell_cache ?st2) = length (g_dbell_cache st)" "Iounmap (b1_kernel_va r) \<in> set (effects ?st2)"
    using r assms(3) by (simp_all add: nv_dbell_bar1_track_remove_def t Let_def invalidate_range_map)
  then show ?thesis
    using assms(4-7) by (simp add: resolve_publish_sel published_def cache_points_into_def)
qed

text \<open>A channel with its USERD in video memory, and its entry waiting for the resolver.\<close>

definition ex_rm :: rm_env where
  "ex_rm = \<lparr>re_pgpu = (\<lambda>_. 0x5000), re_lock_status = 0, re_fifo = (\<lambda>_. True), re_pool = (\<lambda>_. None),
     re_chidmgr = (\<lambda>_ _. True), re_subdev = (\<lambda>_. 0),
     re_channel = (\<lambda>_ _ _. Some (Some \<lparr>md_addrspace = 2, md_subMemOffset = 0x3000, md_size = 0x200, md_phys = 0\<rparr>)),
     re_phys_to_virt = (\<lambda>a. a)\<rparr>"

definition ex_work :: nv_dbell_resolve_work where
  "ex_work = \<lparr>wk_ptr = 0x7000, wk_entry = 0, wk_sp = 0\<rparr>"

definition ex_pending :: dbell_state where
  "ex_pending = ex_tracked\<lparr>g_dbell_cache := cache_reserved 5 1 0x100 # replicate 79 cache_zero, q_list := [ex_work]\<rparr>"

lemma ex_offset_kva:
  assumes "g_bar1_tracked st = g_bar1_tracked ex_tracked"
  shows "nv_dbell_bar1_offset_kva 0x3000 0x200 st = 0xffffc90000003000"
proof -
  have "foldl (offset_kva_step 0x3000 0x200) acc (replicate n bar1_free) = acc" for acc n
    by (induction n) (simp_all add: offset_kva_step_def bar1_free_def Let_def)
  then show ?thesis
    by (simp add: nv_dbell_bar1_offset_kva_def assms ex_tracked_table offset_kva_step_def bar1_entry_def
        ex_vma_def Let_def)
qed

lemma ex_resolve:
  "\<exists>out st1. resolve_begin ex_rm g_dbellGpfifoTable ex_work ex_pending = (0, out, 0xffffc90000003000, 0, st1)"
proof -
  obtain out st1 where r: "rm_gpu_ops_dbell_resolve_channel ex_rm g_dbellGpfifoTable 0x100 5 1 ex_pending
      = (0, out, st1)" "ro_userd_kva out = 0" "ro_addrspace out = 2" "ro_userd_phys out = 0x3000"
      "ro_userd_size out = 0x200" "ro_gpfifo_gpu_va out = 0"
    by (auto simp: rm_gpu_ops_dbell_resolve_channel_def nvGpuOpsDbellResolveChannel_def resolve_locked_def
        dbellResolveGpfifo_def dbellResolveUserd_def lookup_empty ex_rm_def resolve_zero_def Let_def)
  have "g_bar1_tracked st1 = g_bar1_tracked ex_tracked"
    using resolve_channel_frame(1) [OF r(1)] by (simp add: same_tables_def ex_pending_def)
  from ex_offset_kva [OF this] r show ?thesis
    by (simp add: resolve_begin_def ex_pending_def ex_work_def cache_reserved_def resolve_userd_def
        resolve_gpfifo_def Let_def)
qed

theorem resolve_remove_race_witness:
  "\<exists>status out u g st1. resolve_begin ex_rm g_dbellGpfifoTable ex_work ex_pending = (status, out, u, g, st1)
     \<and> cache_points_into 0xffffc90000000000 0xffffc90000200000
         (g_dbell_cache (resolve_publish ex_work status out u g (nv_dbell_bar1_track_remove 0x1000 st1)) ! 0)"
proof -
  obtain out st1 where b:
    "resolve_begin ex_rm g_dbellGpfifoTable ex_work ex_pending = (0, out, 0xffffc90000003000, 0, st1)"
    using ex_resolve by blast
  have "slot_clear (\<lambda>e. b1_vma e = 0x1000) (\<lambda>_. bar1_free) (g_bar1_tracked ex_pending) =
      Some (0, bar1_entry ex_vma 0x1fc022000000 0x200000 0xffffc90000000000, replicate 16 bar1_free)"
    by (simp add: ex_pending_def ex_tracked_table slot_clear_def bar1_entry_def ex_vma_def replicate_16)
  from resolve_remove_race [OF b this] b show ?thesis
    by (simp add: bar1_entry_def bar1_size_def ex_work_def ex_pending_def)
qed

section \<open>What a worker run releases\<close>

text \<open>
  One run of the worker releases what it holds, on every path of the resolver: the resource
  manager's locks are taken and released in pairs, and the work item and its stack are freed
  exactly once.
\<close>

theorem worker_effects:
  assumes "q_list st = w # ws" "wk_ptr w \<noteq> 0"
  shows "\<exists>locks. effects (q_worker env T st) =
      effects st @ locks @ on_stack Free_stack (wk_sp w) @ [Kfree (wk_ptr w)]
    \<and> (locks = [] \<or> (\<exists>g. locks = [Rm_lock g, Rm_unlock g]))"
proof -
  obtain status out u g st1 where b: "resolve_begin env T w (st\<lparr>q_list := ws\<rparr>) = (status, out, u, g, st1)"
    by (metis prod_cases5)
  then have "q_worker env T st = resolve_publish w status out u g st1"
    using assms by (simp add: q_worker_def nv_dbell_resolve_fn_def)
  with resolve_begin_frame(2) [OF b] assms(2) show ?thesis by (auto simp: resolve_publish_sel)
qed

theorem worker_effects_witness:
  "\<exists>locks. effects (q_worker ex_rm g_dbellGpfifoTable ex_pending) =
      effects ex_pending @ locks @ [Kfree 0x7000]"
  using worker_effects [of ex_pending ex_work "[]" ex_rm g_dbellGpfifoTable]
  by (auto simp: ex_pending_def ex_work_def on_stack_def)

end
