(* ===== verification/Dbell_Handler.thy ===== *)
theory Dbell_Handler
  imports Dbell_Safety
begin

text \<open>
  The \<^verbatim>\<open>#DB\<close> handler of \<^verbatim>\<open>nv-doorbell-watch.c\<close>: it reads the doorbell token from the shadow page,
  decodes the submission that the token publishes, emits the pushbuffer bytes in hexadecimal and
  forwards the token to the real doorbell.  Memory is read through a byte function; the GPFIFO entry
  encoders of the UVM driver (\<^verbatim>\<open>uvm_hopper_host.c\<close>, \<^verbatim>\<open>uvm_turing_host.c\<close>) are modelled beside the
  decoder.
\<close>

section \<open>The watched mapping's context\<close>

record nv_dbell_ctx =
  cx_ptr :: ptr
  cx_slot_idx :: nat
  cx_bp_events :: "ptr list"
  cx_nv :: ptr
  cx_shadow_page :: ptr
  cx_shadow_kva :: ptr
  cx_user_va :: u64
  cx_doorbell_iomap :: ptr
  cx_bp_count :: u32

abbreviation (input) NV_DBELL_OFFSET :: u64 where "NV_DBELL_OFFSET \<equiv> 0x90"

section \<open>Hexadecimal bytes\<close>

definition hex_digit :: "u8 \<Rightarrow> char" where
  "hex_digit d = ''0123456789abcdef'' ! unat d"

definition hex_byte :: "u8 \<Rightarrow> string" where
  "hex_byte b = [hex_digit (drop_bit 4 b AND 0xf), hex_digit (b AND 0xf)]"

definition hex_of :: "u8 list \<Rightarrow> string" where
  "hex_of bs = concat (map hex_byte bs)"

definition mem_bytes :: "memory \<Rightarrow> ptr \<Rightarrow> nat \<Rightarrow> nat \<Rightarrow> u8 list" where
  "mem_bytes m p off n = map (\<lambda>k. m (p + of_nat (off + k))) [0..<n]"

text \<open>
  The chunk loop: 64 bytes per record.  The offsets are natural numbers; the caller has checked
  that there are at most 4096 bytes, so the 32-bit counters of the code do not wrap.
\<close>

function emit_chunks ::
  "memory \<Rightarrow> ptr \<Rightarrow> nat \<Rightarrow> fields \<Rightarrow> nat \<Rightarrow> nat \<Rightarrow> dbell_state \<Rightarrow> dbell_state" where
  "emit_chunks m pb_kva pb_bytes who off ck st =
     (if off < pb_bytes then
        let this_len = (if pb_bytes - off < 64 then pb_bytes - off else 64);
            hex = hex_of (mem_bytes m pb_kva off this_len) in
        emit_chunks m pb_kva pb_bytes who (off + 64) (ck + 1)
          (MC_TRACE pb ''bytes'' (who @ [(''chunk'', N (of_nat ck)),
              (''nchunks'', N (of_nat ((pb_bytes + 63) div 64))), (''off'', N (of_nat off)), (''hex'', S hex)]) st)
      else st)"
  by auto
termination
  by (relation "measure (\<lambda>(m, k, n, w, off, ck, st). n - off)") auto

declare emit_chunks.simps [simp del]

section \<open>The GPFIFO entry\<close>

text \<open>Entry words to pushbuffer address and length in dwords.\<close>

definition gp_entry_va :: "u32 \<Rightarrow> u32 \<Rightarrow> u64" where
  "gp_entry_va e0 e1 = push_bit 32 (ucast (e1 AND 0xFF)) OR ucast (e0 AND 0xFFFFFFFC)"

definition gp_entry_dwords :: "u32 \<Rightarrow> u32" where
  "gp_entry_dwords e1 = drop_bit 10 e1 AND 0x1FFFFF"

text \<open>\<^verbatim>\<open>DRF_NUM\<close> for a field \<open>hi:lo\<close>: the value cut to the field's width and moved to its place.\<close>

definition DRF_NUM :: "nat \<Rightarrow> nat \<Rightarrow> u32 \<Rightarrow> u32" where
  "DRF_NUM hi lo v = push_bit lo (v AND mask (hi - lo + 1))"

text \<open>Low and high half of the entry that Turing to Ampere hosts write.\<close>

definition uvm_hal_turing_host_set_gpfifo_entry :: "u64 \<Rightarrow> u32 \<Rightarrow> bool \<Rightarrow> u64" where
  "uvm_hal_turing_host_set_gpfifo_entry pushbuffer_va pushbuffer_length wait =
     ucast (DRF_NUM 31 2 (drop_bit 2 (ucast pushbuffer_va)))
     OR push_bit 32 (ucast (DRF_NUM 7 0 (ucast (drop_bit 32 pushbuffer_va))
          OR DRF_NUM 30 10 (drop_bit 2 pushbuffer_length)
          OR DRF_NUM 31 31 (if wait then 1 else 0)))"

text \<open>Hopper keeps the low 40 bits; the upper bits go into a control entry of their own.\<close>

definition uvm_hal_hopper_host_set_gpfifo_entry :: "u64 \<Rightarrow> u32 \<Rightarrow> bool \<Rightarrow> u64" where
  "uvm_hal_hopper_host_set_gpfifo_entry pushbuffer_va pushbuffer_length wait =
     (let va = pushbuffer_va AND (push_bit 40 1 - 1) in
      ucast (DRF_NUM 31 2 (drop_bit 2 (ucast va)))
      OR push_bit 32 (ucast (DRF_NUM 7 0 (ucast (drop_bit 32 va))
           OR DRF_NUM 30 10 (drop_bit 2 pushbuffer_length)
           OR DRF_NUM 31 31 (if wait then 1 else 0))))"

definition uvm_hal_hopper_host_set_gpfifo_pushbuffer_segment_base :: "u64 \<Rightarrow> u64" where
  "uvm_hal_hopper_host_set_gpfifo_pushbuffer_segment_base pushbuffer_va =
     ucast (DRF_NUM 24 8 (ucast (drop_bit 40 pushbuffer_va))) OR push_bit 32 (ucast (DRF_NUM 7 0 4))"

section \<open>The handler\<close>

text \<open>The part under \<^verbatim>\<open>pb_bytes > 0 && pb_bytes <= 4096\<close>: look the bytes up and emit them.\<close>

definition handler_bytes ::
  "memory \<Rightarrow> fields \<Rightarrow> u64 \<Rightarrow> u32 \<Rightarrow> dbell_state \<Rightarrow> dbell_state" where
  "handler_bytes m who pb_va pb_bytes st =
     (if pb_bytes > 0 \<and> pb_bytes \<le> 4096 then
        let pb_kva = nv_dbell_sysmem_gpu_va_to_kva pb_va (ucast pb_bytes) st in
        if pb_kva \<noteq> 0 then emit_chunks m pb_kva (unat pb_bytes) who 0 0 st
        else MC_TRACE pb ''bytes_miss'' (who @ [(''pb_va'', N pb_va), (''pb_len'', N (ucast pb_bytes))]) st
      else st)"

text \<open>The decode of the newest GPFIFO entry of cache entry \<open>i\<close>, with the dedup cursor.\<close>

definition handler_gpfifo ::
  "memory \<Rightarrow> u32 \<Rightarrow> u32 \<Rightarrow> u32 \<Rightarrow> nat \<Rightarrow> dbell_state \<Rightarrow> dbell_state" where
  "handler_gpfifo m seq chid gp_put i st =
     (let cache = g_dbell_cache st ! i in
      if ce_gpfifo_kva cache \<noteq> 0 \<and> ce_gpfifo_entries cache > 0 then
        let entries_mask = ce_gpfifo_entries cache - 1;
            idx = (gp_put - 1) AND entries_mask;
            ring = ce_gpfifo_kva cache;
            e0 = rd32 m (ring + 4 * (ucast (idx * 2)));
            e1 = rd32 m (ring + 4 * (ucast (idx * 2 + 1)));
            pb_va = gp_entry_va e0 e1;
            pb_bytes = gp_entry_dwords e1 * 4;
            who = [(''seq'', N (ucast seq)), (''chid'', N (ucast chid)), (''idx'', N (ucast idx))];
            st1 = MC_TRACE pb ''submit'' (who @ [(''entry0'', N (ucast e0)), (''entry1'', N (ucast e1)),
                    (''pb_va'', N pb_va), (''pb_len'', N (ucast pb_bytes))]) st in
        if ce_last_pb_bytes_idx cache \<noteq> idx \<or> ce_last_pb_bytes_va cache \<noteq> pb_va then
          handler_bytes m who pb_va pb_bytes
            (st1\<lparr>g_dbell_cache := (g_dbell_cache st1)[i :=
               cache\<lparr>ce_last_pb_bytes_idx := idx, ce_last_pb_bytes_va := pb_va\<rparr>]\<rparr>)
        else st1
      else st)"

definition handler_resolved :: "memory \<Rightarrow> u32 \<Rightarrow> u32 \<Rightarrow> u32 \<Rightarrow> nat \<Rightarrow> dbell_state \<Rightarrow> dbell_state" where
  "handler_resolved m seq chid runlist i st =
     (let cache = g_dbell_cache st ! i in
      if ce_userd_kva cache \<noteq> 0 then
        let gp_put = rd32 m (ce_userd_kva cache + 0x8c) in
        handler_gpfifo m seq chid gp_put i
          (MC_TRACE dbell ''gp_put'' [(''seq'', N (ucast seq)), (''chid'', N (ucast chid)),
             (''runlist'', N (ucast runlist)), (''gp_put'', N (ucast gp_put))] st)
      else st)"

definition handler_lookup ::
  "enq_env \<Rightarrow> memory \<Rightarrow> ptr \<Rightarrow> u32 \<Rightarrow> u32 \<Rightarrow> u32 \<Rightarrow> dbell_state \<Rightarrow> dbell_state" where
  "handler_lookup env m nv seq chid runlist st =
     (let who = [(''seq'', N (ucast seq)), (''chid'', N (ucast chid)), (''runlist'', N (ucast runlist))];
          tr = (\<lambda>s st. MC_TRACE dbell ''cache'' ((''state'', S s) # who) st) in
      case nv_dbell_cache_find chid runlist st of
        None \<Rightarrow>
          tr ''pending_init''
            (case nv_dbell_cache_reserve chid runlist nv st of
               (None, st1) \<Rightarrow> st1
             | (Some i, st1) \<Rightarrow> nv_dbell_try_enqueue_resolve env i (tr ''reserve'' st1))
      | Some i \<Rightarrow>
          (let state = ce_state (g_dbell_cache st ! i) in
           if state = NV_DBELL_CACHE_RESOLVED then handler_resolved m seq chid runlist i st
           else if state = NV_DBELL_CACHE_PENDING then tr ''pending_in_flight'' st
           else tr ''failed'' st))"

definition token_chid :: "u32 \<Rightarrow> u32" where "token_chid token = token AND 0xfff"
definition token_runlist :: "u32 \<Rightarrow> u32" where "token_runlist token = drop_bit 16 token AND 0x7f"

definition nv_dbell_db_handler ::
  "enq_env \<Rightarrow> memory \<Rightarrow> nv_dbell_ctx option \<Rightarrow> dbell_state \<Rightarrow> nv_dbell_ctx option \<times> dbell_state" where
  "nv_dbell_db_handler env m ctx st =
     (case ctx of
        None \<Rightarrow> (None, st)
      | Some c \<Rightarrow>
          if cx_shadow_kva c = 0 then (Some c, st)
          else
            let token = rd32 m (cx_shadow_kva c + NV_DBELL_OFFSET);
                chid = token_chid token;
                runlist = token_runlist token;
                seq = g_dbell_seq st + 1;
                st1 = MC_TRACE dbell ''fire''
                        [(''seq'', N (ucast seq)), (''slot'', N (of_nat (cx_slot_idx c))),
                         (''token'', N (ucast token)), (''chid'', N (ucast chid)), (''runlist'', N (ucast runlist))]
                        (st\<lparr>g_dbell_seq := seq\<rparr>);
                st2 = handler_lookup env m (cx_nv c) seq chid runlist st1;
                st3 = (if cx_doorbell_iomap c \<noteq> 0 then klog (Writel token (cx_doorbell_iomap c)) st2
                       else MC_TRACE dbell ''no_iomap'' [(''seq'', N (ucast seq))] st2) in
            (Some (c\<lparr>cx_bp_count := cx_bp_count c + 1\<rparr>), st3))"

section \<open>Encoding and decoding entries\<close>

lemma mask_constants:
  "(0xFFFFFFFC :: u32) = NOT (mask 2)" "(0x1FFFFF :: u32) = mask 21" "(0xFF :: u32) = mask 8"
  by (simp_all add: mask_eq_exp_minus_1)

lemma bit_gp_entry_va:
  "bit (gp_entry_va e0 e1) n \<longleftrightarrow> 2 \<le> n \<and> n < 32 \<and> bit e0 n \<or> 32 \<le> n \<and> n < 40 \<and> bit e1 (n - 32)"
  by (auto simp: gp_entry_va_def mask_constants bit_simps)

lemma bit_gp_entry_dwords: "bit (gp_entry_dwords e1) n \<longleftrightarrow> n < 21 \<and> bit e1 (n + 10)"
  by (auto simp: gp_entry_dwords_def mask_constants bit_simps add.commute)

definition gp_word1 :: "u64 \<Rightarrow> u32 \<Rightarrow> u32 \<Rightarrow> u32" where
  "gp_word1 va l w = DRF_NUM 7 0 (ucast (drop_bit 32 va)) OR DRF_NUM 30 10 l OR DRF_NUM 31 31 w"

lemma bit_gp_word1:
  "bit (gp_word1 va l w) n \<longleftrightarrow> n < 8 \<and> bit va (n + 32) \<or> 10 \<le> n \<and> n < 31 \<and> bit l (n - 10) \<or> n = 31 \<and> bit w 0"
  by (auto simp: gp_word1_def DRF_NUM_def bit_simps add.commute)

lemma entry_words:
  fixes va :: u64 and x :: u32
  shows "bit (ucast (ucast (DRF_NUM 31 2 (drop_bit 2 (ucast va))) OR push_bit 32 (ucast x) :: u64) :: u32) n
      \<longleftrightarrow> 2 \<le> n \<and> n < 32 \<and> bit va n"
    and "ucast (drop_bit 32 (ucast (DRF_NUM 31 2 (drop_bit 2 (ucast va))) OR push_bit 32 (ucast x) :: u64)) = x"
proof -
  have "2 \<le> k \<Longrightarrow> Suc (Suc (k - 2)) = k" for k :: nat by simp
  then show "bit (ucast (ucast (DRF_NUM 31 2 (drop_bit 2 (ucast va))) OR push_bit 32 (ucast x) :: u64) :: u32) n
      \<longleftrightarrow> 2 \<le> n \<and> n < 32 \<and> bit va n"
    by (auto simp: DRF_NUM_def bit_simps)
qed (auto simp: DRF_NUM_def bit_simps intro!: bit_word_eqI)

lemma low_bits_clear: "(va :: u64) AND 3 = 0 \<Longrightarrow> bit va n \<Longrightarrow> 2 \<le> n"
proof (rule ccontr)
  assume "va AND 3 = 0" "bit va n" "\<not> 2 \<le> n"
  then have "bit (va AND mask 2) n" by (simp add: bit_simps)
  moreover have "va AND mask 2 = 0" using \<open>va AND 3 = 0\<close> by (simp add: mask_eq_exp_minus_1)
  ultimately show False by simp
qed

lemma hopper_entry_decodes:
  assumes "va AND 3 = 0" "unat len < 2 ^ 23"
  shows "let entry = uvm_hal_hopper_host_set_gpfifo_entry va len wait;
             e0 = ucast entry; e1 = ucast (drop_bit 32 entry)
         in gp_entry_va e0 e1 = va AND mask 40 \<and> gp_entry_dwords e1 = drop_bit 2 len"
proof -
  let ?va = "va AND mask 40" and ?w = "if wait then 1 else 0 :: u32"
  let ?x = "gp_word1 ?va (drop_bit 2 len) ?w"
  have enc: "uvm_hal_hopper_host_set_gpfifo_entry va len wait =
      ucast (DRF_NUM 31 2 (drop_bit 2 (ucast ?va))) OR push_bit 32 (ucast ?x)"
    by (simp add: uvm_hal_hopper_host_set_gpfifo_entry_def gp_word1_def mask_eq_exp_minus_1 Let_def)
  have small: "bit len (n + 2) \<Longrightarrow> n < 21" for n
  proof -
    assume *: "bit len (n + 2)"
    have "take_bit 23 len = len"
      using assms(2) by (simp add: word_eq_iff_unsigned [where 'a = nat] unsigned_take_bit_eq take_bit_nat_eq_self)
    then have "bit (take_bit 23 len) (n + 2)" using * by simp
    then show "n < 21" by (simp only: bit_take_bit_iff) simp
  qed
  have "gp_entry_va (ucast (uvm_hal_hopper_host_set_gpfifo_entry va len wait)) ?x = ?va"
  proof (rule bit_word_eqI)
    fix n
    assume "n < LENGTH(64)"
    show "bit (gp_entry_va (ucast (uvm_hal_hopper_host_set_gpfifo_entry va len wait)) ?x) n = bit ?va n"
      using low_bits_clear [OF assms(1), of n]
      unfolding enc bit_gp_entry_va entry_words(1) bit_gp_word1
      by (cases "n < 32") (auto simp: bit_and_iff bit_mask_iff)
  qed
  moreover have "gp_entry_dwords ?x = drop_bit 2 len"
    by (rule bit_word_eqI) (auto simp: bit_gp_entry_dwords bit_gp_word1 bit_simps dest: small [simplified])
  moreover have "ucast (drop_bit 32 (uvm_hal_hopper_host_set_gpfifo_entry va len wait)) = ?x"
    unfolding enc by (rule entry_words(2))
  ultimately show ?thesis by (simp only: Let_def simp_thms)
qed

text \<open>
  The handler's decoder inverts the UVM driver's Hopper encoder: for a pushbuffer whose address
  is 4-byte aligned and whose length fits the field, the entry decodes to the low 40 bits of the
  address and to the length in dwords, whatever the synchronisation flag.
\<close>

theorem gpfifo_entry_roundtrip:
  assumes "va AND 3 = 0" "unat len < 2 ^ 23"
  shows "let entry = uvm_hal_hopper_host_set_gpfifo_entry va len wait;
             e0 = ucast entry; e1 = ucast (drop_bit 32 entry)
         in gp_entry_va e0 e1 = va AND mask 40 \<and> gp_entry_dwords e1 = drop_bit 2 len"
  using assms by (rule hopper_entry_decodes)

theorem gpfifo_entry_roundtrip_witness:
  "let entry = uvm_hal_hopper_host_set_gpfifo_entry 0x2004a0010 0x140 True;
       e0 = ucast entry; e1 = ucast (drop_bit 32 entry)
   in gp_entry_va e0 e1 = 0x2004a0010 \<and> gp_entry_dwords e1 = 0x50"
  using gpfifo_entry_roundtrip [of "0x2004a0010" "0x140" True] by (simp add: mask_eq_exp_minus_1)

text \<open>The two hosts write the same entry: the field widths cut the address to the same 40 bits.\<close>

lemma turing_entry_eq_hopper:
  "uvm_hal_turing_host_set_gpfifo_entry va len wait = uvm_hal_hopper_host_set_gpfifo_entry va len wait"
proof -
  have "ucast (va AND mask 40) = (ucast va :: u32)"
    "DRF_NUM 7 0 (ucast (drop_bit 32 (va AND mask 40))) = DRF_NUM 7 0 (ucast (drop_bit 32 va))"
    by (auto simp: DRF_NUM_def bit_simps intro!: bit_word_eqI)
  then show ?thesis
    by (simp add: uvm_hal_turing_host_set_gpfifo_entry_def uvm_hal_hopper_host_set_gpfifo_entry_def
        mask_eq_exp_minus_1 Let_def)
qed

end
