(* ===== verification/Dbell_Handler_Props.thy ===== *)
theory Dbell_Handler_Props
  imports Dbell_Handler
begin

text \<open>
  What the doorbell handler does: it always forwards the token, keeps the cache invariants, reads
  only memory it may read, and emits hexadecimal records that decode to the pushbuffer's bytes.
\<close>

section \<open>What the handler leaves alone\<close>

lemma emit_chunks_frame:
  "same_tables st (emit_chunks m k n who off ck st)" "effects (emit_chunks m k n who off ck st) = effects st"
proof -
  have "same_tables st' st \<longrightarrow> same_tables st' (emit_chunks m k n who off ck st)
      \<and> effects (emit_chunks m k n who off ck st) = effects st" for st'
  proof (induction m k n who off ck st rule: emit_chunks.induct)
    case (1 m k n who off ck st)
    then show ?case
      by (cases "off < n") (simp_all add: emit_chunks.simps [of m k n who off ck st] Let_def)
  qed
  then show "same_tables st (emit_chunks m k n who off ck st)"
    "effects (emit_chunks m k n who off ck st) = effects st" by auto
qed

lemma handler_bytes_frame:
  "same_tables st (handler_bytes m who va n st)" "effects (handler_bytes m who va n st) = effects st"
  by (simp_all add: handler_bytes_def emit_chunks_frame Let_def)

text \<open>The decode writes nothing but the dedup cursor of the entry it looked at.\<close>

lemma handler_gpfifo_frame:
  "effects (handler_gpfifo m seq chid gp i st) = effects st"
  "\<exists>ix va. g_dbell_cache (handler_gpfifo m seq chid gp i st) = g_dbell_cache st
     \<or> g_dbell_cache (handler_gpfifo m seq chid gp i st) =
        (g_dbell_cache st)[i := (g_dbell_cache st ! i)\<lparr>ce_last_pb_bytes_idx := ix, ce_last_pb_bytes_va := va\<rparr>]"
  "same_tables st (handler_gpfifo m seq chid gp i st\<lparr>g_dbell_cache := g_dbell_cache st\<rparr>)"
  using handler_bytes_frame(1)
  by (auto simp: handler_gpfifo_def handler_bytes_frame(2) Let_def same_tables_def)

lemma handler_resolved_frame:
  "effects (handler_resolved m seq chid rl i st) = effects st"
  "\<exists>ix va. g_dbell_cache (handler_resolved m seq chid rl i st) = g_dbell_cache st
     \<or> g_dbell_cache (handler_resolved m seq chid rl i st) =
        (g_dbell_cache st)[i := (g_dbell_cache st ! i)\<lparr>ce_last_pb_bytes_idx := ix, ce_last_pb_bytes_va := va\<rparr>]"
  "same_tables st (handler_resolved m seq chid rl i st\<lparr>g_dbell_cache := g_dbell_cache st\<rparr>)"
proof -
  let ?u = "ce_userd_kva (g_dbell_cache st ! i)"
  let ?gp = "rd32 m (?u + 0x8c)"
  let ?st1 = "MC_TRACE dbell ''gp_put'' [(''seq'', N (ucast seq)), (''chid'', N (ucast chid)),
     (''runlist'', N (ucast rl)), (''gp_put'', N (ucast ?gp))] st"
  have eq: "handler_resolved m seq chid rl i st =
      (if ?u \<noteq> 0 then handler_gpfifo m seq chid ?gp i ?st1 else st)"
    by (simp add: handler_resolved_def Let_def)
  show "effects (handler_resolved m seq chid rl i st) = effects st"
    by (simp add: eq handler_gpfifo_frame(1))
  show "\<exists>ix va. g_dbell_cache (handler_resolved m seq chid rl i st) = g_dbell_cache st
     \<or> g_dbell_cache (handler_resolved m seq chid rl i st) =
        (g_dbell_cache st)[i := (g_dbell_cache st ! i)\<lparr>ce_last_pb_bytes_idx := ix, ce_last_pb_bytes_va := va\<rparr>]"
    using handler_gpfifo_frame(2) [where m = m and st = ?st1 and gp = ?gp] by (simp add: eq)
  show "same_tables st (handler_resolved m seq chid rl i st\<lparr>g_dbell_cache := g_dbell_cache st\<rparr>)"
    using handler_gpfifo_frame(3) [where m = m and st = ?st1 and gp = ?gp] by (simp add: eq same_tables_def)
qed

section \<open>The invariants\<close>

text \<open>Moving the dedup cursor of an entry changes neither its key nor its state.\<close>

lemma cache_ok_cursor:
  assumes "cache_ok C Q"
  shows "cache_ok (C[i := (C ! i)\<lparr>ce_last_pb_bytes_idx := ix, ce_last_pb_bytes_va := va\<rparr>]) Q"
proof (cases "i < length C \<and> ce_state (C ! i) \<noteq> 0")
  case True
  with assms show ?thesis
    by (intro cache_ok_touch) (auto simp: ce_key_def dest: cache_okD(3) [OF assms])
next
  case False
  show ?thesis
  proof (cases "i < length C")
    case True
    with False assms show ?thesis by (intro cache_ok_touch) auto
  qed (use assms in \<open>simp add: list_update_beyond\<close>)
qed

lemma resolved_ok_cursor:
  assumes "resolved_ok X st" "g_bar1_tracked st' = g_bar1_tracked st" "i < length (g_dbell_cache st)"
    and "g_dbell_cache st' = (g_dbell_cache st)[i := (g_dbell_cache st ! i)
           \<lparr>ce_last_pb_bytes_idx := ix, ce_last_pb_bytes_va := va\<rparr>]"
  shows "resolved_ok X st'"
  using assms(1)
proof (rule resolved_okI)
  show "in_bar1 st p n \<Longrightarrow> in_bar1 st' p n" for p n using in_bar1_cong [OF assms(2)] by simp
  fix e
  assume e: "e \<in> set (g_dbell_cache st')" "ce_state e = 2"
  let ?e = "(g_dbell_cache st ! i)\<lparr>ce_last_pb_bytes_idx := ix, ce_last_pb_bytes_va := va\<rparr>"
  from e(1) have "e = ?e \<or> e \<in> set (g_dbell_cache st)"
    using assms(4) set_update_subset_insert [of "g_dbell_cache st" i ?e] by auto
  then show "\<exists>e0 \<in> set (g_dbell_cache st). ce_state e0 = 2 \<and> ce_userd_kva e0 = ce_userd_kva e
      \<and> ce_gpfifo_kva e0 = ce_gpfifo_kva e \<and> ce_gpfifo_entries e0 = ce_gpfifo_entries e"
  proof
    assume "e = ?e"
    with e(2) assms(3) show ?thesis by (intro bexI [of _ "g_dbell_cache st ! i"]) simp_all
  qed (use e(2) in blast)
qed

lemma handler_lookup_inv:
  assumes "cache_inv st"
  shows "cache_inv (handler_lookup env m nv seq chid runlist st)"
    and "resolved_ok X st \<Longrightarrow> resolved_ok X (handler_lookup env m nv seq chid runlist st)"
    and "g_bar1_tracked (handler_lookup env m nv seq chid runlist st) = g_bar1_tracked st"
    and "g_sysmem_tracked (handler_lookup env m nv seq chid runlist st) = g_sysmem_tracked st"
proof -
  let ?st' = "handler_lookup env m nv seq chid runlist st"
  have "cache_inv ?st' \<and> (resolved_ok X st \<longrightarrow> resolved_ok X ?st')
      \<and> g_bar1_tracked ?st' = g_bar1_tracked st \<and> g_sysmem_tracked ?st' = g_sysmem_tracked st"
  proof (cases "nv_dbell_cache_find chid runlist st")
    case None
    show ?thesis
    proof (cases rule: cache_reserve_cases [of chid runlist nv st])
      case full
      with None assms show ?thesis
        by (auto simp: handler_lookup_def Let_def elim: resolved_ok_same)
    next
      case (slot i)
      define st1 where "st1 = MC_TRACE dbell ''cache'' [(''state'', S ''reserve''), (''seq'', N (ucast seq)),
          (''chid'', N (ucast chid)), (''runlist'', N (ucast runlist))]
        (st\<lparr>g_dbell_cache := (g_dbell_cache st)[i := cache_reserved chid runlist nv]\<rparr>)"
      define st2 where "st2 = nv_dbell_try_enqueue_resolve env i st1"
      have eq: "?st' = MC_TRACE dbell ''cache'' [(''state'', S ''pending_init''), (''seq'', N (ucast seq)),
          (''chid'', N (ucast chid)), (''runlist'', N (ucast runlist))] st2"
        using None slot(3) by (simp add: handler_lookup_def st1_def st2_def Let_def)
      have "cache_inv st2" unfolding st2_def
        by (rule cache_inv_reserve_enqueue [OF assms None slot(1,2)]) (simp_all add: st1_def)
      moreover have "resolved_ok X st \<longrightarrow> resolved_ok X st2" unfolding st2_def
        using resolved_ok_reserve_enqueue [of X st st1 i chid runlist nv env] slot(1) by (simp add: st1_def)
      ultimately show ?thesis
        by (auto simp: eq st2_def st1_def elim: resolved_ok_same)
    qed
  next
    case (Some i)
    note F = cache_find_Some [OF Some]
    show ?thesis
    proof (cases "ce_state (g_dbell_cache st ! i) = 2")
      case True
      then have eq: "?st' = handler_resolved m seq chid runlist i st"
        using Some by (simp add: handler_lookup_def Let_def)
      note fr = handler_resolved_frame [where m = m and seq = seq and chid = chid and rl = runlist
          and i = i and st = st, folded eq]
      have t: "g_bar1_tracked ?st' = g_bar1_tracked st" "g_sysmem_tracked ?st' = g_sysmem_tracked st"
        "q_list ?st' = q_list st"
        using fr(3) by (simp_all add: same_tables_def)
      from fr(2) obtain ix va where "g_dbell_cache ?st' = g_dbell_cache st \<or> g_dbell_cache ?st' =
          (g_dbell_cache st)[i := (g_dbell_cache st ! i)\<lparr>ce_last_pb_bytes_idx := ix, ce_last_pb_bytes_va := va\<rparr>]"
        by blast
      then show ?thesis
      proof
        assume c: "g_dbell_cache ?st' = g_dbell_cache st"
        then show ?thesis using assms t resolved_ok_same [OF _ c t(1)] by (simp add: cache_inv_def)
      next
        assume c: "g_dbell_cache ?st' =
          (g_dbell_cache st)[i := (g_dbell_cache st ! i)\<lparr>ce_last_pb_bytes_idx := ix, ce_last_pb_bytes_va := va\<rparr>]"
        then show ?thesis
          using assms t resolved_ok_cursor [OF _ t(1) F(1) c] cache_ok_cursor [of "g_dbell_cache st"]
          by (simp add: cache_inv_def)
      qed
    next
      case False
      with Some assms show ?thesis
        by (auto simp: handler_lookup_def Let_def elim: resolved_ok_same)
    qed
  qed
  then show "cache_inv ?st'" "resolved_ok X st \<Longrightarrow> resolved_ok X ?st'"
    "g_bar1_tracked ?st' = g_bar1_tracked st" "g_sysmem_tracked ?st' = g_sysmem_tracked st" by blast+
qed

section \<open>Forwarding\<close>

definition is_writel :: "kevent \<Rightarrow> bool" where
  "is_writel e = (case e of Writel _ _ \<Rightarrow> True | _ \<Rightarrow> False)"

lemma handler_lookup_effects:
  "\<exists>evs. effects (handler_lookup env m nv seq chid runlist st) = effects st @ evs
     \<and> (\<forall>e \<in> set evs. \<not> is_writel e)"
proof (cases "nv_dbell_cache_find chid runlist st")
  case None
  show ?thesis
  proof (cases rule: cache_reserve_cases [of chid runlist nv st])
    case full
    with None show ?thesis by (simp add: handler_lookup_def Let_def)
  next
    case (slot i)
    with None show ?thesis
      by (auto simp: handler_lookup_def Let_def enqueue_effects on_stack_def is_writel_def)
  qed
next
  case (Some i)
  then show ?thesis by (simp add: handler_lookup_def handler_resolved_frame(1) Let_def)
qed

text \<open>
  C2.  The trap never costs the GPU a doorbell.  Whatever the cache holds and whatever memory
  contains, a handler run on a context with a shadow page and a doorbell mapping ends with exactly
  one MMIO write: the token that the shadow page holds, to the real doorbell, after everything else.
\<close>

theorem handler_forwards:
  assumes "cx_shadow_kva c \<noteq> 0" "cx_doorbell_iomap c \<noteq> 0"
  shows "\<exists>evs. effects (snd (nv_dbell_db_handler env m (Some c) st)) =
      effects st @ evs @ [Writel (rd32 m (cx_shadow_kva c + 0x90)) (cx_doorbell_iomap c)]
    \<and> (\<forall>e \<in> set evs. \<not> is_writel e)"
proof -
  let ?tok = "rd32 m (cx_shadow_kva c + 0x90)"
  let ?st1 = "MC_TRACE dbell ''fire'' [(''seq'', N (ucast (g_dbell_seq st + 1))),
      (''slot'', N (of_nat (cx_slot_idx c))), (''token'', N (ucast ?tok)),
      (''chid'', N (ucast (token_chid ?tok))), (''runlist'', N (ucast (token_runlist ?tok)))]
    (st\<lparr>g_dbell_seq := g_dbell_seq st + 1\<rparr>)"
  from handler_lookup_effects [of env m "cx_nv c" "g_dbell_seq st + 1" "token_chid ?tok" "token_runlist ?tok" ?st1]
  show ?thesis using assms by (auto simp: nv_dbell_db_handler_def Let_def)
qed

lemma handler_inv:
  assumes "cache_inv st"
  shows "cache_inv (snd (nv_dbell_db_handler env m ctx st))"
    and "resolved_ok X st \<Longrightarrow> resolved_ok X (snd (nv_dbell_db_handler env m ctx st))"
    and "g_bar1_tracked (snd (nv_dbell_db_handler env m ctx st)) = g_bar1_tracked st"
    and "g_sysmem_tracked (snd (nv_dbell_db_handler env m ctx st)) = g_sysmem_tracked st"
proof -
  let ?st' = "snd (nv_dbell_db_handler env m ctx st)"
  have "cache_inv ?st' \<and> (resolved_ok X st \<longrightarrow> resolved_ok X ?st')
      \<and> g_bar1_tracked ?st' = g_bar1_tracked st \<and> g_sysmem_tracked ?st' = g_sysmem_tracked st"
  proof (cases "ctx = None \<or> cx_shadow_kva (the ctx) = 0")
    case True
    with assms show ?thesis by (auto simp: nv_dbell_db_handler_def split: option.splits)
  next
    case False
    then obtain c where c: "ctx = Some c" "cx_shadow_kva c \<noteq> 0" by auto
    let ?tok = "rd32 m (cx_shadow_kva c + 0x90)"
    define st1 where "st1 = MC_TRACE dbell ''fire'' [(''seq'', N (ucast (g_dbell_seq st + 1))),
        (''slot'', N (of_nat (cx_slot_idx c))), (''token'', N (ucast ?tok)),
        (''chid'', N (ucast (token_chid ?tok))), (''runlist'', N (ucast (token_runlist ?tok)))]
      (st\<lparr>g_dbell_seq := g_dbell_seq st + 1\<rparr>)"
    define st2 where
      "st2 = handler_lookup env m (cx_nv c) (g_dbell_seq st + 1) (token_chid ?tok) (token_runlist ?tok) st1"
    have t1: "g_bar1_tracked st1 = g_bar1_tracked st" "g_sysmem_tracked st1 = g_sysmem_tracked st"
      "g_dbell_cache st1 = g_dbell_cache st" "q_list st1 = q_list st" by (simp_all add: st1_def)
    have i1: "cache_inv st1" using assms by (simp add: cache_inv_def t1)
    note L = handler_lookup_inv [OF i1, where env = env and m = m and nv = "cx_nv c"
        and seq = "g_dbell_seq st + 1" and chid = "token_chid ?tok" and runlist = "token_runlist ?tok",
        folded st2_def]
    have eq: "?st' = (if cx_doorbell_iomap c \<noteq> 0 then klog (Writel ?tok (cx_doorbell_iomap c)) st2
        else MC_TRACE dbell ''no_iomap'' [(''seq'', N (ucast (g_dbell_seq st + 1)))] st2)"
      using c by (simp add: nv_dbell_db_handler_def st1_def st2_def Let_def)
    have "resolved_ok X st \<longrightarrow> resolved_ok X st2"
      using L(2) resolved_ok_same [OF _ t1(3,1)] by blast
    moreover have "resolved_ok X st2 \<longrightarrow> resolved_ok X ?st'"
      by (auto simp: eq elim: resolved_ok_same)
    ultimately show ?thesis using L(1,3,4) t1 by (simp add: eq)
  qed
  then show "cache_inv ?st'" "resolved_ok X st \<Longrightarrow> resolved_ok X ?st'"
    "g_bar1_tracked ?st' = g_bar1_tracked st" "g_sysmem_tracked ?st' = g_sysmem_tracked st" by blast+
qed

section \<open>Memory footprint\<close>

definition in_sysmem :: "dbell_state \<Rightarrow> ptr \<Rightarrow> bool" where
  "in_sysmem st a \<longleftrightarrow> (\<exists>e \<in> set (g_sysmem_tracked st). sysmem_usable e
     \<and> unat (sm_kernel_va e) \<le> unat a
     \<and> unat a < unat (sm_kernel_va e) + (unat (sm_user_va_end e) - unat (sm_user_va_start e)))"

definition sysmem_wf :: "dbell_state \<Rightarrow> bool" where
  "sysmem_wf st \<longleftrightarrow> sysmem_ok st \<and> (\<forall>e \<in> set (g_sysmem_tracked st). sm_vma e \<noteq> 0 \<longrightarrow> sysmem_alias_ok e)"

text \<open>
  What a handler run may read: the doorbell dword of the shadow page, the \<^verbatim>\<open>GP_PUT\<close> dword of a USERD
  that the resource manager gave, and the aliases of mappings that are tracked now.
\<close>

definition readable :: "nv_dbell_ctx \<Rightarrow> ptr set \<Rightarrow> dbell_state \<Rightarrow> ptr \<Rightarrow> bool" where
  "readable c X st a \<longleftrightarrow> (\<exists>k < 4. a = cx_shadow_kva c + 0x90 + of_nat k)
     \<or> (\<exists>x \<in> X. \<exists>k < 4. a = x + 0x8c + of_nat k) \<or> in_bar1 st a 1 \<or> in_sysmem st a"

lemma rd32_cong:
  assumes "\<And>k. k < 4 \<Longrightarrow> m (a + of_nat k) = m' (a + of_nat k)"
  shows "rd32 m a = rd32 m' a"
  using assms [of 0] assms [of 1] assms [of 2] assms [of 3] by (simp add: rd32_def)

lemma in_bar1_offset:
  assumes "in_bar1 st p n" "bar1_wf st" "j < n"
  shows "in_bar1 st (p + of_nat j) 1"
proof -
  from assms(1) obtain e where e: "e \<in> set (g_bar1_tracked st)" "b1_vma e \<noteq> 0" "b1_kernel_va e \<noteq> 0"
    "unat (b1_kernel_va e) \<le> unat p" "unat p + n \<le> unat (b1_kernel_va e) + unat (bar1_size e)"
    unfolding in_bar1_def by blast
  have lt: "unat p + j < 2 ^ 64" using bar1_wfD(1) [OF assms(2) e(1,2)] e(5) assms(3) by simp
  then have "unat (p + of_nat j) = unat p + j"
    by (simp add: unat_word_ariths unat_of_nat take_bit_nat_eq_self)
  with e assms(3) show ?thesis unfolding in_bar1_def by (intro bexI [of _ e]) auto
qed

lemma idx_less:
  assumes "(0 :: u32) < n"
  shows "unat ((g - 1) AND (n - 1)) < unat n"
proof -
  have "unat ((g - 1) AND (n - 1)) \<le> unat (n - 1)"
    using word_and_le1 [of "g - 1" "n - 1"] by (simp add: word_le_nat_alt)
  moreover have "unat (n - 1) = unat n - 1"
    using assms by (simp add: unat_sub word_le_nat_alt word_less_nat_alt)
  ultimately show ?thesis using assms by (simp add: word_less_nat_alt)
qed

lemma ring_offset:
  assumes "unat idx < unat n" "d < 2" "k < 4"
  shows "4 * unat (idx * 2 + of_nat d :: u32) + k < 8 * unat n"
proof -
  have "unat (idx * 2 + of_nat d) \<le> 2 * unat idx + d"
    by (simp add: unat_word_ariths unat_of_nat mod_simps mult.commute)
  then show ?thesis using assms by simp
qed

lemma ring_read_cong:
  assumes ib: "in_bar1 st ring (8 * unat n)" and wf: "bar1_wf st" and n: "0 < n"
    and agree: "\<And>a. in_bar1 st a 1 \<Longrightarrow> m a = m' a" and d: "d < 2"
  shows "rd32 m (ring + 4 * ucast (((g - 1) AND (n - 1)) * 2 + of_nat d :: u32))
    = rd32 m' (ring + 4 * ucast (((g - 1) AND (n - 1)) * 2 + of_nat d :: u32))"
proof (rule rd32_cong)
  fix k :: nat
  assume k: "k < 4"
  let ?w = "((g - 1) AND (n - 1)) * 2 + of_nat d :: u32"
  have "in_bar1 st (ring + of_nat (4 * unat ?w + k)) 1"
    by (rule in_bar1_offset [OF ib wf]) (rule ring_offset [OF idx_less [OF n] d k])
  moreover have "ring + of_nat (4 * unat ?w + k) = ring + 4 * ucast ?w + of_nat k"
    by (simp add: algebra_simps)
  ultimately show "m (ring + 4 * ucast ?w + of_nat k) = m' (ring + 4 * ucast ?w + of_nat k)"
    using agree by metis
qed

lemma emit_chunks_cong:
  assumes "\<And>j. j < n \<Longrightarrow> m (k + of_nat j) = m' (k + of_nat j)"
  shows "emit_chunks m k n who off ck st = emit_chunks m' k n who off ck st"
  using assms
proof (induction m k n who off ck st rule: emit_chunks.induct)
  case (1 m k n who off ck st)
  show ?case
  proof (cases "off < n")
    case True
    let ?len = "if n - off < 64 then n - off else 64"
    have "mem_bytes m k off ?len = mem_bytes m' k off ?len"
      unfolding mem_bytes_def
    proof (intro map_cong refl)
      fix x
      assume "x \<in> set [0..<?len]"
      then have "off + x < n" using True by (auto split: if_splits)
      then show "m (k + of_nat (off + x)) = m' (k + of_nat (off + x))" by (rule 1(2))
    qed
    with 1(1) [OF True refl refl] 1(2) True show ?thesis
      by (simp add: emit_chunks.simps [of m k n who off ck st] emit_chunks.simps [of m' k n who off ck st] Let_def)
  next
    case False
    then show ?thesis by (simp add: emit_chunks.simps [of _ k n who off ck st])
  qed
qed

lemma gp_entry_va_less: "unat (gp_entry_va e0 e1) < 2 ^ 40"
proof -
  have "take_bit 40 (gp_entry_va e0 e1) = gp_entry_va e0 e1"
    by (rule bit_word_eqI) (auto simp: bit_take_bit_iff bit_gp_entry_va)
  then have "unat (gp_entry_va e0 e1) = take_bit 40 (unat (gp_entry_va e0 e1))"
    by (metis unsigned_take_bit_eq)
  then show ?thesis by (metis take_bit_nat_less_exp)
qed

lemma handler_bytes_cong:
  assumes wf: "sysmem_wf st" and agree: "\<And>a. in_sysmem st a \<Longrightarrow> m a = m' a" and va: "unat va < 2 ^ 40"
  shows "handler_bytes m who va n st = handler_bytes m' who va n st"
proof (cases "n > 0 \<and> n \<le> 4096 \<and> nv_dbell_sysmem_gpu_va_to_kva va (ucast n) st \<noteq> 0")
  case True
  let ?k = "nv_dbell_sysmem_gpu_va_to_kva va (ucast n) st"
  have un: "unat (ucast n :: u64) = unat n"
    using unsigned_less [of n, where 'a = nat] by (simp add: unsigned_ucast_eq take_bit_nat_eq_self)
  have "unat n \<le> 4096" using True by (simp add: word_le_nat_alt)
  then have "unat va + unat (ucast n :: u64) < 2 ^ 64" using va un by simp
  from sysmem_translate_Some [OF this refl] True obtain e where
    e: "e \<in> set (g_sysmem_tracked st)" "sysmem_usable e"
      "covers (sm_user_va_start e) (sm_user_va_end e) va (ucast n)"
      "?k = sm_kernel_va e + (va - sm_user_va_start e)" by blast
  have ok: "unat (sm_kernel_va e) + (unat (sm_user_va_end e) - unat (sm_user_va_start e)) < 2 ^ 64"
    using wf e(1,2) by (auto simp: sysmem_wf_def sysmem_alias_ok_def sysmem_usable_def)
  note tr = translate_inside [OF e(3) ok, folded e(4)]
  have "m (?k + of_nat j) = m' (?k + of_nat j)" if "j < unat n" for j
  proof (rule agree)
    have "unat ?k + j < 2 ^ 64" using tr(2) ok that un by simp
    then have "unat (?k + of_nat j) = unat ?k + j"
      by (simp add: unat_word_ariths unat_of_nat take_bit_nat_eq_self)
    then show "in_sysmem st (?k + of_nat j)"
      unfolding in_sysmem_def using e(1,2) tr that un by (intro bexI [of _ e]) auto
  qed
  from emit_chunks_cong [where m = m and m' = m' and k = ?k, OF this] show ?thesis
    using True by (simp add: handler_bytes_def Let_def)
next
  case False
  then show ?thesis by (auto simp: handler_bytes_def Let_def)
qed

lemma handler_gpfifo_cong:
  assumes wf: "bar1_wf st" "sysmem_wf st"
    and ring: "ce_gpfifo_kva (g_dbell_cache st ! i) \<noteq> 0 \<Longrightarrow> 0 < ce_gpfifo_entries (g_dbell_cache st ! i)
      \<and> in_bar1 st (ce_gpfifo_kva (g_dbell_cache st ! i)) (8 * unat (ce_gpfifo_entries (g_dbell_cache st ! i)))"
    and agree: "\<And>a. in_bar1 st a 1 \<Longrightarrow> m a = m' a" "\<And>a. in_sysmem st a \<Longrightarrow> m a = m' a"
  shows "handler_gpfifo m seq chid gp i st = handler_gpfifo m' seq chid gp i st"
proof (cases "ce_gpfifo_kva (g_dbell_cache st ! i) \<noteq> 0")
  case True
  note r = ring [OF True]
  let ?n = "ce_gpfifo_entries (g_dbell_cache st ! i)" and ?r = "ce_gpfifo_kva (g_dbell_cache st ! i)"
  have e: "rd32 m (?r + 4 * ucast (((gp - 1) AND (?n - 1)) * 2)) = rd32 m' (?r + 4 * ucast (((gp - 1) AND (?n - 1)) * 2))"
    "rd32 m (?r + 4 * ucast (((gp - 1) AND (?n - 1)) * 2 + 1)) = rd32 m' (?r + 4 * ucast (((gp - 1) AND (?n - 1)) * 2 + 1))"
    using ring_read_cong [where m = m and m' = m' and d = 0 and g = gp, OF conjunct2 [OF r] wf(1) conjunct1 [OF r] agree(1)]
      ring_read_cong [where m = m and m' = m' and d = 1 and g = gp, OF conjunct2 [OF r] wf(1) conjunct1 [OF r] agree(1)]
    by simp_all
  have hb: "handler_bytes m who (gp_entry_va e0 e1) n st' = handler_bytes m' who (gp_entry_va e0 e1) n st'"
    if "g_sysmem_tracked st' = g_sysmem_tracked st" for who e0 e1 n st'
  proof (rule handler_bytes_cong)
    show "sysmem_wf st'" using wf(2) that by (simp add: sysmem_wf_def sysmem_ok_def)
    show "in_sysmem st' a \<Longrightarrow> m a = m' a" for a using agree(2) that by (simp add: in_sysmem_def)
  qed (rule gp_entry_va_less)
  show ?thesis unfolding handler_gpfifo_def Let_def e by (simp add: hb)
qed (simp add: handler_gpfifo_def)

lemma handler_lookup_cong:
  assumes wf: "bar1_wf st" "sysmem_wf st" and ok: "resolved_ok X st"
    and agree: "\<And>a. in_bar1 st a 1 \<Longrightarrow> m a = m' a" "\<And>a. in_sysmem st a \<Longrightarrow> m a = m' a"
      "\<And>x k. x \<in> X \<Longrightarrow> k < 4 \<Longrightarrow> m (x + 0x8c + of_nat k) = m' (x + 0x8c + of_nat k)"
  shows "handler_lookup env m nv seq chid rl st = handler_lookup env m' nv seq chid rl st"
proof (cases "\<exists>i. nv_dbell_cache_find chid rl st = Some i \<and> ce_state (g_dbell_cache st ! i) = 2")
  case True
  then obtain i where i: "nv_dbell_cache_find chid rl st = Some i" "ce_state (g_dbell_cache st ! i) = 2" by blast
  let ?e = "g_dbell_cache st ! i"
  have e: "ce_userd_kva ?e \<noteq> 0" "ce_userd_kva ?e \<in> X \<or> in_bar1 st (ce_userd_kva ?e) 0x90"
    "ce_gpfifo_kva ?e \<noteq> 0 \<Longrightarrow> 0 < ce_gpfifo_entries ?e \<and> in_bar1 st (ce_gpfifo_kva ?e) (8 * unat (ce_gpfifo_entries ?e))"
    using ok i cache_find_Some(1) [OF i(1)] by (auto simp: resolved_ok_def entry_resolved_ok_def)
  have gp: "rd32 m (ce_userd_kva ?e + 0x8c) = rd32 m' (ce_userd_kva ?e + 0x8c)"
  proof (rule rd32_cong)
    fix k :: nat
    assume k: "k < 4"
    show "m (ce_userd_kva ?e + 0x8c + of_nat k) = m' (ce_userd_kva ?e + 0x8c + of_nat k)"
    proof (cases "ce_userd_kva ?e \<in> X")
      case True
      then show ?thesis using agree(3) k by blast
    next
      case False
      with e(2) in_bar1_offset [of st "ce_userd_kva ?e" "0x90" "0x8c + k"] wf(1) k
      have "in_bar1 st (ce_userd_kva ?e + of_nat (0x8c + k)) 1" by simp
      then show ?thesis using agree(1) by (simp add: add.assoc)
    qed
  qed
  have "handler_gpfifo m seq chid gp i st' = handler_gpfifo m' seq chid gp i st'"
    if t: "g_bar1_tracked st' = g_bar1_tracked st" "g_sysmem_tracked st' = g_sysmem_tracked st"
      "g_dbell_cache st' = g_dbell_cache st" for gp st'
  proof (rule handler_gpfifo_cong)
    show "bar1_wf st'" using wf(1) bar1_wf_cong [OF t(1)] by simp
    show "sysmem_wf st'" using wf(2) t(2) by (simp add: sysmem_wf_def sysmem_ok_def)
    show "in_bar1 st' a 1 \<Longrightarrow> m a = m' a" for a using agree(1) in_bar1_cong [OF t(1)] by simp
    show "in_sysmem st' a \<Longrightarrow> m a = m' a" for a using agree(2) t(2) by (simp add: in_sysmem_def)
  qed (use e(3) in_bar1_cong [OF t(1)] t(3) in simp)
  then show ?thesis
    using i by (simp add: handler_lookup_def handler_resolved_def gp Let_def)
next
  case False
  then show ?thesis
    by (cases "nv_dbell_cache_find chid rl st") (auto simp: handler_lookup_def Let_def)
qed

text \<open>
  The handler runs with interrupts off and must not touch memory that may be unmapped.  Given
  the invariants of the tables, its result is determined by the readable bytes alone: two memories
  that agree on the shadow page's doorbell dword, on the \<^verbatim>\<open>GP_PUT\<close> dwords of the resource manager's
  USERD areas and inside the mappings tracked now lead to the same state, so no other address is
  read: the GPFIFO index stays inside the ring, and the pushbuffer bytes stay inside their mapping.
\<close>

lemma handler_footprint:
  assumes "bar1_wf st" "sysmem_wf st" "resolved_ok X st"
    and agree: "\<forall>a. readable c X st a \<longrightarrow> m a = m' a"
  shows "nv_dbell_db_handler env m (Some c) st = nv_dbell_db_handler env m' (Some c) st"
proof -
  have tok: "rd32 m (cx_shadow_kva c + 0x90) = rd32 m' (cx_shadow_kva c + 0x90)"
  proof (rule rd32_cong)
    fix k :: nat
    assume "k < 4"
    then have "readable c X st (cx_shadow_kva c + 0x90 + of_nat k)" unfolding readable_def by blast
    then show "m (cx_shadow_kva c + 0x90 + of_nat k) = m' (cx_shadow_kva c + 0x90 + of_nat k)"
      using agree by blast
  qed
  have "handler_lookup env m nv seq chid rl st' = handler_lookup env m' nv seq chid rl st'"
    if t: "g_bar1_tracked st' = g_bar1_tracked st" "g_sysmem_tracked st' = g_sysmem_tracked st"
      "g_dbell_cache st' = g_dbell_cache st" for nv seq chid rl st'
  proof (rule handler_lookup_cong)
    show "bar1_wf st'" using assms(1) bar1_wf_cong [OF t(1)] by simp
    show "sysmem_wf st'" using assms(2) t(2) by (simp add: sysmem_wf_def sysmem_ok_def)
    show "resolved_ok X st'" by (rule resolved_ok_same [OF assms(3) t(3,1)])
    show "in_bar1 st' a 1 \<Longrightarrow> m a = m' a" for a
      using agree in_bar1_cong [OF t(1)] by (auto simp: readable_def)
    show "in_sysmem st' a \<Longrightarrow> m a = m' a" for a using agree t(2) by (auto simp: in_sysmem_def readable_def)
    show "x \<in> X \<Longrightarrow> k < 4 \<Longrightarrow> m (x + 0x8c + of_nat k) = m' (x + 0x8c + of_nat k)" for x k
      using agree unfolding readable_def by blast
  qed
  then show ?thesis by (simp add: nv_dbell_db_handler_def tok Let_def)
qed

section \<open>The bytes that are emitted\<close>

text \<open>Reading the hexadecimal records back.\<close>

definition hex_val :: "char \<Rightarrow> u8" where
  "hex_val c = (case first_idx ((=) c) ''0123456789abcdef'' of Some i \<Rightarrow> of_nat i | None \<Rightarrow> 0)"

fun unhex :: "string \<Rightarrow> u8 list" where
  "unhex (a # b # s) = (push_bit 4 (hex_val a) OR hex_val b) # unhex s"
| "unhex _ = []"

lemma hex_val_digit:
  assumes "unat d < 16"
  shows "hex_val (hex_digit d) = d"
proof -
  have "\<forall>i \<in> set [0..<16]. first_idx ((=) (''0123456789abcdef'' ! i)) ''0123456789abcdef'' = Some i"
    by code_simp
  then have "hex_val (''0123456789abcdef'' ! unat d) = of_nat (unat d)"
    using assms by (auto simp: hex_val_def)
  then show ?thesis by (simp add: hex_digit_def)
qed

lemma unhex_byte: "unhex (hex_byte b @ s) = b # unhex s"
proof -
  have f: "(0xf :: u8) = mask 4" by (simp add: mask_eq_exp_minus_1)
  have "unat (b AND mask 4) < 16" "unat (drop_bit 4 b AND mask 4) < 16"
    by (simp_all add: unat_and_mask)
  moreover have "push_bit 4 (drop_bit 4 b AND mask 4) OR b AND mask 4 = b"
    by (rule bit_word_eqI) (auto simp: bit_simps)
  ultimately show ?thesis by (simp add: hex_byte_def hex_val_digit f)
qed

lemma unhex_hex: "unhex (hex_of bs) = bs"
  by (induction bs) (simp_all add: hex_of_def unhex_byte)

lemma hex_of_append: "hex_of (xs @ ys) = hex_of xs @ hex_of ys"
  by (simp add: hex_of_def)

fun trace_hex :: "kevent \<Rightarrow> string" where
  "trace_hex (Trace c e fs) =
     (case last fs of (k, S h) \<Rightarrow> if c = pb \<and> e = ''bytes'' \<and> k = ''hex'' then h else [] | _ \<Rightarrow> [])"
| "trace_hex _ = []"

lemma mem_bytes_append: "mem_bytes m k off a @ mem_bytes m k (off + a) b = mem_bytes m k off (a + b)"
proof (rule nth_equalityI)
  fix i
  assume "i < length (mem_bytes m k off a @ mem_bytes m k (off + a) b)"
  then have "i < a + b" "\<not> i < a \<Longrightarrow> i - a < b" by (auto simp: mem_bytes_def)
  then show "(mem_bytes m k off a @ mem_bytes m k (off + a) b) ! i = mem_bytes m k off (a + b) ! i"
    by (simp add: mem_bytes_def nth_append of_nat_add [symmetric] add.assoc del: of_nat_add)
qed (simp add: mem_bytes_def)

lemma emit_chunks_log:
  assumes "nv_trace_mask st AND MC_TRACE_CAT pb \<noteq> 0"
  shows "\<exists>recs. k_log (emit_chunks m k n who off ck st) = k_log st @ recs
    \<and> concat (map trace_hex recs) = hex_of (mem_bytes m k off (n - off)) \<and> length recs = (n - off + 63) div 64"
  using assms
proof (induction m k n who off ck st rule: emit_chunks.induct)
  case (1 m k n who off ck st)
  show ?case
  proof (cases "off < n")
    case False
    then show ?thesis by (simp add: emit_chunks.simps [of m k n who off ck st] mem_bytes_def hex_of_def)
  next
    case True
    let ?len = "if n - off < 64 then n - off else 64"
    let ?rec = "Trace pb ''bytes'' (who @ [(''chunk'', N (of_nat ck)),
      (''nchunks'', N (of_nat ((n + 63) div 64))), (''off'', N (of_nat off)),
      (''hex'', S (hex_of (mem_bytes m k off ?len)))])"
    let ?st1 = "klog ?rec st"
    have e: "emit_chunks m k n who off ck st = emit_chunks m k n who (off + 64) (ck + 1) ?st1"
      using 1(2) True by (simp add: emit_chunks.simps [of m k n who off ck st] MC_TRACE_def Let_def)
    from 1(1) [OF True refl refl] 1(2)
    obtain recs where r: "k_log (emit_chunks m k n who (off + 64) (ck + 1) ?st1) = k_log ?st1 @ recs"
      "concat (map trace_hex recs) = hex_of (mem_bytes m k (off + 64) (n - (off + 64)))"
      "length recs = (n - (off + 64) + 63) div 64"
      by (auto simp: MC_TRACE_def)
    have "hex_of (mem_bytes m k off ?len) @ hex_of (mem_bytes m k (off + 64) (n - (off + 64)))
        = hex_of (mem_bytes m k off (n - off))"
    proof (cases "n - off < 64")
      case True
      then show ?thesis by (simp add: mem_bytes_def hex_of_def)
    next
      case False
      then show ?thesis using mem_bytes_append [of m k off 64 "n - (off + 64)"] by (simp flip: hex_of_append)
    qed
    moreover have "Suc ((n - (off + 64) + 63) div 64) = (n - off + 63) div 64"
      using True by (cases "n - off < 64") (auto simp: div_if not_less)
    ultimately show ?thesis
      using r by (intro exI [of _ "?rec # recs"]) (simp add: e)
  qed
qed


section \<open>Deduplication\<close>

definition is_bytes :: "kevent \<Rightarrow> bool" where
  "is_bytes e = (case e of Trace c n fs \<Rightarrow> c = pb \<and> (n = ''bytes'' \<or> n = ''bytes_miss'') | _ \<Rightarrow> False)"

text \<open>
  User space rings the doorbell many times per submission.  While memory and \<^verbatim>\<open>GP_PUT\<close> stay the
  same, a second run of the decode adds no pushbuffer records: neither bytes nor a miss.
\<close>

theorem handler_gpfifo_dedup:
  assumes "i < length (g_dbell_cache st)"
  shows "filter is_bytes (k_log (handler_gpfifo m seq' chid gp i (handler_gpfifo m seq chid gp i st)))
    = filter is_bytes (k_log (handler_gpfifo m seq chid gp i st))"
proof -
  let ?e = "g_dbell_cache st ! i"
  define n where "n = ce_gpfifo_entries ?e"
  define ring where "ring = ce_gpfifo_kva ?e"
  define idx where "idx = (gp - 1) AND (n - 1)"
  define va where "va = gp_entry_va (rd32 m (ring + 4 * ucast (idx * 2))) (rd32 m (ring + 4 * ucast (idx * 2 + 1)))"
  note defs = n_def [symmetric] ring_def [symmetric] idx_def [symmetric] va_def [symmetric]
  let ?st1 = "handler_gpfifo m seq chid gp i st"
  show ?thesis
  proof (cases "ring \<noteq> 0 \<and> n > 0")
    case True
    have "g_dbell_cache ?st1 ! i = ?e\<lparr>ce_last_pb_bytes_idx := idx, ce_last_pb_bytes_va := va\<rparr>"
      using assms True handler_bytes_frame(1)
      by (auto simp: handler_gpfifo_def Let_def defs same_tables_def)
    then have "ce_gpfifo_kva (g_dbell_cache ?st1 ! i) = ring" "ce_gpfifo_entries (g_dbell_cache ?st1 ! i) = n"
      "ce_last_pb_bytes_idx (g_dbell_cache ?st1 ! i) = idx" "ce_last_pb_bytes_va (g_dbell_cache ?st1 ! i) = va"
      by (simp_all add: defs)
    then show ?thesis
      by (simp add: handler_gpfifo_def [of m seq' chid gp i ?st1] Let_def defs MC_TRACE_log is_bytes_def)
  next
    case False
    then have "?st1 = st" "handler_gpfifo m seq' chid gp i st = st"
      by (auto simp: handler_gpfifo_def Let_def defs)
    then show ?thesis by simp
  qed
qed

section \<open>Examples\<close>

lemma bar1_wf_init: "bar1_wf dbell_init" and sysmem_wf_init: "sysmem_wf dbell_init"
  and resolved_ok_init: "resolved_ok X dbell_init"
  using bar1_ok_init sysmem_ok_init
  by (auto simp: bar1_wf_def sysmem_wf_def resolved_ok_def entry_resolved_ok_def dbell_init_def
      bar1_free_def sysmem_free_def cache_zero_def)

definition ex_ctx :: nv_dbell_ctx where
  "ex_ctx = \<lparr>cx_ptr = 0x8000, cx_slot_idx = 0, cx_bp_events = [0x9000], cx_nv = 0x100, cx_shadow_page = 0xa000,
     cx_shadow_kva = 0x2000, cx_user_va = 0x7f0000000000, cx_doorbell_iomap = 0x3000, cx_bp_count = 0\<rparr>"

definition ex_env :: enq_env where
  "ex_env = \<lparr>en_work = 0x7000, en_altstack = False, en_stack = 0\<rparr>"

definition ex_mem :: memory where
  "ex_mem a = (if a = 0x2090 then 5 else 0)"

theorem handler_forwards_witness:
  "\<exists>evs. effects (snd (nv_dbell_db_handler ex_env ex_mem (Some ex_ctx) dbell_init)) =
     effects dbell_init @ evs @ [Writel 5 0x3000]"
  using handler_forwards [of ex_ctx ex_env ex_mem dbell_init]
  by (auto simp: ex_ctx_def ex_mem_def rd32_def)

definition ex_pb :: dbell_state where
  "ex_pb = dbell_init\<lparr>g_sysmem_tracked :=
     [\<lparr>sm_vma = 0x1000, sm_user_va_start = 0x200400000, sm_user_va_end = 0x200800000,
       sm_kernel_va = 0xffffc90010000000, sm_num_pages = 1024\<rparr>]\<rparr>"


theorem handler_gpfifo_dedup_witness:
  "filter is_bytes (k_log (handler_gpfifo ex_mem 2 5 1 0 (handler_gpfifo ex_mem 1 5 1 0 dbell_init)))
    = filter is_bytes (k_log (handler_gpfifo ex_mem 1 5 1 0 dbell_init))"
  using handler_gpfifo_dedup [of 0 dbell_init] by (simp add: dbell_init_def)

end
