(* ===== verification/Dbell_Lifecycle.thy ===== *)
theory Dbell_Lifecycle
  imports Dbell_Handler_Props
begin

text \<open>
  The life of a watched mapping: the breakpoint thunks of \<^verbatim>\<open>nvidia_dbell.c\<close>, arming a process's
  threads, intercepting the mmap of the doorbell window, and tearing the mapping down again
  (\<^verbatim>\<open>nv-doorbell-watch.c\<close>).  The kernel's allocators and mapping calls are arguments.
\<close>

section \<open>Breakpoint thunks\<close>

abbreviation (input) ENOSYS :: int where "ENOSYS \<equiv> 38"

text \<open>The kernel's \<^verbatim>\<open>IS_ERR\<close>: the top 4095 values encode error numbers.\<close>

definition IS_ERR :: "ptr \<Rightarrow> bool" where
  "IS_ERR p \<longleftrightarrow> p \<ge> - 4095"

text \<open>
  \<open>usable\<close> is \<^verbatim>\<open>NV_DBELL_HW_BREAKPOINT_USABLE\<close>, \<open>reg\<close> is \<^verbatim>\<open>register_user_hw_breakpoint\<close> on a task and
  an address.  The results are the return code and the event.
\<close>

definition nv_dbell_bp_register ::
  "bool \<Rightarrow> (ptr \<Rightarrow> u64 \<Rightarrow> ptr) \<Rightarrow> ptr \<Rightarrow> u64 \<Rightarrow> dbell_state \<Rightarrow> int \<times> ptr \<times> dbell_state" where
  "nv_dbell_bp_register usable reg task user_va st =
     (if usable then
        if task = 0 then (- EINVAL, 0, st)
        else let event = reg task user_va in
          if IS_ERR event then (sint event, 0, st)
          else (0, event, if event = 0 then st else klog (Bp_register event user_va) st)
      else (- ENOSYS, 0, st))"

definition nv_dbell_bp_unregister :: "bool \<Rightarrow> ptr \<Rightarrow> dbell_state \<Rightarrow> dbell_state" where
  "nv_dbell_bp_unregister usable event st =
     (if usable \<and> event \<noteq> 0 \<and> \<not> IS_ERR event then klog (Bp_unregister event) st else st)"

section \<open>Arming and disarming\<close>

text \<open>
  What the kernel answers to one mmap: the context, the shadow page with its kernel address, the
  \<^verbatim>\<open>ioremap\<close> and \<^verbatim>\<open>vm_insert_page\<close> functions, the threads of the process (task and id), the breakpoint
  registration, and the process id.
\<close>

record mmap_env =
  me_usable :: bool
  me_ctx :: ptr
  me_page :: ptr
  me_page_kva :: ptr
  me_ioremap :: "u64 \<Rightarrow> u64 \<Rightarrow> ptr"
  me_insert :: "u64 \<Rightarrow> int"
  me_threads :: "(ptr \<times> int) list"
  me_register :: "ptr \<Rightarrow> u64 \<Rightarrow> ptr"
  me_pid :: int

abbreviation (input) NV_DBELL_MAX_BP_PER_CTX :: nat where "NV_DBELL_MAX_BP_PER_CTX \<equiv> 64"
abbreviation (input) NV_DBELL_REGION_SIZE :: u64 where "NV_DBELL_REGION_SIZE \<equiv> 0x10000"
abbreviation (input) PAGE_SIZE :: u64 where "PAGE_SIZE \<equiv> 4096"

fun arm_loop :: "mmap_env \<Rightarrow> u64 \<Rightarrow> (ptr \<times> int) list \<Rightarrow> ptr list \<Rightarrow> dbell_state \<Rightarrow> ptr list \<times> dbell_state" where
  "arm_loop env va [] bps st = (bps, st)"
| "arm_loop env va ((t, tid) # ts) bps st =
     (if length bps \<ge> NV_DBELL_MAX_BP_PER_CTX then (bps, st)
      else let (ret, ev, st1) = nv_dbell_bp_register (me_usable env) (me_register env) t va st in
        if ret = 0 \<and> ev \<noteq> 0 then arm_loop env va ts (bps @ [ev]) st1
        else arm_loop env va ts bps
               (MC_TRACE dbell ''bp_register'' [(''tid'', Z tid), (''ret'', Z ret)] st1))"

definition nv_dbell_arm_threads ::
  "mmap_env \<Rightarrow> vm_area \<Rightarrow> nv_dbell_ctx \<Rightarrow> dbell_state \<Rightarrow> int \<times> nv_dbell_ctx \<times> dbell_state" where
  "nv_dbell_arm_threads env vma ctx st =
     (let (bps, st1) = arm_loop env (vm_start vma + NV_DBELL_OFFSET) (me_threads env) [] st;
          ctx1 = ctx\<lparr>cx_bp_events := bps\<rparr> in
      if bps = [] then (- ENOMEM, ctx1, MC_TRACE dbell ''no_breakpoints'' [] st1)
      else (0, ctx1, st1))"

text \<open>\<^verbatim>\<open>cx_bp_events\<close> holds the first \<^verbatim>\<open>bp_event_count\<close> cells of \<^verbatim>\<open>bp_events\<close>.\<close>

definition nv_dbell_unregister_bps :: "bool \<Rightarrow> nv_dbell_ctx \<Rightarrow> dbell_state \<Rightarrow> nv_dbell_ctx \<times> dbell_state" where
  "nv_dbell_unregister_bps usable ctx st =
     (ctx\<lparr>cx_bp_events := []\<rparr>,
      fold (\<lambda>ev st. if ev \<noteq> 0 then nv_dbell_bp_unregister usable ev st else st) (cx_bp_events ctx) st)"

section \<open>Intercepting an mmap\<close>

text \<open>The \<^verbatim>\<open>fail:\<close> label of \<^verbatim>\<open>nv_dbell_intercept_mmap\<close>.\<close>

definition intercept_fail :: "mmap_env \<Rightarrow> nv_dbell_ctx \<Rightarrow> dbell_state \<Rightarrow> dbell_state" where
  "intercept_fail env ctx st =
     (let (ctx1, st1) = nv_dbell_unregister_bps (me_usable env) ctx st;
          st2 = (if cx_doorbell_iomap ctx1 \<noteq> 0 then klog (Iounmap (cx_doorbell_iomap ctx1)) st1 else st1);
          st3 = nv_dbell_release_slot (cx_slot_idx ctx1) st2;
          st4 = (if cx_shadow_page ctx1 \<noteq> 0 then klog (Free_page (cx_shadow_page ctx1)) st3 else st3) in
      kfree (cx_ptr ctx1) st4)"

text \<open>
  The loop that maps the shadow page at every page of the window.  The caller has checked that the
  window is 64 KiB, so it has at most 16 pages; each iteration tests \<^verbatim>\<open>addr < vma->vm_end\<close>.
\<close>

fun insert_loop :: "mmap_env \<Rightarrow> vm_area \<Rightarrow> ptr \<Rightarrow> nat list \<Rightarrow> dbell_state \<Rightarrow> int \<times> dbell_state" where
  "insert_loop env vma page [] st = (0, st)"
| "insert_loop env vma page (k # ks) st =
     (let addr = vm_start vma + of_nat k * PAGE_SIZE in
      if addr < vm_end vma then
        let ret = me_insert env addr in
        if ret \<noteq> 0 then
          (ret, MC_TRACE dbell ''vm_insert_fail'' [(''addr'', N addr), (''ret'', Z ret)] st)
        else insert_loop env vma page ks (klog (Insert_page addr page) st)
      else (0, st))"

definition nv_dbell_intercept_mmap ::
  "mmap_env \<Rightarrow> bool \<Rightarrow> ptr \<Rightarrow> vm_area \<Rightarrow> (u64 \<times> u64) list \<Rightarrow> dbell_state
     \<Rightarrow> int \<times> nv_dbell_ctx option \<times> dbell_state" where
  "nv_dbell_intercept_mmap env disable nv vma ranges st =
     (if disable then (0, None, st)
      else if vm_end vma - vm_start vma \<noteq> NV_DBELL_REGION_SIZE \<or> length ranges \<noteq> 1 then (0, None, st)
      else let bar_pa = fst (hd ranges) in
      if me_ctx env = 0 then (- ENOMEM, None, st)
      else
        let st1 = klog (Alloc (me_ctx env)) st;
            ctx0 = \<lparr>cx_ptr = me_ctx env, cx_slot_idx = 0, cx_bp_events = [], cx_nv = nv, cx_shadow_page = 0,
                    cx_shadow_kva = 0, cx_user_va = vm_start vma, cx_doorbell_iomap = 0, cx_bp_count = 0\<rparr> in
        (case nv_dbell_claim_slot (me_ctx env) st1 of
           (None, st2) \<Rightarrow>
             (0, None, kfree (me_ctx env)
                (MC_TRACE dbell ''slots_full'' [(''pass_through'', N 1), (''pid'', Z (me_pid env)),
                   (''bar0_pa'', N bar_pa)] st2))
         | (Some slot, st2) \<Rightarrow>
             let ctx1 = ctx0\<lparr>cx_slot_idx := slot\<rparr> in
             if me_page env = 0 then (- ENOMEM, None, intercept_fail env ctx1 st2)
             else
               let st3 = klog (Alloc_page (me_page env)) st2;
                   ctx2 = ctx1\<lparr>cx_shadow_page := me_page env, cx_shadow_kva := me_page_kva env\<rparr>;
                   io = me_ioremap env (bar_pa + NV_DBELL_OFFSET) 4 in
               if io = 0 then
                 (- ENOMEM, None, intercept_fail env ctx2
                    (MC_TRACE dbell ''ioremap_fail'' [(''bar0_pa'', N bar_pa)] st3))
               else
                 let st4 = klog (Ioremap io 4) st3;
                     ctx3 = ctx2\<lparr>cx_doorbell_iomap := io\<rparr>;
                     (ret, st5) = insert_loop env vma (me_page env) [0..<16] st4 in
                 if ret \<noteq> 0 then (ret, None, intercept_fail env ctx3 st5)
                 else
                   let (ret, ctx4, st6) = nv_dbell_arm_threads env vma ctx3 st5 in
                   if ret \<noteq> 0 then (ret, None, intercept_fail env ctx4 st6)
                   else
                     (1, Some ctx4,
                      MC_TRACE dbell ''armed''
                        [(''slot'', N (of_nat slot)), (''pid'', Z (me_pid env)),
                         (''bps'', N (of_nat (length (cx_bp_events ctx4)))),
                         (''user_va'', N (cx_user_va ctx4)), (''bar0_pa'', N bar_pa)] st6)))"

section \<open>Releasing a watched mapping\<close>

text \<open>The forensic dump: the non-zero dwords of the shadow page, the first 32 of them.\<close>

fun shadow_dump :: "memory \<Rightarrow> nv_dbell_ctx \<Rightarrow> nat list \<Rightarrow> nat \<Rightarrow> dbell_state \<Rightarrow> nat \<times> dbell_state" where
  "shadow_dump m ctx [] nonzero st = (nonzero, st)"
| "shadow_dump m ctx (off # offs) nonzero st =
     (let v = rd32 m (cx_shadow_kva ctx + 4 * of_nat off) in
      if v \<noteq> 0 then
        let st1 = MC_TRACE dbell ''shadow'' [(''state'', S ''nonzero''), (''slot'', N (of_nat (cx_slot_idx ctx))),
                    (''off'', N (of_nat (off * 4))), (''val'', N (ucast v))] st in
        if nonzero + 1 \<ge> 32 then
          (nonzero + 1, MC_TRACE dbell ''shadow'' [(''state'', S ''nonzero_truncated'')] st1)
        else shadow_dump m ctx offs (nonzero + 1) st1
      else shadow_dump m ctx offs nonzero st)"

text \<open>
  The private data of a VMA: nothing, a watched context (recognised by its tag), or a system-memory
  allocation.
\<close>

datatype vma_private = Priv_None | Priv_Ctx nv_dbell_ctx | Priv_Alloc ptr

fun nv_dbell_is_watched_vma :: "vma_private \<Rightarrow> bool" where
  "nv_dbell_is_watched_vma (Priv_Ctx _) = True"
| "nv_dbell_is_watched_vma _ = False"

definition release_dump :: "memory \<Rightarrow> nv_dbell_ctx \<Rightarrow> dbell_state \<Rightarrow> dbell_state" where
  "release_dump m ctx st =
     (let st1 = MC_TRACE dbell ''release'' [(''slot'', N (of_nat (cx_slot_idx ctx))),
                  (''count'', Z (sint (cx_bp_count ctx)))] st in
      if cx_shadow_kva ctx \<noteq> 0 then
        let (nonzero, st2) = shadow_dump m ctx [0..<1024] 0 st1 in
        if nonzero = 0 then
          MC_TRACE dbell ''shadow'' [(''state'', S ''all_zero''), (''slot'', N (of_nat (cx_slot_idx ctx)))] st2
        else st2
      else st1)"

definition release_ctx :: "bool \<Rightarrow> memory \<Rightarrow> nv_dbell_ctx \<Rightarrow> dbell_state \<Rightarrow> dbell_state" where
  "release_ctx usable m ctx st =
     (let st2 = release_dump m ctx st;
          (ctx1, st3) = nv_dbell_unregister_bps usable ctx st2;
          st4 = (if cx_doorbell_iomap ctx1 \<noteq> 0 then klog (Iounmap (cx_doorbell_iomap ctx1)) st3 else st3);
          st5 = nv_dbell_release_slot (cx_slot_idx ctx1) st4;
          st6 = (if cx_shadow_page ctx1 \<noteq> 0 then klog (Free_page (cx_shadow_page ctx1)) st5 else st5) in
      kfree (cx_ptr ctx1) st6)"

fun nv_dbell_vma_release :: "bool \<Rightarrow> memory \<Rightarrow> vma_private \<Rightarrow> dbell_state \<Rightarrow> vma_private \<times> dbell_state" where
  "nv_dbell_vma_release usable m (Priv_Ctx ctx) st = (Priv_None, release_ctx usable m ctx st)"
| "nv_dbell_vma_release usable m p st = (p, st)"

section \<open>Accounting\<close>

text \<open>What a list of events acquires and releases of a resource, on balance.\<close>

definition bal :: "resource \<Rightarrow> kevent list \<Rightarrow> int" where
  "bal r evs = sum_list (map (delta r) evs)"

lemma bal_simps [simp]:
  "bal r [] = 0" "bal r (e # es) = delta r e + bal r es" "bal r (xs @ ys) = bal r xs + bal r ys"
  by (simp_all add: bal_def del: delta_def)

lemma balance_effects: "balance (delta r) st = bal r (effects st)"
  by (simp add: balance_def bal_def)

lemma bal_breakpoints: "bal r (map (\<lambda>ev. Bp_register ev va) evs) = - bal r (map Bp_unregister evs)"
  by (induction evs) simp_all

lemma arm_loop_result:
  assumes "arm_loop env va ts bps st = (bps', st')" "length bps \<le> 64"
  shows "\<exists>new. bps' = bps @ new \<and> length bps' \<le> 64 \<and> (\<forall>ev \<in> set new. ev \<noteq> 0 \<and> \<not> IS_ERR ev \<and> me_usable env)
    \<and> same_tables st st' \<and> effects st' = effects st @ map (\<lambda>ev. Bp_register ev va) new"
  using assms
proof (induction env va ts bps st rule: arm_loop.induct)
  case (1 env va bps st)
  then show ?case by simp
next
  case (2 env va t tid ts bps st)
  show ?case
  proof (cases "length bps \<ge> 64")
    case True
    with 2(3,4) show ?thesis by simp
  next
    case False
    obtain ret ev st1 where r: "nv_dbell_bp_register (me_usable env) (me_register env) t va st = (ret, ev, st1)"
      by (metis prod_cases3)
    have ev: "ret = 0 \<and> ev \<noteq> 0 \<Longrightarrow> \<not> IS_ERR ev \<and> me_usable env \<and> st1 = klog (Bp_register ev va) st"
      "\<not> (ret = 0 \<and> ev \<noteq> 0) \<Longrightarrow> st1 = st"
      using r by (auto simp: nv_dbell_bp_register_def Let_def split: if_splits)
    show ?thesis
    proof (cases "ret = 0 \<and> ev \<noteq> 0")
      case True
      with r False 2(3) have "arm_loop env va ts (bps @ [ev]) st1 = (bps', st')" by simp
      from 2(1) [OF False refl r [symmetric] refl True this] False obtain new where
        "bps' = (bps @ [ev]) @ new" "length bps' \<le> 64"
        "\<forall>ev \<in> set new. ev \<noteq> 0 \<and> \<not> IS_ERR ev \<and> me_usable env" "same_tables st1 st'"
        "effects st' = effects st1 @ map (\<lambda>ev. Bp_register ev va) new" by auto
      with ev(1) [OF True] True show ?thesis
        by (intro exI [of _ "ev # new"]) (auto simp: same_tables_def)
    next
      case F: False
      with r False 2(3) have "arm_loop env va ts bps
          (MC_TRACE dbell ''bp_register'' [(''tid'', Z tid), (''ret'', Z ret)] st1) = (bps', st')" by simp
      from 2(2) [OF False refl r [symmetric] refl F this] 2(4) ev(2) [OF F] show ?thesis
        by (auto simp: same_tables_def)
    qed
  qed
qed

lemma insert_loop_frame:
  assumes "insert_loop env vma page ks st = (ret, st')"
  shows "same_tables st st'" and "\<exists>addrs. effects st' = effects st @ map (\<lambda>a. Insert_page a page) addrs"
proof -
  have "same_tables st st' \<and> (\<exists>addrs. effects st' = effects st @ map (\<lambda>a. Insert_page a page) addrs)"
    using assms
  proof (induction ks arbitrary: st)
    case Nil
    then show ?case by simp
  next
    case (Cons k ks)
    let ?a = "vm_start vma + of_nat k * 4096"
    show ?case
    proof (cases "?a < vm_end vma \<and> me_insert env ?a = 0")
      case True
      with Cons.prems have "insert_loop env vma page ks (klog (Insert_page ?a page) st) = (ret, st')"
        by (simp add: Let_def)
      from Cons.IH [OF this] show ?thesis
        by (auto simp: same_tables_def intro: exI [of _ "?a # _"])
    next
      case False
      with Cons.prems show ?thesis by (auto simp: Let_def split: if_splits)
    qed
  qed
  then show "same_tables st st'" and "\<exists>addrs. effects st' = effects st @ map (\<lambda>a. Insert_page a page) addrs"
    by auto
qed

lemma bal_insert_page [simp]: "bal r (map (\<lambda>a. Insert_page a page) addrs) = 0"
  by (induction addrs) simp_all

text \<open>Breakpoint events are real events, installed on a kernel that has breakpoints.\<close>

definition bps_ok :: "bool \<Rightarrow> nv_dbell_ctx \<Rightarrow> bool" where
  "bps_ok usable ctx \<longleftrightarrow> (\<forall>ev \<in> set (cx_bp_events ctx). ev \<noteq> 0 \<and> \<not> IS_ERR ev \<and> usable)"

lemma unregister_bps_frame:
  assumes "bps_ok usable ctx"
  shows "fst (nv_dbell_unregister_bps usable ctx st) = ctx\<lparr>cx_bp_events := []\<rparr>"
    and "same_tables st (snd (nv_dbell_unregister_bps usable ctx st))"
    and "effects (snd (nv_dbell_unregister_bps usable ctx st)) = effects st @ map Bp_unregister (cx_bp_events ctx)"
proof -
  have "\<forall>ev \<in> set evs. ev \<noteq> 0 \<and> \<not> IS_ERR ev \<and> usable \<Longrightarrow> same_tables st (fold
      (\<lambda>ev st. if ev \<noteq> 0 then nv_dbell_bp_unregister usable ev st else st) evs st)
    \<and> effects (fold (\<lambda>ev st. if ev \<noteq> 0 then nv_dbell_bp_unregister usable ev st else st) evs st)
      = effects st @ map Bp_unregister evs" for evs
    by (induction evs arbitrary: st) (auto simp: nv_dbell_bp_unregister_def same_tables_def)
  then show "same_tables st (snd (nv_dbell_unregister_bps usable ctx st))"
    "effects (snd (nv_dbell_unregister_bps usable ctx st)) = effects st @ map Bp_unregister (cx_bp_events ctx)"
    using assms by (auto simp: nv_dbell_unregister_bps_def bps_ok_def)
qed (simp add: nv_dbell_unregister_bps_def)

text \<open>What tearing a context down releases.\<close>

definition ctx_release_events :: "nv_dbell_ctx \<Rightarrow> kevent list" where
  "ctx_release_events ctx = map Bp_unregister (cx_bp_events ctx)
     @ (if cx_doorbell_iomap ctx \<noteq> 0 then [Iounmap (cx_doorbell_iomap ctx)] else [])
     @ (if cx_shadow_page ctx \<noteq> 0 then [Free_page (cx_shadow_page ctx)] else [])
     @ (if cx_ptr ctx \<noteq> 0 then [Kfree (cx_ptr ctx)] else [])"

lemma release_slot_effects [simp]: "effects (nv_dbell_release_slot i st) = effects st"
  by (simp add: nv_dbell_release_slot_def)

lemma intercept_fail_effects:
  assumes "bps_ok (me_usable env) ctx"
  shows "effects (intercept_fail env ctx st) = effects st @ ctx_release_events ctx"
    and "g_dbell_slots (intercept_fail env ctx st) = g_dbell_slots (nv_dbell_release_slot (cx_slot_idx ctx) st)"
proof -
  obtain st1 where u: "nv_dbell_unregister_bps (me_usable env) ctx st = (ctx\<lparr>cx_bp_events := []\<rparr>, st1)"
    by (metis prod.collapse unregister_bps_frame(1) [OF assms])
  note F = unregister_bps_frame(2,3) [OF assms, of st, unfolded u snd_conv]
  show "effects (intercept_fail env ctx st) = effects st @ ctx_release_events ctx"
    using F(2) by (simp add: intercept_fail_def u ctx_release_events_def Let_def)
  show "g_dbell_slots (intercept_fail env ctx st) = g_dbell_slots (nv_dbell_release_slot (cx_slot_idx ctx) st)"
    using F(1) by (auto simp: intercept_fail_def u same_tables_def nv_dbell_release_slot_def Let_def)
qed

text \<open>Tables other than the slots, and the slots up to the order of their cells.\<close>

definition same_but_slots :: "dbell_state \<Rightarrow> dbell_state \<Rightarrow> bool" where
  "same_but_slots st st' \<longleftrightarrow> same_tables st (st'\<lparr>g_dbell_slots := g_dbell_slots st\<rparr>)"

lemma same_but_slots_simps [simp]:
  "same_but_slots st st" "same_but_slots st (klog e st') = same_but_slots st st'"
  "same_but_slots st (MC_TRACE c n f st') = same_but_slots st st'"
  "same_but_slots st (kfree p st') = same_but_slots st st'"
  "same_but_slots st (nv_dbell_release_slot i st') = same_but_slots st st'"
  "same_but_slots st (st'\<lparr>g_dbell_slots := t\<rparr>) = same_but_slots st st'"
  by (simp_all add: same_but_slots_def same_tables_def nv_dbell_release_slot_def)

lemma same_but_slots_trans:
  "same_but_slots st st1 \<Longrightarrow> same_tables st1 st2 \<Longrightarrow> same_but_slots st st2"
  by (simp add: same_but_slots_def same_tables_def)

lemma intercept_fail_same:
  assumes "bps_ok (me_usable env) ctx" "same_but_slots st0 st"
  shows "same_but_slots st0 (intercept_fail env ctx st)"
proof -
  obtain st1 where u: "nv_dbell_unregister_bps (me_usable env) ctx st = (ctx\<lparr>cx_bp_events := []\<rparr>, st1)"
    by (metis prod.collapse unregister_bps_frame(1) [OF assms(1)])
  have "same_but_slots st0 st1"
    using same_but_slots_trans [OF assms(2)] unregister_bps_frame(2) [OF assms(1), of st] u by simp
  then show ?thesis by (simp add: intercept_fail_def u Let_def)
qed

text \<open>
  A failed interception that had claimed a slot: whatever it acquired up to the failure is what the
  label releases.
\<close>

text \<open>Two slot tables that agree but for the contents of vacant slots.\<close>

definition same_slots :: "nv_dbell_slot list \<Rightarrow> nv_dbell_slot list \<Rightarrow> bool" where
  "same_slots sl sl' \<longleftrightarrow> length sl' = length sl \<and> (\<forall>i < length sl. sl_claimed (sl' ! i) = sl_claimed (sl ! i)
     \<and> (sl_claimed (sl ! i) \<noteq> 0 \<longrightarrow> sl_ctx (sl' ! i) = sl_ctx (sl ! i)))"

lemma same_slots_refl [simp]: "same_slots sl sl"
  by (simp add: same_slots_def)

lemma claim_release_same:
  assumes "nv_dbell_claim_slot ctx st = (Some i, st')" "length (g_dbell_slots st) = 4"
  shows "same_slots (g_dbell_slots st) (g_dbell_slots (nv_dbell_release_slot i st'))"
  using claim_slot_Some [OF assms(1)] assms(2)
  by (auto simp: same_slots_def nv_dbell_release_slot_def nth_list_update)

lemma intercept_fail_balanced:
  assumes claim: "nv_dbell_claim_slot p st1 = (Some slot, st2)" and len: "length (g_dbell_slots st1) = 4"
    and st1: "same_but_slots st st1" "g_dbell_slots st1 = g_dbell_slots st"
    and ctx: "bps_ok (me_usable env) ctx" "cx_slot_idx ctx = slot"
    and st3: "same_tables st2 st3" "effects st3 = effects st @ evs"
    and bal: "\<And>r. bal r evs + bal r (ctx_release_events ctx) = 0"
  shows "same_but_slots st (intercept_fail env ctx st3)"
    and "slot_tab.live (g_dbell_slots (intercept_fail env ctx st3)) = slot_tab.live (g_dbell_slots st)"
    and "bal r (effects (intercept_fail env ctx st3)) = bal r (effects st)"
    and "same_slots (g_dbell_slots st) (g_dbell_slots (intercept_fail env ctx st3))"
proof -
  have s2: "same_but_slots st st2" using claim_slot_Some(3) [OF claim] st1(1) by simp
  from intercept_fail_same [OF ctx(1) same_but_slots_trans [OF this st3(1)]]
  show "same_but_slots st (intercept_fail env ctx st3)" .
  have "g_dbell_slots st3 = g_dbell_slots st2" using st3(1) by (simp add: same_tables_def)
  then have "g_dbell_slots (intercept_fail env ctx st3) = g_dbell_slots (nv_dbell_release_slot slot st2)"
    by (simp add: intercept_fail_effects(2) [OF ctx(1)] ctx(2) nv_dbell_release_slot_def)
  with claim_then_release [OF claim len] claim_release_same [OF claim len] st1(2)
  show "slot_tab.live (g_dbell_slots (intercept_fail env ctx st3)) = slot_tab.live (g_dbell_slots st)"
    and "same_slots (g_dbell_slots st) (g_dbell_slots (intercept_fail env ctx st3))" by simp_all
  show "bal r (effects (intercept_fail env ctx st3)) = bal r (effects st)"
    using bal [of r] by (simp add: intercept_fail_effects(1) [OF ctx(1)] st3(2))
qed

lemma intercept_result:
  assumes I: "nv_dbell_intercept_mmap env disable nv vma ranges st = (ret, c, st')"
    and len: "length (g_dbell_slots st) = 4" and ins: "\<forall>a. me_insert env a \<le> 0"
  obtains (none) "ret \<le> 0" "c = None" "same_but_slots st st'"
      "slot_tab.live (g_dbell_slots st') = slot_tab.live (g_dbell_slots st)"
      "\<And>r. bal r (effects st') = bal r (effects st)"
      "same_slots (g_dbell_slots st) (g_dbell_slots st')"
    | (watched) ctx evs st2 where "ret = 1" "c = Some ctx" "bps_ok (me_usable env) ctx"
      "cx_bp_events ctx \<noteq> []" "length (cx_bp_events ctx) \<le> 64" "cx_ptr ctx \<noteq> 0" "cx_nv ctx = nv"
      "cx_doorbell_iomap ctx \<noteq> 0" "cx_shadow_kva ctx = me_page_kva env"
      "same_but_slots st st'" "nv_dbell_claim_slot (cx_ptr ctx) st = (Some (cx_slot_idx ctx), st2)"
      "g_dbell_slots st' = g_dbell_slots st2" "effects st' = effects st @ evs"
      "\<And>r. bal r evs + bal r (ctx_release_events ctx) = 0"
proof (cases "disable \<or> vm_end vma - vm_start vma \<noteq> 0x10000 \<or> length ranges \<noteq> 1 \<or> me_ctx env = 0")
  case True
  with I show thesis by (intro none) (auto simp: nv_dbell_intercept_mmap_def Let_def split: if_splits)
next
  case g: False
  define bar_pa where "bar_pa = fst (hd ranges)"
  define p where "p = me_ctx env"
  define st1 where "st1 = klog (Alloc p) st"
  note unf = I [unfolded nv_dbell_intercept_mmap_def, folded bar_pa_def p_def, unfolded Let_def, folded st1_def]
  have p: "p \<noteq> 0" using g by (simp add: p_def)
  have len1: "length (g_dbell_slots st1) = 4" using len by (simp add: st1_def)
  have s1: "same_but_slots st st1" "g_dbell_slots st1 = g_dbell_slots st" by (simp_all add: st1_def)
  obtain so st2 where claim: "nv_dbell_claim_slot p st1 = (so, st2)"
    by (cases "nv_dbell_claim_slot p st1")
  show thesis
  proof (cases so)
    case None
    then have "st2 = st1" using claim by (auto simp: nv_dbell_claim_slot_def split: option.splits)
    with unf g p claim None show thesis
      by (intro none) (auto simp: p_def [symmetric] st1_def kfree_def)
  next
    case (Some slot)
    note claim' = claim [unfolded Some]
    note bal_fail = intercept_fail_balanced [OF claim' len1 s1]
    have e2: "effects st2 = effects st @ [Alloc p]"
      using claim_slot_Some(3) [OF claim'] by (simp add: st1_def)
    define ctx1 where "ctx1 = \<lparr>cx_ptr = p, cx_slot_idx = slot, cx_bp_events = [], cx_nv = nv, cx_shadow_page = 0,
      cx_shadow_kva = 0, cx_user_va = vm_start vma, cx_doorbell_iomap = 0, cx_bp_count = 0\<rparr>"
    define pg where "pg = me_page env"
    show thesis
    proof (cases "pg = 0")
      case True
      then have "ret = - 12" "c = None" "st' = intercept_fail env ctx1 st2"
        using unf g p claim' by (auto simp: ctx1_def pg_def p_def)
      with bal_fail [of env ctx1 st2 "[Alloc p]"] e2 p show thesis
        by (intro none) (auto simp: ctx1_def bps_ok_def ctx_release_events_def)
    next
      case pg: False
      define io where "io = me_ioremap env (bar_pa + 0x90) 4"
      define st3 where "st3 = klog (Alloc_page pg) st2"
      define ctx2 where "ctx2 = ctx1\<lparr>cx_shadow_page := pg, cx_shadow_kva := me_page_kva env\<rparr>"
      show thesis
      proof (cases "io = 0")
        case True
        let ?s = "MC_TRACE dbell ''ioremap_fail'' [(''bar0_pa'', N bar_pa)] st3"
        have "ret = - 12" "c = None" "st' = intercept_fail env ctx2 ?s"
          using unf g p pg True claim' by (auto simp: ctx1_def ctx2_def st3_def pg_def io_def p_def)
        with bal_fail [of env ctx2 ?s "[Alloc p, Alloc_page pg]"] e2 p pg show thesis
          by (intro none) (auto simp: ctx1_def ctx2_def bps_ok_def ctx_release_events_def st3_def same_tables_def)
      next
        case io: False
        define ctx3 where "ctx3 = ctx2\<lparr>cx_doorbell_iomap := io\<rparr>"
        obtain r5 st5 where L: "insert_loop env vma pg [0..<16] (klog (Ioremap io 4) st3) = (r5, st5)"
          by (cases "insert_loop env vma pg [0..<16] (klog (Ioremap io 4) st3)")
        obtain addrs where e5: "effects st5 = effects st @ [Alloc p, Alloc_page pg, Ioremap io 4]
            @ map (\<lambda>a. Insert_page a pg) addrs" and t5: "same_tables st2 st5"
          using insert_loop_frame [OF L] e2 by (auto simp: st3_def same_tables_def)
        show thesis
        proof (cases "r5 = 0")
          case False
          have "r5 \<le> 0"
          proof -
            have "insert_loop env vma pg ks s = (r, s') \<Longrightarrow> r \<le> 0" for ks s r s'
              using ins by (induction ks arbitrary: s) (auto simp: Let_def split: if_splits)
            from this [OF L] show ?thesis by simp
          qed
          moreover have "ret = r5" "c = None" "st' = intercept_fail env ctx3 st5"
            using unf g p pg io False claim' L
            by (auto simp: ctx1_def ctx2_def ctx3_def st3_def pg_def io_def p_def)
          ultimately show thesis
            using bal_fail [OF _ _ t5 e5, of env ctx3] p pg io
            by (intro none) (auto simp: ctx1_def ctx2_def ctx3_def bps_ok_def ctx_release_events_def)
        next
          case r5: True
          obtain bps st6 where A: "arm_loop env (vm_start vma + 0x90) (me_threads env) [] st5 = (bps, st6)"
            by (cases "arm_loop env (vm_start vma + 0x90) (me_threads env) [] st5")
          from arm_loop_result [OF A] have a: "length bps \<le> 64"
            "\<forall>ev \<in> set bps. ev \<noteq> 0 \<and> \<not> IS_ERR ev \<and> me_usable env" "same_tables st5 st6"
            "effects st6 = effects st5 @ map (\<lambda>ev. Bp_register ev (vm_start vma + 0x90)) bps" by auto
          define ctx4 where "ctx4 = ctx3\<lparr>cx_bp_events := bps\<rparr>"
          have bok: "bps_ok (me_usable env) ctx4" using a(2) by (simp add: bps_ok_def ctx4_def)
          have t6: "same_tables st2 st6" using t5 a(3) by (simp add: same_tables_def)
          let ?evs = "[Alloc p, Alloc_page pg, Ioremap io 4] @ map (\<lambda>a. Insert_page a pg) addrs
            @ map (\<lambda>ev. Bp_register ev (vm_start vma + 0x90)) bps"
          have e6: "effects st6 = effects st @ ?evs" using a(4) e5 by simp
          have b6: "bal r ?evs + bal r (ctx_release_events ctx4) = 0" for r
            using p pg io bal_breakpoints [of r "vm_start vma + 0x90" bps]
            by (simp add: ctx_release_events_def ctx4_def ctx3_def ctx2_def ctx1_def del: delta_def)
              simp
          show thesis
          proof (cases "bps = []")
            case True
            let ?s = "MC_TRACE dbell ''no_breakpoints'' [] st6"
            have "ret = - 12" "c = None" "st' = intercept_fail env ctx4 ?s"
              using unf g p pg io r5 True claim' L A
              by (auto simp: ctx1_def ctx2_def ctx3_def ctx4_def st3_def pg_def io_def p_def nv_dbell_arm_threads_def)
            with bal_fail [OF bok _ _ _ b6, of ?s] e6 t6 show thesis
              by (intro none) (auto simp: ctx1_def ctx2_def ctx3_def ctx4_def same_tables_def)
          next
            case False
            have res: "ret = 1" "c = Some ctx4"
              using unf g p pg io r5 False claim' L A
              by (auto simp: ctx1_def ctx2_def ctx3_def ctx4_def st3_def pg_def io_def p_def nv_dbell_arm_threads_def)
            obtain fs where st': "st' = MC_TRACE dbell ''armed'' fs st6"
              using unf g p pg io r5 False claim' L A
              by (auto simp: ctx1_def ctx2_def ctx3_def ctx4_def st3_def pg_def io_def p_def nv_dbell_arm_threads_def)
            have cl: "nv_dbell_claim_slot p st = (Some slot, st2\<lparr>k_log := k_log st\<rparr>)"
              using claim' by (auto simp: nv_dbell_claim_slot_def st1_def klog_def split: option.splits)
            have "same_but_slots st st6"
              by (rule same_but_slots_trans [OF _ t6]) (use claim_slot_Some(3) [OF claim'] s1(1) in simp)
            then show thesis
              using res st' bok False a(1) p pg io e6 b6 t6 cl
              by (intro watched [of ctx4 "st2\<lparr>k_log := k_log st\<rparr>" ?evs])
                (simp_all add: ctx1_def ctx2_def ctx3_def ctx4_def same_tables_def)
          qed
        qed
      qed
    qed
  qed
qed

section \<open>The life cycle is balanced\<close>

lemma shadow_dump_frame:
  "same_tables st (snd (shadow_dump m ctx offs n st))" "effects (snd (shadow_dump m ctx offs n st)) = effects st"
proof -
  have "same_tables st0 st \<longrightarrow> same_tables st0 (snd (shadow_dump m ctx offs n st))
      \<and> effects (snd (shadow_dump m ctx offs n st)) = effects st" for st0
    by (induction m ctx offs n st rule: shadow_dump.induct) (auto simp: Let_def)
  then show "same_tables st (snd (shadow_dump m ctx offs n st))"
    "effects (snd (shadow_dump m ctx offs n st)) = effects st" by auto
qed

lemma release_ctx_frame:
  assumes "bps_ok usable ctx"
  shows "effects (release_ctx usable m ctx st) = effects st @ ctx_release_events ctx"
    and "same_but_slots st (release_ctx usable m ctx st)"
    and "g_dbell_slots (release_ctx usable m ctx st) = g_dbell_slots (nv_dbell_release_slot (cx_slot_idx ctx) st)"
proof -
  define st2 where "st2 = release_dump m ctx st"
  have t2: "same_tables st st2" "effects st2 = effects st"
    using shadow_dump_frame [where m = m and ctx = ctx and offs = "[0..<1024]" and n = 0 and
        st = "MC_TRACE dbell ''release'' [(''slot'', N (of_nat (cx_slot_idx ctx))),
          (''count'', Z (sint (cx_bp_count ctx)))] st"]
    by (auto simp: st2_def release_dump_def same_tables_def Let_def split: prod.splits)
  obtain st3 where u: "nv_dbell_unregister_bps usable ctx st2 = (ctx\<lparr>cx_bp_events := []\<rparr>, st3)"
    by (metis prod.collapse unregister_bps_frame(1) [OF assms])
  note F = unregister_bps_frame(2,3) [OF assms, of st2, unfolded u snd_conv]
  have r: "release_ctx usable m ctx st = (let
      st4 = (if cx_doorbell_iomap ctx \<noteq> 0 then klog (Iounmap (cx_doorbell_iomap ctx)) st3 else st3);
      st5 = nv_dbell_release_slot (cx_slot_idx ctx) st4;
      st6 = (if cx_shadow_page ctx \<noteq> 0 then klog (Free_page (cx_shadow_page ctx)) st5 else st5) in
      kfree (cx_ptr ctx) st6)"
    using u by (simp add: release_ctx_def st2_def [symmetric] Let_def)
  show "effects (release_ctx usable m ctx st) = effects st @ ctx_release_events ctx"
    using F(2) t2(2) by (simp add: r ctx_release_events_def Let_def)
  have t3: "same_tables st st3" using t2(1) F(1) by (simp add: same_tables_def)
  then have "same_but_slots st st3" using same_but_slots_trans [of st st st3] by simp
  then show "same_but_slots st (release_ctx usable m ctx st)" by (simp add: r Let_def)
  show "g_dbell_slots (release_ctx usable m ctx st) = g_dbell_slots (nv_dbell_release_slot (cx_slot_idx ctx) st)"
    using t3 by (auto simp: r same_tables_def nv_dbell_release_slot_def Let_def)
qed

text \<open>
  C6.  A watched mapping returns everything it took.  If the interception does not succeed, on any of
  its error paths, every resource (heap object, page, I/O mapping, breakpoint, slot) is held as
  before; if it succeeds, it is armed with 1 to 64 breakpoints, and releasing the mapping later gives
  back exactly what the interception acquired, whatever the number of doorbells counted in between.
\<close>

theorem watch_lifecycle_balanced:
  assumes "nv_dbell_intercept_mmap env disable nv vma ranges st = (ret, c, st')"
    and "length (g_dbell_slots st) = 4" "\<forall>a. me_insert env a \<le> 0"
  shows "(ret \<noteq> 1 \<longrightarrow> c = None \<and> (\<forall>r. bal r (effects st') = bal r (effects st))
        \<and> slot_tab.live (g_dbell_slots st') = slot_tab.live (g_dbell_slots st))
    \<and> (ret = 1 \<longrightarrow> (\<exists>ctx. c = Some ctx \<and> 1 \<le> length (cx_bp_events ctx) \<and> length (cx_bp_events ctx) \<le> 64
        \<and> (\<forall>n m r. let st'' = release_ctx (me_usable env) m (ctx\<lparr>cx_bp_count := n\<rparr>) st' in
              bal r (effects st'') = bal r (effects st)
              \<and> slot_tab.live (g_dbell_slots st'') = slot_tab.live (g_dbell_slots st))))"
  using assms
proof (cases rule: intercept_result)
  case none
  then show ?thesis by simp
next
  case (watched ctx evs st2)
  have ok: "bps_ok (me_usable env) (ctx\<lparr>cx_bp_count := n\<rparr>)" for n using watched(3) by (simp add: bps_ok_def)
  have ev: "ctx_release_events (ctx\<lparr>cx_bp_count := n\<rparr>) = ctx_release_events ctx" for n
    by (simp add: ctx_release_events_def)
  have "slot_tab.live (g_dbell_slots (nv_dbell_release_slot (cx_slot_idx ctx) st'))
      = slot_tab.live (g_dbell_slots st)"
    using claim_then_release [OF watched(11) assms(2)] watched(12)
    by (cases "cx_slot_idx ctx < 4") (simp_all add: nv_dbell_release_slot_def)
  then show ?thesis
    using watched(1,2,4,5,13,14)
    by (simp add: release_ctx_frame [OF ok] ev Suc_le_eq algebra_simps)
qed

definition ex_mmap :: mmap_env where
  "ex_mmap = \<lparr>me_usable = True, me_ctx = 0x8000, me_page = 0xa000, me_page_kva = 0x2000,
     me_ioremap = (\<lambda>_ _. 0x3000), me_insert = (\<lambda>_. 0), me_threads = [(0x10, 1), (0x11, 2)],
     me_register = (\<lambda>t va. t + 0x9000), me_pid = 1\<rparr>"

definition ex_window :: vm_area where
  "ex_window = \<lparr>vma_ptr = 0x1100, vm_start = 0x7f0000000000, vm_end = 0x7f0000010000\<rparr>"

lemma insert_loop_ok: "\<forall>a. me_insert env a = 0 \<Longrightarrow> fst (insert_loop env vma page ks st) = 0"
  by (induction ks arbitrary: st) (simp_all add: Let_def)

lemma ex_mmap_insert: "\<forall>a. me_insert ex_mmap a = 0"
  by (simp add: ex_mmap_def)

lemma replicate_4: "replicate 4 x = [x, x, x, x]"
  by (simp add: numeral_eq_Suc)

lemma ex_intercept:
  assumes "g_dbell_slots st = replicate 4 \<lparr>sl_claimed = 0, sl_ctx = 0\<rparr>"
  shows "\<exists>ctx st'. nv_dbell_intercept_mmap ex_mmap False 0x100 ex_window [(0xd0000000, 0x10000)] st
    = (1, Some ctx, st') \<and> cx_bp_events ctx = [0x9010, 0x9011]"
proof -
  let ?st1 = "klog (Alloc 0x8000) st"
  obtain st2 where claim: "nv_dbell_claim_slot 0x8000 ?st1 = (Some 0, st2)"
    by (simp add: nv_dbell_claim_slot_def slot_insert_def assms replicate_4)
  obtain st5 where L: "insert_loop ex_mmap ex_window 0xa000 [0..<16]
      (klog (Ioremap 0x3000 4) (klog (Alloc_page 0xa000) st2)) = (0, st5)"
    using insert_loop_ok [of ex_mmap ex_window "0xa000" "[0..<16]"] by (metis ex_mmap_insert prod.collapse)
  obtain st6 where A: "arm_loop ex_mmap (vm_start ex_window + 0x90) (me_threads ex_mmap) [] st5 = ([0x9010, 0x9011], st6)"
    by (simp add: ex_mmap_def nv_dbell_bp_register_def IS_ERR_def)
  have x: "me_ctx ex_mmap = 0x8000" "me_page ex_mmap = 0xa000" "me_ioremap ex_mmap = (\<lambda>_ _. 0x3000)"
    "vm_end ex_window - vm_start ex_window = 0x10000" by (simp_all add: ex_mmap_def ex_window_def)
  show ?thesis
    by (simp add: nv_dbell_intercept_mmap_def x claim L nv_dbell_arm_threads_def A Let_def)
qed

theorem watch_lifecycle_balanced_witness:
  "case nv_dbell_intercept_mmap ex_mmap False 0x100 ex_window [(0xd0000000, 0x10000)] dbell_init of
     (ret, c, st') \<Rightarrow> ret = 1 \<and> (\<exists>ctx. c = Some ctx \<and> cx_bp_events ctx = [0x9010, 0x9011]
       \<and> (\<forall>m r. bal r (effects (release_ctx True m (ctx\<lparr>cx_bp_count := 7\<rparr>) st')) = bal r (effects dbell_init)))"
proof -
  obtain ctx st' where I: "nv_dbell_intercept_mmap ex_mmap False 0x100 ex_window [(0xd0000000, 0x10000)] dbell_init
      = (1, Some ctx, st')" "cx_bp_events ctx = [0x9010, 0x9011]"
    using ex_intercept [of dbell_init] by (auto simp: dbell_init_def)
  show ?thesis
    using watch_lifecycle_balanced [OF I(1)] I by (auto simp: dbell_init_def ex_mmap_def Let_def)
qed

end
