(* ===== verification/Dbell_Mmap.thy ===== *)
theory Dbell_Mmap
  imports Dbell_Lifecycle
begin

text \<open>
  The mmap and munmap paths of \<^verbatim>\<open>kernel-open/nvidia/nv-mmap.c\<close> that feed the doorbell watch:
  \<^verbatim>\<open>nvidia_mmap_helper\<close> with its device-node and control-node branches, and the VMA operations
  \<^verbatim>\<open>nvidia_vma_open\<close> and \<^verbatim>\<open>nvidia_vma_release\<close>.  Of a VMA the model keeps its range, its private
  data, whether its operations are installed and whether it has been made read-only.
\<close>

section \<open>Apertures\<close>

text \<open>A BAR or framebuffer range: CPU address and size.\<close>

record nv_aperture =
  ap_cpu_address :: u64
  ap_size :: u64

record nv_bars =
  nb_regs :: nv_aperture
  nb_fb :: "nv_aperture option"
  nb_ud :: nv_aperture

definition ap_contains :: "nv_aperture \<Rightarrow> u64 \<Rightarrow> u64 \<Rightarrow> bool" where
  "ap_contains a off len \<longleftrightarrow> off \<ge> ap_cpu_address a \<and> off + (len - 1) \<ge> off
     \<and> off + (len - 1) \<le> ap_cpu_address a + (ap_size a - 1)"

definition IS_REG_OFFSET :: "nv_bars \<Rightarrow> u64 \<Rightarrow> u64 \<Rightarrow> bool" where
  "IS_REG_OFFSET nv off len \<longleftrightarrow> ap_contains (nb_regs nv) off len"

definition IS_FB_OFFSET :: "nv_bars \<Rightarrow> u64 \<Rightarrow> u64 \<Rightarrow> bool" where
  "IS_FB_OFFSET nv off len \<longleftrightarrow>
     (case nb_fb nv of None \<Rightarrow> False | Some fb \<Rightarrow> ap_size fb \<noteq> 0 \<and> ap_contains fb off len)"

definition IS_UD_OFFSET :: "nv_bars \<Rightarrow> u64 \<Rightarrow> u64 \<Rightarrow> bool" where
  "IS_UD_OFFSET nv off len \<longleftrightarrow>
     ap_cpu_address (nb_ud nv) \<noteq> 0 \<and> ap_size (nb_ud nv) \<noteq> 0 \<and> ap_contains (nb_ud nv) off len"

definition memareaSize :: "(u64 \<times> u64) list \<Rightarrow> u64" where
  "memareaSize ranges = foldl (\<lambda>sz r. sz + snd r) 0 ranges"

section \<open>Caching attributes\<close>

datatype nv_cache = Uncached | Cached | Writecombined | Default_cache | Uncached_weak | Other_cache

datatype nv_memory_type = Type_system | Type_registers | Type_framebuffer | Type_device_mmio

text \<open>
  \<^verbatim>\<open>nv_encode_caching\<close> on x86: whether it fails.  \<open>allow_caching\<close> is \<^verbatim>\<open>NV_ALLOW_CACHING\<close>, whose
  definition depends on the kernel configuration.
\<close>

fun nv_encode_caching :: "(nv_memory_type \<Rightarrow> bool) \<Rightarrow> nv_cache \<Rightarrow> nv_memory_type \<Rightarrow> bool" where
  "nv_encode_caching allow_caching Uncached_weak mt = False"
| "nv_encode_caching allow_caching Uncached mt = False"
| "nv_encode_caching allow_caching Default_cache mt = (mt = Type_registers)"
| "nv_encode_caching allow_caching Writecombined mt = (mt = Type_registers)"
| "nv_encode_caching allow_caching Cached mt = (\<not> allow_caching mt)"
| "nv_encode_caching allow_caching Other_cache mt = True"

section \<open>State and environment\<close>

record vma_state =
  vs_area :: vm_area
  vs_pgoff :: u64
  vs_private :: vma_private
  vs_ops :: bool
  vs_readonly :: bool

record nv_alloc =
  at_ptr :: ptr
  at_num_pages :: u64
  at_peer_io :: bool
  at_cache_type :: nv_cache
  at_page_table :: "(u64 \<Rightarrow> u64) option"
  at_usage_count :: int

text \<open>The mmap context that the resource manager validated for the file descriptor.\<close>

record mmap_context =
  mx_writeable :: bool
  mx_access_start :: u64
  mx_access_size :: u64
  mx_ranges :: "(u64 \<times> u64) list"
  mx_caching :: nv_cache
  mx_num_pages :: u64
  mx_page_array :: "u64 list"
  mx_alloc :: nv_alloc
  mx_page_index :: u64

text \<open>
  The kernel and the resource manager around one call: the doorbell environment, the switch that
  disables interception, the caching rules, the two remap functions, \<^verbatim>\<open>safe_to_mmap\<close>, whether the
  NUMA path is taken, and the environment of the system-memory tracker.
\<close>

record helper_env =
  he_mmap :: mmap_env
  he_disable :: bool
  he_ctl :: bool
  he_gpu_ok :: bool
  he_bars :: nv_bars
  he_nv :: ptr
  he_allow_caching :: "nv_memory_type \<Rightarrow> bool"
  he_iomap_wc_off :: bool
  he_safe_to_mmap :: bool
  he_numa :: bool
  he_io_remap :: "u64 \<Rightarrow> u64 \<Rightarrow> u64 \<Rightarrow> int"
  he_insert_page :: "u64 \<Rightarrow> u64 \<Rightarrow> int"
  he_ioremap_wc :: "u64 \<Rightarrow> u64 \<Rightarrow> ptr"
  he_ioremap :: "u64 \<Rightarrow> u64 \<Rightarrow> ptr"
  he_sysmem :: sysmem_env

abbreviation (input) ENXIO :: int where "ENXIO \<equiv> 6"
abbreviation (input) EAGAIN :: int where "EAGAIN \<equiv> 11"
abbreviation (input) ERANGE :: int where "ERANGE \<equiv> 34"

text \<open>Where a branch ends: at \<^verbatim>\<open>done\<close> with a code, at \<^verbatim>\<open>success\<close>, or at the code between the two.\<close>

datatype mmap_exit = Done int | Success | Fall

definition vma_size :: "vma_state \<Rightarrow> u64" where
  "vma_size v = vm_end (vs_area v) - vm_start (vs_area v)"

section \<open>Device-node mappings\<close>

text \<open>
  \<^verbatim>\<open>nvidia_mmap_numa\<close>.  The loop header reads \<^verbatim>\<open>page_array[++i]\<close> before the condition is tested
  again; \<open>None\<close> is a read outside the array.
\<close>

fun numa_loop :: "(u64 \<Rightarrow> u64 \<Rightarrow> int) \<Rightarrow> u64 list \<Rightarrow> nat \<Rightarrow> nat \<Rightarrow> u64 \<Rightarrow> u64 \<Rightarrow> int option" where
  "numa_loop ins pa i 0 addr start = Some 0"
| "numa_loop ins pa i (Suc left) addr start =
     (if ins start addr \<noteq> 0 then Some (- EAGAIN)
      else if Suc i < length pa then numa_loop ins pa (Suc i) left (pa ! Suc i) (start + PAGE_SIZE)
      else None)"

definition nvidia_mmap_numa :: "(u64 \<Rightarrow> u64 \<Rightarrow> int) \<Rightarrow> vma_state \<Rightarrow> mmap_context \<Rightarrow> int option" where
  "nvidia_mmap_numa ins v mx =
     (let pages = drop_bit 12 (vma_size v) in
      if mx_num_pages mx < pages then Some (- EINVAL)
      else if mx_page_array mx = [] then None
      else numa_loop ins (mx_page_array mx) 0 (unat pages) (mx_page_array mx ! 0) (vm_start (vs_area v)))"

fun remap_ranges :: "(u64 \<Rightarrow> u64 \<Rightarrow> u64 \<Rightarrow> int) \<Rightarrow> u64 \<Rightarrow> u64 \<Rightarrow> (u64 \<times> u64) list \<Rightarrow> int" where
  "remap_ranges io start curOffs [] = 0"
| "remap_ranges io start curOffs ((pa, sz) # rs) =
     (if io pa sz (start + curOffs) \<noteq> 0 then - EAGAIN else remap_ranges io start (curOffs + sz) rs)"

definition device_caching :: "helper_env \<Rightarrow> mmap_context \<Rightarrow> bool" where
  "device_caching env mx =
     (let enc = nv_encode_caching (he_allow_caching env);
          a = mx_access_start mx; n = mx_access_size mx in
      if IS_REG_OFFSET (he_bars env) a n then enc Uncached Type_registers
      else if IS_FB_OFFSET (he_bars env) a n then
        if IS_UD_OFFSET (he_bars env) a n then enc Uncached Type_framebuffer
        else enc (if he_iomap_wc_off env then Uncached else mx_caching mx) Type_framebuffer
             \<and> enc Uncached_weak Type_framebuffer
      else False)"

definition device_trace :: "helper_env \<Rightarrow> vma_state \<Rightarrow> mmap_context \<Rightarrow> dbell_state \<Rightarrow> dbell_state" where
  "device_trace env v mx st =
     (if IS_REG_OFFSET (he_bars env) (mx_access_start mx) (mx_access_size mx) then
        MC_TRACE mmap ''bar0'' [(''pid'', Z (me_pid (he_mmap env))), (''pa'', N (mx_access_start mx)),
          (''size'', N (vma_size v)), (''nr'', N (of_nat (length (mx_ranges mx))))] st
      else st)"

text \<open>The normal remap, \<open>None\<close> when the page array is read out of bounds.\<close>

definition device_remap :: "helper_env \<Rightarrow> vma_state \<Rightarrow> mmap_context \<Rightarrow> int option" where
  "device_remap env v mx =
     (if he_safe_to_mmap env then
        if he_numa env \<and> mx_num_pages mx \<noteq> 0 then nvidia_mmap_numa (he_insert_page env) v mx
        else Some (remap_ranges (he_io_remap env) (vm_start (vs_area v)) 0 (mx_ranges mx))
      else Some 0)"

definition mmap_device ::
  "helper_env \<Rightarrow> vma_state \<Rightarrow> mmap_context \<Rightarrow> dbell_state \<Rightarrow> (mmap_exit \<times> vma_state \<times> dbell_state) option" where
  "mmap_device env v mx st =
     (if vma_size v \<noteq> memareaSize (mx_ranges mx) then Some (Done (- ENXIO), v, st)
      else if device_caching env mx then Some (Done (- ENXIO), v, st)
      else
        case nv_dbell_intercept_mmap (he_mmap env) (he_disable env) (he_nv env) (vs_area v) (mx_ranges mx)
               (device_trace env v mx st) of
          (dbell_ret, c, st1) \<Rightarrow>
            if dbell_ret > 0 then
              Some (Success, v\<lparr>vs_private := (case c of Some ctx \<Rightarrow> Priv_Ctx ctx | None \<Rightarrow> Priv_None)\<rparr>, st1)
            else if dbell_ret < 0 then Some (Done dbell_ret, v, st1)
            else
              (case device_remap env v mx of
                 None \<Rightarrow> None
               | Some ret \<Rightarrow>
                   if ret \<noteq> 0 then Some (Done ret, v, st1)
                   else
                     let a = mx_access_start mx; n = mx_access_size mx in
                     if IS_FB_OFFSET (he_bars env) a n \<and> \<not> IS_UD_OFFSET (he_bars env) a n
                        \<and> length (mx_ranges mx) = 1
                     then Some (Fall, v,
                       snd (nv_dbell_bar1_track_add (he_ioremap_wc env) (he_ioremap env) (vs_area v)
                              (fst (hd (mx_ranges mx))) (snd (hd (mx_ranges mx))) st1))
                     else Some (Fall, v, st1)))"

section \<open>Control-node mappings\<close>

definition nv_dbell_note_ctl_peer ::
  "helper_env \<Rightarrow> vma_state \<Rightarrow> nv_alloc \<Rightarrow> u64 \<Rightarrow> u64 \<Rightarrow> u64 \<Rightarrow> dbell_state \<Rightarrow> dbell_state" where
  "nv_dbell_note_ctl_peer env v at page_index mmap_size pages st =
     (let first_phys = (case at_page_table at of Some f \<Rightarrow> f page_index | None \<Rightarrow> 0);
          st1 = MC_TRACE mmap ''ctl_peer'' [(''pid'', Z (me_pid (he_mmap env))), (''size'', N mmap_size),
                  (''pages'', N pages), (''first_phys'', N first_phys)] st in
      if first_phys \<ge> 0x1fc000000000 \<and> first_phys < 0x1fe000000000 then
        snd (nv_dbell_bar1_track_add (he_ioremap_wc env) (he_ioremap env) (vs_area v) first_phys mmap_size st1)
      else st1)"

definition nvidia_mmap_peer_io :: "helper_env \<Rightarrow> vma_state \<Rightarrow> nv_alloc \<Rightarrow> u64 \<Rightarrow> u64 \<Rightarrow> int" where
  "nvidia_mmap_peer_io env v at page_index pages =
     he_io_remap env (case at_page_table at of Some f \<Rightarrow> f page_index | None \<Rightarrow> 0) (pages * PAGE_SIZE)
       (vm_start (vs_area v))"

fun sysmem_loop :: "(u64 \<Rightarrow> u64 \<Rightarrow> int) \<Rightarrow> (u64 \<Rightarrow> u64) \<Rightarrow> u64 \<Rightarrow> nat \<Rightarrow> u64 \<Rightarrow> int" where
  "sysmem_loop ins f j 0 start = 0"
| "sysmem_loop ins f j (Suc left) start =
     (if ins start (f j) \<noteq> 0 then - EAGAIN else sysmem_loop ins f (j + 1) left (start + PAGE_SIZE))"

text \<open>The usage count is raised first and lowered again when a page cannot be mapped.\<close>

definition nvidia_mmap_sysmem ::
  "helper_env \<Rightarrow> vma_state \<Rightarrow> nv_alloc \<Rightarrow> u64 \<Rightarrow> u64 \<Rightarrow> int \<times> nv_alloc" where
  "nvidia_mmap_sysmem env v at page_index pages =
     (let at1 = at\<lparr>at_usage_count := at_usage_count at + 1\<rparr>;
          ret = sysmem_loop (he_insert_page env) (case at_page_table at of Some f \<Rightarrow> f | None \<Rightarrow> (\<lambda>_. 0))
                  page_index (unat pages) (vm_start (vs_area v)) in
      if ret \<noteq> 0 then (ret, at) else (0, at1))"

definition mmap_ctl ::
  "helper_env \<Rightarrow> vma_state \<Rightarrow> mmap_context \<Rightarrow> dbell_state \<Rightarrow> mmap_exit \<times> vma_state \<times> nv_alloc \<times> dbell_state" where
  "mmap_ctl env v mx st =
     (let at = mx_alloc mx;
          page_index = mx_page_index mx;
          mmap_size = vma_size v;
          pages = drop_bit 12 mmap_size in
      if page_index + pages > at_num_pages at then (Done (- ERANGE), v, at, st)
      else if at_peer_io at then
        if nv_encode_caching (he_allow_caching env) (at_cache_type at) Type_device_mmio
        then (Done (- ENXIO), v, at, st)
        else
          let st1 = nv_dbell_note_ctl_peer env v at page_index mmap_size pages st;
              v1 = v\<lparr>vs_private := Priv_None\<rparr>;
              ret = nvidia_mmap_peer_io env v1 at page_index pages in
          if ret \<noteq> 0 then (Done ret, v1, at, st1) else (Fall, v1, at, st1)
      else if nv_encode_caching (he_allow_caching env) (at_cache_type at) Type_system
        then (Done (- ENXIO), v, at, st)
      else
        let v1 = v\<lparr>vs_private := Priv_Alloc (at_ptr at)\<rparr>;
            (ret, at1) = nvidia_mmap_sysmem env v1 at page_index pages in
        if ret \<noteq> 0 then (Done ret, v1, at1, st)
        else if pages \<ge> 256 then
          (Fall, v1, at1,
           snd (nv_dbell_sysmem_track_add (he_sysmem env) (vs_area v) (at_page_table at) page_index pages st))
        else (Fall, v1, at1, st))"

section \<open>The helper\<close>

text \<open>The code after the two branches: the read-only restriction and the \<^verbatim>\<open>success\<close> label.\<close>

fun mmap_finish :: "mmap_context \<Rightarrow> mmap_exit \<Rightarrow> vma_state \<Rightarrow> int \<times> vma_state" where
  "mmap_finish mx (Done ret) v = (ret, v)"
| "mmap_finish mx Success v = (0, v\<lparr>vs_ops := True\<rparr>)"
| "mmap_finish mx Fall v =
     (0, (if \<not> mx_writeable mx then v\<lparr>vs_readonly := True\<rparr> else v)\<lparr>vs_ops := True\<rparr>)"

definition nvidia_mmap_helper ::
  "helper_env \<Rightarrow> mmap_context option \<Rightarrow> vma_state \<Rightarrow> dbell_state \<Rightarrow> (int \<times> vma_state \<times> dbell_state) option" where
  "nvidia_mmap_helper env mxo v st =
     (case mxo of
        None \<Rightarrow> Some (- EINVAL, v, st)
      | Some mx \<Rightarrow>
          if vs_pgoff v \<noteq> 0 then Some (- EINVAL, v, st)
          else
            let st1 = MC_TRACE mmap ''any'' [(''pid'', Z (me_pid (he_mmap env))), (''ctl'', N (if he_ctl env then 1 else 0)),
                        (''size'', N (vma_size v)), (''access_start'', N (mx_access_start mx)),
                        (''pgoff'', N (vs_pgoff v))] st in
            if \<not> he_gpu_ok env then Some (- EINVAL, v, st1)
            else
              let v1 = v\<lparr>vs_private := Priv_None\<rparr> in
              if \<not> he_ctl env then
                (case mmap_device env v1 mx st1 of
                   None \<Rightarrow> None
                 | Some (e, v2, st2) \<Rightarrow> (case mmap_finish mx e v2 of (ret, v3) \<Rightarrow> Some (ret, v3, st2)))
              else
                (case mmap_ctl env v1 mx st1 of
                   (e, v2, at, st2) \<Rightarrow> (case mmap_finish mx e v2 of (ret, v3) \<Rightarrow> Some (ret, v3, st2))))"

section \<open>VMA operations\<close>

text \<open>A copied VMA of an allocation takes another reference; a watched VMA is left alone.\<close>

definition nvidia_vma_open :: "vma_state \<Rightarrow> nv_alloc \<Rightarrow> nv_alloc" where
  "nvidia_vma_open v at =
     (if nv_dbell_is_watched_vma (vs_private v) then at
      else case vs_private v of
        Priv_Alloc p \<Rightarrow> if p \<noteq> 0 then at\<lparr>at_usage_count := at_usage_count at + 1\<rparr> else at
      | _ \<Rightarrow> at)"

text \<open>\<^verbatim>\<open>nv_alloc_release\<close>: the new count, and whether the allocation went to the free list.\<close>

definition nv_alloc_release :: "nv_alloc \<Rightarrow> bool \<times> nv_alloc" where
  "nv_alloc_release at =
     (if at_usage_count at - 1 = 0 then (True, at)
      else (False, at\<lparr>at_usage_count := at_usage_count at - 1\<rparr>))"

definition nvidia_vma_release ::
  "bool \<Rightarrow> memory \<Rightarrow> vma_state \<Rightarrow> nv_alloc \<Rightarrow> dbell_state \<Rightarrow> vma_state \<times> nv_alloc \<times> dbell_state" where
  "nvidia_vma_release usable m v at st =
     (if nv_dbell_is_watched_vma (vs_private v) then
        (case nv_dbell_vma_release usable m (vs_private v) st of
           (p, st1) \<Rightarrow> (v\<lparr>vs_private := p\<rparr>, at, st1))
      else
        let st1 = nv_dbell_bar1_track_remove (vma_ptr (vs_area v)) st;
            st2 = nv_dbell_sysmem_track_remove True (vma_ptr (vs_area v)) st1 in
        (case vs_private v of
           Priv_Alloc p \<Rightarrow> if p \<noteq> 0 then (v, snd (nv_alloc_release at), st2) else (v, at, st2)
         | _ \<Rightarrow> (v, at, st2)))"

section \<open>Tracking a mapping and releasing it\<close>

text \<open>What release sees of the state: live entries of the three tables, and every balance.\<close>

definition same_holdings :: "dbell_state \<Rightarrow> dbell_state \<Rightarrow> bool" where
  "same_holdings st st' \<longleftrightarrow> bar1_tab.live (g_bar1_tracked st') = bar1_tab.live (g_bar1_tracked st)
     \<and> sysmem_tab.live (g_sysmem_tracked st') = sysmem_tab.live (g_sysmem_tracked st)
     \<and> slot_tab.live (g_dbell_slots st') = slot_tab.live (g_dbell_slots st)
     \<and> (\<forall>r. bal r (effects st') = bal r (effects st))"

lemma track_remove_frame [simp]:
  "g_sysmem_tracked (nv_dbell_bar1_track_remove vma st) = g_sysmem_tracked st"
  "g_dbell_slots (nv_dbell_bar1_track_remove vma st) = g_dbell_slots st"
  "g_bar1_tracked (nv_dbell_sysmem_track_remove b vma st) = g_bar1_tracked st"
  "g_dbell_slots (nv_dbell_sysmem_track_remove b vma st) = g_dbell_slots st"
  by (auto simp: nv_dbell_bar1_track_remove_def nv_dbell_sysmem_track_remove_def nv_vm_unmap_pages_def
      Let_def split: option.splits prod.splits)

lemma track_add_frame [simp]:
  "g_sysmem_tracked (snd (nv_dbell_bar1_track_add wc io vma phys sz st)) = g_sysmem_tracked st"
  "g_dbell_slots (snd (nv_dbell_bar1_track_add wc io vma phys sz st)) = g_dbell_slots st"
  by (auto simp: nv_dbell_bar1_track_add_def Let_def split: option.splits)

lemma sysmem_add_frame [simp]:
  "g_bar1_tracked (snd (nv_dbell_sysmem_track_add env vma pt ix n st)) = g_bar1_tracked st"
  "g_dbell_slots (snd (nv_dbell_sysmem_track_add env vma pt ix n st)) = g_dbell_slots st"
  by (auto simp: nv_dbell_sysmem_track_add_def nv_vm_map_pages_def nv_vm_unmap_pages_def kfree_def
      Let_def split: option.splits prod.splits if_splits)

lemma bar1_remove_fresh:
  assumes "\<forall>e \<in> set (g_bar1_tracked st). b1_vma e \<noteq> vma"
  shows "nv_dbell_bar1_track_remove vma st = st"
proof -
  have "slot_clear (\<lambda>e. b1_vma e = vma) (\<lambda>_. bar1_free) (g_bar1_tracked st) = None"
    using assms by (simp add: slot_clear_None)
  then show ?thesis by (simp add: nv_dbell_bar1_track_remove_def)
qed

lemma sysmem_remove_fresh:
  assumes "\<forall>e \<in> set (g_sysmem_tracked st). sm_vma e \<noteq> vma"
  shows "nv_dbell_sysmem_track_remove b vma st = st"
proof -
  have "slot_clear (\<lambda>e. sm_vma e = vma) (\<lambda>_. sysmem_free) (g_sysmem_tracked st) = None"
    using assms by (simp add: slot_clear_None)
  then show ?thesis by (simp add: nv_dbell_sysmem_track_remove_def)
qed

lemma bar1_add_remove:
  assumes fresh: "\<forall>e \<in> set (g_bar1_tracked st). b1_vma e \<noteq> vma_ptr vma" and vma: "vma_ptr vma \<noteq> 0"
  shows "same_holdings st
    (nv_dbell_bar1_track_remove (vma_ptr vma) (snd (nv_dbell_bar1_track_add wc io vma phys sz st)))"
proof (cases rule: bar1_add_cases [of wc io vma phys sz st])
  case nomap
  with fresh bar1_remove_fresh [of "snd (nv_dbell_bar1_track_add wc io vma phys sz st)"] show ?thesis
    by (simp add: same_holdings_def)
next
  case (full kva)
  with fresh bar1_remove_fresh [of "snd (nv_dbell_bar1_track_add wc io vma phys sz st)"] show ?thesis
    by (simp add: same_holdings_def)
next
  case (added kva i t)
  have "\<forall>x \<in># bar1_tab.live (g_bar1_tracked st). b1_vma x \<noteq> vma_ptr vma"
    using fresh by (auto simp: bar1_tab.live_def)
  from bar1_tab.insert_then_clear [OF added(4) _ vma this]
  obtain t'' where B: "slot_clear (\<lambda>e. b1_vma e = vma_ptr vma) (\<lambda>_. bar1_free) t
      = Some (i, bar1_entry vma phys sz kva, t'')"
    "bar1_tab.live t'' = bar1_tab.live (g_bar1_tracked st)"
    by (auto simp: bar1_entry_def)
  then show ?thesis
    using added by (simp add: same_holdings_def nv_dbell_bar1_track_remove_def bar1_entry_def Let_def)
qed

lemma sysmem_add_remove:
  assumes fresh: "\<forall>e \<in> set (g_sysmem_tracked st). sm_vma e \<noteq> vma_ptr vma" and vma: "vma_ptr vma \<noteq> 0"
  shows "same_holdings st
    (nv_dbell_sysmem_track_remove True (vma_ptr vma) (snd (nv_dbell_sysmem_track_add env vma pt ix n st)))"
proof (cases rule: sysmem_add_cases [of env vma pt ix n st])
  case failed
  with fresh sysmem_remove_fresh [of "snd (nv_dbell_sysmem_track_add env vma pt ix n st)"] show ?thesis
    by (simp add: same_holdings_def balance_effects)
next
  case (added kva i t)
  have "\<forall>x \<in># sysmem_tab.live (g_sysmem_tracked st). sm_vma x \<noteq> vma_ptr vma"
    using fresh by (auto simp: sysmem_tab.live_def)
  from sysmem_tab.insert_then_clear [OF added(6) _ vma this]
  obtain t'' where B: "slot_clear (\<lambda>e. sm_vma e = vma_ptr vma) (\<lambda>_. sysmem_free) t
      = Some (i, sysmem_entry vma kva (ucast n), t'')"
    "sysmem_tab.live t'' = sysmem_tab.live (g_sysmem_tracked st)"
    by (auto simp: sysmem_entry_def)
  then show ?thesis
    using added by (simp add: same_holdings_def nv_dbell_sysmem_track_remove_def nv_vm_unmap_pages_def
        sysmem_entry_def Let_def)
qed

lemma same_holdings_trans:
  "same_holdings st st1 \<Longrightarrow> same_holdings st1 st2 \<Longrightarrow> same_holdings st st2"
  by (simp add: same_holdings_def)

lemma same_holdings_log [simp]:
  "same_holdings (MC_TRACE c n f st) st' = same_holdings st st'"
  "same_holdings st (MC_TRACE c n f st') = same_holdings st st'"
  "same_holdings st st"
  by (simp_all add: same_holdings_def)

lemma device_trace_frame [simp]:
  "g_bar1_tracked (device_trace env v mx st) = g_bar1_tracked st"
  "g_sysmem_tracked (device_trace env v mx st) = g_sysmem_tracked st"
  "g_dbell_slots (device_trace env v mx st) = g_dbell_slots st"
  "effects (device_trace env v mx st) = effects st"
  by (simp_all add: device_trace_def)

text \<open>The VMA is not in a tracker yet.\<close>

definition vma_fresh :: "vma_state \<Rightarrow> dbell_state \<Rightarrow> bool" where
  "vma_fresh v st \<longleftrightarrow> vma_ptr (vs_area v) \<noteq> 0
     \<and> (\<forall>e \<in> set (g_bar1_tracked st). b1_vma e \<noteq> vma_ptr (vs_area v))
     \<and> (\<forall>e \<in> set (g_sysmem_tracked st). sm_vma e \<noteq> vma_ptr (vs_area v))"

lemma release_tracked:
  assumes "vma_fresh v st" "\<not> nv_dbell_is_watched_vma (vs_private v)"
    and "st' = st \<or> (\<exists>wc io phys sz. st' = snd (nv_dbell_bar1_track_add wc io (vs_area v) phys sz st))
      \<or> (\<exists>env pt ix n. st' = snd (nv_dbell_sysmem_track_add env (vs_area v) pt ix n st))"
  shows "same_holdings st (snd (snd (nvidia_vma_release usable m v at st')))"
proof -
  have rel: "snd (snd (nvidia_vma_release usable m v at st')) =
      nv_dbell_sysmem_track_remove True (vma_ptr (vs_area v)) (nv_dbell_bar1_track_remove (vma_ptr (vs_area v)) st')"
    using assms(2) by (simp add: nvidia_vma_release_def Let_def split: vma_private.splits)
  have fresh: "vma_ptr (vs_area v) \<noteq> 0"
    "\<forall>e \<in> set (g_bar1_tracked st). b1_vma e \<noteq> vma_ptr (vs_area v)"
    "\<forall>e \<in> set (g_sysmem_tracked st). sm_vma e \<noteq> vma_ptr (vs_area v)"
    using assms(1) by (auto simp: vma_fresh_def)
  from assms(3) show ?thesis
  proof (elim disjE exE)
    assume "st' = st"
    then show ?thesis unfolding rel using fresh by (simp add: bar1_remove_fresh sysmem_remove_fresh)
  next
    fix wc io phys sz
    assume a: "st' = snd (nv_dbell_bar1_track_add wc io (vs_area v) phys sz st)"
    show ?thesis
      unfolding rel using bar1_add_remove [OF fresh(2,1)] fresh(3)
      by (subst sysmem_remove_fresh) (simp_all add: a)
  next
    fix env pt ix n
    assume a: "st' = snd (nv_dbell_sysmem_track_add env (vs_area v) pt ix n st)"
    have "nv_dbell_bar1_track_remove (vma_ptr (vs_area v)) st' = st'"
      using fresh(2) by (intro bar1_remove_fresh) (simp add: a)
    then show ?thesis unfolding rel using sysmem_add_remove [OF fresh(3,1)] by (simp add: a)
  qed
qed

lemma device_roundtrip:
  assumes D: "mmap_device env v mx st = Some (e, v', st')" "e = Success \<or> e = Fall"
    and fresh: "vma_fresh v st" and len: "length (g_dbell_slots st) = 4"
    and ins: "\<forall>a. me_insert (he_mmap env) a \<le> 0" and priv: "vs_private v = Priv_None"
    and v'': "vs_private v'' = vs_private v'" "vs_area v'' = vs_area v"
  shows "same_holdings st (snd (snd (nvidia_vma_release (me_usable (he_mmap env)) m v'' at st')))"
proof -
  let ?st0 = "device_trace env v mx st"
  obtain ret c st1 where I: "nv_dbell_intercept_mmap (he_mmap env) (he_disable env) (he_nv env) (vs_area v)
      (mx_ranges mx) ?st0 = (ret, c, st1)" by (metis prod_cases3)
  have len0: "length (g_dbell_slots ?st0) = 4" using len by simp
  note unf = D(1) [unfolded mmap_device_def I Let_def, simplified]
  from I len0 ins show ?thesis
  proof (cases rule: intercept_result)
    case none
    have t: "g_bar1_tracked st1 = g_bar1_tracked st" "g_sysmem_tracked st1 = g_sysmem_tracked st"
      using none(3) by (simp_all add: same_but_slots_def same_tables_def)
    have fr: "vma_fresh v'' st1" using fresh t v''(2) by (simp add: vma_fresh_def)
    have hold: "same_holdings st st1" using none(4,5) t by (simp add: same_holdings_def)
    have "v' = v" and st': "st' = st1 \<or> (\<exists>wc io phys sz. st' = snd (nv_dbell_bar1_track_add wc io (vs_area v'') phys sz st1))"
      using unf D(2) none(1) v''(2) by (auto split: if_splits option.splits)
    then have "\<not> nv_dbell_is_watched_vma (vs_private v'')" using v''(1) priv by simp
    from release_tracked [OF fr this] st' show ?thesis
      using same_holdings_trans [OF hold] by blast
  next
    case (watched ctx evs st2)
    have v': "vs_private v'' = Priv_Ctx ctx" "st' = st1"
      using unf D(2) watched(1,2) v''(1) by (auto split: if_splits)
    have "slot_tab.live (g_dbell_slots (nv_dbell_release_slot (cx_slot_idx ctx) st1))
        = slot_tab.live (g_dbell_slots st)"
      using claim_then_release [OF watched(11) len0] watched(12)
      by (cases "cx_slot_idx ctx < 4") (simp_all add: nv_dbell_release_slot_def)
    then show ?thesis
      using watched(10,13,14) release_ctx_frame [OF watched(3), where m = m and st = st1]
      by (simp add: nvidia_vma_release_def v' same_holdings_def same_but_slots_def same_tables_def)
  qed
qed

lemma ctl_roundtrip:
  assumes C: "mmap_ctl env v mx st = (Fall, v', at', st')" and fresh: "vma_fresh v st"
    and v'': "vs_private v'' = vs_private v'" "vs_area v'' = vs_area v"
  shows "same_holdings st (snd (snd (nvidia_vma_release usable m v'' at st')))"
proof -
  have fr: "vma_fresh v'' s" if "g_bar1_tracked s = g_bar1_tracked st" "g_sysmem_tracked s = g_sysmem_tracked st" for s
    using fresh that v''(2) by (simp add: vma_fresh_def)
  show ?thesis
  proof (cases "at_peer_io (mx_alloc mx)")
    case True
    have w: "\<not> nv_dbell_is_watched_vma (vs_private v'')"
      using C True v''(1) by (auto simp: mmap_ctl_def Let_def split: if_splits)
    define fp where "fp = (case at_page_table (mx_alloc mx) of Some f \<Rightarrow> f (mx_page_index mx) | None \<Rightarrow> 0)"
    define s where "s = MC_TRACE mmap ''ctl_peer'' [(''pid'', Z (me_pid (he_mmap env))), (''size'', N (vma_size v)),
      (''pages'', N (drop_bit 12 (vma_size v))), (''first_phys'', N fp)] st"
    have "st' = s \<or> (\<exists>wc io phys sz. st' = snd (nv_dbell_bar1_track_add wc io (vs_area v'') phys sz s))"
      using C True v''(2)
      by (auto simp: mmap_ctl_def nv_dbell_note_ctl_peer_def s_def fp_def Let_def split: if_splits)
    moreover have "vma_fresh v'' s" by (rule fr) (simp_all add: s_def)
    ultimately have "same_holdings s (snd (snd (nvidia_vma_release usable m v'' at st')))"
      using release_tracked [OF _ w, of s st'] by blast
    then show ?thesis by (simp add: s_def)
  next
    case False
    have w: "\<not> nv_dbell_is_watched_vma (vs_private v'')"
      using C False v''(1) by (auto simp: mmap_ctl_def Let_def split: if_splits prod.splits)
    have "st' = st \<or> (\<exists>env pt ix n. st' = snd (nv_dbell_sysmem_track_add env (vs_area v'') pt ix n st))"
      using C False v''(2) by (auto simp: mmap_ctl_def Let_def split: if_splits prod.splits)
    then show ?thesis using release_tracked [OF fr w, of st st'] by blast
  qed
qed

text \<open>
  C9.  Mapping and unmapping a device or control node is neutral.  When \<^verbatim>\<open>nvidia_mmap_helper\<close> returns
  0 for a VMA that is not tracked yet, running \<^verbatim>\<open>nvidia_vma_release\<close> on that VMA leaves the trackers,
  the watch slots and every kernel resource as they were before the mmap, on each of the four paths:
  intercepted doorbell window, BAR1 mapping, peer mapping and system memory.
\<close>

theorem mmap_release_roundtrip:
  assumes "nvidia_mmap_helper env (Some mx) v st = Some (0, v', st')"
    and fresh: "vma_fresh v st" and len: "length (g_dbell_slots st) = 4"
    and ins: "\<forall>a. me_insert (he_mmap env) a \<le> 0"
  shows "same_holdings st (snd (snd (nvidia_vma_release (me_usable (he_mmap env)) m v' at st')))"
proof -
  define st1 where "st1 = MC_TRACE mmap ''any'' [(''pid'', Z (me_pid (he_mmap env))),
    (''ctl'', N (if he_ctl env then 1 else 0)), (''size'', N (vma_size v)),
    (''access_start'', N (mx_access_start mx)), (''pgoff'', N (vs_pgoff v))] st"
  let ?v1 = "v\<lparr>vs_private := Priv_None\<rparr>"
  have ok: "vs_pgoff v = 0" "he_gpu_ok env"
    using assms(1) by (auto simp: nvidia_mmap_helper_def Let_def split: if_splits)
  have f1: "vma_fresh ?v1 st1" "length (g_dbell_slots st1) = 4"
    using fresh len by (simp_all add: vma_fresh_def st1_def)
  have fin: "e = Success \<or> e = Fall \<or> (\<exists>r. e = Done r)" for e by (cases e) auto
  have "same_holdings st1 (snd (snd (nvidia_vma_release (me_usable (he_mmap env)) m v' at st')))"
  proof (cases "he_ctl env")
    case False
    then obtain e v2 where D: "mmap_device env ?v1 mx st1 = Some (e, v2, st')" and F: "mmap_finish mx e v2 = (0, v')"
      using assms(1) ok by (auto simp: nvidia_mmap_helper_def st1_def Let_def split: option.splits prod.splits)
    have area: "vs_area v2 = vs_area v" "e \<noteq> Done 0"
      using D by (auto simp: mmap_device_def Let_def split: if_splits option.splits prod.splits)
    then have e: "e = Success \<or> e = Fall" using F fin [of e] by auto
    have "vs_private v' = vs_private v2" "vs_area v' = vs_area ?v1" using F e area(1) by (auto split: if_splits)
    with device_roundtrip [OF D e f1 ins] show ?thesis by simp
  next
    case True
    then obtain e v2 at2 where C: "mmap_ctl env ?v1 mx st1 = (e, v2, at2, st')" and F: "mmap_finish mx e v2 = (0, v')"
      using assms(1) ok by (auto simp: nvidia_mmap_helper_def st1_def Let_def split: prod.splits)
    have area: "vs_area v2 = vs_area v" "e \<noteq> Done 0" "e \<noteq> Success"
      using C by (auto simp: mmap_ctl_def Let_def split: if_splits prod.splits)
    then have e: "e = Fall" using F fin [of e] by auto
    have "vs_private v' = vs_private v2" "vs_area v' = vs_area ?v1" using F e area(1) by (auto split: if_splits)
    with ctl_roundtrip [OF C [unfolded e] f1(1)] show ?thesis by simp
  qed
  then show ?thesis by (simp add: st1_def)
qed

section \<open>Write permission\<close>

text \<open>
  A mapping that the resource manager validated as read-only becomes read-only, with one
  exception: the \<^verbatim>\<open>goto success\<close> of an intercepted doorbell window jumps over the restriction, so a
  read-only window stays writeable, and what user space writes to it is forwarded to the doorbell.
\<close>

theorem mmap_readonly:
  assumes "nvidia_mmap_helper env (Some mx) v st = Some (0, v', st')" "\<not> mx_writeable mx"
    and len: "length (g_dbell_slots st) = 4" and ins: "\<forall>a. me_insert (he_mmap env) a \<le> 0"
  shows "vs_readonly v' = (if nv_dbell_is_watched_vma (vs_private v') then vs_readonly v else True)"
proof (cases "he_ctl env")
  case True
  with assms show ?thesis
    by (auto simp: nvidia_mmap_helper_def mmap_ctl_def Let_def split: if_splits prod.splits)
next
  case False
  let ?v1 = "v\<lparr>vs_private := Priv_None\<rparr>"
  obtain e v2 st2 where D: "mmap_device env ?v1 mx st2 = Some (e, v2, st')" and F: "mmap_finish mx e v2 = (0, v')"
      and s2: "g_dbell_slots st2 = g_dbell_slots st"
    using assms(1) False
    by (auto simp: nvidia_mmap_helper_def Let_def split: if_splits option.splits prod.splits)
  obtain ret c st1 where I: "nv_dbell_intercept_mmap (he_mmap env) (he_disable env) (he_nv env) (vs_area v)
      (mx_ranges mx) (device_trace env ?v1 mx st2) = (ret, c, st1)" by (metis prod_cases3)
  have "length (g_dbell_slots (device_trace env ?v1 mx st2)) = 4" using len s2 by simp
  from I this ins show ?thesis
  proof (cases rule: intercept_result)
    case none
    then show ?thesis
      using D F I assms(2) by (auto simp: mmap_device_def Let_def split: if_splits option.splits)
  next
    case (watched ctx evs st3)
    then show ?thesis
      using D F I assms(2) by (auto simp: mmap_device_def Let_def split: if_splits option.splits)
  qed
qed

section \<open>Two error paths\<close>

text \<open>
  The control-node path tracks a peer mapping before it remaps it.  When the remap fails the
  helper returns the error without undoing the tracking: the entry of the VMA that is about to be
  freed stays in the table, with its kernel alias mapped.
\<close>

theorem ctl_peer_leak:
  assumes "he_ctl env" "he_gpu_ok env" "vs_pgoff v = 0" "at_peer_io (mx_alloc mx)"
    and "\<not> mx_page_index mx + drop_bit 12 (vma_size v) > at_num_pages (mx_alloc mx)"
    and "\<not> nv_encode_caching (he_allow_caching env) (at_cache_type (mx_alloc mx)) Type_device_mmio"
    and "at_page_table (mx_alloc mx) = Some f" "0x1fc000000000 \<le> f (mx_page_index mx)"
      "f (mx_page_index mx) < 0x1fe000000000"
    and fail: "nvidia_mmap_peer_io env (v\<lparr>vs_private := Priv_None\<rparr>) (mx_alloc mx) (mx_page_index mx)
      (drop_bit 12 (vma_size v)) = ret" "ret \<noteq> 0"
    and map: "bar1_ioremap (he_ioremap_wc env) (he_ioremap env) (f (mx_page_index mx)) (vma_size v) \<noteq> 0"
    and room: "\<exists>e \<in> set (g_bar1_tracked st). bar1_vacant e"
  shows "\<exists>v' st'. nvidia_mmap_helper env (Some mx) v st = Some (ret, v', st')
    \<and> vma_ptr (vs_area v) \<in> b1_vma ` set (g_bar1_tracked st')"
proof -
  obtain st2 where H: "nvidia_mmap_helper env (Some mx) v st = Some (ret, v\<lparr>vs_private := Priv_None\<rparr>,
      snd (nv_dbell_bar1_track_add (he_ioremap_wc env) (he_ioremap env) (vs_area v) (f (mx_page_index mx))
        (vma_size v) st2))" and s2: "g_bar1_tracked st2 = g_bar1_tracked st"
    using assms(1-9) fail
    by (auto simp: nvidia_mmap_helper_def mmap_ctl_def nv_dbell_note_ctl_peer_def vma_size_def Let_def)
  let ?kva = "bar1_ioremap (he_ioremap_wc env) (he_ioremap env) (f (mx_page_index mx)) (vma_size v)"
  let ?e = "bar1_entry (vs_area v) (f (mx_page_index mx)) (vma_size v) ?kva"
  obtain i t where T: "slot_insert bar1_vacant ?e (g_bar1_tracked st) = Some (i, t)"
    using room slot_insert_None [of bar1_vacant ?e "g_bar1_tracked st"] by (metis not_None_eq surj_pair)
  have "g_bar1_tracked (snd (nv_dbell_bar1_track_add (he_ioremap_wc env) (he_ioremap env) (vs_area v)
      (f (mx_page_index mx)) (vma_size v) st2)) = t"
    using map T by (simp add: nv_dbell_bar1_track_add_def s2 Let_def)
  moreover have "?e \<in> set t" using slot_insert_SomeD [OF T] by (simp add: set_update_memI)
  moreover have "b1_vma ?e = vma_ptr (vs_area v)" by (simp add: bar1_entry_def)
  ultimately show ?thesis using H by (metis image_eqI)
qed

lemma numa_loop_oob:
  assumes "\<forall>a b. ins a b = 0" "0 < left" "i + left = length pa"
  shows "numa_loop ins pa i left addr start = None"
  using assms(2,3)
proof (induction left arbitrary: i addr start)
  case (Suc left)
  show ?case
  proof (cases left)
    case 0
    with Suc.prems assms(1) show ?thesis by simp
  next
    case (Suc k)
    with Suc.IH [of "Suc i"] Suc.prems assms(1) show ?thesis by simp
  qed
qed simp

text \<open>
  C12.  \<^verbatim>\<open>nvidia_mmap_numa\<close> reads one element past the end of an array that has exactly as many pages
  as the VMA: its loop header loads \<^verbatim>\<open>page_array[++i]\<close> after the last page was mapped.
\<close>

theorem mmap_numa_oob:
  assumes "\<forall>a b. ins a b = 0" "length (mx_page_array mx) = unat (drop_bit 12 (vma_size v))"
    and "drop_bit 12 (vma_size v) \<noteq> 0" "drop_bit 12 (vma_size v) \<le> mx_num_pages mx"
  shows "nvidia_mmap_numa ins v mx = None"
proof -
  have pos: "0 < unat (drop_bit 12 (vma_size v))" using assms(3) by (simp add: unat_gt_0)
  then have "mx_page_array mx \<noteq> []" using assms(2) by auto
  with numa_loop_oob [OF assms(1) pos, of 0 "mx_page_array mx"] assms(2,4) show ?thesis
    by (simp add: nvidia_mmap_numa_def Let_def not_less)
qed

section \<open>Examples\<close>

definition ex_helper :: helper_env where
  "ex_helper = \<lparr>he_mmap = ex_mmap, he_disable = False, he_ctl = False, he_gpu_ok = True,
     he_bars = \<lparr>nb_regs = \<lparr>ap_cpu_address = 0xd0000000, ap_size = 0x1000000\<rparr>, nb_fb = None,
       nb_ud = \<lparr>ap_cpu_address = 0, ap_size = 0\<rparr>\<rparr>,
     he_nv = 0x100, he_allow_caching = (\<lambda>mt. mt = Type_system), he_iomap_wc_off = False,
     he_safe_to_mmap = True, he_numa = False, he_io_remap = (\<lambda>_ _ _. 0), he_insert_page = (\<lambda>_ _. 0),
     he_ioremap_wc = (\<lambda>_ _. 0xffffc90000000000), he_ioremap = (\<lambda>_ _. 0),
     he_sysmem = \<lparr>en_pages = 0x6000, en_pfn_to_page = (\<lambda>p. p), en_may_sleep = True, en_vmap = (\<lambda>_. 0)\<rparr>\<rparr>"

definition ex_alloc :: nv_alloc where
  "ex_alloc = \<lparr>at_ptr = 0x4000, at_num_pages = 16, at_peer_io = True, at_cache_type = Uncached,
     at_page_table = Some (\<lambda>_. 0x1fc022000000), at_usage_count = 1\<rparr>"

definition ex_context :: mmap_context where
  "ex_context = \<lparr>mx_writeable = False, mx_access_start = 0xd0000000, mx_access_size = 0x10000,
     mx_ranges = [(0xd0000000, 0x10000)], mx_caching = Uncached, mx_num_pages = 0, mx_page_array = [],
     mx_alloc = ex_alloc, mx_page_index = 0\<rparr>"

definition ex_vma_state :: vma_state where
  "ex_vma_state = \<lparr>vs_area = ex_window, vs_pgoff = 0, vs_private = Priv_None, vs_ops = False, vs_readonly = False\<rparr>"

lemma ex_helper_window:
  "\<exists>ctx st'. nvidia_mmap_helper ex_helper (Some ex_context) ex_vma_state dbell_init
     = Some (0, ex_vma_state\<lparr>vs_private := Priv_Ctx ctx, vs_ops := True\<rparr>, st')"
proof -
  have c: "mmap_device ex_helper ex_vma_state ex_context s = Some (Success, ex_vma_state\<lparr>vs_private := Priv_Ctx ctx\<rparr>, s')"
    if "nv_dbell_intercept_mmap ex_mmap False 0x100 ex_window [(0xd0000000, 0x10000)]
        (device_trace ex_helper ex_vma_state ex_context s) = (1, Some ctx, s')" for s ctx s'
    using that
    by (simp add: mmap_device_def ex_helper_def ex_context_def ex_vma_state_def ex_window_def vma_size_def
        memareaSize_def device_caching_def IS_REG_OFFSET_def ap_contains_def Let_def)
  define s where "s = MC_TRACE mmap ''any'' [(''pid'', Z (me_pid (he_mmap ex_helper))),
    (''ctl'', N 0), (''size'', N (vma_size ex_vma_state)),
    (''access_start'', N (mx_access_start ex_context)), (''pgoff'', N 0)] dbell_init"
  have "g_dbell_slots (device_trace ex_helper ex_vma_state ex_context s) = replicate 4 \<lparr>sl_claimed = 0, sl_ctx = 0\<rparr>"
    by (simp add: s_def) (simp add: dbell_init_def)
  from ex_intercept [OF this] c obtain ctx s' where
    d: "mmap_device ex_helper ex_vma_state ex_context s = Some (Success, ex_vma_state\<lparr>vs_private := Priv_Ctx ctx\<rparr>, s')"
    by blast
  have v: "ex_vma_state\<lparr>vs_private := Priv_None\<rparr> = ex_vma_state" "vs_pgoff ex_vma_state = 0"
    "he_gpu_ok ex_helper" "\<not> he_ctl ex_helper"
    by (simp_all add: ex_vma_state_def ex_helper_def)
  have "nvidia_mmap_helper ex_helper (Some ex_context) ex_vma_state dbell_init =
      Some (0, ex_vma_state\<lparr>vs_private := Priv_Ctx ctx, vs_ops := True\<rparr>, s')"
    by (simp add: nvidia_mmap_helper_def v d [unfolded s_def] Let_def)
  then show ?thesis by blast
qed

theorem mmap_readonly_witness:
  "\<exists>v' st'. nvidia_mmap_helper ex_helper (Some ex_context) ex_vma_state dbell_init = Some (0, v', st')
     \<and> nv_dbell_is_watched_vma (vs_private v') \<and> \<not> mx_writeable ex_context \<and> \<not> vs_readonly v'"
proof -
  obtain ctx st' where H: "nvidia_mmap_helper ex_helper (Some ex_context) ex_vma_state dbell_init
     = Some (0, ex_vma_state\<lparr>vs_private := Priv_Ctx ctx, vs_ops := True\<rparr>, st')"
    using ex_helper_window by blast
  have "\<not> mx_writeable ex_context" "length (g_dbell_slots dbell_init) = 4" "\<forall>a. me_insert (he_mmap ex_helper) a \<le> 0"
    by (simp_all add: ex_context_def dbell_init_def ex_helper_def ex_mmap_def)
  from mmap_readonly [OF H this] H this show ?thesis by (auto simp: ex_vma_state_def)
qed

theorem mmap_release_roundtrip_witness:
  "\<exists>v' st'. nvidia_mmap_helper ex_helper (Some ex_context) ex_vma_state dbell_init = Some (0, v', st')
     \<and> same_holdings dbell_init (snd (snd (nvidia_vma_release True ex_mem v' ex_alloc st')))"
proof -
  obtain ctx st' where H: "nvidia_mmap_helper ex_helper (Some ex_context) ex_vma_state dbell_init
     = Some (0, ex_vma_state\<lparr>vs_private := Priv_Ctx ctx, vs_ops := True\<rparr>, st')"
    using ex_helper_window by blast
  have "vma_fresh ex_vma_state dbell_init" "length (g_dbell_slots dbell_init) = 4"
    "\<forall>a. me_insert (he_mmap ex_helper) a \<le> 0"
    by (simp_all add: vma_fresh_def ex_vma_state_def ex_window_def dbell_init_def bar1_free_def sysmem_free_def
        ex_helper_def ex_mmap_def)
  from mmap_release_roundtrip [OF H this, of ex_mem ex_alloc] H show ?thesis
    by (auto simp: ex_helper_def ex_mmap_def)
qed

theorem ctl_peer_leak_witness:
  "\<exists>v' st'. nvidia_mmap_helper (ex_helper\<lparr>he_ctl := True, he_io_remap := (\<lambda>_ _ _. - 11)\<rparr>) (Some ex_context)
       ex_vma_state dbell_init = Some (- 11, v', st')
     \<and> vma_ptr ex_window \<in> b1_vma ` set (g_bar1_tracked st')"
  using ctl_peer_leak [of "ex_helper\<lparr>he_ctl := True, he_io_remap := (\<lambda>_ _ _. - 11)\<rparr>" ex_vma_state ex_context
      "\<lambda>_. 0x1fc022000000" "- 11" dbell_init]
  by (simp add: ex_helper_def ex_context_def ex_alloc_def ex_vma_state_def ex_window_def vma_size_def
      nvidia_mmap_peer_io_def bar1_ioremap_def dbell_init_def bar1_vacant_def bar1_free_def)

theorem mmap_numa_oob_witness:
  "nvidia_mmap_numa (\<lambda>_ _. 0) ex_vma_state
     (ex_context\<lparr>mx_num_pages := 16, mx_page_array := replicate 16 0x1000\<rparr>) = None"
  by (rule mmap_numa_oob) (simp_all add: ex_vma_state_def ex_window_def vma_size_def)

end
