(* ===== verification/Dbell_System.thy ===== *)
theory Dbell_System
  imports Dbell_Mmap
begin

text \<open>
  The doorbell watch as a system: the operations of the other theories as the steps of a transition
  relation, in any order, and the invariants of every reachable state.  A step is one operation, run
  to its end; the queue is never stopped, which happens only when the module is unloaded.
\<close>

section \<open>States and steps\<close>

record sys =
  sy_table :: gpfifo_table
  sy_st :: dbell_state
  sy_ctxs :: "nv_dbell_ctx list"

definition sys_init :: sys where
  "sys_init = \<lparr>sy_table = g_dbellGpfifoTable, sy_st = dbell_init, sy_ctxs = []\<rparr>"

text \<open>What the kernel guarantees when it maps pages for the system-memory tracker.\<close>

definition sysmem_track_ok :: "sysmem_env \<Rightarrow> vm_area \<Rightarrow> bool" where
  "sysmem_track_ok env vma \<longleftrightarrow> (\<forall>pages. unat (en_vmap env pages) + (unat (vm_end vma) - unat (vm_start vma)) < 2 ^ 64)"

definition delete_nth :: "nat \<Rightarrow> 'a list \<Rightarrow> 'a list" where
  "delete_nth i xs = take i xs @ drop (Suc i) xs"

text \<open>
  \<open>X\<close> are the addresses that the resource manager hands out, \<open>usable\<close> tells whether the kernel has
  hardware breakpoints.  Registered rings do not wrap (\<open>reg\<close>); the mmap path tracks mappings as
  \<open>track_ok\<close> says; \<^verbatim>\<open>vm_insert_page\<close> returns zero or an error number.
\<close>

inductive dbell_step :: "ptr set \<Rightarrow> bool \<Rightarrow> sys \<Rightarrow> sys \<Rightarrow> bool" for X usable where
  reg: "unat (fst v) + 8 * unat (snd v) < 2 ^ 64 \<Longrightarrow>
     nvGpuOpsDbellGpfifoRegister env os key v (sy_table s, sy_st s) = (T', st') \<Longrightarrow>
     dbell_step X usable s (s\<lparr>sy_table := T', sy_st := st'\<rparr>)"
| unreg: "dbell_step X usable s (s\<lparr>sy_table := nvGpuOpsDbellGpfifoUnregister key (sy_table s)\<rparr>)"
| bar1_add: "track_ok wc io vma phys sz \<Longrightarrow>
     dbell_step X usable s (s\<lparr>sy_st := snd (nv_dbell_bar1_track_add wc io vma phys sz (sy_st s))\<rparr>)"
| bar1_remove: "dbell_step X usable s (s\<lparr>sy_st := nv_dbell_bar1_track_remove vma_p (sy_st s)\<rparr>)"
| sysmem_add: "sysmem_track_ok senv vma \<Longrightarrow>
     dbell_step X usable s (s\<lparr>sy_st := snd (nv_dbell_sysmem_track_add senv vma pt ix n (sy_st s))\<rparr>)"
| sysmem_remove: "dbell_step X usable s (s\<lparr>sy_st := nv_dbell_sysmem_track_remove True vma_p (sy_st s)\<rparr>)"
| work: "rm_env_ok X renv \<Longrightarrow>
     dbell_step X usable s (s\<lparr>sy_st := q_worker renv (sy_table s) (sy_st s)\<rparr>)"
| doorbell: "i < length (sy_ctxs s) \<Longrightarrow>
     nv_dbell_db_handler env m (Some (sy_ctxs s ! i)) (sy_st s) = (Some c', st') \<Longrightarrow>
     dbell_step X usable s (s\<lparr>sy_st := st', sy_ctxs := (sy_ctxs s)[i := c']\<rparr>)"
| watch: "me_usable menv = usable \<Longrightarrow> \<forall>a. me_insert menv a \<le> 0 \<Longrightarrow>
     nv_dbell_intercept_mmap menv disable nv vma ranges (sy_st s) = (ret, c, st') \<Longrightarrow>
     dbell_step X usable s (s\<lparr>sy_st := st', sy_ctxs := sy_ctxs s @ (case c of Some x \<Rightarrow> [x] | None \<Rightarrow> [])\<rparr>)"
| unwatch: "i < length (sy_ctxs s) \<Longrightarrow>
     dbell_step X usable s (s\<lparr>sy_st := release_ctx usable m (sy_ctxs s ! i) (sy_st s),
        sy_ctxs := delete_nth i (sy_ctxs s)\<rparr>)"

inductive reachable :: "ptr set \<Rightarrow> bool \<Rightarrow> sys \<Rightarrow> bool" for X usable where
  init: "reachable X usable sys_init"
| step: "reachable X usable s \<Longrightarrow> dbell_step X usable s s' \<Longrightarrow> reachable X usable s'"

section \<open>Safety of every reachable state\<close>

definition safe_inv :: "ptr set \<Rightarrow> sys \<Rightarrow> bool" where
  "safe_inv X s \<longleftrightarrow> cache_inv (sy_st s) \<and> bar1_wf (sy_st s) \<and> sysmem_wf (sy_st s) \<and> resolved_ok X (sy_st s)
     \<and> gpfifo_inv (sy_table s) \<and> gpfifo_fits (sy_table s)"

lemma safe_inv_init: "safe_inv X sys_init"
  by (simp add: safe_inv_def sys_init_def cache_inv_init bar1_wf_init sysmem_wf_init resolved_ok_init
      gpfifo_inv_empty gpfifo_fits_def lookup_empty)

lemma gpfifo_fits_register:
  assumes "gpfifo_inv T" "gpfifo_fits T" "unat (fst v) + 8 * unat (snd v) < 2 ^ 64"
  shows "gpfifo_fits (fst (dbellGpfifoRegister key v T))"
  using assms unfolding gpfifo_fits_def lookup_after_register [OF assms(1)] by (auto split: if_splits)

lemma gpfifo_fits_unregister:
  "gpfifo_inv T \<Longrightarrow> gpfifo_fits T \<Longrightarrow> gpfifo_fits (nvGpuOpsDbellGpfifoUnregister key T)"
  unfolding gpfifo_fits_def by (simp add: lookup_after_unregister)

text \<open>Operations that leave the cache, the queue and the two trackers alone keep safety.\<close>

lemma safe_inv_frame:
  assumes "safe_inv X s" "same_but_slots (sy_st s) st'"
  shows "safe_inv X (s\<lparr>sy_st := st', sy_ctxs := cs\<rparr>)"
proof -
  have t: "g_bar1_tracked st' = g_bar1_tracked (sy_st s)" "g_sysmem_tracked st' = g_sysmem_tracked (sy_st s)"
    "g_dbell_cache st' = g_dbell_cache (sy_st s)" "q_list st' = q_list (sy_st s)"
    using assms(2) by (simp_all add: same_but_slots_def same_tables_def)
  show ?thesis
    using assms(1) resolved_ok_same [OF _ t(3,1)] bar1_wf_cong [OF t(1)]
    by (simp add: safe_inv_def cache_inv_def sysmem_wf_def sysmem_ok_def t)
qed

lemma pre_resolve_frame [simp]:
  "g_bar1_tracked (nv_dbell_cache_pre_resolve env chid rl nv st) = g_bar1_tracked st"
  "g_sysmem_tracked (nv_dbell_cache_pre_resolve env chid rl nv st) = g_sysmem_tracked st"
  "g_dbell_slots (nv_dbell_cache_pre_resolve env chid rl nv st) = g_dbell_slots st"
  "q_should_exit (nv_dbell_cache_pre_resolve env chid rl nv st) = q_should_exit st"
  by (cases rule: cache_reserve_cases [of chid rl nv st];
      auto simp: nv_dbell_cache_pre_resolve_def split: option.splits)+

lemma bar1_remove_cache:
  "cache_inv st \<Longrightarrow> cache_inv (nv_dbell_bar1_track_remove vma st)"
proof (cases rule: bar1_remove_cases [of vma st])
  case (removed i e t)
  assume "cache_inv st"
  then have "cache_inv (nv_dbell_cache_invalidate_range (b1_kernel_va e) (b1_phys_end e - b1_phys_start e)
      (st\<lparr>g_bar1_tracked := t\<rparr>))"
    by (intro cache_inv_invalidate) (simp add: cache_inv_def)
  moreover have "q_list (nv_dbell_bar1_track_remove vma st) = q_list st"
    by (auto simp: nv_dbell_bar1_track_remove_def Let_def split: option.splits prod.splits)
  ultimately show ?thesis using removed(5) by (simp add: cache_inv_def)
qed (simp_all add: cache_inv_def)

lemma sysmem_tracked_frame:
  "g_dbell_cache (snd (nv_dbell_sysmem_track_add env vma pt ix n st)) = g_dbell_cache st"
  "q_list (snd (nv_dbell_sysmem_track_add env vma pt ix n st)) = q_list st"
  "g_dbell_cache (nv_dbell_sysmem_track_remove b vp st) = g_dbell_cache st"
  "q_list (nv_dbell_sysmem_track_remove b vp st) = q_list st"
  by (auto simp: nv_dbell_sysmem_track_add_def nv_dbell_sysmem_track_remove_def nv_vm_map_pages_def
      nv_vm_unmap_pages_def kfree_def Let_def split: option.splits prod.splits if_splits)


lemma sysmem_wf_add:
  assumes "sysmem_wf st" "sysmem_track_ok env vma"
  shows "sysmem_wf (snd (nv_dbell_sysmem_track_add env vma pt ix n st))"
proof (cases rule: sysmem_add_cases [of env vma pt ix n st])
  case failed
  then show ?thesis using assms(1) sysmem_ok_add [of st env vma pt ix n] by (simp add: sysmem_wf_def)
next
  case (added kva i t)
  then have "sysmem_alias_ok (sysmem_entry vma kva (ucast n))"
    using assms(2) by (auto simp: sysmem_track_ok_def sysmem_alias_ok_def sysmem_entry_def)
  with added(7) slot_insert_SomeD [OF added(6)] assms(1) sysmem_ok_add [of st env vma pt ix n]
  show ?thesis unfolding sysmem_wf_def
    by (auto dest!: set_update_subset_insert [THEN subsetD])
qed

lemma sysmem_wf_remove:
  assumes "sysmem_wf st"
  shows "sysmem_wf (nv_dbell_sysmem_track_remove True vma st)"
proof -
  have ok: "sysmem_ok st" using assms by (simp add: sysmem_wf_def)
  show ?thesis
  proof (cases rule: sysmem_remove_cases [OF ok, of vma])
    case 1
    with assms show ?thesis by simp
  next
    case (2 i e t)
    from slot_clear_SomeD [OF 2(3)] assms sysmem_ok_remove [OF ok, of vma] show ?thesis
      unfolding sysmem_wf_def 2(4)
      by (auto dest!: set_update_subset_insert [THEN subsetD] simp: sysmem_free_def)
  qed
qed

lemma register_result_cases:
  assumes "nvGpuOpsDbellGpfifoRegister env os key v (T, st) = (T', st')"
  obtains (pre) chid rl nv where "T' = fst (dbellGpfifoRegister key v T)"
      "st' = nv_dbell_cache_pre_resolve env chid rl nv st"
    | (traced) c n f where "T' = fst (dbellGpfifoRegister key v T)" "st' = MC_TRACE c n f st"
    | (quiet) "T' = fst (dbellGpfifoRegister key v T)" "st' = st"
proof -
  obtain g rl c where key: "key = (g, rl, c)" by (metis prod_cases3)
  obtain T1 r where r: "dbellGpfifoRegister key v T = (T1, r)" by (metis surj_pair)
  note eq = assms [unfolded nvGpuOpsDbellGpfifoRegister_def key, simplified r [unfolded key]]
  show thesis
  proof (cases r)
    case Reg_New
    with eq r show thesis by (intro pre [of c rl "os g"]) (auto simp: key)
  next
    case Reg_Full
    with eq r have "T' = fst (dbellGpfifoRegister key v T)" "\<exists>c n f. st' = MC_TRACE c n f st"
      by (auto simp: key)
    with traced show thesis by blast
  qed (use eq r in \<open>simp_all add: key quiet\<close>)
qed

lemma worker_frame:
  "g_bar1_tracked (q_worker env T st) = g_bar1_tracked st"
  "g_sysmem_tracked (q_worker env T st) = g_sysmem_tracked st"
  "g_dbell_slots (q_worker env T st) = g_dbell_slots st"
  "q_list (q_worker env T st) = tl (q_list st)"
  "q_should_exit (q_worker env T st) = q_should_exit st"
proof -
  have "g_bar1_tracked (q_worker env T st) = g_bar1_tracked st
    \<and> g_sysmem_tracked (q_worker env T st) = g_sysmem_tracked st
    \<and> g_dbell_slots (q_worker env T st) = g_dbell_slots st
    \<and> q_list (q_worker env T st) = tl (q_list st)
    \<and> q_should_exit (q_worker env T st) = q_should_exit st"
  proof (cases "q_list st")
    case Nil
    then show ?thesis by (simp add: q_worker_def)
  next
    case (Cons w ws)
    obtain status out u g st1 where b: "resolve_begin env T w (st\<lparr>q_list := ws\<rparr>) = (status, out, u, g, st1)"
      by (metis prod_cases5)
    then have eq: "q_worker env T st = resolve_publish w status out u g st1"
      using Cons by (simp add: q_worker_def nv_dbell_resolve_fn_def)
    have "g_dbell_slots (resolve_publish w status out u g st1) = g_dbell_slots st1"
      "q_should_exit (resolve_publish w status out u g st1) = q_should_exit st1"
      by (simp_all add: resolve_publish_def Let_def)
    with resolve_begin_frame(1) [OF b] Cons show ?thesis
      by (simp add: eq resolve_publish_sel same_tables_def)
  qed
  then show "g_bar1_tracked (q_worker env T st) = g_bar1_tracked st"
    "g_sysmem_tracked (q_worker env T st) = g_sysmem_tracked st"
    "g_dbell_slots (q_worker env T st) = g_dbell_slots st"
    "q_list (q_worker env T st) = tl (q_list st)"
    "q_should_exit (q_worker env T st) = q_should_exit st" by blast+
qed


lemma safe_invI:
  assumes "safe_inv X s" "cache_inv st'" "bar1_wf st'" "sysmem_wf st'" "resolved_ok X st'"
  shows "safe_inv X (s\<lparr>sy_st := st'\<rparr>)"
  using assms by (simp add: safe_inv_def)

lemmas safe_invD = safe_inv_def [THEN iffD1]

lemma safe_reg:
  assumes "safe_inv X s" "unat (fst v) + 8 * unat (snd v) < 2 ^ 64"
    and "nvGpuOpsDbellGpfifoRegister env os key v (sy_table s, sy_st s) = (T', st')"
  shows "safe_inv X (s\<lparr>sy_table := T', sy_st := st'\<rparr>)"
proof -
  note D = safe_invD [OF assms(1)]
  have T: "T' = fst (dbellGpfifoRegister key v (sy_table s))"
    by (cases rule: register_result_cases [OF assms(3)]) auto
  have table: "gpfifo_inv T'" "gpfifo_fits T'"
    using D gpfifo_fits_register [OF _ _ assms(2)] gpfifo_inv_register by (auto simp: T)
  have "cache_inv st' \<and> resolved_ok X st' \<and> g_bar1_tracked st' = g_bar1_tracked (sy_st s)
      \<and> g_sysmem_tracked st' = g_sysmem_tracked (sy_st s)"
  proof (cases rule: register_result_cases [OF assms(3)])
    case (1 chid rl nv)
    with D cache_inv_pre_resolve resolved_ok_pre_resolve show ?thesis by auto
  next
    case (2 c n f)
    with D resolved_ok_same [of X "sy_st s" st'] show ?thesis by (auto simp: cache_inv_def)
  qed (use D in auto)
  then show ?thesis
    using D table bar1_wf_cong [of st' "sy_st s"] by (simp add: safe_inv_def sysmem_wf_def sysmem_ok_def)
qed

lemma safe_doorbell:
  assumes "safe_inv X s" "nv_dbell_db_handler env m ctx (sy_st s) = (c', st')"
  shows "safe_inv X (s\<lparr>sy_st := st', sy_ctxs := cs\<rparr>)"
proof -
  note D = safe_invD [OF assms(1)]
  have st': "st' = snd (nv_dbell_db_handler env m ctx (sy_st s))" using assms(2) by simp
  note H = handler_inv [where st = "sy_st s" and env = env and m = m and ctx = ctx, folded st']
  have "cache_inv (sy_st s)" using D by blast
  then show ?thesis
    using D H bar1_wf_cong [of st' "sy_st s"] by (simp add: safe_inv_def sysmem_wf_def sysmem_ok_def)
qed

lemma safe_inv_step:
  assumes "dbell_step X usable s s'" "safe_inv X s" "length (g_dbell_slots (sy_st s)) = 4"
    and "\<forall>c \<in> set (sy_ctxs s). bps_ok usable c"
  shows "safe_inv X s'"
  using assms
proof cases
  case (reg v env os key T' st')
  with safe_reg [OF assms(2)] show ?thesis by simp
next
  case (unreg key)
  with safe_invD [OF assms(2)] gpfifo_inv_unregister gpfifo_fits_unregister show ?thesis
    by (auto simp: safe_inv_def)
next
  case (bar1_add wc io vma phys sz)
  note D = safe_invD [OF assms(2)]
  have "cache_inv (snd (nv_dbell_bar1_track_add wc io vma phys sz (sy_st s)))"
    "g_sysmem_tracked (snd (nv_dbell_bar1_track_add wc io vma phys sz (sy_st s))) = g_sysmem_tracked (sy_st s)"
    using D bar1_add_table(3,4) [OF _ bar1_add(2), of "sy_st s"]
    by (auto simp: cache_inv_def nv_dbell_bar1_track_add_def Let_def split: option.splits prod.splits)
  with D bar1_add_table(1) [OF _ bar1_add(2)] resolved_ok_add [OF _ _ bar1_add(2)] bar1_add(1) show ?thesis
    by (auto intro!: safe_invI [OF assms(2)] simp: sysmem_wf_def sysmem_ok_def)
next
  case (bar1_remove vma_p)
  note D = safe_invD [OF assms(2)]
  have "g_sysmem_tracked (nv_dbell_bar1_track_remove vma_p (sy_st s)) = g_sysmem_tracked (sy_st s)"
    by (auto simp: nv_dbell_bar1_track_remove_def Let_def split: option.splits prod.splits)
  with D bar1_remove_cache bar1_wf_remove resolved_ok_remove bar1_remove(1) show ?thesis
    by (auto intro!: safe_invI [OF assms(2)] simp: sysmem_wf_def sysmem_ok_def)
next
  case (sysmem_add senv vma pt ix n)
  note D = safe_invD [OF assms(2)]
  let ?st' = "snd (nv_dbell_sysmem_track_add senv vma pt ix n (sy_st s))"
  have "g_bar1_tracked ?st' = g_bar1_tracked (sy_st s)"
    by (auto simp: nv_dbell_sysmem_track_add_def nv_vm_map_pages_def nv_vm_unmap_pages_def kfree_def Let_def
        split: option.splits prod.splits if_splits)
  with D sysmem_wf_add [OF _ sysmem_add(2)] bar1_wf_cong [of ?st' "sy_st s"]
    resolved_ok_same [of X "sy_st s" ?st'] sysmem_add(1) show ?thesis
    by (auto intro!: safe_invI [OF assms(2)] simp: cache_inv_def sysmem_tracked_frame)
next
  case (sysmem_remove vma_p)
  note D = safe_invD [OF assms(2)]
  let ?st' = "nv_dbell_sysmem_track_remove True vma_p (sy_st s)"
  have "g_bar1_tracked ?st' = g_bar1_tracked (sy_st s)"
    by (auto simp: nv_dbell_sysmem_track_remove_def nv_vm_unmap_pages_def Let_def split: option.splits prod.splits)
  with D sysmem_wf_remove bar1_wf_cong [of ?st' "sy_st s"] resolved_ok_same [of X "sy_st s" ?st'] sysmem_remove(1)
  show ?thesis by (auto intro!: safe_invI [OF assms(2)] simp: cache_inv_def sysmem_tracked_frame)
next
  case (work renv)
  note D = safe_invD [OF assms(2)]
  from D cache_inv_worker resolved_ok_worker [OF _ _ work(2)] bar1_wf_cong [OF worker_frame(1)] work(1)
  show ?thesis
    by (auto intro!: safe_invI [OF assms(2)] simp: sysmem_wf_def sysmem_ok_def worker_frame)
next
  case (doorbell i env m c' st')
  with safe_doorbell [OF assms(2) doorbell(3)] show ?thesis by simp
next
  case (watch menv disable nv vma ranges ret c st')
  have "same_but_slots (sy_st s) st'"
    by (rule intercept_result [OF watch(4) assms(3) watch(3)]) auto
  with safe_inv_frame [OF assms(2)] watch(1) show ?thesis by simp
next
  case (unwatch i m)
  with assms(4) have "bps_ok usable (sy_ctxs s ! i)" by simp
  from release_ctx_frame(2) [OF this] safe_inv_frame [OF assms(2)] unwatch(1) show ?thesis by simp
qed


section \<open>Accounting over a whole run\<close>

text \<open>
  What is still to be given back in a state: the queued work items, the aliases of the trackers, and
  the watched contexts.  \<open>teardown\<close> lists the events that would do so.
\<close>

definition work_release_events :: "nv_dbell_resolve_work \<Rightarrow> kevent list" where
  "work_release_events w = on_stack Free_stack (wk_sp w) @ (if wk_ptr w = 0 then [] else [Kfree (wk_ptr w)])"

definition tables_teardown :: "dbell_state \<Rightarrow> kevent list" where
  "tables_teardown st = concat (map work_release_events (q_list st))
     @ map (\<lambda>e. Iounmap (b1_kernel_va e)) (filter (\<lambda>e. \<not> bar1_vacant e) (g_bar1_tracked st))
     @ map (\<lambda>e. Vunmap (sm_kernel_va e) (sm_num_pages e)) (filter (\<lambda>e. \<not> sysmem_vacant e) (g_sysmem_tracked st))"

definition teardown :: "sys \<Rightarrow> kevent list" where
  "teardown s = tables_teardown (sy_st s) @ concat (map ctx_release_events (sy_ctxs s))"

lemma bal_map_live:
  "bal r (map f (filter (\<lambda>e. \<not> bar1_vacant e) t)) = (\<Sum>e \<in># bar1_tab.live t. delta r (f e))"
  "bal r (map g (filter (\<lambda>e. \<not> sysmem_vacant e) u)) = (\<Sum>e \<in># sysmem_tab.live u. delta r (g e))"
  unfolding bal_def bar1_tab.live_def sysmem_tab.live_def
  by (simp_all only: map_map mset_map [symmetric] sum_mset_sum_list comp_def)

lemma bal_concat: "bal r (concat xss) = (\<Sum>xs \<leftarrow> xss. bal r xs)"
  by (induction xss) simp_all

text \<open>An operation is neutral when what it logs matches what it changes in the tables.\<close>

definition neutral :: "dbell_state \<Rightarrow> dbell_state \<Rightarrow> bool" where
  "neutral st st' \<longleftrightarrow> (\<forall>r. bal r (effects st' @ tables_teardown st') = bal r (effects st @ tables_teardown st))
     \<and> g_dbell_slots st' = g_dbell_slots st \<and> q_should_exit st' = q_should_exit st"

lemma neutral_refl [simp]: "neutral st st"
  by (simp add: neutral_def)

lemma neutral_trans: "neutral st st1 \<Longrightarrow> neutral st1 st2 \<Longrightarrow> neutral st st2"
  by (simp add: neutral_def)

lemma neutral_frame:
  assumes "effects st' = effects st" "q_list st' = q_list st" "g_bar1_tracked st' = g_bar1_tracked st"
    "g_sysmem_tracked st' = g_sysmem_tracked st" "g_dbell_slots st' = g_dbell_slots st"
    "q_should_exit st' = q_should_exit st"
  shows "neutral st st'"
  using assms by (simp add: neutral_def tables_teardown_def)

lemma enqueue_queue:
  "q_list (nv_dbell_try_enqueue_resolve env i st) = q_list st @
     (if en_work env \<noteq> 0 \<and> en_stack_rc env = 0 \<and> \<not> q_should_exit st
      then [\<lparr>wk_ptr = en_work env, wk_entry = i, wk_sp = en_sp env\<rparr>] else [])"
  "g_dbell_slots (nv_dbell_try_enqueue_resolve env i st) = g_dbell_slots st"
  "q_should_exit (nv_dbell_try_enqueue_resolve env i st) = q_should_exit st"
  "g_bar1_tracked (nv_dbell_try_enqueue_resolve env i st) = g_bar1_tracked st"
  "g_sysmem_tracked (nv_dbell_try_enqueue_resolve env i st) = g_sysmem_tracked st"
  by (auto simp: nv_dbell_try_enqueue_resolve_def nv_kthread_q_schedule_q_item_def raw_q_schedule_def
      enqueue_fail_def set_cache_state_def kfree_def nv_kmem_cache_free_stack_def Let_def)

lemma neutral_enqueue: "\<not> q_should_exit st \<Longrightarrow> neutral st (nv_dbell_try_enqueue_resolve env i st)"
  by (simp add: neutral_def tables_teardown_def enqueue_effects enqueue_queue work_release_events_def on_stack_def)

lemma neutral_pre_resolve:
  assumes "\<not> q_should_exit st"
  shows "neutral st (nv_dbell_cache_pre_resolve env chid rl nv st)"
proof (cases rule: cache_reserve_cases [of chid rl nv st])
  case full
  then show ?thesis by (simp add: nv_dbell_cache_pre_resolve_def split: option.splits)
next
  case (slot i)
  let ?st1 = "MC_TRACE dbell ''cache'' [(''state'', S ''pre_reserve''), (''chid'', N (ucast chid)),
      (''runlist'', N (ucast rl))] (st\<lparr>g_dbell_cache := (g_dbell_cache st)[i := cache_reserved chid rl nv]\<rparr>)"
  have "neutral st ?st1" by (rule neutral_frame) simp_all
  moreover have "neutral ?st1 (nv_dbell_try_enqueue_resolve env i ?st1)"
    using assms by (intro neutral_enqueue) simp
  ultimately have "neutral st (nv_dbell_try_enqueue_resolve env i ?st1)" by (rule neutral_trans)
  then show ?thesis using slot(3) by (simp add: nv_dbell_cache_pre_resolve_def split: option.splits)
qed

lemma neutral_bar1_add:
  assumes "vma_ptr vma \<noteq> 0"
  shows "neutral st (snd (nv_dbell_bar1_track_add wc io vma phys sz st))"
proof -
  let ?st' = "snd (nv_dbell_bar1_track_add wc io vma phys sz st)"
  have F: "q_list ?st' = q_list st" "g_sysmem_tracked ?st' = g_sysmem_tracked st"
    "g_dbell_slots ?st' = g_dbell_slots st" "q_should_exit ?st' = q_should_exit st"
    by (auto simp: nv_dbell_bar1_track_add_def Let_def split: option.splits prod.splits)
  show ?thesis
  proof (cases rule: bar1_add_cases [of wc io vma phys sz st])
    case (added kva i t)
    have "\<not> bar1_vacant (bar1_entry vma phys sz kva)"
      using assms by (simp add: bar1_vacant_def bar1_entry_def)
    from bar1_tab.live_insert [OF added(4) this] show ?thesis
      using added(3,5) F by (simp add: neutral_def tables_teardown_def bal_map_live bar1_entry_def)
  qed (simp_all add: neutral_def tables_teardown_def F)
qed

lemma neutral_bar1_remove:
  assumes "bar1_ok st"
  shows "neutral st (nv_dbell_bar1_track_remove vma st)"
proof -
  let ?st' = "nv_dbell_bar1_track_remove vma st"
  have F: "q_list ?st' = q_list st" "g_sysmem_tracked ?st' = g_sysmem_tracked st"
    "g_dbell_slots ?st' = g_dbell_slots st" "q_should_exit ?st' = q_should_exit st"
    by (auto simp: nv_dbell_bar1_track_remove_def Let_def split: option.splits prod.splits)
  show ?thesis
  proof (cases rule: bar1_remove_cases [of vma st])
    case (unmapped i e t)
    with bar1_clear_vacant [OF assms unmapped(1,2)] show ?thesis by simp
  next
    case (removed i e t)
    from bar1_tab.live_clear [OF removed(2) bar1_cleared_vma [OF assms removed(1,2)]]
    obtain L where "bar1_tab.live (g_bar1_tracked st) = add_mset e L" "bar1_tab.live t = L"
      using multi_member_split by (metis add_mset_remove_trivial)
    then show ?thesis using removed(3,4) F by (simp add: neutral_def tables_teardown_def bal_map_live)
  qed simp
qed

lemma neutral_sysmem_add: "neutral st (snd (nv_dbell_sysmem_track_add env vma pt ix n st))"
proof -
  let ?st' = "snd (nv_dbell_sysmem_track_add env vma pt ix n st)"
  have F: "q_list ?st' = q_list st" "g_bar1_tracked ?st' = g_bar1_tracked st"
    "g_dbell_slots ?st' = g_dbell_slots st" "q_should_exit ?st' = q_should_exit st"
    by (auto simp: nv_dbell_sysmem_track_add_def nv_vm_map_pages_def nv_vm_unmap_pages_def kfree_def Let_def
        split: option.splits prod.splits if_splits)
  show ?thesis
  proof (cases rule: sysmem_add_cases [of env vma pt ix n st])
    case failed
    with failed(3) [unfolded balance_effects] show ?thesis by (simp add: neutral_def tables_teardown_def F)
  next
    case (added kva i t)
    have "\<not> sysmem_vacant (sysmem_entry vma kva (ucast n))"
      using added(3) by (simp add: sysmem_vacant_def sysmem_entry_def)
    from sysmem_tab.live_insert [OF added(6) this] show ?thesis
      using added(7,8) F by (simp add: neutral_def tables_teardown_def bal_map_live sysmem_entry_def)
  qed
qed

lemma neutral_sysmem_remove:
  assumes "sysmem_ok st"
  shows "neutral st (nv_dbell_sysmem_track_remove True vma st)"
proof -
  let ?st' = "nv_dbell_sysmem_track_remove True vma st"
  have F: "q_list ?st' = q_list st" "g_bar1_tracked ?st' = g_bar1_tracked st"
    "g_dbell_slots ?st' = g_dbell_slots st" "q_should_exit ?st' = q_should_exit st"
    by (auto simp: nv_dbell_sysmem_track_remove_def nv_vm_unmap_pages_def Let_def split: option.splits prod.splits)
  show ?thesis
  proof (cases rule: sysmem_remove_cases [OF assms, of vma])
    case (2 i e t)
    from sysmem_tab.live_clear [OF 2(3,1)]
    obtain L where "sysmem_tab.live (g_sysmem_tracked st) = add_mset e L" "sysmem_tab.live t = L"
      using multi_member_split by (metis add_mset_remove_trivial)
    then show ?thesis using 2(4,5) F by (simp add: neutral_def tables_teardown_def bal_map_live)
  qed simp
qed


lemma neutral_worker: "neutral st (q_worker env T st)"
proof (cases "q_list st")
  case Nil
  then show ?thesis by (simp add: q_worker_def)
next
  case (Cons w ws)
  obtain status out u g st1 where b: "resolve_begin env T w (st\<lparr>q_list := ws\<rparr>) = (status, out, u, g, st1)"
    by (metis prod_cases5)
  then have "effects (q_worker env T st) = effects st1 @ work_release_events w"
    using Cons by (simp add: q_worker_def nv_dbell_resolve_fn_def resolve_publish_sel work_release_events_def)
  with resolve_begin_frame(2) [OF b] Cons show ?thesis
    by (auto simp: neutral_def tables_teardown_def worker_frame)
qed

lemma neutral_handler_lookup:
  assumes "\<not> q_should_exit st"
  shows "neutral st (handler_lookup env m nv seq chid rl st)"
proof (cases "nv_dbell_cache_find chid rl st")
  case None
  show ?thesis
  proof (cases rule: cache_reserve_cases [of chid rl nv st])
    case full
    with None show ?thesis by (auto simp: handler_lookup_def Let_def intro: neutral_frame)
  next
    case (slot i)
    let ?st1 = "MC_TRACE dbell ''cache'' [(''state'', S ''reserve''), (''seq'', N (ucast seq)),
        (''chid'', N (ucast chid)), (''runlist'', N (ucast rl))]
      (st\<lparr>g_dbell_cache := (g_dbell_cache st)[i := cache_reserved chid rl nv]\<rparr>)"
    let ?st2 = "nv_dbell_try_enqueue_resolve env i ?st1"
    have "neutral st ?st1" by (rule neutral_frame) simp_all
    moreover have "neutral ?st1 ?st2" using assms by (intro neutral_enqueue) simp
    moreover have "neutral ?st2 (handler_lookup env m nv seq chid rl st)"
      using None slot(3) by (intro neutral_frame) (simp_all add: handler_lookup_def Let_def)
    ultimately show ?thesis by (blast intro: neutral_trans)
  qed
next
  case (Some i)
  then show ?thesis
    using handler_resolved_frame(3) [of st m seq chid rl i]
    by (auto simp: handler_lookup_def handler_resolved_frame(1) same_tables_def Let_def intro!: neutral_frame)
qed

lemma neutral_handler:
  assumes "\<not> q_should_exit st" "nv_dbell_db_handler env m (Some c) st = (Some c', st')"
  shows "neutral st st'" and "\<exists>n. c' = c\<lparr>cx_bp_count := n\<rparr>"
proof -
  have "neutral st st' \<and> (\<exists>n. c' = c\<lparr>cx_bp_count := n\<rparr>)"
  proof (cases "cx_shadow_kva c = 0")
    case True
    then have "c' = c\<lparr>cx_bp_count := cx_bp_count c\<rparr>" "st' = st"
      using assms(2) by (simp_all add: nv_dbell_db_handler_def)
    then show ?thesis by (metis neutral_refl)
  next
    case False
    let ?tok = "rd32 m (cx_shadow_kva c + 0x90)"
    define st1 where "st1 = MC_TRACE dbell ''fire'' [(''seq'', N (ucast (g_dbell_seq st + 1))),
        (''slot'', N (of_nat (cx_slot_idx c))), (''token'', N (ucast ?tok)),
        (''chid'', N (ucast (token_chid ?tok))), (''runlist'', N (ucast (token_runlist ?tok)))]
      (st\<lparr>g_dbell_seq := g_dbell_seq st + 1\<rparr>)"
    define st2 where
      "st2 = handler_lookup env m (cx_nv c) (g_dbell_seq st + 1) (token_chid ?tok) (token_runlist ?tok) st1"
    have c': "c' = c\<lparr>cx_bp_count := cx_bp_count c + 1\<rparr>"
      and st': "st' = (if cx_doorbell_iomap c \<noteq> 0 then klog (Writel ?tok (cx_doorbell_iomap c)) st2
        else MC_TRACE dbell ''no_iomap'' [(''seq'', N (ucast (g_dbell_seq st + 1)))] st2)"
      using assms(2) False by (auto simp: nv_dbell_db_handler_def st1_def st2_def Let_def)
    have "neutral st st1" by (rule neutral_frame) (simp_all add: st1_def)
    moreover have "neutral st1 st2"
      unfolding st2_def using assms(1) by (intro neutral_handler_lookup) (simp add: st1_def)
    moreover have "neutral st2 st'" by (simp add: neutral_def tables_teardown_def st')
    ultimately have "neutral st st'" by (blast intro: neutral_trans)
    with c' show ?thesis by blast
  qed
  then show "neutral st st'" and "\<exists>n. c' = c\<lparr>cx_bp_count := n\<rparr>" by blast+
qed

lemma neutral_register:
  assumes "\<not> q_should_exit st" "nvGpuOpsDbellGpfifoRegister env os key v (T, st) = (T', st')"
  shows "neutral st st'"
  by (cases rule: register_result_cases [OF assms(2)])
    (auto simp: neutral_pre_resolve [OF assms(1)] intro: neutral_frame)

text \<open>
  The watch slots name exactly the watched contexts: a context's slot is claimed for it, no two
  contexts share a slot, and no slot is claimed for anything else.
\<close>

definition slots_inv :: "nv_dbell_slot list \<Rightarrow> nv_dbell_ctx list \<Rightarrow> bool" where
  "slots_inv sl cs \<longleftrightarrow> length sl = 4 \<and> distinct (map cx_slot_idx cs)
     \<and> (\<forall>c \<in> set cs. cx_slot_idx c < 4 \<and> sl_ctx (sl ! cx_slot_idx c) = cx_ptr c)
     \<and> (\<forall>i < 4. sl_claimed (sl ! i) \<noteq> 0 \<longleftrightarrow> i \<in> cx_slot_idx ` set cs)"

definition acct_inv :: "bool \<Rightarrow> sys \<Rightarrow> bool" where
  "acct_inv usable s \<longleftrightarrow> (\<forall>r. bal r (effects (sy_st s) @ teardown s) = 0) \<and> \<not> q_should_exit (sy_st s)
     \<and> slots_inv (g_dbell_slots (sy_st s)) (sy_ctxs s) \<and> (\<forall>c \<in> set (sy_ctxs s). bps_ok usable c)"

lemma acct_neutral:
  assumes "acct_inv usable s" "neutral (sy_st s) st'" "sy_ctxs s' = sy_ctxs s" "sy_st s' = st'"
  shows "acct_inv usable s'"
proof -
  have "bal r (effects st' @ tables_teardown st') = bal r (effects (sy_st s) @ tables_teardown (sy_st s))" for r
    using assms(2) by (simp add: neutral_def)
  with assms show ?thesis by (simp add: acct_inv_def neutral_def teardown_def add.assoc [symmetric])
qed

lemma slots_inv_same:
  assumes "same_slots sl sl'" "slots_inv sl cs"
  shows "slots_inv sl' cs"
proof -
  have S: "length sl' = 4" "\<And>i. i < 4 \<Longrightarrow> sl_claimed (sl' ! i) = sl_claimed (sl ! i)"
    "\<And>i. i < 4 \<Longrightarrow> sl_claimed (sl ! i) \<noteq> 0 \<Longrightarrow> sl_ctx (sl' ! i) = sl_ctx (sl ! i)"
    using assms by (auto simp: same_slots_def slots_inv_def)
  have "sl_claimed (sl ! cx_slot_idx c) \<noteq> 0" if "c \<in> set cs" for c
    using assms(2) that by (auto simp: slots_inv_def)
  with assms(2) S show ?thesis by (auto simp: slots_inv_def)
qed

lemma slots_inv_claim:
  assumes "slots_inv sl cs" "i < 4" "sl_claimed (sl ! i) = 0" "cx_slot_idx c = i"
  shows "slots_inv (sl[i := \<lparr>sl_claimed = 1, sl_ctx = cx_ptr c\<rparr>]) (cs @ [c])"
proof -
  have "i \<notin> cx_slot_idx ` set cs" using assms(1-3) by (auto simp: slots_inv_def)
  with assms show ?thesis by (auto simp: slots_inv_def nth_list_update)
qed

lemma delete_nth_set:
  assumes "i < length xs" "distinct (map f xs)"
  shows "f ` set (delete_nth i xs) = f ` set xs - {f (xs ! i)}" and "distinct (map f (delete_nth i xs))"
    and "set (delete_nth i xs) \<subseteq> set xs"
proof -
  have xs: "xs = take i xs @ xs ! i # drop (Suc i) xs" using assms(1) by (rule id_take_nth_drop)
  obtain a b where ab: "xs = a @ xs ! i # b" "delete_nth i xs = a @ b"
    using xs by (auto simp: delete_nth_def)
  have "set xs = insert (xs ! i) (set a \<union> set b)" by (subst ab(1)) auto
  moreover have "distinct (map f (a @ xs ! i # b))" using assms(2) ab(1) by metis
  ultimately show "f ` set (delete_nth i xs) = f ` set xs - {f (xs ! i)}"
    "distinct (map f (delete_nth i xs))" "set (delete_nth i xs) \<subseteq> set xs"
    unfolding ab(2) by (auto simp: image_iff)
qed

lemma slots_inv_release:
  assumes "slots_inv sl cs" "j < length cs" "i = cx_slot_idx (cs ! j)"
  shows "slots_inv (sl[i := \<lparr>sl_claimed = 0, sl_ctx = 0\<rparr>]) (delete_nth j cs)"
proof -
  have d: "distinct (map cx_slot_idx cs)" using assms(1) by (simp add: slots_inv_def)
  note D = delete_nth_set [OF assms(2) d]
  have "cx_slot_idx c \<noteq> i" if "c \<in> set (delete_nth j cs)" for c
    using D(1) that assms(3) by (metis DiffD2 imageI singletonI)
  moreover have "i < 4" using assms by (auto simp: slots_inv_def)
  ultimately show ?thesis
    using assms(1,3) D by (auto simp: slots_inv_def nth_list_update)
qed


lemma tables_teardown_slots: "same_but_slots st st' \<Longrightarrow> tables_teardown st' = tables_teardown st"
  by (simp add: same_but_slots_def same_tables_def tables_teardown_def)

lemma bal_delete_nth:
  assumes "i < length cs"
  shows "bal r (concat (map f cs)) = bal r (f (cs ! i)) + bal r (concat (map f (delete_nth i cs)))"
proof -
  have "map f cs = map f (take i cs) @ f (cs ! i) # map f (drop (Suc i) cs)"
    by (subst id_take_nth_drop [OF assms]) simp
  then show ?thesis by (simp add: delete_nth_def)
qed

lemma acct_doorbell:
  assumes "acct_inv usable s" "i < length (sy_ctxs s)"
    and "nv_dbell_db_handler env m (Some (sy_ctxs s ! i)) (sy_st s) = (Some c', st')"
  shows "acct_inv usable (s\<lparr>sy_st := st', sy_ctxs := (sy_ctxs s)[i := c']\<rparr>)"
proof -
  let ?cs = "sy_ctxs s"
  have exit: "\<not> q_should_exit (sy_st s)" using assms(1) by (simp add: acct_inv_def)
  obtain n where c': "c' = (?cs ! i)\<lparr>cx_bp_count := n\<rparr>"
    using neutral_handler(2) [OF exit assms(3)] by blast
  have upd: "map f (?cs[i := c']) = map f ?cs" if "f c' = f (?cs ! i)" for f :: "nv_dbell_ctx \<Rightarrow> 'a"
    by (simp add: map_update that) (use assms(2) in \<open>simp add: list_update_same_conv\<close>)
  have maps: "map ctx_release_events (?cs[i := c']) = map ctx_release_events ?cs"
    "map (\<lambda>c. (cx_slot_idx c, cx_ptr c, bps_ok usable c)) (?cs[i := c'])
       = map (\<lambda>c. (cx_slot_idx c, cx_ptr c, bps_ok usable c)) ?cs"
    by (rule upd; simp add: c' ctx_release_events_def bps_ok_def)+
  have idx: "map cx_slot_idx (?cs[i := c']) = map cx_slot_idx ?cs" by (rule upd) (simp add: c')
  then have img: "cx_slot_idx ` set (?cs[i := c']) = cx_slot_idx ` set ?cs"
    by (metis list.set_map)
  have all: "(\<forall>c \<in> set (?cs[i := c']). P (cx_slot_idx c) (cx_ptr c) (bps_ok usable c))
      \<longleftrightarrow> (\<forall>c \<in> set ?cs. P (cx_slot_idx c) (cx_ptr c) (bps_ok usable c))" for P
    using arg_cong [OF maps(2), of "\<lambda>xs. \<forall>(a, b, c) \<in> set xs. P a b c"] by simp
  have "slots_inv sl (?cs[i := c']) = slots_inv sl ?cs" for sl
    unfolding slots_inv_def idx img
    using all [of "\<lambda>a b _. a < 4 \<and> sl_ctx (sl ! a) = b"] by simp
  moreover have "acct_inv usable (s\<lparr>sy_st := st'\<rparr>)"
    using neutral_handler(1) [OF exit assms(3)] by (intro acct_neutral [OF assms(1)]) simp_all
  ultimately show ?thesis
    using all [of "\<lambda>_ _ c. c"] by (simp add: acct_inv_def teardown_def maps(1))
qed

lemma acct_watch:
  assumes "acct_inv (me_usable menv) s" "\<forall>a. me_insert menv a \<le> 0"
    and "nv_dbell_intercept_mmap menv disable nv vma ranges (sy_st s) = (ret, c, st')"
  shows "acct_inv (me_usable menv)
    (s\<lparr>sy_st := st', sy_ctxs := sy_ctxs s @ (case c of Some x \<Rightarrow> [x] | None \<Rightarrow> [])\<rparr>)"
proof -
  note I = assms(1) [unfolded acct_inv_def teardown_def]
  have len: "length (g_dbell_slots (sy_st s)) = 4" using I by (simp add: slots_inv_def)
  show ?thesis
  proof (cases rule: intercept_result [OF assms(3) len assms(2)])
    case 1
    from I have "slots_inv (g_dbell_slots st') (sy_ctxs s)" using slots_inv_same [OF 1(6)] by blast
    moreover have "\<not> q_should_exit st'" using 1(3) I by (simp add: same_but_slots_def same_tables_def)
    ultimately show ?thesis using 1(2,5) I tables_teardown_slots [OF 1(3)] by (simp add: acct_inv_def teardown_def)
  next
    case (2 ctx evs st2)
    note C = claim_slot_Some [OF 2(11)]
    have sl: "slots_inv (g_dbell_slots st') (sy_ctxs s @ [ctx])"
      using I C len 2(12) by (auto intro!: slots_inv_claim)
    have ex: "\<not> q_should_exit st'" using 2(10) I by (simp add: same_but_slots_def same_tables_def)
    have "bal r (effects (sy_st s)) + (bal r (tables_teardown (sy_st s)) +
        bal r (concat (map ctx_release_events (sy_ctxs s)))) = 0" for r
      using I by simp
    with 2(14) have "bal r (effects (sy_st s)) + (bal r evs + (bal r (tables_teardown (sy_st s)) +
        (bal r (concat (map ctx_release_events (sy_ctxs s))) + bal r (ctx_release_events ctx)))) = 0" for r
      by (smt (verit))
    with sl ex I 2(2,3,13) tables_teardown_slots [OF 2(10)] show ?thesis by (simp add: acct_inv_def teardown_def)
  qed
qed

lemma acct_unwatch:
  assumes "acct_inv usable s" "i < length (sy_ctxs s)"
  shows "acct_inv usable (s\<lparr>sy_st := release_ctx usable m (sy_ctxs s ! i) (sy_st s),
      sy_ctxs := delete_nth i (sy_ctxs s)\<rparr>)"
proof -
  let ?c = "sy_ctxs s ! i"
  note I = assms(1) [unfolded acct_inv_def teardown_def]
  have ok: "bps_ok usable ?c" using I assms(2) by simp
  note F = release_ctx_frame [OF ok, where m = m and st = "sy_st s"]
  have d: "distinct (map cx_slot_idx (sy_ctxs s))" and "cx_slot_idx ?c < 4"
    using I assms(2) by (auto simp: slots_inv_def)
  then have sl: "slots_inv (g_dbell_slots (release_ctx usable m ?c (sy_st s))) (delete_nth i (sy_ctxs s))"
    using I assms(2) by (simp add: F(3) nv_dbell_release_slot_def slots_inv_release)
  have ex: "\<not> q_should_exit (release_ctx usable m ?c (sy_st s))"
    using F(2) I by (simp add: same_but_slots_def same_tables_def)
  have "bal r (effects (sy_st s)) + (bal r (tables_teardown (sy_st s)) +
      (bal r (ctx_release_events ?c) + bal r (concat (map ctx_release_events (delete_nth i (sy_ctxs s)))))) = 0" for r
    using I [THEN conjunct1, THEN spec, of r] bal_delete_nth [OF assms(2), of r ctx_release_events] by simp
  with sl ex I delete_nth_set(3) [OF assms(2) d] F(1) tables_teardown_slots [OF F(2)] show ?thesis
    by (auto simp: acct_inv_def teardown_def add.left_commute)
qed


lemma acct_inv_step:
  assumes "dbell_step X usable s s'" "acct_inv usable s" "safe_inv X s"
  shows "acct_inv usable s'"
proof -
  have exit: "\<not> q_should_exit (sy_st s)" using assms(2) by (simp add: acct_inv_def)
  have ok: "bar1_ok (sy_st s)" "sysmem_ok (sy_st s)"
    using assms(3) by (simp_all add: safe_inv_def bar1_wf_def sysmem_wf_def)
  note N = acct_neutral [OF assms(2)]
  from assms(1) show ?thesis
  proof cases
    case (reg v env os key T' st')
    with N [OF neutral_register [OF exit reg(3)]] show ?thesis by simp
  next
    case (unreg key)
    with N [OF neutral_refl] show ?thesis by simp
  next
    case (bar1_add wc io vma phys sz)
    with N [OF neutral_bar1_add [of vma]] show ?thesis by (simp add: track_ok_def)
  next
    case (bar1_remove vma_p)
    with N [OF neutral_bar1_remove [OF ok(1)]] show ?thesis by simp
  next
    case (sysmem_add senv vma pt ix n)
    with N [OF neutral_sysmem_add] show ?thesis by simp
  next
    case (sysmem_remove vma_p)
    with N [OF neutral_sysmem_remove [OF ok(2)]] show ?thesis by simp
  next
    case (work renv)
    with N [OF neutral_worker] show ?thesis by simp
  next
    case (doorbell i env m c' st')
    with acct_doorbell [OF assms(2) doorbell(2,3)] show ?thesis by simp
  next
    case (watch menv disable nv vma ranges ret c st')
    with acct_watch [OF _ watch(3,4)] assms(2) show ?thesis by simp
  next
    case (unwatch i m)
    with acct_unwatch [OF assms(2) unwatch(2)] show ?thesis by simp
  qed
qed

lemma acct_inv_init: "acct_inv usable sys_init"
  by (auto simp: acct_inv_def sys_init_def teardown_def tables_teardown_def dbell_init_def effects_def
      slots_inv_def bar1_vacant_def bar1_free_def sysmem_vacant_def sysmem_free_def less_Suc_eq numeral_eq_Suc)

lemma reachable_inv: "reachable X usable s \<Longrightarrow> safe_inv X s \<and> acct_inv usable s"
proof (induction rule: reachable.induct)
  case init
  show ?case by (simp add: safe_inv_init acct_inv_init)
next
  case (step s s')
  then have "length (g_dbell_slots (sy_st s)) = 4" "\<forall>c \<in> set (sy_ctxs s). bps_ok usable c"
    by (auto simp: acct_inv_def slots_inv_def)
  with step safe_inv_step acct_inv_step show ?case by blast
qed

section \<open>The properties of the system\<close>





section \<open>Witnesses\<close>

text \<open>A run that maps and watches one doorbell window.\<close>

lemma ex_watched:
  "\<exists>c st. reachable {} True \<lparr>sy_table = g_dbellGpfifoTable, sy_st = st, sy_ctxs = [c]\<rparr>
     \<and> cx_bp_events c = [0x9010, 0x9011] \<and> cx_shadow_kva c = me_page_kva ex_mmap \<and> same_but_slots dbell_init st"
proof -
  obtain c st where I: "nv_dbell_intercept_mmap ex_mmap False 0x100 ex_window [(0xd0000000, 0x10000)] dbell_init
      = (1, Some c, st)" "cx_bp_events c = [0x9010, 0x9011]"
    using ex_intercept [of dbell_init] by (auto simp: dbell_init_def)
  have ins: "\<forall>a. me_insert ex_mmap a \<le> 0" by (simp add: ex_mmap_insert)
  have "dbell_step {} True sys_init (sys_init\<lparr>sy_st := st,
      sy_ctxs := sy_ctxs sys_init @ (case Some c of Some x \<Rightarrow> [x] | None \<Rightarrow> [])\<rparr>)"
    by (rule dbell_step.watch [OF _ ins]) (use I(1) in \<open>simp_all add: sys_init_def ex_mmap_def\<close>)
  then have "reachable {} True (sys_init\<lparr>sy_st := st, sy_ctxs := sy_ctxs sys_init @ [c]\<rparr>)"
    using reachable.step [OF reachable.init] by simp
  then have "reachable {} True \<lparr>sy_table = g_dbellGpfifoTable, sy_st = st, sy_ctxs = [c]\<rparr>"
    by (simp add: sys_init_def)
  moreover have "cx_shadow_kva c = me_page_kva ex_mmap \<and> same_but_slots dbell_init st"
    by (rule intercept_result [OF I(1) _ ins]) (auto simp: dbell_init_def)
  ultimately show ?thesis using I(2) by blast
qed




end
