(* ===== verification/Pbcap_Text.thy ===== *)
theory Pbcap_Text
  imports Prelude
begin

text \<open>
  The text handling of \<^verbatim>\<open>reverse/tools/pbcap.c\<close> that runs inside the trap handler, where neither
  \<^verbatim>\<open>snprintf\<close> nor \<^verbatim>\<open>sscanf\<close> may be called: the decimal and hexadecimal printers, the parser of a
  line of \<^verbatim>\<open>/proc/self/maps\<close>, the name of a snapshot file, and the reader of the worker's pipe.
  A C string is a \<open>string\<close> without its terminator.
\<close>

section \<open>Printers\<close>

text \<open>
  The digit loops fill \<^verbatim>\<open>tmp\<close> from the least significant digit; the second argument is the room
  left in \<^verbatim>\<open>tmp\<close>.
\<close>

fun u32_digits :: "u32 \<Rightarrow> nat \<Rightarrow> string" where
  "u32_digits v 0 = []"
| "u32_digits v (Suc k) =
     (if v > 0 then char_of (48 + unat (v mod 10)) # u32_digits (v div 10) k else [])"

definition u32_to_fixed :: "u32 \<Rightarrow> nat \<Rightarrow> string" where
  "u32_to_fixed v width =
     (let tmp = (if v = 0 then ''0'' else u32_digits v 16) in
      rev (tmp @ replicate (width - length tmp) (CHR ''0'')))"

fun hex_digits :: "u64 \<Rightarrow> nat \<Rightarrow> string" where
  "hex_digits v 0 = []"
| "hex_digits v (Suc k) =
     (if v > 0 then ''0123456789abcdef'' ! unat (v AND 0xf) # hex_digits (drop_bit 4 v) k else [])"

definition uptr_to_hex :: "u64 \<Rightarrow> string" where
  "uptr_to_hex v = rev (if v = 0 then ''0'' else hex_digits v 20)"

section \<open>The parser\<close>

definition hexd :: "char \<Rightarrow> u64 option" where
  "hexd c = (let n = of_char c :: nat in
     if 48 \<le> n \<and> n \<le> 57 then Some (of_nat (n - 48))
     else if 97 \<le> n \<and> n \<le> 102 then Some (of_nat (n - 97 + 10))
     else if 65 \<le> n \<and> n \<le> 70 then Some (of_nat (n - 65 + 10))
     else None)"

text \<open>The two number loops: up to the stop character or the end of the string.\<close>

fun parse_hex :: "char \<Rightarrow> u64 \<Rightarrow> string \<Rightarrow> (u64 \<times> string) option" where
  "parse_hex stop v [] = Some (v, [])"
| "parse_hex stop v (c # s) =
     (if c = stop then Some (v, c # s)
      else case hexd c of
        None \<Rightarrow> None
      | Some d \<Rightarrow> parse_hex stop (push_bit 4 v OR d) s)"

definition skip_token :: "string \<Rightarrow> string" where
  "skip_token p = dropWhile (\<lambda>c. c \<noteq> CHR '' '' \<and> c \<noteq> CHR 0x0A) (dropWhile ((=) CHR '' '') p)"

text \<open>The result has the start and end address, the four permission characters and the path.\<close>

definition parse_maps_line_sigsafe :: "string \<Rightarrow> (u64 \<times> u64 \<times> string \<times> string) option" where
  "parse_maps_line_sigsafe line =
     (case parse_hex (CHR ''-'') 0 line of
        None \<Rightarrow> None | Some (_, []) \<Rightarrow> None
      | Some (start, _ # p1) \<Rightarrow>
     (case parse_hex (CHR '' '') 0 p1 of
        None \<Rightarrow> None | Some (_, []) \<Rightarrow> None
      | Some (finish, _ # p2) \<Rightarrow>
     (if length p2 < 4 then None
      else let p3 = dropWhile ((=) CHR '' '') (skip_token (skip_token (skip_token (drop 4 p2)))) in
        Some (start, finish, take 4 p2, takeWhile (\<lambda>c. c \<noteq> CHR 0x0A) p3))))"

section \<open>Finding the device and naming the file\<close>

text \<open>The rest of the path from the first \<^verbatim>\<open>/dev/nvidia\<close> on.\<close>

fun find_sub :: "string \<Rightarrow> string \<Rightarrow> string option" where
  "find_sub pat [] = None"
| "find_sub pat (c # s) = (if take (length pat) (c # s) = pat then Some (c # s) else find_sub pat s)"

abbreviation (input) dev_nvidia :: string where "dev_nvidia \<equiv> ''/dev/nvidia''"

definition snap_tag :: "string \<Rightarrow> string" where
  "snap_tag match = take 32 (takeWhile (\<lambda>c. c \<noteq> CHR '' '' \<and> c \<noteq> CHR 0x0A) (drop 5 match))"

definition snap_outpath :: "string \<Rightarrow> u32 \<Rightarrow> string \<Rightarrow> u64 \<Rightarrow> u64 \<Rightarrow> string" where
  "snap_outpath outdir idx tag start len =
     outdir @ ''/snap-'' @ u32_to_fixed idx 5 @ ''-dbell-'' @ tag @ ''-0x'' @ uptr_to_hex start
       @ ''-len'' @ uptr_to_hex len @ ''.bin''"

section \<open>Digits are read back\<close>

definition hexval :: "u64 \<Rightarrow> string \<Rightarrow> u64" where
  "hexval = foldl (\<lambda>a c. push_bit 4 a OR the (hexd c))"

definition hex_string :: "string \<Rightarrow> bool" where
  "hex_string s \<longleftrightarrow> (\<forall>c \<in> set s. hexd c \<noteq> None)"

lemma hexval_simps [simp]:
  "hexval a [] = a" "hexval a (c # s) = hexval (push_bit 4 a OR the (hexd c)) s"
  "hexval a (s @ t) = hexval (hexval a s) t"
  by (simp_all add: hexval_def)

lemma hexd_sep [simp]: "hexd (CHR ''-'') = None" "hexd (CHR '' '') = None" "hexd (CHR ''.'') = None"
  by (simp_all add: hexd_def)

lemma parse_hex_append:
  assumes "hex_string xs" "hexd stop = None"
  shows "parse_hex stop a (xs @ stop # s) = Some (hexval a xs, stop # s)"
  using assms by (induction xs arbitrary: a) (auto simp: hex_string_def)

lemma hexd_digit:
  assumes "n < 16"
  shows "hexd (''0123456789abcdef'' ! n) = Some (of_nat n)"
proof -
  have "\<forall>n \<in> set [0..<16]. hexd (''0123456789abcdef'' ! n) = Some (of_nat n)"
    by (simp add: hexd_def upt_rec)
  with assms show ?thesis by simp
qed

lemma nibble_less: "unat (v AND 0xf :: u64) < 16"
proof -
  have "v AND 0xf = v AND mask 4" by (simp add: mask_eq_exp_minus_1)
  then show ?thesis by (simp add: unat_and_mask)
qed

lemma hexd_nibble: "hexd (''0123456789abcdef'' ! unat (v AND 0xf :: u64)) = Some (v AND 0xf)"
  using hexd_digit [OF nibble_less, of v] by simp

lemma hex_string_digits: "hex_string (hex_digits v k)"
  by (induction v k rule: hex_digits.induct) (auto simp: hex_string_def hexd_nibble)

lemma split_nibble: "push_bit 4 (drop_bit 4 v) OR (v AND 0xf) = (v :: u64)"
proof -
  have m: "(0xf :: u64) = mask 4" by (simp add: mask_eq_exp_minus_1)
  show ?thesis unfolding m by (rule bit_word_eqI) (auto simp: bit_simps)
qed

lemma hexval_digits: "drop_bit (4 * k) v = 0 \<Longrightarrow> hexval 0 (rev (hex_digits v k)) = v"
proof (induction v k rule: hex_digits.induct)
  case (2 v k)
  have "drop_bit (4 * k) (drop_bit 4 v) = 0"
    using 2(2) by (simp add: drop_bit_drop_bit add.commute)
  with 2 show ?case
    by (auto simp: hexd_nibble split_nibble word_gt_0)
qed simp

lemma drop_bit_80 [simp]: "drop_bit (4 * 20) (v :: u64) = 0"
  by (rule bit_word_eqI) (auto simp: bit_simps dest: bit_imp_le_length)

lemma hexval_uptr [simp]: "hexval 0 (uptr_to_hex v) = v"
  using hexval_digits [OF drop_bit_80, of v] by (simp add: uptr_to_hex_def hexd_def)

lemma hex_string_uptr [simp]: "hex_string (uptr_to_hex v)"
  using hex_string_digits [of v 20] by (auto simp: uptr_to_hex_def hex_string_def hexd_def)

lemma hex_string_sep: "hex_string s \<Longrightarrow> CHR ''-'' \<notin> set s \<and> CHR ''.'' \<notin> set s"
  by (auto simp: hex_string_def)

lemma uptr_inj: "uptr_to_hex v = uptr_to_hex w \<Longrightarrow> v = w"
  by (metis hexval_uptr)

text \<open>Leading zeros, which the kernel prints for small addresses, do not matter.\<close>

lemma hexval_zeros [simp]: "hexval 0 (replicate n (CHR ''0'')) = 0"
  by (induction n) (simp_all add: hexd_def)


lemma hex_string_zeros: "hex_string s \<Longrightarrow> hex_string (replicate n (CHR ''0'') @ s)"
  by (auto simp: hex_string_def hexd_def)

section \<open>Parsing what the kernel prints\<close>

text \<open>
  A line of \<^verbatim>\<open>/proc/self/maps\<close>: two zero-padded addresses, the permissions, offset, device and inode,
  padding, and the path.
\<close>

definition maps_line :: "nat \<Rightarrow> nat \<Rightarrow> u64 \<Rightarrow> u64 \<Rightarrow> string \<Rightarrow> string list \<Rightarrow> nat \<Rightarrow> string \<Rightarrow> string" where
  "maps_line z1 z2 start finish perms toks pad path =
     replicate z1 (CHR ''0'') @ uptr_to_hex start @ ''-'' @ replicate z2 (CHR ''0'') @ uptr_to_hex finish @ '' ''
       @ perms @ concat (map (\<lambda>t. '' '' @ t) toks) @ replicate (Suc pad) (CHR '' '') @ path"

definition token :: "string \<Rightarrow> bool" where
  "token t \<longleftrightarrow> t \<noteq> [] \<and> CHR '' '' \<notin> set t \<and> CHR 0x0A \<notin> set t"

lemma skip_token_append:
  assumes "token t" "s = [] \<or> hd s = CHR '' ''"
  shows "skip_token ('' '' @ t @ s) = s"
proof -
  have "dropWhile ((=) CHR '' '') (t @ s) = t @ s"
    using assms(1) by (cases t) (auto simp: token_def)
  moreover have "dropWhile (\<lambda>c. c \<noteq> CHR '' '' \<and> c \<noteq> CHR 0x0A) (t @ s) = s"
    using assms by (subst dropWhile_append2) (auto simp: token_def dropWhile_eq_self_iff)
  ultimately show ?thesis by (simp add: skip_token_def)
qed

lemma dropWhile_blanks: "s = [] \<or> hd s \<noteq> CHR '' '' \<Longrightarrow> dropWhile ((=) CHR '' '') (replicate n (CHR '' '') @ s) = s"
  by (induction n) (auto simp: dropWhile_eq_self_iff)

lemma parse_maps_line_printed:
  assumes "length perms = 4" "token off" "token dev" "token ino"
    and "CHR 0x0A \<notin> set path" "path = [] \<or> hd path \<noteq> CHR '' ''"
  shows "parse_maps_line_sigsafe (maps_line z1 z2 start finish perms [off, dev, ino] pad path)
    = Some (start, finish, perms, path)"
proof -
  let ?s3 = "replicate (Suc pad) (CHR '' '') @ path"
  have skip: "skip_token ('' '' @ ino @ ?s3) = ?s3"
    "skip_token ('' '' @ dev @ ('' '' @ ino @ ?s3)) = '' '' @ ino @ ?s3"
    "skip_token ('' '' @ off @ ('' '' @ dev @ ('' '' @ ino @ ?s3))) = '' '' @ dev @ ('' '' @ ino @ ?s3)"
    using assms(2-4) by (intro skip_token_append; simp)+
  have path: "takeWhile (\<lambda>c. c \<noteq> CHR 0x0A) (dropWhile ((=) CHR '' '') ?s3) = path"
    using assms(5) dropWhile_blanks [OF assms(6), of "Suc pad"] by (auto simp: takeWhile_eq_all_conv)
  have p1: "parse_hex (CHR ''-'') 0 ((replicate z1 (CHR ''0'') @ uptr_to_hex start) @ CHR ''-'' # r)
      = Some (start, CHR ''-'' # r)" for r
    using parse_hex_append [OF hex_string_zeros [OF hex_string_uptr, of z1 start], of "CHR ''-''" 0] by simp
  have p2: "parse_hex (CHR '' '') 0 ((replicate z2 (CHR ''0'') @ uptr_to_hex finish) @ CHR '' '' # r)
      = Some (finish, CHR '' '' # r)" for r
    using parse_hex_append [OF hex_string_zeros [OF hex_string_uptr, of z2 finish], of "CHR '' ''" 0] by simp
  show ?thesis
    using p1 p2 skip path assms(1) by (simp add: parse_maps_line_sigsafe_def maps_line_def)
qed

text \<open>
  C15.  The signal-safe parser reads back what the kernel prints.  For every address pair, every four
  permission characters, every offset, device and inode token and every path that does not start
  with a blank, it returns exactly the two addresses, the permissions and the whole path, blanks
  inside the path included.
\<close>

theorem parse_maps_line_roundtrip:
  assumes "length perms = 4" "token off" "token dev" "token ino"
    and "CHR 0x0A \<notin> set path" "path = [] \<or> hd path \<noteq> CHR '' ''"
  shows "parse_maps_line_sigsafe (maps_line z1 z2 start finish perms [off, dev, ino] pad path)
    = Some (start, finish, perms, path)"
  using assms by (rule parse_maps_line_printed)

section \<open>Decimal numbers\<close>

definition decval :: "string \<Rightarrow> nat" where
  "decval = foldl (\<lambda>a c. a * 10 + (of_char c - 48)) 0"

lemma decval_snoc [simp]:
  "decval (s @ [c]) = decval s * 10 + (of_char c - 48)" "decval [] = 0" "decval [c] = of_char c - 48"
  by (simp_all add: decval_def)

lemma of_char_digit: "d < 10 \<Longrightarrow> of_char (char_of (48 + d :: nat)) = 48 + d"
  by (simp add: of_char_of)

lemma mod10_less: "unat (v mod 10 :: u32) < 10"
  by (simp add: unat_mod)

lemma decval_digits: "unat v < 10 ^ k \<Longrightarrow> decval (rev (u32_digits v k)) = unat v"
proof (induction v k rule: u32_digits.induct)
  case (2 v k)
  have "unat (v div 10) < 10 ^ k" using 2(2) by (simp add: unat_div less_mult_imp_div_less)
  with 2(1) have "v > 0 \<Longrightarrow> decval (rev (u32_digits (v div 10) k)) = unat (v div 10)" by simp
  moreover have "unat (v div 10) * 10 + unat (v mod 10) = unat v"
    by (simp add: unat_div unat_mod)
  ultimately show ?case
    using of_char_digit [OF mod10_less, of v] by (auto simp: word_gt_0)
qed simp

lemma u32_room: "unat (v :: u32) < 10 ^ 16"
  using unsigned_less [of v, where 'a = nat] by simp

lemma decval_zeros [simp]: "decval (replicate n (CHR ''0'') @ s) = decval s"
  by (induction n) (simp_all add: decval_def)

lemma decval_all_zeros [simp]: "decval (replicate n (CHR ''0'')) = 0"
  using decval_zeros [of n "[]"] by simp

lemma decval_fixed [simp]: "decval (u32_to_fixed v w) = unat v"
  using decval_digits [OF u32_room, of v] by (cases "v = 0") (simp_all add: u32_to_fixed_def Let_def)

lemma digits_digits: "c \<in> set (u32_digits v k) \<Longrightarrow> 48 \<le> (of_char c :: nat) \<and> (of_char c :: nat) \<le> 57"
proof (induction v k rule: u32_digits.induct)
  case (2 v k)
  then show ?case using of_char_digit [OF mod10_less, of v] mod10_less [of v] by (auto split: if_splits)
qed simp

lemma fixed_digits: "c \<in> set (u32_to_fixed v w) \<Longrightarrow> 48 \<le> (of_char c :: nat) \<and> (of_char c :: nat) \<le> 57"
  by (auto simp: u32_to_fixed_def Let_def dest: digits_digits split: if_splits)


lemma fixed_nonempty: "u32_to_fixed v (Suc w) \<noteq> []"
  by (auto simp: u32_to_fixed_def Let_def)

section \<open>The file name\<close>

lemma split_first:
  assumes "c \<notin> set a" "c \<notin> set b" "a @ c # r = b @ c # r'"
  shows "a = b" and "r = r'"
proof -
  have "takeWhile ((\<noteq>) c) (a @ c # r) = a" "takeWhile ((\<noteq>) c) (b @ c # r') = b"
    using assms(1,2) by (auto simp: takeWhile_append)
  then show "a = b" using assms(3) by metis
  with assms(3) show "r = r'" by simp
qed

lemma split_last:
  assumes "c \<notin> set r" "c \<notin> set r'" "a @ c # r = b @ c # r'"
  shows "a = b" and "r = r'"
proof -
  have "rev r @ c # rev a = rev r' @ c # rev b" using arg_cong [OF assms(3), of rev] by simp
  with split_first [of c "rev r" "rev r'" "rev a" "rev b"] assms(1,2) show "a = b" and "r = r'" by auto
qed

text \<open>
  A snapshot file is named after what it holds and never overwrites another one: two calls in the
  same output directory give the same name only for the same doorbell number, the same tag, the same
  address and the same length, whatever characters the tag has.
\<close>

theorem snap_outpath_injective:
  "snap_outpath outdir i t s l = snap_outpath outdir i' t' s' l' \<longleftrightarrow> i = i' \<and> t = t' \<and> s = s' \<and> l = l'"
proof
  assume eq: "snap_outpath outdir i t s l = snap_outpath outdir i' t' s' l'"
  let ?tail = "\<lambda>t s l. t @ ''-0x'' @ uptr_to_hex s @ ''-len'' @ uptr_to_hex l @ ''.bin''"
  have nodash: "CHR ''-'' \<notin> set (u32_to_fixed v w)" for v w
    using fixed_digits [of "CHR ''-''" v w] by auto
  have hexdash: "CHR ''-'' \<notin> set (uptr_to_hex v)" "CHR ''.'' \<notin> set (uptr_to_hex v)" for v
    using hex_string_sep [OF hex_string_uptr] by auto
  have "u32_to_fixed i 5 @ CHR ''-'' # ''dbell-'' @ ?tail t s l
      = u32_to_fixed i' 5 @ CHR ''-'' # ''dbell-'' @ ?tail t' s' l'"
    using eq by (simp add: snap_outpath_def)
  from split_first [OF nodash nodash this]
  have ii: "u32_to_fixed i 5 = u32_to_fixed i' 5" and tail: "?tail t s l = ?tail t' s' l'" by auto
  have "(t @ ''-0x'' @ uptr_to_hex s) @ CHR ''-'' # ''len'' @ uptr_to_hex l @ ''.bin''
      = (t' @ ''-0x'' @ uptr_to_hex s') @ CHR ''-'' # ''len'' @ uptr_to_hex l' @ ''.bin''"
    using tail by simp
  from split_last [OF _ _ this] hexdash
  have "t @ CHR ''-'' # ''0x'' @ uptr_to_hex s = t' @ CHR ''-'' # ''0x'' @ uptr_to_hex s'"
    and "uptr_to_hex l = uptr_to_hex l'" by auto
  from split_last [OF _ _ this(1)] hexdash this(2)
  have "t = t'" "uptr_to_hex s = uptr_to_hex s'" "uptr_to_hex l = uptr_to_hex l'" by auto
  moreover have "i = i'" using arg_cong [OF ii, of decval] by (simp add: word_unat_eq_iff)
  ultimately show "i = i' \<and> t = t' \<and> s = s' \<and> l = l'" using uptr_inj by blast
qed simp

lemma hex_length: "drop_bit (4 * n) v = 0 \<Longrightarrow> length (hex_digits v k) \<le> n"
proof (induction v k arbitrary: n rule: hex_digits.induct)
  case (2 v k)
  show ?case
  proof (cases n)
    case 0
    with 2 show ?thesis by simp
  next
    case (Suc m)
    have "drop_bit (4 * m) (drop_bit 4 v) = 0"
      using 2(2) Suc by (simp add: drop_bit_drop_bit add.commute)
    with 2(1) Suc show ?thesis by simp
  qed
qed simp

lemma uptr_length: "1 \<le> length (uptr_to_hex v)" "length (uptr_to_hex v) \<le> 16"
proof -
  have "drop_bit (4 * 16) v = 0" by (rule bit_word_eqI) (auto simp: bit_simps dest: bit_imp_le_length)
  from hex_length [OF this, of 20] show "length (uptr_to_hex v) \<le> 16" by (simp add: uptr_to_hex_def)
  have "hex_digits v 20 \<noteq> []" if "v \<noteq> 0"
    using that hex_digits.simps(2) [of v 19] by (simp add: word_gt_0)
  then show "1 \<le> length (uptr_to_hex v)" by (simp add: uptr_to_hex_def Suc_le_eq)
qed

lemma dec_length: "unat v < 10 ^ n \<Longrightarrow> length (u32_digits v k) \<le> n"
proof (induction v k arbitrary: n rule: u32_digits.induct)
  case (2 v k)
  show ?case
  proof (cases n)
    case 0
    with 2 have "v = 0" by (simp add: unat_eq_0)
    then show ?thesis by simp
  next
    case (Suc m)
    have "unat (v div 10) < 10 ^ m" using 2(2) Suc by (simp add: unat_div less_mult_imp_div_less)
    with 2(1) Suc show ?thesis by simp
  qed
qed simp

lemma fixed_length: "5 \<le> length (u32_to_fixed v 5)" "length (u32_to_fixed v 5) \<le> 10"
proof -
  have "unat v < 10 ^ 10" using unsigned_less [of v, where 'a = nat] by simp
  from dec_length [OF this, of 16] show "length (u32_to_fixed v 5) \<le> 10"
    by (auto simp: u32_to_fixed_def Let_def)
qed (simp add: u32_to_fixed_def Let_def)

text \<open>
  The name is built in a buffer of 512 bytes without a bound check.  With its terminator it fits
  for every index, address, length and tag of the device when the output directory has at most 413
  characters; with 481 or more, which the environment variable allows, every snapshot of a device
  writes past the buffer.
\<close>

theorem snap_outpath_fits:
  assumes "tag = snap_tag match"
  shows "(length outdir \<le> 413 \<longrightarrow> length (snap_outpath outdir idx tag start len) < 512)
    \<and> (481 \<le> length outdir \<longrightarrow> 512 \<le> length (snap_outpath outdir idx tag start len))"
proof -
  have "length tag \<le> 32" by (simp add: assms snap_tag_def)
  with uptr_length [of start] uptr_length [of len] fixed_length [of idx] show ?thesis
    by (simp add: snap_outpath_def)
qed


section \<open>The worker's pipe\<close>

text \<open>\<^verbatim>\<open>strtoul(s, NULL, 10)\<close>: blanks, a sign, digits, and saturation.\<close>

definition is_digit :: "char \<Rightarrow> bool" where
  "is_digit c \<longleftrightarrow> 48 \<le> (of_char c :: nat) \<and> (of_char c :: nat) \<le> 57"

definition is_space :: "char \<Rightarrow> bool" where
  "is_space c \<longleftrightarrow> c = CHR '' '' \<or> 9 \<le> (of_char c :: nat) \<and> (of_char c :: nat) \<le> 13"

definition strtoul10 :: "string \<Rightarrow> u64" where
  "strtoul10 s =
     (let s1 = dropWhile is_space s;
          s2 = (if s1 \<noteq> [] \<and> (hd s1 = CHR ''-'' \<or> hd s1 = CHR ''+'') then tl s1 else s1);
          n = decval (takeWhile is_digit s2) in
      if n \<ge> 2 ^ 64 then - 1
      else if s1 \<noteq> [] \<and> hd s1 = CHR ''-'' then - of_nat n else of_nat n)"

text \<open>
  \<^verbatim>\<open>dbell_worker_fn\<close>: the state is the partial line and the sequence numbers whose snapshots were
  taken; each element of the list is what one \<^verbatim>\<open>read\<close> returned, and an empty read ends the worker.
\<close>

definition worker_char :: "string \<times> u32 list \<Rightarrow> char \<Rightarrow> string \<times> u32 list" where
  "worker_char S c =
     (let (partial, snaps) = S in
      if c = CHR 0x0A then ([], snaps @ [ucast (strtoul10 partial)])
      else if length partial + 1 < 64 then (partial @ [c], snaps)
      else (partial, snaps))"

fun dbell_worker_fn :: "string list \<Rightarrow> string \<times> u32 list \<Rightarrow> string \<times> u32 list" where
  "dbell_worker_fn [] S = S"
| "dbell_worker_fn (buf # reads) S =
     (if buf = [] then S else dbell_worker_fn reads (foldl worker_char S buf))"

text \<open>The line that \<^verbatim>\<open>sig_trap\<close> sends: \<^verbatim>\<open>"%u\n"\<close>.\<close>

definition seq_line :: "u32 \<Rightarrow> string" where
  "seq_line seq = u32_to_fixed seq 1 @ [CHR 0x0A]"

lemma strtoul10_fixed: "ucast (strtoul10 (u32_to_fixed v (Suc w))) = v"
proof -
  let ?s = "u32_to_fixed v (Suc w)"
  have d: "is_digit c \<and> \<not> is_space c \<and> c \<noteq> CHR ''-'' \<and> c \<noteq> CHR ''+''" if "c \<in> set ?s" for c
    using fixed_digits [OF that] by (auto simp: is_digit_def is_space_def)
  have "hd ?s \<in> set ?s" using fixed_nonempty by simp
  with d have s: "dropWhile is_space ?s = ?s" "hd ?s \<noteq> CHR ''-''" "hd ?s \<noteq> CHR ''+''" "takeWhile is_digit ?s = ?s"
    by (auto simp: dropWhile_eq_self_iff takeWhile_eq_all_conv)
  have "unat v < 2 ^ 64" using unsigned_less [of v, where 'a = nat] by simp
  moreover have "ucast (of_nat (unat v) :: u64) = v" by (rule bit_word_eqI) (simp add: bit_simps)
  ultimately show ?thesis by (simp add: strtoul10_def Let_def s)
qed

lemma worker_chars:
  assumes "CHR 0x0A \<notin> set s" "length p + length s < 64"
  shows "foldl worker_char (p, out) s = (p @ s, out)"
  using assms by (induction s arbitrary: p) (auto simp: worker_char_def)

lemma worker_line: "foldl worker_char ([], out) (seq_line v) = ([], out @ [v])"
proof -
  have "unat v < 10 ^ 10" using unsigned_less [of v, where 'a = nat] by simp
  from dec_length [OF this, of 16] have len: "length (u32_to_fixed v 1) < 64"
    by (auto simp: u32_to_fixed_def Let_def)
  have "CHR 0x0A \<notin> set (u32_to_fixed v 1)" using fixed_digits [of "CHR 0x0A" v 1] by auto
  from worker_chars [OF this, of "[]" out] len strtoul10_fixed [of v 0] show ?thesis
    by (simp add: seq_line_def worker_char_def)
qed

lemma worker_lines: "foldl worker_char ([], out) (concat (map seq_line vs)) = ([], out @ vs)"
  by (induction vs arbitrary: out) (simp_all add: worker_line)

lemma worker_reads: "[] \<notin> set reads \<Longrightarrow> dbell_worker_fn reads S = foldl worker_char S (concat reads)"
  by (induction reads arbitrary: S) auto

text \<open>
  The asynchronous path loses and reorders no request: however the kernel splits the bytes of the
  pipe into reads, the worker takes the snapshots of exactly the sequence numbers that the trap
  handler sent, in their order, and keeps no partial line.
\<close>

theorem worker_frames:
  assumes "concat reads = concat (map seq_line seqs)" "[] \<notin> set reads"
  shows "dbell_worker_fn reads ([], []) = ([], seqs)"
  using worker_reads [OF assms(2)] worker_lines [of "[]" seqs] assms(1) by simp

section \<open>Witnesses\<close>

lemma digits_numeral:
  "hex_digits v (numeral n) =
     (if v > 0 then ''0123456789abcdef'' ! unat (v AND 0xf) # hex_digits (drop_bit 4 v) (pred_numeral n) else [])"
  "u32_digits w (numeral n) =
     (if w > 0 then char_of (48 + unat (w mod 10)) # u32_digits (w div 10) (pred_numeral n) else [])"
  by (simp_all add: numeral_eq_Suc)

theorem parse_maps_line_roundtrip_witness:
  "parse_maps_line_sigsafe ''7f00-00008000 rw-s 00000000 00:05 417   /dev/nvidia0'' = Some (0x7f00, 0x8000, ''rw-s'', ''/dev/nvidia0'')"
proof -
  have h: "uptr_to_hex 0x7f00 = ''7f00''" "uptr_to_hex 0x8000 = ''8000''"
    by (simp_all add: uptr_to_hex_def digits_numeral)
  have r: "replicate 4 c = [c, c, c, c]" "replicate 3 c = [c, c, c]" for c :: char
    by (simp_all add: numeral_eq_Suc)
  have l: "maps_line 0 4 0x7f00 0x8000 ''rw-s'' [''00000000'', ''00:05'', ''417''] 2 ''/dev/nvidia0''
      = ''7f00-00008000 rw-s 00000000 00:05 417   /dev/nvidia0''"
    by (simp add: maps_line_def h r)
  show ?thesis
    using parse_maps_line_roundtrip [of "''rw-s''" "''00000000''" "''00:05''" "''417''" "''/dev/nvidia0''" 0 4 "0x7f00" "0x8000" 2]
    unfolding l by (simp add: token_def)
qed

theorem snap_outpath_fits_witness:
  "length (snap_outpath ''/tmp/pbcap'' 3 (snap_tag ''/dev/nvidia0'') 0x7f00 0x1000) < 512"
  using snap_outpath_fits [OF refl, of "''/tmp/pbcap''" 3 "''/dev/nvidia0''" "0x7f00" "0x1000"] by simp

theorem worker_frames_witness:
  "dbell_worker_fn [''1'', [CHR 0x0A, CHR ''2'', CHR 0x0A]] ([], []) = ([], [1, 2])"
proof -
  have "u32_to_fixed 1 1 = ''1''" "u32_to_fixed 2 1 = ''2''"
    by (simp_all add: u32_to_fixed_def digits_numeral char_of_eq_iff)
  then show ?thesis
    using worker_frames [of "[''1'', [CHR 0x0A, CHR ''2'', CHR 0x0A]]" "[1, 2]"] by (simp add: seq_line_def)
qed

end
