(* ===== verification/Pbcap_State.thy ===== *)
theory Pbcap_State
  imports Pbcap_Text Interfaces
begin

text \<open>
  The state of the capture shim \<^verbatim>\<open>reverse/tools/pbcap.c\<close>: its configuration, the table of device
  files, the table of mappings, and the timeline.  What the process asks of the operating system is a
  log of events; what the system answers (results of \<^verbatim>\<open>write\<close>, the text of \<^verbatim>\<open>/proc/self/maps\<close>) is
  part of the arguments.
\<close>

section \<open>Records\<close>

datatype map_kind = MAP_KIND_OTHER | MAP_KIND_USERMODE_BAR0

record fd_info =
  fi_fd :: int
  fi_name :: string

record map_info =
  mi_addr :: u64
  mi_length :: u64
  mi_fd :: int
  mi_fdname :: string
  mi_offset :: int
  mi_prot :: u32
  mi_kind :: map_kind

abbreviation (input) MAX_FDS :: nat where "MAX_FDS \<equiv> 128"
abbreviation (input) MAX_MAPPINGS :: nat where "MAX_MAPPINGS \<equiv> 256"
abbreviation (input) PROT_READ :: u32 where "PROT_READ \<equiv> 1"
abbreviation (input) PROT_WRITE :: u32 where "PROT_WRITE \<equiv> 2"
abbreviation (input) HOPPER_USERMODE_BAR0_LEN :: u64 where "HOPPER_USERMODE_BAR0_LEN \<equiv> 65536"
abbreviation (input) HOPPER_VF_DOORBELL_OFF :: u64 where "HOPPER_VF_DOORBELL_OFF \<equiv> 0x90"

text \<open>What one \<^verbatim>\<open>write(2)\<close> returned.\<close>

datatype wres = Wrote nat | Eintr | Wfail

text \<open>Effects on the process: a change of protection, a snapshot file, a request to the worker, a mapping.\<close>

datatype pevent =
    Mprotect u64 u64 u32
  | File string u64 u64
  | Pipe string
  | Mapped u64 u64 u32
  | Unmapped u64 u64
  | Sig_install
  | Sig_default

record pb_config =
  g_outdir :: string
  g_max_bytes :: u64
  g_verbose :: int
  g_dbell_arm :: int
  g_dbell_sample :: u32
  g_dbell_sync :: int
  g_memcpy_snapshot :: int

record pb_state =
  pb_cf :: pb_config
  g_fds :: "fd_info list"
  g_maps :: "map_info list"
  g_timeline_open :: bool
  pb_timeline :: string
  pb_writes :: "wres list"
  g_snap_idx :: u32
  pb_dbell_seq :: u32
  pb_pipe_open :: bool
  pb_log :: "pevent list"

definition plog :: "pevent \<Rightarrow> pb_state \<Rightarrow> pb_state" where
  "plog e st = st\<lparr>pb_log := pb_log st @ [e]\<rparr>"

section \<open>Configuration\<close>

text \<open>The conversions of the C library that read the environment: base 10 with a sign, and base 0.\<close>

definition skip_sign :: "string \<Rightarrow> bool \<times> string" where
  "skip_sign s =
     (let s1 = dropWhile is_space s in
      if s1 \<noteq> [] \<and> hd s1 = CHR ''-'' then (True, tl s1)
      else if s1 \<noteq> [] \<and> hd s1 = CHR ''+'' then (False, tl s1)
      else (False, s1))"

definition digit_val :: "char \<Rightarrow> nat option" where
  "digit_val c = map_option unat (hexd c)"

fun digits_val :: "nat \<Rightarrow> nat \<Rightarrow> string \<Rightarrow> nat" where
  "digits_val b a [] = a"
| "digits_val b a (c # s) =
     (case digit_val c of
        None \<Rightarrow> a
      | Some d \<Rightarrow> if d < b then digits_val b (a * b + d) s else a)"

definition strtoull0 :: "string \<Rightarrow> u64" where
  "strtoull0 s =
     (let (neg, s1) = skip_sign s;
          n = (case s1 of
                 CHR ''0'' # x # d # r \<Rightarrow>
                   if (x = CHR ''x'' \<or> x = CHR ''X'') \<and> digit_val d \<noteq> None then digits_val 16 0 (d # r)
                   else digits_val 8 0 s1
               | CHR ''0'' # r \<Rightarrow> digits_val 8 0 s1
               | _ \<Rightarrow> digits_val 10 0 s1) in
      if n \<ge> 2 ^ 64 then - 1 else if neg then - of_nat n else of_nat n)"

definition atoi :: "string \<Rightarrow> int" where
  "atoi s =
     (let (neg, s1) = skip_sign s;
          n = int (digits_val 10 0 s1);
          l = (if neg then max (- (2 ^ 63)) (- n) else min (2 ^ 63 - 1) n) in
      signed_take_bit 31 l)"

definition default_config :: pb_config where
  "default_config = \<lparr>g_outdir = ''/tmp/pbcap'', g_max_bytes = 16 * 1024 * 1024, g_verbose = 0, g_dbell_arm = 0,
     g_dbell_sample = 1, g_dbell_sync = 1, g_memcpy_snapshot = 0\<rparr>"

text \<open>A variable counts when it is set and not empty.\<close>

definition env_set :: "(string \<Rightarrow> string option) \<Rightarrow> string \<Rightarrow> (string \<Rightarrow> pb_config \<Rightarrow> pb_config) \<Rightarrow> pb_config \<Rightarrow> pb_config" where
  "env_set getenv name f cf =
     (case getenv name of None \<Rightarrow> cf | Some e \<Rightarrow> if e = [] then cf else f e cf)"

definition init_config :: "(string \<Rightarrow> string option) \<Rightarrow> pb_config" where
  "init_config getenv =
     (let c1 = env_set getenv ''PBCAP_DIR'' (\<lambda>e. g_outdir_update (\<lambda>_. e)) default_config;
          c2 = env_set getenv ''PBCAP_MAX_BYTES'' (\<lambda>e. g_max_bytes_update (\<lambda>_. strtoull0 e)) c1;
          c3 = env_set getenv ''PBCAP_VERBOSE'' (\<lambda>e. g_verbose_update (\<lambda>_. atoi e)) c2;
          c4 = env_set getenv ''PBCAP_DBELL'' (\<lambda>e. g_dbell_arm_update (\<lambda>_. atoi e)) c3;
          c5 = env_set getenv ''PBCAP_DBELL_SAMPLE'' (\<lambda>e. g_dbell_sample_update (\<lambda>_. ucast (strtoull0 e))) c4;
          c6 = (if g_dbell_sample c5 = 0 then c5\<lparr>g_dbell_sample := 1\<rparr> else c5);
          c7 = env_set getenv ''PBCAP_DBELL_SYNC'' (\<lambda>e. g_dbell_sync_update (\<lambda>_. atoi e)) c6 in
      env_set getenv ''PBCAP_MEMCPY_SNAPSHOT'' (\<lambda>e. g_memcpy_snapshot_update (\<lambda>_. atoi e)) c7)"

lemma sample_nonzero: "g_dbell_sample (init_config getenv) \<noteq> 0"
proof -
  have keep: "g_dbell_sample (env_set getenv n f cf) = g_dbell_sample cf"
    if "\<And>e cf. g_dbell_sample (f e cf) = g_dbell_sample cf" for n f cf
    using that by (simp add: env_set_def split: option.splits)
  show ?thesis by (simp add: init_config_def Let_def keep)
qed

text \<open>
  The configuration never makes the shim divide by zero or drop its caps silently: the sampling
  period is never zero, whatever the environment holds (text, zero, a number whose low 32 bits are
  zero), and variables that are set to the empty string leave every default in place.
\<close>

theorem init_config_ok:
  "g_dbell_sample (init_config getenv) \<noteq> 0
   \<and> ((\<forall>v. getenv v = None \<or> getenv v = Some []) \<longrightarrow> init_config getenv = default_config)"
proof
  show "g_dbell_sample (init_config getenv) \<noteq> 0" by (rule sample_nonzero)
  show "(\<forall>v. getenv v = None \<or> getenv v = Some []) \<longrightarrow> init_config getenv = default_config"
  proof
    assume a: "\<forall>v. getenv v = None \<or> getenv v = Some []"
    have "env_set getenv n f cf = cf" for n f cf
      using a [rule_format, of n] by (auto simp: env_set_def)
    then show "init_config getenv = default_config" by (simp add: init_config_def default_config_def)
  qed
qed

theorem init_config_ok_witness:
  "g_dbell_sample (init_config [''PBCAP_DBELL_SAMPLE'' \<mapsto> ''0'', ''PBCAP_DIR'' \<mapsto> []]) \<noteq> 0
   \<and> init_config [''PBCAP_MAX_BYTES'' \<mapsto> []] = default_config"
  using init_config_ok [of "[''PBCAP_DBELL_SAMPLE'' \<mapsto> ''0'', ''PBCAP_DIR'' \<mapsto> []]"]
    init_config_ok [of "[''PBCAP_MAX_BYTES'' \<mapsto> []]"] by auto

section \<open>Writing\<close>

text \<open>
  \<^verbatim>\<open>safe_write\<close>: the results of the successive \<^verbatim>\<open>write\<close> calls are consumed; the value is what was
  written, what was not, and the results left.  A list of results that runs out stands for a failure.
\<close>

fun safe_write :: "wres list \<Rightarrow> string \<Rightarrow> string \<times> string \<times> wres list" where
  "safe_write ws [] = ([], [], ws)"
| "safe_write [] (c # buf) = ([], c # buf, [])"
| "safe_write (Wrote n # ws) (c # buf) =
     (if n > 0 then
        (let (done, left, ws') = safe_write ws (drop n (c # buf)) in (take n (c # buf) @ done, left, ws'))
      else ([], c # buf, ws))"
| "safe_write (Eintr # ws) (c # buf) = safe_write ws (c # buf)"
| "safe_write (Wfail # ws) (c # buf) = ([], c # buf, ws)"

lemma safe_write_split: "safe_write ws buf = (out, left, ws') \<Longrightarrow> out @ left = buf"
  by (induction ws buf arbitrary: out rule: safe_write.induct)
    (auto simp: Let_def split: if_splits prod.splits)

text \<open>No result is a failure or empty, and together they have room for the buffer.\<close>

definition writes_ok :: "wres list \<Rightarrow> nat \<Rightarrow> bool" where
  "writes_ok ws n \<longleftrightarrow> (\<forall>w \<in> set ws. w = Eintr \<or> (\<exists>k > 0. w = Wrote k))
     \<and> n \<le> (\<Sum>w \<leftarrow> ws. case w of Wrote k \<Rightarrow> k | _ \<Rightarrow> 0)"

lemma safe_write_complete:
  "writes_ok ws (length buf) \<Longrightarrow> \<exists>ws'. safe_write ws buf = (buf, [], ws')"
proof (induction ws buf rule: safe_write.induct)
  case (3 n ws c buf)
  then have "n > 0" "writes_ok ws (length (drop n (c # buf)))" by (auto simp: writes_ok_def)
  with 3(1) show ?case by (auto simp: Let_def)
next
  case (4 ws c buf)
  then show ?case by (auto simp: writes_ok_def)
qed (auto simp: writes_ok_def)

text \<open>
  The write loop of the signal-safe paths finishes its job: whatever it was answered, the bytes it
  wrote are a prefix of the buffer in order, each byte once; interrupted and partial writes are
  retried, so that when the system keeps making progress the whole buffer is written.
\<close>

theorem safe_write_correct:
  "(\<forall>out left ws'. safe_write ws buf = (out, left, ws') \<longrightarrow> out @ left = buf)
   \<and> (writes_ok ws (length buf) \<longrightarrow> fst (safe_write ws buf) = buf)"
  using safe_write_split safe_write_complete by fastforce

theorem safe_write_correct_witness:
  "fst (safe_write [Eintr, Wrote 2, Eintr, Wrote 5] ''abcd'') = ''abcd''
   \<and> (\<exists>left. fst (safe_write [Wrote 1, Wfail, Wrote 3] ''abcd'') @ left = ''abcd'')"
  using safe_write_correct [of "[Eintr, Wrote 2, Eintr, Wrote 5]" "''abcd''"]
    safe_write_correct [of "[Wrote 1, Wfail, Wrote 3]" "''abcd''"]
  by (auto simp: writes_ok_def)


section \<open>The timeline\<close>

text \<open>The conversions \<^verbatim>\<open>%u\<close>, \<^verbatim>\<open>%d\<close> and \<^verbatim>\<open>%x\<close>, and \<^verbatim>\<open>snprintf\<close> into a buffer of \<open>n\<close> bytes.\<close>

fun printf_u :: "nat \<Rightarrow> string" where
  "printf_u n = (if n < 10 then [char_of (48 + n)] else printf_u (n div 10) @ [char_of (48 + n mod 10)])"

declare printf_u.simps [simp del]

definition printf_d :: "int \<Rightarrow> string" where
  "printf_d i = (if i < 0 then CHR ''-'' # printf_u (nat (- i)) else printf_u (nat i))"

definition printf_x :: "'a :: len word \<Rightarrow> string" where
  "printf_x v = uptr_to_hex (ucast v)"

definition snprintf :: "nat \<Rightarrow> string \<Rightarrow> string" where
  "snprintf n s = take (n - 1) s"

text \<open>What the process is told when it emits: the clock, its process and its thread.\<close>

record stamp =
  sp_mono :: u64
  sp_pid :: int
  sp_tid :: int

definition emit_line :: "stamp \<Rightarrow> string \<Rightarrow> string \<Rightarrow> string" where
  "emit_line sp kind data =
     ''{\"ts_ns\":'' @ printf_u (unat (sp_mono sp)) @ '',\"src\":\"pbcap\",\"pid\":'' @ printf_d (sp_pid sp)
       @ '',\"tid\":'' @ printf_d (sp_tid sp) @ '',\"kind\":\"'' @ kind @ ''\",\"data\":{'' @ data @ ''}}'' @ [CHR 0x0A]"

definition emit_event :: "stamp \<Rightarrow> string \<Rightarrow> string \<Rightarrow> pb_state \<Rightarrow> pb_state" where
  "emit_event sp kind data st =
     (if \<not> g_timeline_open st then st
      else let (out, left, ws) = safe_write (pb_writes st) (snprintf 512 (emit_line sp kind data)) in
        st\<lparr>pb_timeline := pb_timeline st @ out, pb_writes := ws\<rparr>)"

definition emit_eventf :: "stamp \<Rightarrow> string \<Rightarrow> string \<Rightarrow> pb_state \<Rightarrow> pb_state" where
  "emit_eventf sp kind payload st = emit_event sp kind (snprintf 256 payload) st"

lemma emit_event_frame [simp]:
  "g_fds (emit_event sp k d st) = g_fds st" "g_maps (emit_event sp k d st) = g_maps st"
  "pb_log (emit_event sp k d st) = pb_log st" "pb_cf (emit_event sp k d st) = pb_cf st"
  "pb_dbell_seq (emit_event sp k d st) = pb_dbell_seq st" "g_snap_idx (emit_event sp k d st) = g_snap_idx st"
  "g_timeline_open (emit_event sp k d st) = g_timeline_open st"
  "pb_pipe_open (emit_event sp k d st) = pb_pipe_open st"
  by (auto simp: emit_event_def Let_def split: prod.splits)

lemma plog_frame [simp]:
  "g_fds (plog e st) = g_fds st" "g_maps (plog e st) = g_maps st" "pb_log (plog e st) = pb_log st @ [e]"
  "pb_cf (plog e st) = pb_cf st" "pb_dbell_seq (plog e st) = pb_dbell_seq st"
  "pb_timeline (plog e st) = pb_timeline st" "pb_writes (plog e st) = pb_writes st"
  "g_timeline_open (plog e st) = g_timeline_open st" "g_snap_idx (plog e st) = g_snap_idx st"
  "pb_pipe_open (plog e st) = pb_pipe_open st"
  by (simp_all add: plog_def)

text \<open>Reading the timeline back: the complete lines, and the rest after the last newline.\<close>

fun ndjson :: "string \<Rightarrow> string \<Rightarrow> string list \<times> string" where
  "ndjson acc [] = ([], acc)"
| "ndjson acc (c # s) =
     (if c = CHR 0x0A then (let (ls, rest) = ndjson [] s in (acc # ls, rest)) else ndjson (acc @ [c]) s)"

lemma ndjson_line: "CHR 0x0A \<notin> set l \<Longrightarrow> ndjson acc (l @ CHR 0x0A # s) = (let (ls, rest) = ndjson [] s in ((acc @ l) # ls, rest))"
  by (induction l arbitrary: acc) auto

lemma ndjson_part: "CHR 0x0A \<notin> set l \<Longrightarrow> ndjson acc l = ([], acc @ l)"
  by (induction l arbitrary: acc) auto

lemma ndjson_append:
  "ndjson acc (s @ t) = (let (ls, r) = ndjson acc s; (ls', r') = ndjson r t in (ls @ ls', r'))"
  by (induction acc s rule: ndjson.induct) (auto simp: Let_def split: prod.splits)

lemma printf_u_digits: "c \<in> set (printf_u n) \<Longrightarrow> is_digit c"
proof (induction n rule: printf_u.induct)
  case (1 n)
  have d: "is_digit (char_of (48 + d :: nat))" if "d < 10" for d
    using of_char_digit [OF that] that by (simp add: is_digit_def)
  show ?case
  proof (cases "n < 10")
    case True
    with 1(2) d [OF True] show ?thesis by (simp add: printf_u.simps [of n])
  next
    case False
    with 1 d [of "n mod 10"] show ?thesis by (auto simp: printf_u.simps [of n])
  qed
qed

lemma printf_newline: "CHR 0x0A \<notin> set (printf_u n)" "CHR 0x0A \<notin> set (printf_d i)"
  using printf_u_digits [of "CHR 0x0A" n] printf_u_digits [of "CHR 0x0A" "nat (- i)"]
    printf_u_digits [of "CHR 0x0A" "nat i"]
  by (auto simp: is_digit_def printf_d_def)

text \<open>
  The timeline is one JSON object per line as long as events fit.  When the log ends with a
  complete line and the write succeeds, an event of at most 511 bytes adds exactly its own line; a
  longer event is cut without its newline, adds no line, and leaves a rest to which the next event is
  glued.
\<close>

theorem emit_event_ndjson:
  assumes "g_timeline_open st" "writes_ok (pb_writes st) 511"
    and "ndjson [] (pb_timeline st) = (ls, [])" "CHR 0x0A \<notin> set kind" "CHR 0x0A \<notin> set data"
  shows "ndjson [] (pb_timeline (emit_event sp kind data st)) =
    (if length (emit_line sp kind data) \<le> 511 then (ls @ [butlast (emit_line sp kind data)], [])
     else (ls, take 511 (emit_line sp kind data)))"
proof -
  let ?l = "emit_line sp kind data"
  have l: "?l = butlast ?l @ [CHR 0x0A]" by (simp add: emit_line_def butlast_append)
  have nl: "CHR 0x0A \<notin> set (butlast ?l)"
    using assms(4,5) by (auto simp: emit_line_def butlast_append printf_newline)
  have "writes_ok (pb_writes st) (length (take 511 ?l))"
    using assms(2) by (auto simp: writes_ok_def)
  from safe_write_complete [OF this] have t: "pb_timeline (emit_event sp kind data st) = pb_timeline st @ take 511 ?l"
    using assms(1) by (auto simp: emit_event_def snprintf_def)
  show ?thesis
  proof (cases "length ?l \<le> 511")
    case True
    then have "take 511 ?l = butlast ?l @ [CHR 0x0A]" using l by simp
    with True show ?thesis
      using assms(3) ndjson_line [OF nl, of "[]" "[]"] by (simp add: t ndjson_append)
  next
    case False
    obtain b where b: "b = butlast ?l" by simp
    then have "?l = b @ [CHR 0x0A]" using l by simp
    with False have "take 511 ?l = take 511 b" by simp
    then have "take 511 ?l = take 511 (butlast ?l)" using b by simp
    then have "CHR 0x0A \<notin> set (take 511 ?l)" using nl by (metis in_set_takeD)
    from ndjson_part [OF this, of "[]"] False show ?thesis
      using assms(3) by (simp add: t ndjson_append)
  qed
qed


theorem emit_event_ndjson_witness:
  "let st = \<lparr>pb_cf = default_config, g_fds = [], g_maps = [], g_timeline_open = True, pb_timeline = [],
       pb_writes = [Eintr, Wrote 600], g_snap_idx = 0, pb_dbell_seq = 0, pb_pipe_open = False, pb_log = []\<rparr>;
     sp = \<lparr>sp_mono = 5, sp_pid = 7, sp_tid = 8\<rparr> in
   ndjson [] (pb_timeline (emit_event sp ''mmap'' [] st)) =
     ([''{\"ts_ns\":5,\"src\":\"pbcap\",\"pid\":7,\"tid\":8,\"kind\":\"mmap\",\"data\":{}}''], [])"
proof -
  define st where "st = \<lparr>pb_cf = default_config, g_fds = [], g_maps = [], g_timeline_open = True, pb_timeline = [],
       pb_writes = [Eintr, Wrote 600], g_snap_idx = 0, pb_dbell_seq = 0, pb_pipe_open = False, pb_log = []\<rparr>"
  define sp where "sp = \<lparr>sp_mono = 5, sp_pid = 7, sp_tid = 8\<rparr>"
  have "printf_u 5 = ''5''" "printf_u 7 = ''7''" "printf_u 8 = ''8''"
    by (simp_all add: printf_u.simps char_of_eq_iff)
  then have l: "emit_line sp ''mmap'' [] =
      ''{\"ts_ns\":5,\"src\":\"pbcap\",\"pid\":7,\"tid\":8,\"kind\":\"mmap\",\"data\":{}}'' @ [CHR 0x0A]"
    by (simp add: emit_line_def sp_def printf_d_def)
  have "ndjson [] (pb_timeline (emit_event sp ''mmap'' [] st)) = ([butlast (emit_line sp ''mmap'' [])], [])"
    using emit_event_ndjson [of st "[]" "''mmap''" "[]" sp] by (simp add: st_def writes_ok_def l)
  then show ?thesis by (simp add: st_def [symmetric] sp_def [symmetric] l butlast_append)
qed

end
