(* ===== verification/Pbcap_Snapshot.thy ===== *)
theory Pbcap_Snapshot
  imports Pbcap_State
begin

text \<open>
  The two snapshot engines of \<^verbatim>\<open>reverse/tools/pbcap.c\<close>: the one that runs inside the trap handler and
  walks the text of \<^verbatim>\<open>/proc/self/maps\<close> in place, and the one of the worker thread, which parses the
  same text with \<^verbatim>\<open>sscanf\<close>.  \<open>mp\<close> stands for \<^verbatim>\<open>mprotect\<close>: whether a change of protection succeeds.
\<close>

type_synonym mprotect = "u64 \<Rightarrow> u64 \<Rightarrow> u32 \<Rightarrow> bool"

section \<open>The signal-safe engine\<close>

text \<open>What one \<^verbatim>\<open>read(2)\<close> returned.\<close>

datatype rres = Got string | Rintr | Rfail

text \<open>The read loop; \<open>room\<close> is \<^verbatim>\<open>buflen - 1 - total\<close>.\<close>

fun maps_read_loop :: "rres list \<Rightarrow> nat \<Rightarrow> string" where
  "maps_read_loop [] room = []"
| "maps_read_loop (r # rs) room =
     (if room = 0 then []
      else case r of
        Got s \<Rightarrow> if s = [] then [] else take room s @ maps_read_loop rs (room - length (take room s))
      | Rintr \<Rightarrow> maps_read_loop rs room
      | Rfail \<Rightarrow> [])"

definition proc_maps_read_sigsafe :: "bool \<Rightarrow> rres list \<Rightarrow> nat \<Rightarrow> string" where
  "proc_maps_read_sigsafe opened rs buflen = (if opened then maps_read_loop rs (buflen - 1) else [])"

text \<open>The status and the bytes that reached the file.\<close>

definition write_file_sigsafe :: "bool \<Rightarrow> wres list \<Rightarrow> string \<Rightarrow> int \<times> string" where
  "write_file_sigsafe opened ws data =
     (if \<not> opened then (- 1, [])
      else let (out, left, _) = safe_write ws data in (if left = [] then 0 else - 1, out))"

text \<open>
  The body of the loop for one line: what it asks of the system, and whether it took the \<^verbatim>\<open>continue\<close>
  that skips \<^verbatim>\<open>line = nl + 1\<close>.  A \<open>File\<close> event is a call of \<^verbatim>\<open>write_file_sigsafe\<close>.
\<close>

definition capture_line :: "mprotect \<Rightarrow> pb_config \<Rightarrow> u32 \<Rightarrow> string \<Rightarrow> bool \<times> pevent list" where
  "capture_line mp cf idx line =
     (case parse_maps_line_sigsafe line of
        None \<Rightarrow> (False, [])
      | Some (start, finish, perms, path) \<Rightarrow>
          (case find_sub dev_nvidia path of
             None \<Rightarrow> (False, [])
           | Some match \<Rightarrow>
               (let len = finish - start;
                    f = File (snap_outpath (g_outdir cf) idx (snap_tag match) start len) start len in
                if len > 0 \<and> len \<le> g_max_bytes cf then
                  if perms ! 1 = CHR ''-'' \<and> perms ! 0 \<noteq> CHR ''r'' then
                    if mp start len (PROT_READ OR PROT_WRITE)
                    then (False, [Mprotect start len (PROT_READ OR PROT_WRITE), f, Mprotect start len PROT_WRITE])
                    else (True, [Mprotect start len (PROT_READ OR PROT_WRITE)])
                  else (False, [f])
                else (False, []))))"

definition cstr :: "nat \<Rightarrow> string \<Rightarrow> string" where
  "cstr p buf = takeWhile (\<lambda>c. c \<noteq> CHR 0x00) (drop p buf)"

function snap_loop :: "mprotect \<Rightarrow> pb_config \<Rightarrow> u32 \<Rightarrow> string \<Rightarrow> nat \<Rightarrow> pevent list" where
  "snap_loop mp cf idx buf line =
     (if line < length buf \<and> buf ! line \<noteq> CHR 0x00 then
        let nl = line + length (takeWhile (\<lambda>c. c \<noteq> CHR 0x0A) (drop line buf)) in
        if nl \<ge> length buf then []
        else
          let buf' = buf[nl := CHR 0x00];
              (stay, evs) = capture_line mp cf idx (cstr line buf') in
          evs @ snap_loop mp cf idx buf' (if stay then line else nl + 1)
      else [])"
  by pat_completeness auto

lemma nth_newline:
  assumes "nl = line + length (takeWhile (\<lambda>c. c \<noteq> CHR 0x0A) (drop line buf))" "nl < length buf"
  shows "buf ! nl = CHR 0x0A"
proof -
  have "length (takeWhile (\<lambda>c. c \<noteq> CHR 0x0A) (drop line buf)) < length (drop line buf)"
    using assms by simp
  from nth_length_takeWhile [OF this] assms show ?thesis by simp
qed

termination snap_loop
proof (relation "measure (\<lambda>(_, _, _, buf, _). length (filter ((=) CHR 0x0A) buf))", goal_cases)
  case (2 mp cf idx buf line nl buf' p stay evs)
  have nl: "nl < length buf" "buf ! nl = CHR 0x0A"
    using 2(3) nth_newline [OF 2(2)] by auto
  have "buf = take nl buf @ CHR 0x0A # drop (Suc nl) buf"
    using id_take_nth_drop [OF nl(1)] nl(2) by simp
  then have "length (filter ((=) CHR 0x0A) buf)
      = length (filter ((=) CHR 0x0A) (take nl buf @ CHR 0x0A # drop (Suc nl) buf))" by simp
  moreover have "buf' = take nl buf @ CHR 0x00 # drop (Suc nl) buf"
    using nl(1) 2(4) by (simp add: upd_conv_take_nth_drop)
  ultimately show ?case by simp
qed simp

declare snap_loop.simps [simp del]

definition snapshot_all_sigsafe :: "mprotect \<Rightarrow> bool \<Rightarrow> rres list \<Rightarrow> u32 \<Rightarrow> pb_state \<Rightarrow> pb_state" where
  "snapshot_all_sigsafe mp opened rs idx st =
     (let buf = proc_maps_read_sigsafe opened rs (256 * 1024) in
      if buf = [] then st
      else st\<lparr>pb_log := pb_log st @ snap_loop mp (pb_cf st) idx buf 0\<rparr>)"

section \<open>What the walk captures\<close>

text \<open>A complete line of the file.\<close>

definition text_line :: "string \<Rightarrow> bool" where
  "text_line l \<longleftrightarrow> l \<noteq> [] \<and> CHR 0x0A \<notin> set l \<and> CHR 0x00 \<notin> set l"

lemma text_lineD: "text_line l \<Longrightarrow> l \<noteq> [] \<and> hd l \<noteq> CHR 0x00 \<and> CHR 0x0A \<notin> set l \<and> CHR 0x00 \<notin> set l"
  by (cases l) (auto simp: text_line_def)

abbreviation (input) terminated :: "string list \<Rightarrow> string" where
  "terminated ls \<equiv> concat (map (\<lambda>l. l @ [CHR 0x0A]) ls)"

lemma takeWhile_line: "c \<notin> set l \<Longrightarrow> takeWhile (\<lambda>x. x \<noteq> c) (l @ c # s) = l"
  by (induction l) auto

lemma snap_loop_line:
  assumes "CHR 0x0A \<notin> set l" "l \<noteq> []" "hd l \<noteq> CHR 0x00" "line = length pre"
  shows "snap_loop mp cf idx (pre @ l @ CHR 0x0A # s) line =
    (let (stay, evs) = capture_line mp cf idx (takeWhile (\<lambda>c. c \<noteq> CHR 0x00) l) in
     evs @ snap_loop mp cf idx (pre @ l @ CHR 0x00 # s) (if stay then line else line + length l + 1))"
proof -
  let ?buf = "pre @ l @ CHR 0x0A # s"
  have g: "line < length ?buf" "?buf ! line \<noteq> CHR 0x00"
    using assms(2,3,4) by (auto simp: nth_append hd_conv_nth)
  have nl: "line + length (takeWhile (\<lambda>c. c \<noteq> CHR 0x0A) (drop line ?buf)) = line + length l"
    using takeWhile_line [OF assms(1)] assms(4) by simp
  have upd: "?buf[line + length l := CHR 0x00] = pre @ l @ CHR 0x00 # s"
    using assms(4) by (simp add: list_update_append)
  have c: "cstr line (pre @ l @ CHR 0x00 # s) = takeWhile (\<lambda>c. c \<noteq> CHR 0x00) l"
    using assms(4) by (induction l) (auto simp: cstr_def takeWhile_append)
  show ?thesis
    unfolding snap_loop.simps [of mp cf idx ?buf line] Let_def nl upd c using g assms(4) by simp
qed

lemma snap_loop_end: "CHR 0x0A \<notin> set rest \<Longrightarrow> line = length pre \<Longrightarrow> snap_loop mp cf idx (pre @ rest) line = []"
proof -
  assume a: "CHR 0x0A \<notin> set rest" "line = length pre"
  then have t: "takeWhile (\<lambda>c. c \<noteq> CHR 0x0A) rest = rest" by (auto simp: takeWhile_eq_all_conv)
  show ?thesis using a(2) by (subst snap_loop.simps) (simp add: Let_def t)
qed

text \<open>After a \<^verbatim>\<open>continue\<close> the same line is parsed again for each line that is left.\<close>

lemma snap_loop_stuck:
  assumes "text_line l" "capture_line mp cf idx l = (True, evs)" "\<forall>k \<in> set ls. CHR 0x0A \<notin> set k"
    and "CHR 0x0A \<notin> set rest" "CHR 0x0A \<notin> set x"
  shows "snap_loop mp cf idx (pre @ (l @ CHR 0x00 # x) @ terminated ls @ rest) (length pre) =
    concat (replicate (length ls) evs)"
  using assms(3,5)
proof (induction ls arbitrary: x)
  case Nil
  then have "CHR 0x0A \<notin> set ((l @ CHR 0x00 # x) @ rest)" using assms(1,4) by (simp add: text_line_def)
  from snap_loop_end [OF this refl] show ?case by simp
next
  case (Cons k ls)
  have l: "l \<noteq> []" "hd l \<noteq> CHR 0x00" "CHR 0x0A \<notin> set (l @ CHR 0x00 # x @ k)"
    "takeWhile (\<lambda>c. c \<noteq> CHR 0x00) (l @ CHR 0x00 # x @ k) = l"
    using text_lineD [OF assms(1)] Cons.prems takeWhile_line [of "CHR 0x00" l "x @ k"] by auto
  have "snap_loop mp cf idx (pre @ (l @ CHR 0x00 # x) @ terminated (k # ls) @ rest) (length pre) =
      snap_loop mp cf idx (pre @ (l @ CHR 0x00 # x @ k) @ CHR 0x0A # (terminated ls @ rest)) (length pre)"
    by simp
  also have "\<dots> = evs @ snap_loop mp cf idx
      (pre @ (l @ CHR 0x00 # (x @ k @ [CHR 0x00])) @ terminated ls @ rest) (length pre)"
    using snap_loop_line [OF l(3) _ _ refl, of mp cf idx pre "terminated ls @ rest"] l assms(2) by simp
  also have "\<dots> = evs @ concat (replicate (length ls) evs)"
    using Cons.IH [of "x @ k @ [CHR 0x00]"] Cons.prems by simp
  finally show ?case by simp
qed

text \<open>
  C17.  The exact result of the walk over a text of complete lines and an unfinished one: the lines are
  captured one after the other, each once; but at the first line whose \<^verbatim>\<open>mprotect\<close> fails the loop
  repeats that failing request once for every line that is left and captures none of them, because
  the \<^verbatim>\<open>continue\<close> skips the step to the next line.
\<close>

theorem snapshot_walk:
  assumes "\<forall>l \<in> set ls. text_line l" "CHR 0x0A \<notin> set rest"
  shows "snap_loop mp cf idx (terminated ls @ rest) 0 =
    concat (map (snd \<circ> capture_line mp cf idx) (takeWhile (\<lambda>l. \<not> fst (capture_line mp cf idx l)) ls))
    @ (case dropWhile (\<lambda>l. \<not> fst (capture_line mp cf idx l)) ls of
         [] \<Rightarrow> []
       | bad # skipped \<Rightarrow> concat (replicate (Suc (length skipped)) (snd (capture_line mp cf idx bad))))"
proof -
  have "snap_loop mp cf idx (pre @ terminated ls @ rest) (length pre) =
    concat (map (snd \<circ> capture_line mp cf idx) (takeWhile (\<lambda>l. \<not> fst (capture_line mp cf idx l)) ls))
    @ (case dropWhile (\<lambda>l. \<not> fst (capture_line mp cf idx l)) ls of
         [] \<Rightarrow> []
       | bad # skipped \<Rightarrow> concat (replicate (Suc (length skipped)) (snd (capture_line mp cf idx bad))))" for pre
    using assms(1)
  proof (induction ls arbitrary: pre)
    case Nil
    then show ?case using snap_loop_end [OF assms(2) refl] by simp
  next
    case (Cons l ls)
    obtain stay evs where c: "capture_line mp cf idx l = (stay, evs)" by (cases "capture_line mp cf idx l")
    have l: "l \<noteq> []" "hd l \<noteq> CHR 0x00" "CHR 0x0A \<notin> set l" "takeWhile (\<lambda>c. c \<noteq> CHR 0x00) l = l"
      using text_lineD [of l] Cons.prems by (auto simp: takeWhile_eq_all_conv)
    have step: "snap_loop mp cf idx (pre @ terminated (l # ls) @ rest) (length pre) =
        evs @ snap_loop mp cf idx (pre @ l @ CHR 0x00 # terminated ls @ rest)
          (if stay then length pre else length pre + length l + 1)"
      using snap_loop_line [OF l(3,1,2) refl, of mp cf idx pre "terminated ls @ rest"] l(4) c by simp
    show ?case
    proof (cases stay)
      case False
      have "snap_loop mp cf idx ((pre @ l @ [CHR 0x00]) @ terminated ls @ rest) (length (pre @ l @ [CHR 0x00])) =
          snap_loop mp cf idx (pre @ l @ CHR 0x00 # terminated ls @ rest) (length pre + length l + 1)" by simp
      with Cons.IH [of "pre @ l @ [CHR 0x00]"] Cons.prems False show ?thesis
        unfolding step by (simp add: c)
    next
      case True
      have "\<forall>k \<in> set ls. CHR 0x0A \<notin> set k" "text_line l" using Cons.prems by (auto simp: text_line_def)
      with snap_loop_stuck [of l mp cf idx evs ls rest "[]" pre] c True assms(2) show ?thesis
        unfolding step by simp
    qed
  qed
  from this [of "[]"] show ?thesis by simp
qed


section \<open>Which mappings become readable\<close>

lemma find_sub_prefix: "length pat = n \<Longrightarrow> take n s = pat \<Longrightarrow> pat \<noteq> [] \<Longrightarrow> find_sub pat s = Some s"
  by (cases s) auto

text \<open>
  Write-only mappings, the pushbuffer and the ring among them, are meant to be made readable for
  the dump.  The test asks for \<^verbatim>\<open>perms[1] == '-'\<close>: for a device mapping of a dumpable size the request
  is made exactly when the mapping is neither readable nor writeable, so a \<^verbatim>\<open>-w-s\<close> mapping goes to
  \<^verbatim>\<open>write(2)\<close> unreadable, and a mapping without any access is left write-only.
\<close>

theorem capture_protection:
  assumes "length perms = 4" "token off" "token dev" "token ino" "CHR 0x0A \<notin> set name"
    and "0 < finish - start" "finish - start \<le> g_max_bytes cf" "mp start (finish - start) 3"
  shows "capture_line mp cf idx (maps_line z1 z2 start finish perms [off, dev, ino] pad (dev_nvidia @ name)) =
    (let f = File (snap_outpath (g_outdir cf) idx (snap_tag (dev_nvidia @ name)) start (finish - start))
           start (finish - start) in
     (False, if perms ! 1 = CHR ''-'' \<and> perms ! 0 \<noteq> CHR ''r''
       then [Mprotect start (finish - start) 3, f, Mprotect start (finish - start) 2] else [f]))"
proof -
  have "parse_maps_line_sigsafe (maps_line z1 z2 start finish perms [off, dev, ino] pad (dev_nvidia @ name))
      = Some (start, finish, perms, dev_nvidia @ name)"
    using assms(1-5) by (intro parse_maps_line_printed) auto
  moreover have "find_sub dev_nvidia (dev_nvidia @ name) = Some (dev_nvidia @ name)"
    by (rule find_sub_prefix [of _ 11]) simp_all
  moreover have "(1 :: u32) OR 2 = 3" by simp
  ultimately show ?thesis
    using assms(6-8) by (simp add: capture_line_def Let_def)
qed

section \<open>The engine of the worker thread\<close>

text \<open>The conversions of \<^verbatim>\<open>sscanf\<close> that the format uses, with the rest of the input.\<close>

definition scan_s :: "nat \<Rightarrow> string \<Rightarrow> (string \<times> string) option" where
  "scan_s n s =
     (let s1 = dropWhile is_space s;
          t = take n (takeWhile (\<lambda>c. \<not> is_space c) s1) in
      if t = [] then None else Some (t, drop (length t) s1))"

definition scan_num :: "nat \<Rightarrow> string \<Rightarrow> (u64 \<times> string) option" where
  "scan_num base s =
     (let (neg, s1) = skip_sign s;
          s2 = (if base = 16 \<and> take 1 s1 = ''0'' \<and> (take 1 (drop 1 s1) = ''x'' \<or> take 1 (drop 1 s1) = ''X'')
                then drop 2 s1 else s1);
          ds = takeWhile (\<lambda>c. case digit_val c of None \<Rightarrow> False | Some d \<Rightarrow> d < base) s2;
          n = digits_val base 0 ds in
      if ds = [] then None
      else Some (if n \<ge> 2 ^ 64 then - 1 else if neg then - of_nat n else of_nat n, drop (length ds) s2))"

text \<open>\<^verbatim>\<open>sscanf(line, "%lx-%lx %7s %31s %15s %lu %255s")\<close>, when at least six fields are read.\<close>

definition sscanf_maps :: "string \<Rightarrow> (u64 \<times> u64 \<times> string \<times> string) option" where
  "sscanf_maps line =
     (case scan_num 16 line of None \<Rightarrow> None | Some (start, r1) \<Rightarrow>
      if take 1 r1 \<noteq> ''-'' then None
      else case scan_num 16 (drop 1 r1) of None \<Rightarrow> None | Some (finish, r2) \<Rightarrow>
      case scan_s 7 r2 of None \<Rightarrow> None | Some (perms, r3) \<Rightarrow>
      case scan_s 31 r3 of None \<Rightarrow> None | Some (off, r4) \<Rightarrow>
      case scan_s 15 r4 of None \<Rightarrow> None | Some (dev, r5) \<Rightarrow>
      case scan_num 10 r5 of None \<Rightarrow> None | Some (ino, r6) \<Rightarrow>
      Some (start, finish, perms, case scan_s 255 r6 of None \<Rightarrow> [] | Some (path, _) \<Rightarrow> path))"

text \<open>\<^verbatim>\<open>fgets\<close> with a buffer of 512 bytes: the lines it returns one after the other.\<close>

function fgets_lines :: "string \<Rightarrow> string list" where
  "fgets_lines s =
     (if s = [] then []
      else let l = takeWhile (\<lambda>c. c \<noteq> CHR 0x0A) s;
               n = min 511 (if length l < length s then length l + 1 else length l) in
        take n s # fgets_lines (drop n s))"
  by pat_completeness auto
termination
proof (relation "measure length", goal_cases)
  case (2 s l n)
  have "0 < n" using 2 by (cases s) (auto split: if_splits)
  with 2(1) show ?case by simp
qed simp

declare fgets_lines.simps [simp del]

record snap_entry =
  se_addr :: u64
  se_length :: u64
  se_readable :: bool
  se_tag :: string

definition basename :: "string \<Rightarrow> string" where
  "basename path = rev (takeWhile (\<lambda>c. c \<noteq> CHR ''/'') (rev path))"

definition scan_line :: "pb_config \<Rightarrow> string \<Rightarrow> snap_entry option" where
  "scan_line cf line =
     (case sscanf_maps line of
        None \<Rightarrow> None
      | Some (start, finish, perms, pathname) \<Rightarrow>
          if find_sub dev_nvidia pathname = None then None
          else let len = finish - start in
            if len = 0 \<or> len > g_max_bytes cf then None
            else Some \<lparr>se_addr = start, se_length = len, se_readable = (perms ! 0 = CHR ''r''),
                       se_tag = snprintf 64 (basename pathname)\<rparr>)"

text \<open>The loop stops when \<open>room\<close> entries were found.\<close>

fun scan_loop :: "pb_config \<Rightarrow> nat \<Rightarrow> string list \<Rightarrow> snap_entry list" where
  "scan_loop cf room [] = []"
| "scan_loop cf room (l # ls) =
     (if room = 0 then []
      else case scan_line cf l of
        None \<Rightarrow> scan_loop cf room ls
      | Some e \<Rightarrow> e # scan_loop cf (room - 1) ls)"

definition scan_nvidia_maps :: "pb_config \<Rightarrow> string option \<Rightarrow> nat \<Rightarrow> snap_entry list" where
  "scan_nvidia_maps cf maps max_out =
     (case maps of None \<Rightarrow> [] | Some text \<Rightarrow> scan_loop cf max_out (fgets_lines text))"

text \<open>The supplement from the table of tracked mappings.\<close>

fun supplement :: "pb_config \<Rightarrow> map_info list \<Rightarrow> snap_entry list \<Rightarrow> snap_entry list" where
  "supplement cf [] es = es"
| "supplement cf (m # ms) es =
     (if length es \<ge> MAX_MAPPINGS then es
      else if mi_addr m = 0 \<or> mi_length m > g_max_bytes cf then supplement cf ms es
      else if mi_addr m \<in> set (map se_addr es) then supplement cf ms es
      else supplement cf ms (es @ [\<lparr>se_addr = mi_addr m, se_length = mi_length m, se_readable = True,
             se_tag = snprintf 64 (basename (mi_fdname m))\<rparr>]))"

definition snap_path :: "pb_config \<Rightarrow> u32 \<Rightarrow> string \<Rightarrow> snap_entry \<Rightarrow> string" where
  "snap_path cf idx phase e =
     snprintf 512 (g_outdir cf @ ''/snap-'' @ u32_to_fixed idx 5 @ ''-'' @ phase @ ''-'' @ se_tag e @ ''-0x''
       @ uptr_to_hex (se_addr e) @ ''-len'' @ uptr_to_hex (se_length e) @ ''.bin'')"

definition dump_entry :: "mprotect \<Rightarrow> (string \<Rightarrow> bool) \<Rightarrow> pb_config \<Rightarrow> u32 \<Rightarrow> string \<Rightarrow> snap_entry \<Rightarrow> pevent list" where
  "dump_entry mp fopen cf idx phase e =
     (let path = snap_path cf idx phase e; f = File path (se_addr e) (se_length e);
          rw = Mprotect (se_addr e) (se_length e) (PROT_READ OR PROT_WRITE) in
      if \<not> fopen path then []
      else if \<not> se_readable e then
        if mp (se_addr e) (se_length e) (PROT_READ OR PROT_WRITE)
        then [rw, f, Mprotect (se_addr e) (se_length e) PROT_WRITE]
        else [rw]
      else [f])"

definition snapshot_all ::
  "mprotect \<Rightarrow> (string \<Rightarrow> bool) \<Rightarrow> string option \<Rightarrow> string \<Rightarrow> u32 \<Rightarrow> pb_state \<Rightarrow> pb_state" where
  "snapshot_all mp fopen maps phase idx st =
     (let es = supplement (pb_cf st) (g_maps st) (scan_nvidia_maps (pb_cf st) maps MAX_MAPPINGS) in
      st\<lparr>pb_log := pb_log st @ concat (map (dump_entry mp fopen (pb_cf st) idx phase) es)\<rparr>)"


section \<open>The worker's dumps\<close>

text \<open>
  The protections of the mappings as the events change them, and that every file is written while its
  mapping has read access.
\<close>

fun replay :: "mprotect \<Rightarrow> (u64 \<Rightarrow> u32) \<Rightarrow> pevent list \<Rightarrow> (u64 \<Rightarrow> u32)" where
  "replay mp p [] = p"
| "replay mp p (e # es) =
     replay mp (case e of Mprotect a n q \<Rightarrow> if mp a n q then p(a := q) else p | _ \<Rightarrow> p) es"

fun files_readable :: "mprotect \<Rightarrow> (u64 \<Rightarrow> u32) \<Rightarrow> pevent list \<Rightarrow> bool" where
  "files_readable mp p [] = True"
| "files_readable mp p (e # es) =
     ((case e of File _ a n \<Rightarrow> bit (p a) 0 | _ \<Rightarrow> True)
      \<and> files_readable mp (case e of Mprotect a n q \<Rightarrow> if mp a n q then p(a := q) else p | _ \<Rightarrow> p) es)"

lemma replay_append: "replay mp p (xs @ ys) = replay mp (replay mp p xs) ys"
  by (induction xs arbitrary: p) simp_all

lemma files_readable_append:
  "files_readable mp p (xs @ ys) \<longleftrightarrow> files_readable mp p xs \<and> files_readable mp (replay mp p xs) ys"
  by (induction xs arbitrary: p) simp_all

lemma dump_entry_restores:
  assumes "if se_readable e then bit (p (se_addr e)) 0 else p (se_addr e) = 2" "\<forall>a n. mp a n 2"
  shows "replay mp p (dump_entry mp fopen cf idx phase e) = p
    \<and> files_readable mp p (dump_entry mp fopen cf idx phase e)"
proof -
  have "(1 :: u32) OR 2 = 3" "bit (3 :: u32) 0" by simp_all
  with assms show ?thesis
    by (auto simp: dump_entry_def Let_def)
qed


section \<open>The two parsers agree\<close>

lemma digits_val_append:
  assumes "\<forall>c \<in> set xs. \<exists>d < b. digit_val c = Some d"
  shows "digits_val b a (xs @ ys) = digits_val b (digits_val b a xs) ys"
  using assms by (induction xs arbitrary: a) fastforce+

lemma digit_val_hex: "hexd c = Some d \<Longrightarrow> \<exists>n < 16. digit_val c = Some n"
  by (auto simp: hexd_def digit_val_def Let_def unat_of_nat simp del: of_nat_diff of_nat_add split: if_splits)

lemma digit_val_nibble: "digit_val (''0123456789abcdef'' ! unat (v AND 0xf :: u64)) = Some (unat (v AND 0xf))"
  by (simp add: digit_val_def hexd_nibble)

lemma hex_digits_valid: "hex_string s \<Longrightarrow> \<forall>c \<in> set s. \<exists>d < 16. digit_val c = Some d"
  using digit_val_hex by (fastforce simp: hex_string_def)

lemma unat_split_nibble: "unat (drop_bit 4 v :: u64) * 16 + unat (v AND 0xf) = unat v"
proof -
  have m: "mask 4 = (0xf :: u64)" by (simp add: mask_eq_exp_minus_1)
  have "unat (v AND 0xf) = unat v mod 16" using unat_and_mask [of v 4] by (simp add: m)
  moreover have "unat (drop_bit 4 v) = unat v div 16"
    using unsigned_less [of v, where 'a = nat]
    by (simp only: unsigned_drop_bit_eq) (simp add: drop_bit_eq_div take_bit_eq_mod)
  ultimately show ?thesis by simp
qed

lemma digits_val_hex: "drop_bit (4 * k) v = 0 \<Longrightarrow> digits_val 16 0 (rev (hex_digits v k)) = unat v"
proof (induction v k rule: hex_digits.induct)
  case (2 v k)
  have "drop_bit (4 * k) (drop_bit 4 v) = 0"
    using 2(2) by (simp add: drop_bit_drop_bit add.commute)
  with 2 have IH: "v > 0 \<Longrightarrow> digits_val 16 0 (rev (hex_digits (drop_bit 4 v) k)) = unat (drop_bit 4 v)" by simp
  have "hex_string (rev (hex_digits (drop_bit 4 v) k))"
    using hex_string_digits [of "drop_bit 4 v" k] by (simp add: hex_string_def)
  from digits_val_append [OF hex_digits_valid [OF this]] IH show ?case
    using nibble_less [of v] unat_split_nibble [of v] by (auto simp: digit_val_nibble word_gt_0)
qed simp

lemma digits_val_uptr: "digits_val 16 0 (uptr_to_hex v) = unat v"
  using digits_val_hex [OF drop_bit_80, of v] by (auto simp: uptr_to_hex_def digit_val_def hexd_def)

lemma digits_val_zeros: "digits_val 16 0 (replicate n (CHR ''0'') @ s) = digits_val 16 0 s"
  by (induction n) (simp_all add: digit_val_def hexd_def)

lemma is_digit_val: "is_digit c \<Longrightarrow> digit_val c = Some (of_char c - 48)"
  by (auto simp: is_digit_def digit_val_def hexd_def Let_def unat_of_nat simp del: of_nat_diff)

lemma is_digit_valid: "\<forall>c \<in> set s. is_digit c \<Longrightarrow> \<forall>c \<in> set s. \<exists>d < 10. digit_val c = Some d"
  using is_digit_val by (fastforce simp: is_digit_def)


lemma digits_val_printf: "digits_val 10 0 (printf_u n) = n"
proof (induction n rule: printf_u.induct)
  case (1 n)
  have v: "digit_val (char_of (48 + d :: nat)) = Some d" if "d < 10" for d
    using is_digit_val [of "char_of (48 + d)"] of_char_digit [OF that] that by (simp add: is_digit_def)
  show ?case
  proof (cases "n < 10")
    case True
    then show ?thesis by (simp add: printf_u.simps [of n] v)
  next
    case False
    have "\<forall>c \<in> set (printf_u (n div 10)). \<exists>d < 10. digit_val c = Some d"
      using printf_u_digits by (intro is_digit_valid) blast
    from digits_val_append [OF this] 1 False show ?thesis
      by (simp add: printf_u.simps [of n] v)
  qed
qed

lemma hex_string_no_space: "hex_string s \<Longrightarrow> c \<in> set s \<Longrightarrow> \<not> is_space c \<and> c \<noteq> CHR ''-'' \<and> c \<noteq> CHR ''+'' \<and> c \<noteq> CHR ''x'' \<and> c \<noteq> CHR ''X''"
  by (auto simp: hex_string_def is_space_def hexd_def Let_def)

text \<open>A number field followed by a character that is not a digit of it.\<close>

lemma scan_num_field:
  assumes "s \<noteq> []" "\<forall>c \<in> set s. \<exists>d < base. digit_val c = Some d" "base \<le> 16"
    and "r = [] \<or> digit_val (hd r) = None" "digits_val base 0 s = unat (v :: u64)"
    and "r = [] \<or> hd r \<noteq> CHR ''x'' \<and> hd r \<noteq> CHR ''X''" "blanks = [] \<or> blanks = '' ''"
  shows "scan_num base (blanks @ s @ r) = Some (v, r)"
proof -
  have hex: "hex_string s" using assms(2) by (auto simp: hex_string_def digit_val_def)
  note nosp = hex_string_no_space [OF hex]
  have hd: "hd s \<in> set s" "hd (s @ r) = hd s" using assms(1) by auto
  have "dropWhile is_space (blanks @ s @ r) = s @ r"
    using assms(1,7) nosp [OF hd(1)] by (cases s) (auto simp: is_space_def)
  then have sign: "skip_sign (blanks @ s @ r) = (False, s @ r)"
    using nosp [OF hd(1)] hd(2) by (simp add: skip_sign_def Let_def)
  have no0x: "take 1 (drop 1 (s @ r)) \<noteq> ''x'' \<and> take 1 (drop 1 (s @ r)) \<noteq> ''X''"
  proof (cases s)
    case (Cons a t)
    show ?thesis
    proof (cases t)
      case Nil
      then show ?thesis using Cons assms(6) by (cases r) auto
    next
      case (Cons b t')
      then show ?thesis using \<open>s = a # t\<close> nosp [of b] by auto
    qed
  qed (use assms(1) in simp)
  let ?P = "\<lambda>c. case digit_val c of None \<Rightarrow> False | Some d \<Rightarrow> d < base"
  have "takeWhile ?P (s @ r) = s"
  proof -
    have "takeWhile ?P r = []" using assms(4) by (cases r) auto
    moreover have "\<forall>c \<in> set s. ?P c" using assms(2) by fastforce
    ultimately show ?thesis by (simp add: takeWhile_append2)
  qed
  moreover have "unat v < 2 ^ 64" using unsigned_less [of v, where 'a = nat] by simp
  ultimately show ?thesis
    using sign no0x assms(1,5) by (simp add: scan_num_def Let_def)
qed

lemma scan_hex_field:
  assumes "r = [] \<or> hexd (hd r) = None \<and> hd r \<noteq> CHR ''x'' \<and> hd r \<noteq> CHR ''X''"
  shows "scan_num 16 ([] @ (replicate z (CHR ''0'') @ uptr_to_hex v) @ r) = Some (v, r)"
proof (rule scan_num_field)
  let ?s = "replicate z (CHR ''0'') @ uptr_to_hex v"
  show "?s \<noteq> []" using uptr_length(1) [of v] by auto
  show "\<forall>c \<in> set ?s. \<exists>d < 16. digit_val c = Some d"
    by (rule hex_digits_valid [OF hex_string_zeros [OF hex_string_uptr]])
  show "digits_val 16 0 ?s = unat v" by (simp add: digits_val_zeros digits_val_uptr)
  show "r = [] \<or> digit_val (hd r) = None" using assms by (auto simp: digit_val_def)
qed (use assms in auto)

lemma scan_s_field:
  assumes "s \<noteq> []" "\<forall>c \<in> set s. \<not> is_space c" "length s \<le> n" "r = [] \<or> is_space (hd r)"
    and "\<forall>c \<in> set blanks. is_space c"
  shows "scan_s n (blanks @ s @ r) = Some (s, r)"
proof -
  have "dropWhile is_space (blanks @ s @ r) = s @ r"
    using assms(1,2,5) by (cases s) (auto simp: dropWhile_append2)
  moreover have "takeWhile (\<lambda>c. \<not> is_space c) (s @ r) = s"
    using assms(2,4) by (cases r) (auto simp: takeWhile_append2)
  moreover have "0 < n" using assms(1,3) by (cases s) auto
  ultimately show ?thesis using assms(1,3) by (simp add: scan_s_def Let_def)
qed

text \<open>
  The two engines see the same mappings: on every line that the kernel prints for a path without
  blanks, with fields that fit the buffers of the format, \<^verbatim>\<open>sscanf\<close> on the line with its newline and
  the hand-written parser on the line without it give the same addresses, permissions and path.
\<close>

theorem parsers_agree:
  assumes "length perms = 4" "token off" "token dev" "length off \<le> 31" "length dev \<le> 15" "length path \<le> 255"
    and "ino < 2 ^ 64" "path \<noteq> []"
    and "\<forall>c \<in> set (perms @ off @ dev @ path). \<not> is_space c"
    and line_def: "line = maps_line z1 z2 start finish perms [off, dev, printf_u ino] pad path"
  shows "sscanf_maps (line @ [CHR 0x0A]) = parse_maps_line_sigsafe line"
proof -
  have sp: "is_space (CHR '' '')" "is_space (CHR 0x0A)" by (simp_all add: is_space_def)
  have ino: "printf_u ino \<noteq> []" "\<forall>c \<in> set (printf_u ino). is_digit c"
    by (simp add: printf_u.simps [of ino], blast intro: printf_u_digits)
  have tok: "token (printf_u ino)" using ino by (auto simp: token_def is_digit_def)
  have "CHR 0x0A \<notin> set path" "hd path \<noteq> CHR '' ''"
    using assms(8,9) sp by (auto, cases path, auto)
  then have R: "parse_maps_line_sigsafe line = Some (start, finish, perms, path)"
    unfolding line_def using assms(1-3) tok by (intro parse_maps_line_printed) auto
  let ?r6 = "replicate (Suc pad) (CHR '' '') @ path @ [CHR 0x0A]"
  let ?r5 = "'' '' @ printf_u ino @ ?r6"
  let ?r4 = "'' '' @ dev @ ?r5"
  let ?r3 = "'' '' @ off @ ?r4"
  let ?r2 = "'' '' @ perms @ ?r3"
  let ?h = "\<lambda>z v. replicate z (CHR ''0'') @ uptr_to_hex v"
  have line: "line @ [CHR 0x0A] = [] @ ?h z1 start @ ''-'' @ ?h z2 finish @ ?r2"
    by (simp add: line_def maps_line_def)
  have n1: "scan_num 16 ([] @ ?h z1 start @ ''-'' @ ?h z2 finish @ ?r2) = Some (start, ''-'' @ ?h z2 finish @ ?r2)"
    and n2: "scan_num 16 ([] @ ?h z2 finish @ ?r2) = Some (finish, ?r2)"
    by (rule scan_hex_field; simp)+
  have f: "scan_s 7 ?r2 = Some (perms, ?r3)" "scan_s 31 ?r3 = Some (off, ?r4)" "scan_s 15 ?r4 = Some (dev, ?r5)"
    "scan_s 255 ?r6 = Some (path, [CHR 0x0A])"
    using assms sp by (intro scan_s_field; auto simp: token_def)+
  have n3: "scan_num 10 ?r5 = Some (of_nat ino, ?r6)"
    using ino is_digit_valid [OF ino(2)] assms(7)
    by (intro scan_num_field) (auto simp: digits_val_printf digit_val_def unat_of_nat)
  show ?thesis
    unfolding R line sscanf_maps_def using n1 n2 n3 f by simp
qed


section \<open>Witnesses\<close>

lemma ex_hex: "uptr_to_hex 0x7000 = ''7000''" "uptr_to_hex 0x8000 = ''8000''"
  by (simp_all add: uptr_to_hex_def digits_numeral)

lemma ex_maps_line:
  "maps_line 0 0 0x7000 0x8000 perms [''0'', ''00:05'', ''417''] 0 ''/dev/nvidia0'' =
     ''7000-8000 '' @ perms @ '' 0 00:05 417 /dev/nvidia0''"
  by (simp add: maps_line_def ex_hex)

lemma ex_capture_none:
  "capture_line (\<lambda>_ _ _. False) default_config 3 ''7000-8000 ---s 0 00:05 417 /dev/nvidia0''
     = (True, [Mprotect 0x7000 0x1000 3])"
proof -
  have "parse_maps_line_sigsafe ''7000-8000 ---s 0 00:05 417 /dev/nvidia0'' = Some (0x7000, 0x8000, ''---s'', ''/dev/nvidia0'')"
    using parse_maps_line_printed [of "''---s''" "''0''" "''00:05''" "''417''" "''/dev/nvidia0''" 0 0 "0x7000" "0x8000" 0]
    by (simp add: ex_maps_line token_def)
  moreover have "find_sub dev_nvidia ''/dev/nvidia0'' = Some ''/dev/nvidia0''" by simp
  ultimately show ?thesis by (simp add: capture_line_def Let_def default_config_def)
qed

theorem snapshot_walk_witness:
  "snap_loop (\<lambda>_ _ _. False) default_config 3
     (''7000-8000 ---s 0 00:05 417 /dev/nvidia0'' @ [CHR 0x0A] @ ''9000-a000 rw-s 0 00:05 418 /dev/nvidiactl'' @ [CHR 0x0A]) 0
   = [Mprotect 0x7000 0x1000 3, Mprotect 0x7000 0x1000 3]"
  using snapshot_walk [of "[''7000-8000 ---s 0 00:05 417 /dev/nvidia0'', ''9000-a000 rw-s 0 00:05 418 /dev/nvidiactl'']" "[]"
      "\<lambda>_ _ _. False" default_config 3]
  by (simp add: ex_capture_none text_line_def)

theorem capture_protection_witness:
  "\<exists>path. capture_line (\<lambda>_ _ _. True) default_config 3 ''7000-8000 -w-s 0 00:05 417 /dev/nvidia0''
     = (False, [File path 0x7000 0x1000])"
  using capture_protection [of "''-w-s''" "''0''" "''00:05''" "''417''" "''0''" "0x8000" "0x7000" default_config
      "\<lambda>_ _ _. True" 3 0 0 0]
  by (simp add: ex_maps_line token_def default_config_def Let_def)


theorem parsers_agree_witness:
  "sscanf_maps (''7000-8000 rw-s 0 00:05 417 /dev/nvidia0'' @ [CHR 0x0A])
     = parse_maps_line_sigsafe ''7000-8000 rw-s 0 00:05 417 /dev/nvidia0''"
proof -
  have p: "printf_u 417 = ''417''" by (simp add: printf_u.simps char_of_eq_iff)
  show ?thesis
    by (rule parsers_agree [of "''rw-s''" "''0''" "''00:05''" "''/dev/nvidia0''" 417 _ 0 0 "0x7000" "0x8000" 0])
      (simp_all add: token_def is_space_def p ex_maps_line)
qed

end
