(* ===== verification/Pbcap_Watch.thy ===== *)
theory Pbcap_Watch
  imports Pbcap_Snapshot
begin

text \<open>
  The hooks and the userspace watchpoint of \<^verbatim>\<open>reverse/tools/pbcap.c\<close>: the tables of device files and
  mappings, the intercepted library calls, and the pair of signal handlers that trap a doorbell write.
  The result of the real library function is an argument of its hook.
\<close>

section \<open>The table of device files\<close>

definition fd_is_nvidia :: "string option \<Rightarrow> bool" where
  "fd_is_nvidia path = (case path of None \<Rightarrow> False | Some p \<Rightarrow> take 11 p = dev_nvidia)"

definition fd_vacant :: "fd_info \<Rightarrow> bool" where
  "fd_vacant e \<longleftrightarrow> fi_fd e = - 1"

definition fd_record :: "int \<Rightarrow> string \<Rightarrow> pb_state \<Rightarrow> pb_state" where
  "fd_record fd path st =
     (if fd < 0 then st
      else case slot_insert fd_vacant \<lparr>fi_fd = fd, fi_name = snprintf 64 path\<rparr> (g_fds st) of
        None \<Rightarrow> st
      | Some (_, t) \<Rightarrow> st\<lparr>g_fds := t\<rparr>)"

definition fd_forget :: "int \<Rightarrow> pb_state \<Rightarrow> pb_state" where
  "fd_forget fd st =
     (if fd < 0 then st
      else case slot_clear (\<lambda>e. fi_fd e = fd) (\<lambda>_. \<lparr>fi_fd = - 1, fi_name = []\<rparr>) (g_fds st) of
        None \<Rightarrow> st
      | Some (_, _, t) \<Rightarrow> st\<lparr>g_fds := t\<rparr>)"

definition fd_lookup :: "int \<Rightarrow> pb_state \<Rightarrow> string option" where
  "fd_lookup fd st = map_option fi_name (List.find (\<lambda>e. fi_fd e = fd) (g_fds st))"

section \<open>The table of mappings\<close>

definition classify_map :: "string option \<Rightarrow> u64 \<Rightarrow> u32 \<Rightarrow> map_kind" where
  "classify_map fdname len prot =
     (case fdname of
        None \<Rightarrow> MAP_KIND_OTHER
      | Some name \<Rightarrow>
          if len = HOPPER_USERMODE_BAR0_LEN \<and> prot AND PROT_WRITE \<noteq> 0 \<and> find_sub ''/dev/nvidia0'' name \<noteq> None
          then MAP_KIND_USERMODE_BAR0 else MAP_KIND_OTHER)"

definition map_vacant :: "map_info \<Rightarrow> bool" where
  "map_vacant m \<longleftrightarrow> mi_addr m = 0"

definition dbell_arm_mapping :: "mprotect \<Rightarrow> stamp \<Rightarrow> u64 \<Rightarrow> u64 \<Rightarrow> pb_state \<Rightarrow> pb_state" where
  "dbell_arm_mapping mp sp addr len st =
     (let st1 = plog (Mprotect addr len PROT_READ) st in
      if \<not> mp addr len PROT_READ then st1
      else emit_event sp ''doorbell.arm'' (snprintf 128
        (''\"bar0\":\"0x'' @ printf_x addr @ ''\",\"length\":'' @ printf_u (unat len))) st1)"

definition map_record ::
  "mprotect \<Rightarrow> stamp \<Rightarrow> u64 \<Rightarrow> u64 \<Rightarrow> int \<Rightarrow> int \<Rightarrow> u32 \<Rightarrow> pb_state \<Rightarrow> pb_state" where
  "map_record mp sp addr len fd off prot st =
     (case fd_lookup fd st of
        None \<Rightarrow> st
      | Some name \<Rightarrow>
          (let kind = classify_map (Some name) len prot;
               m = \<lparr>mi_addr = addr, mi_length = len, mi_fd = fd, mi_fdname = snprintf 64 name, mi_offset = off,
                    mi_prot = prot, mi_kind = kind\<rparr>;
               st1 = (case slot_insert map_vacant m (g_maps st) of
                        None \<Rightarrow> st | Some (_, t) \<Rightarrow> st\<lparr>g_maps := t\<rparr>) in
           if kind = MAP_KIND_USERMODE_BAR0 \<and> g_dbell_arm (pb_cf st) \<noteq> 0
           then dbell_arm_mapping mp sp addr len st1 else st1))"

definition map_forget :: "u64 \<Rightarrow> u64 \<Rightarrow> pb_state \<Rightarrow> pb_state" where
  "map_forget addr len st =
     (case slot_clear (\<lambda>m. mi_addr m = addr \<and> mi_length m = len) (\<lambda>m. m\<lparr>mi_addr := 0\<rparr>) (g_maps st) of
        None \<Rightarrow> st
      | Some (_, _, t) \<Rightarrow> st\<lparr>g_maps := t\<rparr>)"

definition dbell_hit :: "u64 \<Rightarrow> map_info \<Rightarrow> bool" where
  "dbell_hit f m \<longleftrightarrow> mi_addr m \<noteq> 0 \<and> mi_kind m = MAP_KIND_USERMODE_BAR0
     \<and> f \<ge> mi_addr m \<and> f < mi_addr m + mi_length m"

definition dbell_find_mapping :: "u64 \<Rightarrow> map_info list \<Rightarrow> map_info option" where
  "dbell_find_mapping fault maps = List.find (dbell_hit fault) maps"

text \<open>One line of \<^verbatim>\<open>dbell_scan_and_arm\<close>.\<close>

definition scan_arm_line :: "mprotect \<Rightarrow> stamp \<Rightarrow> string \<Rightarrow> pb_state \<Rightarrow> pb_state" where
  "scan_arm_line mp sp line st =
     (case sscanf_maps line of
        None \<Rightarrow> st
      | Some (start, finish, perms, pathname) \<Rightarrow>
          if find_sub ''/dev/nvidia0'' pathname = None then st
          else let len = finish - start in
            if len \<noteq> HOPPER_USERMODE_BAR0_LEN then st
            else if \<not> (length perms > 1 \<and> perms ! 1 = CHR ''w'') then st
            else if List.find (\<lambda>m. mi_addr m = start \<and> mi_kind m = MAP_KIND_USERMODE_BAR0) (g_maps st) \<noteq> None
            then st
            else
              let m = \<lparr>mi_addr = start, mi_length = len, mi_fd = - 1, mi_fdname = ''/dev/nvidia0'', mi_offset = 0,
                       mi_prot = PROT_READ OR PROT_WRITE, mi_kind = MAP_KIND_USERMODE_BAR0\<rparr>;
                  st1 = (case slot_insert map_vacant m (g_maps st) of
                           None \<Rightarrow> st | Some (_, t) \<Rightarrow> st\<lparr>g_maps := t\<rparr>) in
              dbell_arm_mapping mp sp start len st1)"

definition dbell_scan_and_arm :: "mprotect \<Rightarrow> stamp \<Rightarrow> string option \<Rightarrow> pb_state \<Rightarrow> pb_state" where
  "dbell_scan_and_arm mp sp maps st =
     (if g_dbell_arm (pb_cf st) = 0 then st
      else case maps of
        None \<Rightarrow> st
      | Some text \<Rightarrow> fold (scan_arm_line mp sp) (fgets_lines text) st)"

section \<open>The library hooks\<close>

definition open_payload :: "int \<Rightarrow> string \<Rightarrow> u32 \<Rightarrow> string" where
  "open_payload fd path flags = snprintf 256
     (''\"fd\":'' @ printf_d fd @ '',\"path\":\"'' @ path @ ''\",\"flags\":\"0x'' @ printf_x flags @ ''\"'')"

definition open_common :: "stamp \<Rightarrow> string \<Rightarrow> string option \<Rightarrow> u32 \<Rightarrow> int \<Rightarrow> pb_state \<Rightarrow> int \<times> pb_state" where
  "open_common sp name pathname flags fd st =
     (fd, if fd \<ge> 0 \<and> fd_is_nvidia pathname
          then emit_event sp name (open_payload fd (the pathname) flags) (fd_record fd (the pathname) st)
          else st)"

definition hook_open :: "stamp \<Rightarrow> string option \<Rightarrow> u32 \<Rightarrow> int \<Rightarrow> pb_state \<Rightarrow> int \<times> pb_state" where
  "hook_open sp pathname flags real_fd st = open_common sp ''open'' pathname flags real_fd st"

definition hook_openat :: "stamp \<Rightarrow> string option \<Rightarrow> u32 \<Rightarrow> int \<Rightarrow> pb_state \<Rightarrow> int \<times> pb_state" where
  "hook_openat sp pathname flags real_fd st = open_common sp ''openat'' pathname flags real_fd st"

definition hook_close :: "stamp \<Rightarrow> int \<Rightarrow> int \<Rightarrow> pb_state \<Rightarrow> int \<times> pb_state" where
  "hook_close sp fd real_ret st =
     (let st1 = (case fd_lookup fd st of
                   None \<Rightarrow> st
                 | Some name \<Rightarrow> emit_event sp ''close'' (snprintf 128
                     (''\"fd\":'' @ printf_d fd @ '',\"path\":\"'' @ name @ ''\"'')) st) in
      (real_ret, fd_forget fd st1))"

definition mmap_payload :: "int \<Rightarrow> string \<Rightarrow> u64 \<Rightarrow> u64 \<Rightarrow> u32 \<Rightarrow> u32 \<Rightarrow> int \<Rightarrow> string" where
  "mmap_payload fd name p len prot flags off = snprintf 320
     (''\"fd\":'' @ printf_d fd @ '',\"path\":\"'' @ name @ ''\",\"addr\":\"0x'' @ printf_x p
       @ ''\",\"length\":'' @ printf_u (unat len) @ '',\"prot\":\"0x'' @ printf_x prot
       @ ''\",\"flags\":\"0x'' @ printf_x flags @ ''\",\"offset\":\"0x'' @ printf_x (of_int off :: u64) @ ''\"'')"

text \<open>\<open>p\<close> is what the real \<^verbatim>\<open>mmap\<close> returned; \<^verbatim>\<open>MAP_FAILED\<close> is all ones.\<close>

definition hook_mmap ::
  "mprotect \<Rightarrow> stamp \<Rightarrow> stamp \<Rightarrow> u64 \<Rightarrow> u32 \<Rightarrow> u32 \<Rightarrow> int \<Rightarrow> int \<Rightarrow> u64 \<Rightarrow> pb_state \<Rightarrow> u64 \<times> pb_state" where
  "hook_mmap mp sp1 sp2 len prot flags fd off p st =
     (if p \<noteq> - 1 then
        let st0 = plog (Mapped p len prot) st in
        if fd \<ge> 0 then
          case fd_lookup fd st0 of
            None \<Rightarrow> (p, st0)
          | Some name \<Rightarrow>
              (p, emit_event sp2 ''mmap'' (mmap_payload fd name p len prot flags off)
                (map_record mp sp1 p len fd off prot st0))
        else (p, st0)
      else (p, st))"

definition hook_munmap :: "stamp \<Rightarrow> u64 \<Rightarrow> u64 \<Rightarrow> int \<Rightarrow> pb_state \<Rightarrow> int \<times> pb_state" where
  "hook_munmap sp addr len real_ret st =
     (let st1 = emit_event sp ''munmap'' (snprintf 128
            (''\"addr\":\"0x'' @ printf_x addr @ ''\",\"length\":'' @ printf_u (unat len))) st;
          st2 = map_forget addr len st1 in
      (real_ret, if real_ret = 0 then plog (Unmapped addr len) st2 else st2))"


section \<open>The CUDA hooks\<close>

definition hook_cudaMemcpy ::
  "mprotect \<Rightarrow> (string \<Rightarrow> bool) \<Rightarrow> string option \<Rightarrow> stamp \<Rightarrow> u64 \<Rightarrow> u64 \<Rightarrow> u64 \<Rightarrow> int \<Rightarrow> int \<Rightarrow> pb_state
     \<Rightarrow> int \<times> pb_state" where
  "hook_cudaMemcpy mp fopen maps sp dst src cnt kind r st =
     (let st1 = dbell_scan_and_arm mp sp maps st;
          idx = g_snap_idx st1;
          st2 = emit_eventf sp ''cudaMemcpy.enter''
            (''\"idx\":'' @ printf_u (unat idx) @ '',\"dst\":\"0x'' @ printf_x dst @ ''\",\"src\":\"0x'' @ printf_x src
              @ ''\",\"count\":'' @ printf_u (unat cnt) @ '',\"kind\":'' @ printf_d kind)
            (st1\<lparr>g_snap_idx := idx + 1\<rparr>);
          snap = (\<lambda>phase st. if g_memcpy_snapshot (pb_cf st) \<noteq> 0 then snapshot_all mp fopen maps phase idx st else st);
          st3 = snap ''post'' (snap ''pre'' st2) in
      (r, emit_eventf sp ''cudaMemcpy.exit''
            (''\"idx\":'' @ printf_u (unat idx) @ '',\"ret\":'' @ printf_d r) st3))"

definition hook_cudaHostAlloc :: "stamp \<Rightarrow> u64 \<Rightarrow> u32 \<Rightarrow> u64 \<Rightarrow> int \<Rightarrow> pb_state \<Rightarrow> int \<times> pb_state" where
  "hook_cudaHostAlloc sp sz flags ptr r st =
     (r, if r = 0 then emit_event sp ''cudaHostAlloc'' (snprintf 192
            (''\"size\":'' @ printf_u (unat sz) @ '',\"flags\":\"0x'' @ printf_x flags @ ''\",\"ptr\":\"0x''
              @ printf_x ptr @ ''\"'')) st
         else st)"

definition hook_cudaMalloc :: "stamp \<Rightarrow> u64 \<Rightarrow> u64 \<Rightarrow> int \<Rightarrow> pb_state \<Rightarrow> int \<times> pb_state" where
  "hook_cudaMalloc sp sz ptr r st =
     (r, if r = 0 then emit_event sp ''cudaMalloc'' (snprintf 192
            (''\"size\":'' @ printf_u (unat sz) @ '',\"ptr\":\"0x'' @ printf_x ptr @ ''\"'')) st
         else st)"

text \<open>The hooks that bracket a call between an \<^verbatim>\<open>enter\<close> and an \<^verbatim>\<open>exit\<close> event.\<close>

definition bracket :: "stamp \<Rightarrow> stamp \<Rightarrow> string \<Rightarrow> string \<Rightarrow> int \<Rightarrow> pb_state \<Rightarrow> int \<times> pb_state" where
  "bracket sp1 sp2 name payload r st =
     (r, emit_eventf sp2 (name @ ''.exit'') (''\"ret\":'' @ printf_d r) (emit_eventf sp1 (name @ ''.enter'') payload st))"

definition hook_cudaInitDevice :: "stamp \<Rightarrow> stamp \<Rightarrow> int \<Rightarrow> u32 \<Rightarrow> u32 \<Rightarrow> int \<Rightarrow> pb_state \<Rightarrow> int \<times> pb_state" where
  "hook_cudaInitDevice sp1 sp2 device deviceFlags flags r st = bracket sp1 sp2 ''cudaInitDevice''
     (''\"device\":'' @ printf_d device @ '',\"deviceFlags\":\"0x'' @ printf_x deviceFlags @ ''\",\"flags\":\"0x''
       @ printf_x flags @ ''\"'') r st"

definition hook_cudaHostRegister :: "stamp \<Rightarrow> stamp \<Rightarrow> u64 \<Rightarrow> u64 \<Rightarrow> u32 \<Rightarrow> int \<Rightarrow> pb_state \<Rightarrow> int \<times> pb_state" where
  "hook_cudaHostRegister sp1 sp2 ptr sz flags r st = bracket sp1 sp2 ''cudaHostRegister''
     (''\"ptr\":\"0x'' @ printf_x ptr @ ''\",\"size\":'' @ printf_u (unat sz) @ '',\"flags\":\"0x''
       @ printf_x flags @ ''\"'') r st"

definition hook_cudaHostUnregister :: "stamp \<Rightarrow> stamp \<Rightarrow> u64 \<Rightarrow> int \<Rightarrow> pb_state \<Rightarrow> int \<times> pb_state" where
  "hook_cudaHostUnregister sp1 sp2 ptr r st = bracket sp1 sp2 ''cudaHostUnregister''
     (''\"ptr\":\"0x'' @ printf_x ptr @ ''\"'') r st"

definition dim3 :: "u32 \<times> u32 \<times> u32 \<Rightarrow> string" where
  "dim3 d = (case d of (x, y, z) \<Rightarrow> ''{\"x\":'' @ printf_u (unat x) @ '',\"y\":'' @ printf_u (unat y)
     @ '',\"z\":'' @ printf_u (unat z) @ ''}'')"

definition hook_cudaLaunchKernel ::
  "stamp \<Rightarrow> stamp \<Rightarrow> u64 \<Rightarrow> u32 \<times> u32 \<times> u32 \<Rightarrow> u32 \<times> u32 \<times> u32 \<Rightarrow> u64 \<Rightarrow> u64 \<Rightarrow> int \<Rightarrow> pb_state \<Rightarrow> int \<times> pb_state" where
  "hook_cudaLaunchKernel sp1 sp2 func gridDim blockDim args sharedMem r st = bracket sp1 sp2 ''cudaLaunchKernel''
     (''\"func ptr\":\"0x'' @ printf_x func @ ''\",\"gridDim\":'' @ dim3 gridDim @ '',\"blockDim\":'' @ dim3 blockDim
       @ '',\"args\":\"0x'' @ printf_x args @ ''\",\"sharedMem\":'' @ printf_u (unat sharedMem)) r st"

section \<open>The signal handlers\<close>

text \<open>
  The process with its threads: \<open>w_pending\<close> is the thread-local \<^verbatim>\<open>g_dbell_pending\<close>, \<open>w_tf\<close> the trap
  flag of each thread.
\<close>

record watch =
  w_pb :: pb_state
  w_pending :: "nat \<Rightarrow> u64"
  w_tf :: "nat \<Rightarrow> bool"

definition sig_segv :: "nat \<Rightarrow> u64 \<Rightarrow> watch \<Rightarrow> watch" where
  "sig_segv tid fault w =
     (case dbell_find_mapping fault (g_maps (w_pb w)) of
        None \<Rightarrow> w\<lparr>w_pb := plog Sig_default (w_pb w)\<rparr>
      | Some m \<Rightarrow>
          w\<lparr>w_pb := plog (Mprotect (mi_addr m) (mi_length m) (PROT_READ OR PROT_WRITE)) (w_pb w),
            w_pending := (w_pending w)(tid := mi_addr m), w_tf := (w_tf w)(tid := True)\<rparr>)"

text \<open>What the system answers during one run of \<^verbatim>\<open>sig_trap\<close>.\<close>

record trap_env =
  te_stamp :: stamp
  te_mem :: memory
  te_mprotect :: mprotect
  te_opened :: bool
  te_reads :: "rres list"

definition token_hex :: "u32 \<Rightarrow> string" where
  "token_hex t = (let h = printf_x t in replicate (8 - length h) (CHR ''0'') @ h)"

definition trap_payload :: "u32 \<Rightarrow> u64 \<Rightarrow> u32 \<Rightarrow> string" where
  "trap_payload seq base tok = snprintf 160
     (''\"seq\":'' @ printf_u (unat seq) @ '',\"bar0\":\"0x'' @ printf_x base @ ''\",\"token\":\"0x'' @ token_hex tok @ ''\"'')"

definition trap_snapshot :: "trap_env \<Rightarrow> u32 \<Rightarrow> pb_state \<Rightarrow> pb_state" where
  "trap_snapshot env seq st =
     (if seq mod g_dbell_sample (pb_cf st) = 0 then
        if g_dbell_sync (pb_cf st) \<noteq> 0
        then snapshot_all_sigsafe (te_mprotect env) (te_opened env) (te_reads env) seq st
        else if pb_pipe_open st then
          let (out, left, ws) = safe_write (pb_writes st) (seq_line seq) in
          plog (Pipe out) (st\<lparr>pb_writes := ws\<rparr>)
        else st
      else st)"

definition sig_trap :: "trap_env \<Rightarrow> nat \<Rightarrow> watch \<Rightarrow> watch" where
  "sig_trap env tid w =
     (let base = w_pending w tid;
          w1 = w\<lparr>w_tf := (w_tf w)(tid := False), w_pending := (w_pending w)(tid := 0)\<rparr> in
      if base = 0 then w1
      else
        let tok = rd32 (te_mem env) (base + HOPPER_VF_DOORBELL_OFF);
            seq = pb_dbell_seq (w_pb w1);
            st1 = (w_pb w1)\<lparr>pb_dbell_seq := seq + 1\<rparr>;
            st2 = emit_event (te_stamp env) ''doorbell'' (trap_payload seq base tok) st1;
            st3 = trap_snapshot env seq st2;
            st4 = (case dbell_find_mapping base (g_maps st3) of
                     None \<Rightarrow> st3
                   | Some m \<Rightarrow> plog (Mprotect (mi_addr m) (mi_length m) PROT_READ) st3) in
        w1\<lparr>w_pb := st4\<rparr>)"

section \<open>Initialisation\<close>

text \<open>
  \<^verbatim>\<open>do_init\<close> runs once, inside \<^verbatim>\<open>pthread_once\<close>.  A call of one of the hooked functions from inside it
  enters the same \<^verbatim>\<open>pthread_once\<close> again, which returns only after the initialisation has completed: it
  never does, and the result is \<open>None\<close>.  What the system answers is the record below: the
  environment, whether \<^verbatim>\<open>dlsym\<close> found \<^verbatim>\<open>open\<close>, and whether the timeline, the pipe and the worker thread
  could be created.
\<close>

record init_env =
  ie_getenv :: "string \<Rightarrow> string option"
  ie_real_open :: bool
  ie_timeline :: bool
  ie_writes :: "wres list"
  ie_stamp :: stamp
  ie_mono :: u64
  ie_real :: u64
  ie_pipe :: bool
  ie_thread :: bool

definition dbell_install_handlers :: "init_env \<Rightarrow> pb_state \<Rightarrow> pb_state option" where
  "dbell_install_handlers env st =
     (if \<not> ie_pipe env then Some st
      else
        let st1 = st\<lparr>pb_pipe_open := True\<rparr> in
        if \<not> ie_thread env then None
        else Some (plog Sig_install st1))"

definition init_tables :: "pb_config \<Rightarrow> wres list \<Rightarrow> pb_state" where
  "init_tables cf ws =
     \<lparr>pb_cf = cf, g_fds = replicate MAX_FDS \<lparr>fi_fd = - 1, fi_name = []\<rparr>,
      g_maps = replicate MAX_MAPPINGS \<lparr>mi_addr = 0, mi_length = 0, mi_fd = 0, mi_fdname = [], mi_offset = 0, mi_prot = 0,
        mi_kind = MAP_KIND_OTHER\<rparr>,
      g_timeline_open = False, pb_timeline = [], pb_writes = ws, g_snap_idx = 0, pb_dbell_seq = 0,
      pb_pipe_open = False, pb_log = []\<rparr>"

definition init_anchor :: "u64 \<Rightarrow> u64 \<Rightarrow> string" where
  "init_anchor mono_ns real_ns = snprintf 256
     (''\"mono_ns\":'' @ printf_u (unat mono_ns) @ '',\"real_ns\":'' @ printf_u (unat real_ns))"

definition do_init :: "init_env \<Rightarrow> pb_state option" where
  "do_init env =
     (let cf = init_config (ie_getenv env);
          st0 = init_tables cf (ie_writes env) in
      if \<not> ie_real_open env then None
      else
        let st1 = st0\<lparr>g_timeline_open := ie_timeline env\<rparr>;
            st2 = emit_event (ie_stamp env) ''pbcap.init'' (init_anchor (ie_mono env) (ie_real env)) st1 in
        if g_dbell_arm cf \<noteq> 0 then dbell_install_handlers env st2 else Some st2)"

section \<open>The processor\<close>

text \<open>The protection of an address after the events, and one execution of a store by a thread.\<close>

fun os_prot :: "(u64 \<Rightarrow> u32) \<Rightarrow> pevent list \<Rightarrow> (u64 \<Rightarrow> u32)" where
  "os_prot p [] = p"
| "os_prot p (e # es) =
     os_prot (case e of
        Mprotect a n q \<Rightarrow> \<lambda>y. if unat a \<le> unat y \<and> unat y < unat a + unat n then q else p y
      | Mapped a n q \<Rightarrow> \<lambda>y. if unat a \<le> unat y \<and> unat y < unat a + unat n then q else p y
      | _ \<Rightarrow> p) es"

definition writeable :: "(u64 \<Rightarrow> u32) \<Rightarrow> u64 \<Rightarrow> watch \<Rightarrow> bool" where
  "writeable p x w \<longleftrightarrow> bit (os_prot p (pb_log (w_pb w)) x) 1"

text \<open>
  A store to a write-protected page faults and is retried after the handler; a store that retires
  raises the trap when the thread's trap flag is set.
\<close>

definition store :: "(u64 \<Rightarrow> u32) \<Rightarrow> trap_env \<Rightarrow> nat \<Rightarrow> u64 \<Rightarrow> watch \<Rightarrow> watch" where
  "store p env tid x w =
     (if \<not> writeable p x w then sig_segv tid x w
      else if w_tf w tid then sig_trap env tid w
      else w)"


section \<open>One doorbell\<close>

lemma os_prot_append: "os_prot p (xs @ ys) = os_prot (os_prot p xs) ys"
  by (induction xs arbitrary: p) simp_all

text \<open>The tracked doorbell windows do not wrap and do not overlap.\<close>

definition maps_ok :: "map_info list \<Rightarrow> bool" where
  "maps_ok ms \<longleftrightarrow>
     (\<forall>m \<in> set ms. mi_kind m = MAP_KIND_USERMODE_BAR0 \<and> mi_addr m \<noteq> 0 \<longrightarrow>
        0 < mi_length m \<and> unat (mi_addr m) + unat (mi_length m) < 2 ^ 64)
   \<and> (\<forall>f. \<forall>i < length ms. \<forall>j < length ms. dbell_hit f (ms ! i) \<and> dbell_hit f (ms ! j) \<longrightarrow> i = j)"

lemma maps_ok_unique:
  "maps_ok ms \<Longrightarrow> i < length ms \<Longrightarrow> j < length ms \<Longrightarrow> dbell_hit f (ms ! i) \<Longrightarrow> dbell_hit f (ms ! j) \<Longrightarrow> i = j"
  unfolding maps_ok_def by blast

lemma dbell_hit_range:
  assumes "maps_ok ms" "m \<in> set ms"
  shows "dbell_hit f m \<longleftrightarrow> mi_addr m \<noteq> 0 \<and> mi_kind m = MAP_KIND_USERMODE_BAR0
    \<and> unat (mi_addr m) \<le> unat f \<and> unat f < unat (mi_addr m) + unat (mi_length m)"
  using assms
  by (auto simp: dbell_hit_def maps_ok_def word_le_nat_alt word_less_nat_alt unat_add_nowrap)

lemma find_mappingD:
  assumes "dbell_find_mapping f ms = Some m"
  shows "m \<in> set ms" "dbell_hit f m"
  using assms by (auto simp: dbell_find_mapping_def find_Some_iff)

lemma find_by_base:
  assumes "maps_ok ms" "dbell_find_mapping f ms = Some m"
  shows "dbell_find_mapping (mi_addr m) ms = Some m"
proof -
  have m: "m \<in> set ms" "dbell_hit f m" using find_mappingD [OF assms(2)] by auto
  have "0 < mi_length m" using assms(1) m by (auto simp: maps_ok_def dbell_hit_def)
  then have base: "dbell_hit (mi_addr m) m"
    using m dbell_hit_range [OF assms(1) m(1)] by (auto simp: word_less_nat_alt)
  obtain i where i: "i < length ms" "ms ! i = m" using m(1) by (auto simp: in_set_conv_nth)
  have "\<not> dbell_hit (mi_addr m) (ms ! j)" if "j < i" for j
    using maps_ok_unique [OF assms(1), of j i "mi_addr m"] base i that by auto
  with i base show ?thesis unfolding dbell_find_mapping_def find_Some_iff by blast
qed

lemma trap_snapshot_frame [simp]:
  "g_maps (trap_snapshot env seq st) = g_maps st" "pb_dbell_seq (trap_snapshot env seq st) = pb_dbell_seq st"
  "pb_timeline (trap_snapshot env seq st) = pb_timeline st"
  by (auto simp: trap_snapshot_def snapshot_all_sigsafe_def plog_def Let_def split: prod.splits)

lemma rw_bits: "bit ((1 :: u32) OR 2) 1" "\<not> bit (1 :: u32) 1"
  by (simp_all add: bit_1_iff)

text \<open>The two executions of one store, first into the fault and then into the trap.\<close>

lemma store_faults:
  assumes "maps_ok (g_maps (w_pb w))" "dbell_find_mapping x (g_maps (w_pb w)) = Some m" "\<not> writeable p x w"
  shows "store p env tid x w = w\<lparr>w_pb := plog (Mprotect (mi_addr m) (mi_length m) (PROT_READ OR PROT_WRITE)) (w_pb w),
      w_pending := (w_pending w)(tid := mi_addr m), w_tf := (w_tf w)(tid := True)\<rparr>"
    and "dbell_hit y m \<Longrightarrow> writeable p y (store p env tid x w)"
proof -
  show eq: "store p env tid x w = w\<lparr>w_pb := plog (Mprotect (mi_addr m) (mi_length m) (PROT_READ OR PROT_WRITE)) (w_pb w),
      w_pending := (w_pending w)(tid := mi_addr m), w_tf := (w_tf w)(tid := True)\<rparr>"
    using assms by (simp add: store_def sig_segv_def)
  assume "dbell_hit y m"
  then have "unat (mi_addr m) \<le> unat y \<and> unat y < unat (mi_addr m) + unat (mi_length m)"
    using dbell_hit_range [OF assms(1)] find_mappingD [OF assms(2)] by blast
  then show "writeable p y (store p env tid x w)"
    unfolding eq by (simp add: writeable_def os_prot_append rw_bits)
qed


text \<open>
  The window is open for every thread while one thread is between its fault and its trap: a
  doorbell that another thread rings then changes nothing, so it is neither counted nor recorded,
  although the submission reached the GPU.
\<close>

theorem doorbell_missed:
  assumes "maps_ok (g_maps (w_pb w))" "dbell_find_mapping x (g_maps (w_pb w)) = Some m" "\<not> writeable p x w"
    and "dbell_hit y m" "tid' \<noteq> tid" "\<not> w_tf w tid'"
  shows "store p env tid' y (store p env tid x w) = store p env tid x w"
  using store_faults(2) [OF assms(1-4)] assms(5,6)
  by (subst store_def) (simp add: store_faults(1) [OF assms(1-3)])



section \<open>The tables as fixed tables\<close>

interpretation fd_tab:
  fixed_table fd_vacant "\<lambda>fd e. fi_fd e = fd" "\<lambda>_. \<lparr>fi_fd = - 1, fi_name = []\<rparr>" "\<lambda>fd. 0 \<le> fd"
  by unfold_locales (auto simp: fd_vacant_def)

interpretation map_tab:
  fixed_table map_vacant "\<lambda>k m. mi_addr m = fst k \<and> mi_length m = snd k" "\<lambda>m. m\<lparr>mi_addr := 0\<rparr>" "\<lambda>k. fst k \<noteq> 0"
  by unfold_locales (auto simp: map_vacant_def)

lemma find_live:
  assumes "0 \<le> fd" "\<forall>e \<in># fd_tab.live t. fi_fd e \<noteq> fd"
  shows "List.find (\<lambda>e. fi_fd e = fd) t = None"
  using assms by (auto simp: find_None_iff fd_tab.live_def fd_vacant_def)

lemma map_record_tables:
  assumes "fd_lookup fd st = Some name"
  shows "g_maps (map_record mp sp addr len fd off prot st) =
      (case slot_insert map_vacant \<lparr>mi_addr = addr, mi_length = len, mi_fd = fd, mi_fdname = snprintf 64 name,
          mi_offset = off, mi_prot = prot, mi_kind = classify_map (Some name) len prot\<rparr> (g_maps st) of
         None \<Rightarrow> g_maps st | Some (_, t) \<Rightarrow> t)"
    and "g_fds (map_record mp sp addr len fd off prot st) = g_fds st"
  using assms
  by (auto simp: map_record_def dbell_arm_mapping_def Let_def split: option.splits prod.splits)

text \<open>
  C14.  A device file that is opened, mapped, unmapped and closed leaves no trace in the shim's tables:
  for a descriptor and an address that are not tracked yet, the four hooks in this order keep the
  tracked descriptors and mappings, also when one of the two tables is full.
\<close>

theorem hooks_roundtrip:
  assumes fd: "0 \<le> fd" "\<forall>e \<in># fd_tab.live (g_fds st). fi_fd e \<noteq> fd" "fd_is_nvidia (Some path)"
    and p: "p \<noteq> 0" "p \<noteq> - 1" "\<forall>m \<in># map_tab.live (g_maps st). mi_addr m \<noteq> p"
  shows "let st1 = snd (hook_open sp1 (Some path) flags fd st);
      st2 = snd (hook_mmap mp sp2 sp3 len prot mflags fd off p st1);
      st3 = snd (hook_munmap sp4 p len ret st2);
      st4 = snd (hook_close sp5 fd cret st3) in
    fd_tab.live (g_fds st4) = fd_tab.live (g_fds st) \<and> map_tab.live (g_maps st4) = map_tab.live (g_maps st)"
proof -
  define st1 where "st1 = snd (hook_open sp1 (Some path) flags fd st)"
  define st2 where "st2 = snd (hook_mmap mp sp2 sp3 len prot mflags fd off p st1)"
  define st3 where "st3 = snd (hook_munmap sp4 p len ret st2)"
  define st4 where "st4 = snd (hook_close sp5 fd cret st3)"
  let ?e = "\<lparr>fi_fd = fd, fi_name = snprintf 64 path\<rparr>"
  have f1: "g_fds st1 = (case slot_insert fd_vacant ?e (g_fds st) of None \<Rightarrow> g_fds st | Some (_, t) \<Rightarrow> t)"
    "g_maps st1 = g_maps st"
    using fd by (auto simp: st1_def hook_open_def open_common_def fd_record_def split: option.splits prod.splits)
  have f2: "g_fds st2 = g_fds st1"
    using p by (auto simp: st2_def hook_mmap_def Let_def map_record_tables(2) fd_lookup_def plog_def split: option.splits)
  have f3: "g_fds st3 = g_fds st2"
    by (auto simp: st3_def hook_munmap_def map_forget_def Let_def plog_def split: option.splits prod.splits)
  have f4: "g_fds st4 = (case slot_clear (\<lambda>e. fi_fd e = fd) (\<lambda>_. \<lparr>fi_fd = - 1, fi_name = []\<rparr>) (g_fds st3) of
      None \<Rightarrow> g_fds st3 | Some (_, _, t) \<Rightarrow> t)" "g_maps st4 = g_maps st3"
    using fd(1) by (auto simp: st4_def hook_close_def fd_forget_def Let_def split: option.splits prod.splits)
  have fds: "fd_tab.live (g_fds st4) = fd_tab.live (g_fds st)"
  proof (cases "slot_insert fd_vacant ?e (g_fds st)")
    case None
    with fd show ?thesis
      using fd_tab.clear_None_absent [OF fd(1), of "g_fds st"] by (auto simp: f1 f2 f3 f4)
  next
    case (Some it)
    then obtain i t where it: "slot_insert fd_vacant ?e (g_fds st) = Some (i, t)" by (cases it) auto
    from fd_tab.insert_then_clear [OF it, of fd] fd it show ?thesis by (auto simp: f1 f2 f3 f4)
  qed
  have g3: "g_maps st3 = (case slot_clear (\<lambda>m. mi_addr m = p \<and> mi_length m = len) (\<lambda>m. m\<lparr>mi_addr := 0\<rparr>) (g_maps st2) of
      None \<Rightarrow> g_maps st2 | Some (_, _, t) \<Rightarrow> t)"
    by (auto simp: st3_def hook_munmap_def map_forget_def Let_def plog_def split: option.splits prod.splits)
  have absent: "slot_clear (\<lambda>m. mi_addr m = p \<and> mi_length m = len) (\<lambda>m. m\<lparr>mi_addr := 0\<rparr>) (g_maps st) = None"
    using map_tab.clear_None_absent [of "(p, len)" "g_maps st"] p by simp
  have maps: "map_tab.live (g_maps st4) = map_tab.live (g_maps st)"
  proof (cases "\<exists>m i t. mi_addr m = p \<and> mi_length m = len
      \<and> slot_insert map_vacant m (g_maps st) = Some (i, t) \<and> g_maps st2 = t")
    case True
    then obtain m i t where m: "mi_addr m = p" "mi_length m = len" "slot_insert map_vacant m (g_maps st) = Some (i, t)"
      "g_maps st2 = t" by blast
    from map_tab.insert_then_clear [OF m(3), of "(p, len)"] m p show ?thesis by (auto simp: f4(2) g3)
  next
    case False
    have "g_maps st2 = g_maps st"
      using False p f1(2)
      by (auto simp: st2_def hook_mmap_def Let_def map_record_tables(1) fd_lookup_def plog_def split: option.splits)
    with absent show ?thesis by (simp add: f4(2) g3)
  qed
  from fds maps show ?thesis unfolding st1_def st2_def st3_def st4_def Let_def by blast
qed

section \<open>The state after initialisation\<close>

lemma init_tables_empty:
  "fd_tab.live (g_fds (init_tables cf ws)) = {#}" "map_tab.live (g_maps (init_tables cf ws)) = {#}"
  "maps_ok (g_maps (init_tables cf ws))"
  by (auto simp: init_tables_def fd_tab.live_def map_tab.live_def fd_vacant_def map_vacant_def maps_ok_def dbell_hit_def)

text \<open>
  Initialisation blocks for ever in exactly two cases: \<^verbatim>\<open>dlsym\<close> did not find \<^verbatim>\<open>open\<close>, so that the timeline
  is opened through the hook, or the watch is armed and the worker thread cannot be created, where
  the error path closes the pipe through the hook.  In every other case it returns with empty tables
  that satisfy the invariant of the watch, a sampling period that is not zero, and, when handlers
  are installed, the pipe they write to.
\<close>

theorem do_init_blocks:
  "(do_init env = None \<longleftrightarrow>
      \<not> ie_real_open env \<or> g_dbell_arm (init_config (ie_getenv env)) \<noteq> 0 \<and> ie_pipe env \<and> \<not> ie_thread env)
   \<and> (\<forall>st. do_init env = Some st \<longrightarrow>
        fd_tab.live (g_fds st) = {#} \<and> map_tab.live (g_maps st) = {#} \<and> maps_ok (g_maps st)
        \<and> g_dbell_sample (pb_cf st) \<noteq> 0
        \<and> (Sig_install \<in> set (pb_log st) \<longrightarrow> pb_pipe_open st))"
proof -
  have "g_dbell_sample (init_config (ie_getenv env)) \<noteq> 0" by (rule sample_nonzero)
  moreover have "pb_cf (init_tables cf ws) = cf" "pb_log (init_tables cf ws) = []" for cf ws
    by (simp_all add: init_tables_def)
  ultimately show ?thesis
    by (auto simp: do_init_def dbell_install_handlers_def Let_def init_tables_empty split: if_splits)
qed

section \<open>Witnesses\<close>

definition ex_window_map :: map_info where
  "ex_window_map = \<lparr>mi_addr = 0x7f0000, mi_length = 0x10000, mi_fd = 5, mi_fdname = ''/dev/nvidia0'', mi_offset = 0,
     mi_prot = 3, mi_kind = MAP_KIND_USERMODE_BAR0\<rparr>"

definition ex_pb_state :: "map_info list \<Rightarrow> pb_state" where
  "ex_pb_state ms = \<lparr>pb_cf = default_config\<lparr>g_dbell_arm := 1\<rparr>, g_fds = [\<lparr>fi_fd = 5, fi_name = ''/dev/nvidia0''\<rparr>, \<lparr>fi_fd = - 1, fi_name = []\<rparr>],
     g_maps = ms, g_timeline_open = True, pb_timeline = [], pb_writes = [Wrote 600], g_snap_idx = 0,
     pb_dbell_seq = 7, pb_pipe_open = False, pb_log = []\<rparr>"

definition ex_watch :: watch where
  "ex_watch = \<lparr>w_pb = ex_pb_state [ex_window_map], w_pending = \<lambda>_. 0, w_tf = \<lambda>_. False\<rparr>"

definition ex_trap :: trap_env where
  "ex_trap = \<lparr>te_stamp = \<lparr>sp_mono = 5, sp_pid = 7, sp_tid = 8\<rparr>, te_mem = \<lambda>_. 0, te_mprotect = \<lambda>_ _ _. True,
     te_opened = False, te_reads = []\<rparr>"

lemma ex_watch_armed:
  "maps_ok (g_maps (w_pb ex_watch))" "dbell_find_mapping 0x7f0090 (g_maps (w_pb ex_watch)) = Some ex_window_map"
  "\<not> writeable (\<lambda>_. 1) 0x7f0090 ex_watch" "dbell_hit 0x7f0090 ex_window_map"
  by (simp_all add: ex_watch_def ex_pb_state_def ex_window_map_def maps_ok_def dbell_find_mapping_def dbell_hit_def
      writeable_def bit_1_iff)


theorem doorbell_missed_witness:
  "store (\<lambda>_. 1) ex_trap 2 0x7f0090 (store (\<lambda>_. 1) ex_trap 1 0x7f0090 ex_watch)
     = store (\<lambda>_. 1) ex_trap 1 0x7f0090 ex_watch"
  using doorbell_missed [OF ex_watch_armed, of 2 1 ex_trap] by (simp add: ex_watch_def)


theorem hooks_roundtrip_witness:
  "let st = ex_pb_state [ex_window_map, ex_window_map\<lparr>mi_addr := 0\<rparr>]; sp = te_stamp ex_trap;
      st1 = snd (hook_open sp (Some ''/dev/nvidiactl'') 2 6 st);
      st2 = snd (hook_mmap (\<lambda>_ _ _. True) sp sp 0x1000 3 1 6 0 0x8000 st1);
      st3 = snd (hook_munmap sp 0x8000 0x1000 0 st2) in
    fd_tab.live (g_fds (snd (hook_close sp 6 0 st3))) = fd_tab.live (g_fds st)"
  using hooks_roundtrip [of 6 "ex_pb_state [ex_window_map, ex_window_map\<lparr>mi_addr := 0\<rparr>]" "''/dev/nvidiactl''" "0x8000"
      "te_stamp ex_trap" 2 "\<lambda>_ _ _. True" "te_stamp ex_trap" "te_stamp ex_trap" "0x1000" 3 1 0 "te_stamp ex_trap" 0 "te_stamp ex_trap" 0]
  by (simp add: Let_def ex_pb_state_def ex_window_map_def fd_tab.live_def map_tab.live_def fd_vacant_def map_vacant_def
      fd_is_nvidia_def)

theorem do_init_blocks_witness:
  "let env = \<lparr>ie_getenv = [''PBCAP_DBELL'' \<mapsto> ''1''], ie_real_open = True, ie_timeline = True, ie_writes = [], ie_stamp = te_stamp ex_trap,
     ie_mono = 1, ie_real = 2, ie_pipe = True, ie_thread = False\<rparr> in
   do_init env = None \<and> do_init (env\<lparr>ie_thread := True\<rparr>) \<noteq> None"
proof -
  have "g_dbell_arm (init_config [''PBCAP_DBELL'' \<mapsto> ''1'']) = 1" by code_simp
  then show ?thesis by (simp add: Let_def conjunct1 [OF do_init_blocks])
qed

end
