(* ===== verification/Uvm_Common.thy ===== *)
theory Uvm_Common
  imports Prelude
begin

text \<open>
  What the parts of the UVM driver share (\<^verbatim>\<open>uvm_common.h\<close>): the status codes, the overlap of inclusive
  ranges and the alignment macros, with what the wrapping arithmetic of the latter means.
\<close>

datatype nv_status = NV_OK | NV_ERR_UVM_ADDRESS_IN_USE | NV_ERR_NO_MEMORY | NV_ERR_GENERIC | NV_ERR_INVALID_STATE
  | NV_ERR_RC_ERROR | NV_WARN_MORE_PROCESSING_REQUIRED | NV_ERR_OPERATING_SYSTEM | NV_ERR_BUSY_RETRY | NV_ERR_ECC_ERROR
  | NV_ERR_INVALID_PARAM_STRUCT | NV_ERR_INSUFFICIENT_RESOURCES | NV_WARN_NOTHING_TO_DO | NV_ERR_NOT_READY | NV_ERR_INVALID_DATA
  | NV_ERR_RESET_REQUIRED | NV_ERR_TIMEOUT

definition uvm_ranges_overlap :: "u64 \<Rightarrow> u64 \<Rightarrow> u64 \<Rightarrow> u64 \<Rightarrow> bool" where
  "uvm_ranges_overlap a_start a_end b_start b_end \<longleftrightarrow> a_end \<ge> b_start \<and> b_end \<ge> a_start"

definition UVM_ALIGN_UP :: "u64 \<Rightarrow> u64 \<Rightarrow> u64" where
  "UVM_ALIGN_UP x a = (x + a - 1) AND NOT (a - 1)"

section \<open>Alignment\<close>

definition pow2 :: "u64 \<Rightarrow> bool" where
  "pow2 a \<longleftrightarrow> (\<exists>k < 64. a = 2 ^ k)"

lemma and_not_mask_nat:
  fixes x :: u64
  shows "unat (x AND NOT (mask k)) = unat x - unat x mod 2 ^ k"
proof -
  have "x AND NOT (mask k) = push_bit k (drop_bit k x)"
    by (rule bit_word_eqI) (auto simp: bit_simps)
  moreover have "push_bit k (drop_bit k x) + (x AND mask k) = x"
    using bits_ident [of k x] by (simp add: take_bit_eq_mask)
  ultimately have "x AND NOT (mask k) = x - (x AND mask k)" by (simp add: eq_diff_eq)
  moreover have "x AND mask k \<le> x"
    by (simp add: word_le_nat_alt unat_and_mask)
  ultimately show ?thesis by (simp add: unat_sub_le unat_and_mask)
qed

lemma unat_pow2: "k < 64 \<Longrightarrow> unat (2 ^ k :: u64) = 2 ^ k"
proof -
  assume "k < 64"
  then have lt: "(2 :: nat) ^ k < 2 ^ 64" by (intro power_strict_increasing) auto
  have "(2 ^ k :: u64) = of_nat (2 ^ k)" by simp
  then have "unat (2 ^ k :: u64) = take_bit LENGTH(64) (2 ^ k)" by (simp only: unsigned_of_nat of_nat_id)
  also have "\<dots> = 2 ^ k" using lt by (intro take_bit_nat_eq_self) simp
  finally show ?thesis .
qed

definition aligned :: "u64 \<Rightarrow> u64 \<Rightarrow> bool" where
  "aligned a y \<longleftrightarrow> unat a dvd unat y"

lemma round_up_least:
  fixes d X s :: nat
  assumes "0 < d" and s_def: "s = X + (d - 1)"
  shows "X \<le> s - s mod d" "d dvd s - s mod d" "d dvd Y \<Longrightarrow> X \<le> Y \<Longrightarrow> s - s mod d \<le> Y"
proof -
  have "s mod d \<le> d - 1" using mod_less_divisor [OF assms(1), of s] by linarith
  then show "X \<le> s - s mod d" using s_def by linarith
  show "d dvd s - s mod d" by (simp add: minus_mod_eq_mult_div)
  assume "d dvd Y" "X \<le> Y"
  then obtain q where q: "Y = d * q" by auto
  have "s < d * (q + 1)" using \<open>X \<le> Y\<close> q assms(1) s_def by (simp add: algebra_simps)
  then have "s div d \<le> q" using less_mult_imp_div_less [of s "q + 1" d] by (simp add: mult.commute)
  then show "s - s mod d \<le> Y" by (simp add: q minus_mod_eq_mult_div)
qed

lemma align_up_nat:
  fixes x :: u64
  assumes "k < 64"
  shows "unat x + (2 ^ k - 1) < 2 ^ 64 \<Longrightarrow>
      unat (UVM_ALIGN_UP x (2 ^ k)) = (unat x + (2 ^ k - 1)) - (unat x + (2 ^ k - 1)) mod 2 ^ k"
    and "\<not> unat x + (2 ^ k - 1) < 2 ^ 64 \<Longrightarrow> UVM_ALIGN_UP x (2 ^ k) = 0"
proof -
  have m: "x + 2 ^ k - 1 = x + mask k" "(2 ^ k - 1 :: u64) = mask k"
    by (simp_all add: mask_eq_exp_minus_1 algebra_simps)
  have um: "unat (mask k :: u64) = 2 ^ k - 1"
    using unat_pow2 [OF assms] unat_sub_le [of 1 "2 ^ k :: u64"]
    by (simp add: mask_eq_exp_minus_1 word_le_nat_alt)
  have up: "unat (UVM_ALIGN_UP x (2 ^ k)) = unat (x + mask k) - unat (x + mask k) mod 2 ^ k"
    unfolding UVM_ALIGN_UP_def m by (rule and_not_mask_nat)
  show "unat (UVM_ALIGN_UP x (2 ^ k)) = (unat x + (2 ^ k - 1)) - (unat x + (2 ^ k - 1)) mod 2 ^ k"
    if "unat x + (2 ^ k - 1) < 2 ^ 64"
    using that up um unat_add_nowrap [of x "mask k"] by simp
  show "UVM_ALIGN_UP x (2 ^ k) = 0" if w: "\<not> unat x + (2 ^ k - 1) < 2 ^ 64"
  proof -
    have x: "unat x < 2 ^ 64" using unsigned_less [of x, where 'a = nat] by simp
    have k: "(2 :: nat) ^ k \<le> 2 ^ 64" using assms by (intro power_increasing) auto
    have "unat (x + mask k) = (unat x + (2 ^ k - 1)) mod 2 ^ 64"
      using um by (simp add: unat_word_ariths)
    also have "\<dots> = unat x + (2 ^ k - 1) - 2 ^ 64"
      using w x k by (simp add: mod_if)
    finally have "unat (x + mask k) < 2 ^ k" using x w by linarith
    then have "unat (UVM_ALIGN_UP x (2 ^ k)) = 0" using up by simp
    then show ?thesis by (simp only: unsigned_eq_0_iff)
  qed
qed

lemma align_up_least:
  assumes a: "pow2 a"
  shows "x \<le> UVM_ALIGN_UP x a \<Longrightarrow> aligned a (UVM_ALIGN_UP x a)"
    and "x \<le> UVM_ALIGN_UP x a \<Longrightarrow> aligned a y \<Longrightarrow> x \<le> y \<Longrightarrow> UVM_ALIGN_UP x a \<le> y"
    and "\<not> x \<le> UVM_ALIGN_UP x a \<Longrightarrow> aligned a y \<Longrightarrow> \<not> x \<le> y"
proof -
  obtain k where k: "k < 64" "a = 2 ^ k" using a by (auto simp: pow2_def)
  have ua: "unat a = 2 ^ k" using k unat_pow2 by simp
  note r = round_up_least [of "2 ^ k" "unat x + (2 ^ k - 1)" "unat x", OF zero_less_power [OF zero_less_numeral] refl]
  have dv: "(2 :: nat) ^ k dvd 2 ^ 64" using k by (intro le_imp_power_dvd) simp
  show "aligned a (UVM_ALIGN_UP x a)" if "x \<le> UVM_ALIGN_UP x a"
    using r(2) align_up_nat [OF k(1), of x] k(2) ua by (cases "unat x + (2 ^ k - 1) < 2 ^ 64") (simp_all add: aligned_def)
  show "UVM_ALIGN_UP x a \<le> y" if "x \<le> UVM_ALIGN_UP x a" "aligned a y" "x \<le> y"
    using r(3) [of "unat y"] that align_up_nat [OF k(1), of x] k(2) ua
    by (cases "unat x + (2 ^ k - 1) < 2 ^ 64") (simp_all add: aligned_def word_le_nat_alt)
  show "\<not> x \<le> y" if "\<not> x \<le> UVM_ALIGN_UP x a" "aligned a y"
  proof
    assume xy: "x \<le> y"
    have w: "\<not> unat x + (2 ^ k - 1) < 2 ^ 64"
      using that(1) r(1) align_up_nat(1) [OF k(1), of x] k(2) by (auto simp: word_le_nat_alt)
    have "unat y < 2 ^ 64" using unsigned_less [of y, where 'a = nat] by simp
    moreover have "2 ^ 64 - unat y < 2 ^ k" using xy w \<open>unat y < 2 ^ 64\<close> unfolding word_le_nat_alt by linarith
    moreover have "2 ^ k dvd 2 ^ 64 - unat y"
      using that(2) dv ua by (intro dvd_diff_nat) (simp_all add: aligned_def)
    ultimately show False using nat_dvd_not_less [of "2 ^ 64 - unat y" "2 ^ k"] by linarith
  qed
qed

section \<open>The end of a range\<close>

lemma range_end_nat:
  fixes a sz :: u64
  assumes "0 < sz"
  shows "unat a + unat sz - 1 < 2 ^ 64 \<Longrightarrow> unat (a + sz - 1) = unat a + unat sz - 1"
    and "\<not> unat a + unat sz - 1 < 2 ^ 64 \<Longrightarrow> a + sz - 1 < a"
proof -
  have u: "unat a < 2 ^ 64" "unat sz < 2 ^ 64"
    using unsigned_less [of a, where 'a = nat] unsigned_less [of sz, where 'a = nat] by simp_all
  have one: "unat (sz - 1) = unat sz - 1" "0 < unat sz"
    using unat_pred [OF assms] assms by (simp_all add: word_less_nat_alt)
  have e: "unat (a + sz - 1) = (unat a + (unat sz - 1)) mod 2 ^ 64"
    using one(1) unat_word_ariths(1) [of a "sz - 1"] by (simp add: add_diff_eq)
  show "unat (a + sz - 1) = unat a + unat sz - 1" if "unat a + unat sz - 1 < 2 ^ 64"
    using that e one by simp
  show "a + sz - 1 < a" if w: "\<not> unat a + unat sz - 1 < 2 ^ 64"
  proof -
    have "(unat a + (unat sz - 1)) mod 2 ^ 64 = unat a + (unat sz - 1) - 2 ^ 64"
      using w u one by (simp add: mod_if)
    also have "\<dots> < unat a" using w u one by linarith
    finally show ?thesis using e by (simp add: word_less_nat_alt)
  qed
qed

end
