(* ===== verification/Uvm_Range_Tree.thy ===== *)
theory Uvm_Range_Tree
  imports Uvm_Common "HOL-Library.Tree"
begin

text \<open>
  The range tree of the UVM driver (\<^verbatim>\<open>uvm_range_tree.c\<close>, \<^verbatim>\<open>uvm_range_tree.h\<close>): nodes with inclusive
  address ranges that do not overlap, kept at once in a search tree and in a list in address order.
  A node is a pointer into a store of ranges, because the operations change the ranges of nodes that
  are linked in place.  The rebalancing of the kernel's red-black tree is a parameter that keeps the
  order of the nodes.  The theory shows that every operation keeps the tree and the list in step and
  that each answers as a scan of the sorted list would.
\<close>

section \<open>Nodes and trees\<close>

text \<open>The \<^verbatim>\<open>start\<close> and the inclusive \<^verbatim>\<open>end\<close> of each node.\<close>

type_synonym ranges = "ptr \<Rightarrow> u64 \<times> u64"

abbreviation nstart :: "ranges \<Rightarrow> ptr \<Rightarrow> u64" where "nstart N n \<equiv> fst (N n)"
abbreviation nend :: "ranges \<Rightarrow> ptr \<Rightarrow> u64" where "nend N n \<equiv> snd (N n)"

record uvm_range_tree =
  rb_root :: "ptr tree"
  rt_head :: "ptr list"

text \<open>The two operations of the kernel's red-black trees that move nodes.\<close>

record rb_lib =
  rb_insert_color :: "ptr \<Rightarrow> ptr tree \<Rightarrow> ptr tree"
  rb_erase :: "ptr \<Rightarrow> ptr tree \<Rightarrow> ptr tree"

definition rb_ok :: "rb_lib \<Rightarrow> bool" where
  "rb_ok rb \<longleftrightarrow> (\<forall>n t. inorder (rb_insert_color rb n t) = inorder t)
     \<and> (\<forall>n t. n \<in> set_tree t \<longrightarrow> inorder (rb_erase rb n t) = remove1 n (inorder t))"

section \<open>Operations\<close>

definition range_nodes_overlap :: "ranges \<Rightarrow> ptr \<Rightarrow> ptr \<Rightarrow> bool" where
  "range_nodes_overlap N a b \<longleftrightarrow> uvm_ranges_overlap (nstart N a) (nend N a) (nstart N b) (nend N b)"

fun next_of :: "'a list \<Rightarrow> 'a \<Rightarrow> 'a option" where
  "next_of (x # y # xs) n = (if x = n then Some y else next_of (y # xs) n)"
| "next_of _ n = None"

definition uvm_range_tree_next :: "uvm_range_tree \<Rightarrow> ptr \<Rightarrow> ptr option" where
  "uvm_range_tree_next T n = next_of (rt_head T) n"

definition uvm_range_tree_prev :: "uvm_range_tree \<Rightarrow> ptr \<Rightarrow> ptr option" where
  "uvm_range_tree_prev T n = next_of (rev (rt_head T)) n"

definition uvm_range_tree_empty :: "uvm_range_tree \<Rightarrow> bool" where
  "uvm_range_tree_empty T \<longleftrightarrow> rt_head T = []"

definition uvm_range_tree_last :: "uvm_range_tree \<Rightarrow> ptr option" where
  "uvm_range_tree_last T = (if rt_head T = [] then None else Some (last (rt_head T)))"

definition uvm_range_tree_node_size :: "ranges \<Rightarrow> ptr \<Rightarrow> u64" where
  "uvm_range_tree_node_size N n = nend N n - nstart N n + 1"

text \<open>The walk from the root: the node that holds the address, and the last node passed.\<close>

fun find_walk :: "ranges \<Rightarrow> u64 \<Rightarrow> ptr tree \<Rightarrow> ptr option \<Rightarrow> ptr option \<times> ptr option" where
  "find_walk N addr Leaf par = (None, par)"
| "find_walk N addr (Node l n r) par =
     (if addr < nstart N n then find_walk N addr l (Some n)
      else if addr > nend N n then find_walk N addr r (Some n)
      else (Some n, par))"

definition range_node_find :: "ranges \<Rightarrow> uvm_range_tree \<Rightarrow> u64 \<Rightarrow> ptr option \<times> ptr option \<times> ptr option" where
  "range_node_find N T addr =
     (let (node, par) = find_walk N addr (rb_root T) None;
          nxt = (case node of
              Some n \<Rightarrow> uvm_range_tree_next T n
            | None \<Rightarrow> (case par of
                  None \<Rightarrow> None
                | Some p \<Rightarrow> if nstart N p > addr then Some p else uvm_range_tree_next T p)) in
      (node, par, nxt))"

definition uvm_range_tree_init :: uvm_range_tree where
  "uvm_range_tree_init = \<lparr>rb_root = Leaf, rt_head = []\<rparr>"

text \<open>\<^verbatim>\<open>rb_link_node\<close> makes the new node the left or the right child of a node, without children of its own.\<close>

fun rb_link_left :: "ptr \<Rightarrow> ptr \<Rightarrow> ptr tree \<Rightarrow> ptr tree" where
  "rb_link_left p n Leaf = Leaf"
| "rb_link_left p n (Node l x r) =
     (if x = p then Node (Node Leaf n Leaf) x r else Node (rb_link_left p n l) x (rb_link_left p n r))"

fun rb_link_right :: "ptr \<Rightarrow> ptr \<Rightarrow> ptr tree \<Rightarrow> ptr tree" where
  "rb_link_right p n Leaf = Leaf"
| "rb_link_right p n (Node l x r) =
     (if x = p then Node l x (Node Leaf n Leaf) else Node (rb_link_right p n l) x (rb_link_right p n r))"

fun insert_before :: "'a \<Rightarrow> 'a \<Rightarrow> 'a list \<Rightarrow> 'a list" where
  "insert_before p n [] = []"
| "insert_before p n (x # xs) = (if x = p then n # x # xs else x # insert_before p n xs)"

fun insert_after :: "'a \<Rightarrow> 'a \<Rightarrow> 'a list \<Rightarrow> 'a list" where
  "insert_after p n [] = []"
| "insert_after p n (x # xs) = (if x = p then x # n # xs else x # insert_after p n xs)"

definition uvm_range_tree_add :: "rb_lib \<Rightarrow> ranges \<Rightarrow> ptr \<Rightarrow> uvm_range_tree \<Rightarrow> nv_status \<times> uvm_range_tree" where
  "uvm_range_tree_add rb N n T =
     (case range_node_find N T (nstart N n) of
        (Some _, _, _) \<Rightarrow> (NV_ERR_UVM_ADDRESS_IN_USE, T)
      | (None, None, _) \<Rightarrow>
          (NV_OK, T\<lparr>rb_root := rb_insert_color rb n (Node Leaf n Leaf), rt_head := n # rt_head T\<rparr>)
      | (None, Some p, _) \<Rightarrow>
          if range_nodes_overlap N n p then (NV_ERR_UVM_ADDRESS_IN_USE, T)
          else if nstart N n < nstart N p then
            (NV_OK, T\<lparr>rb_root := rb_insert_color rb n (rb_link_left p n (rb_root T)),
                      rt_head := insert_before p n (rt_head T)\<rparr>)
          else if (case uvm_range_tree_next T p of None \<Rightarrow> False | Some x \<Rightarrow> range_nodes_overlap N n x)
          then (NV_ERR_UVM_ADDRESS_IN_USE, T)
          else
            (NV_OK, T\<lparr>rb_root := rb_insert_color rb n (rb_link_right p n (rb_root T)),
                      rt_head := insert_after p n (rt_head T)\<rparr>))"

definition uvm_range_tree_remove :: "rb_lib \<Rightarrow> ptr \<Rightarrow> uvm_range_tree \<Rightarrow> uvm_range_tree" where
  "uvm_range_tree_remove rb n T = T\<lparr>rb_root := rb_erase rb n (rb_root T), rt_head := remove1 n (rt_head T)\<rparr>"

definition uvm_range_tree_shrink_node :: "ptr \<Rightarrow> u64 \<Rightarrow> u64 \<Rightarrow> ranges \<Rightarrow> ranges" where
  "uvm_range_tree_shrink_node n new_start new_end N = N(n := (new_start, new_end))"

definition uvm_range_tree_split :: "rb_lib \<Rightarrow> ptr \<Rightarrow> ptr \<Rightarrow> ranges \<Rightarrow> uvm_range_tree \<Rightarrow> ranges \<times> nv_status \<times> uvm_range_tree" where
  "uvm_range_tree_split rb existing new N T =
     (let N1 = N(new := (nstart N new, nend N existing));
          N2 = N1(existing := (nstart N1 existing, nstart N1 new - 1)) in
      (N2, uvm_range_tree_add rb N2 new T))"

definition uvm_range_tree_merge_prev :: "rb_lib \<Rightarrow> ptr \<Rightarrow> ranges \<Rightarrow> uvm_range_tree \<Rightarrow> ptr option \<times> ranges \<times> uvm_range_tree" where
  "uvm_range_tree_merge_prev rb n N T =
     (case uvm_range_tree_prev T n of
        None \<Rightarrow> (None, N, T)
      | Some p \<Rightarrow>
          if nend N p \<noteq> nstart N n - 1 then (None, N, T)
          else (Some p, N(n := (nstart N p, nend N n)), uvm_range_tree_remove rb p T))"

definition uvm_range_tree_merge_next :: "rb_lib \<Rightarrow> ptr \<Rightarrow> ranges \<Rightarrow> uvm_range_tree \<Rightarrow> ptr option \<times> ranges \<times> uvm_range_tree" where
  "uvm_range_tree_merge_next rb n N T =
     (case uvm_range_tree_next T n of
        None \<Rightarrow> (None, N, T)
      | Some x \<Rightarrow>
          if nstart N x \<noteq> nend N n + 1 then (None, N, T)
          else (Some x, N(n := (nstart N n, nend N x)), uvm_range_tree_remove rb x T))"

definition uvm_range_tree_find :: "ranges \<Rightarrow> uvm_range_tree \<Rightarrow> u64 \<Rightarrow> ptr option" where
  "uvm_range_tree_find N T addr = fst (range_node_find N T addr)"

definition uvm_range_tree_iter_first :: "ranges \<Rightarrow> uvm_range_tree \<Rightarrow> u64 \<Rightarrow> u64 \<Rightarrow> ptr option" where
  "uvm_range_tree_iter_first N T lo hi =
     (case range_node_find N T lo of
        (Some n, _, _) \<Rightarrow> Some n
      | (None, _, None) \<Rightarrow> None
      | (None, _, Some x) \<Rightarrow> if nstart N x \<le> hi then Some x else None)"

definition uvm_range_tree_iter_next :: "ranges \<Rightarrow> uvm_range_tree \<Rightarrow> ptr \<Rightarrow> u64 \<Rightarrow> ptr option" where
  "uvm_range_tree_iter_next N T n hi =
     (case uvm_range_tree_next T n of None \<Rightarrow> None | Some x \<Rightarrow> if nstart N x \<le> hi then Some x else None)"

definition uvm_range_tree_iter_prev :: "ranges \<Rightarrow> uvm_range_tree \<Rightarrow> ptr \<Rightarrow> u64 \<Rightarrow> ptr option" where
  "uvm_range_tree_iter_prev N T n lo =
     (case uvm_range_tree_prev T n of None \<Rightarrow> None | Some x \<Rightarrow> if nstart N x \<ge> lo then Some x else None)"

text \<open>
  The loop \<^verbatim>\<open>uvm_range_tree_for_each_in\<close>: the nodes it visits, in order.  The fuel is the number of
  nodes, which each step of the loop lowers.
\<close>

fun for_each_loop :: "nat \<Rightarrow> ranges \<Rightarrow> uvm_range_tree \<Rightarrow> ptr option \<Rightarrow> u64 \<Rightarrow> ptr list" where
  "for_each_loop 0 N T node hi = []"
| "for_each_loop (Suc k) N T None hi = []"
| "for_each_loop (Suc k) N T (Some n) hi = n # for_each_loop k N T (uvm_range_tree_iter_next N T n hi) hi"

definition uvm_range_tree_for_each_in :: "ranges \<Rightarrow> uvm_range_tree \<Rightarrow> u64 \<Rightarrow> u64 \<Rightarrow> ptr list" where
  "uvm_range_tree_for_each_in N T lo hi =
     for_each_loop (length (rt_head T)) N T (uvm_range_tree_iter_first N T lo hi) hi"

definition uvm_range_tree_find_hole :: "ranges \<Rightarrow> uvm_range_tree \<Rightarrow> u64 \<Rightarrow> nv_status + u64 \<times> u64" where
  "uvm_range_tree_find_hole N T addr =
     (let lower = (\<lambda>node. case node of None \<Rightarrow> 0 | Some m \<Rightarrow> nend N m + 1) in
      case uvm_range_tree_iter_first N T addr (- 1) of
        Some n \<Rightarrow>
          if nstart N n \<le> addr then Inl NV_ERR_UVM_ADDRESS_IN_USE
          else Inr (lower (uvm_range_tree_prev T n), nstart N n - 1)
      | None \<Rightarrow> Inr (lower (uvm_range_tree_last T), - 1))"

definition uvm_range_tree_find_hole_in :: "ranges \<Rightarrow> uvm_range_tree \<Rightarrow> u64 \<Rightarrow> u64 \<Rightarrow> u64 \<Rightarrow> nv_status + u64 \<times> u64" where
  "uvm_range_tree_find_hole_in N T addr lo hi =
     (case uvm_range_tree_find_hole N T addr of
        Inl e \<Rightarrow> Inl e
      | Inr (s, e) \<Rightarrow> Inr (max s lo, min e hi))"

section \<open>The invariant\<close>

text \<open>Ranges that are not empty, in address order without overlap; the tree and the list hold the same order.\<close>

definition sorted_ranges :: "ranges \<Rightarrow> ptr list \<Rightarrow> bool" where
  "sorted_ranges N xs \<longleftrightarrow> (\<forall>n \<in> set xs. nstart N n \<le> nend N n) \<and> sorted_wrt (\<lambda>a b. nend N a < nstart N b) xs"

definition tree_ok :: "ranges \<Rightarrow> uvm_range_tree \<Rightarrow> bool" where
  "tree_ok N T \<longleftrightarrow> inorder (rb_root T) = rt_head T \<and> sorted_ranges N (rt_head T)"

lemma sorted_ranges_Nil [simp]: "sorted_ranges N []"
  by (simp add: sorted_ranges_def)

lemma sorted_ranges_Cons:
  "sorted_ranges N (n # b) \<longleftrightarrow> sorted_ranges N b \<and> nstart N n \<le> nend N n \<and> (\<forall>m \<in> set b. nend N n < nstart N m)"
  by (auto simp: sorted_ranges_def)

lemma sorted_ranges_split:
  "sorted_ranges N (a @ n # b) \<longleftrightarrow>
     sorted_ranges N a \<and> sorted_ranges N b \<and> nstart N n \<le> nend N n
     \<and> (\<forall>m \<in> set a. nend N m < nstart N n) \<and> (\<forall>m \<in> set b. nend N n < nstart N m)"
  by (fastforce simp: sorted_ranges_def sorted_wrt_append)

lemma sorted_ranges_distinct: "sorted_ranges N xs \<Longrightarrow> distinct xs"
  by (induction xs) (auto simp: sorted_ranges_Cons)

lemma sorted_ranges_mem: "sorted_ranges N xs \<Longrightarrow> n \<in> set xs \<Longrightarrow> nstart N n \<le> nend N n"
  by (simp add: sorted_ranges_def)

lemma sorted_ranges_cong: "(\<And>n. n \<in> set xs \<Longrightarrow> N n = M n) \<Longrightarrow> sorted_ranges N xs = sorted_ranges M xs"
  by (induction xs) (auto simp: sorted_ranges_Cons)

text \<open>Neighbours in the list.\<close>

lemma first_split:
  "List.find P xs = Some n \<Longrightarrow> \<exists>a b. xs = a @ n # b \<and> P n \<and> (\<forall>m \<in> set a. \<not> P m)"
proof (induction xs)
  case (Cons x xs)
  show ?case
  proof (cases "P x")
    case True
    then show ?thesis using Cons.prems by (intro exI [of _ "[]"] exI [of _ xs]) auto
  next
    case False
    with Cons obtain a b where "xs = a @ n # b" "P n" "\<forall>m \<in> set a. \<not> P m" by auto
    with False show ?thesis by (intro exI [of _ "x # a"] exI [of _ b]) auto
  qed
qed simp

lemma next_of_split: "distinct (a @ n # b) \<Longrightarrow> next_of (a @ n # b) n = (case b of [] \<Rightarrow> None | y # _ \<Rightarrow> Some y)"
proof (induction a)
  case Nil
  then show ?case by (cases b) auto
next
  case (Cons x a)
  then show ?case by (cases a) auto
qed

lemma next_split:
  "distinct (a @ n # b) \<Longrightarrow> rt_head T = a @ n # b \<Longrightarrow> uvm_range_tree_next T n = (case b of [] \<Rightarrow> None | y # _ \<Rightarrow> Some y)"
  by (simp add: uvm_range_tree_next_def next_of_split)

lemma prev_split:
  assumes "distinct (a @ n # b)" "rt_head T = a @ n # b"
  shows "uvm_range_tree_prev T n = (if a = [] then None else Some (last a))"
proof -
  have "distinct (rev b @ n # rev a)" using assms(1) by auto
  from next_of_split [OF this] show ?thesis
    using assms(2) by (cases a rule: rev_cases) (simp_all add: uvm_range_tree_prev_def)
qed

lemma insert_before_split: "distinct (a @ p # b) \<Longrightarrow> insert_before p n (a @ p # b) = a @ n # p # b"
  by (induction a) auto

lemma insert_after_split: "distinct (a @ p # b) \<Longrightarrow> insert_after p n (a @ p # b) = a @ p # n # b"
  by (induction a) auto

lemma rb_link_notin: "p \<notin> set_tree t \<Longrightarrow> rb_link_left p n t = t" "p \<notin> set_tree t \<Longrightarrow> rb_link_right p n t = t"
  by (induction t) auto

section \<open>Search\<close>

lemma find_walk_Some:
  "find_walk N addr t par = (Some n, q) \<Longrightarrow> n \<in> set_tree t \<and> nstart N n \<le> addr \<and> addr \<le> nend N n"
  by (induction t arbitrary: par) (auto split: if_splits simp: not_less)

text \<open>
  A walk that finds nothing ends below a neighbour of the address: either the first node above it,
  whose left child is vacant, or the last node below it, whose right child is vacant.
\<close>

lemma find_walk_None:
  assumes "find_walk N addr t par = (None, q)" "t \<noteq> Leaf" "sorted_ranges N (inorder t)"
  shows "\<exists>p a b. q = Some p \<and> inorder t = a @ p # b
    \<and> (addr < nstart N p \<and> (\<forall>m \<in> set a. nend N m < addr) \<and> (\<forall>n. inorder (rb_link_left p n t) = a @ n # p # b)
     \<or> nend N p < addr \<and> (\<forall>m \<in> set b. addr < nstart N m) \<and> (\<forall>n. inorder (rb_link_right p n t) = a @ p # n # b))"
  using assms
proof (induction t arbitrary: par)
  case Leaf
  then show ?case by simp
next
  case (Node l x r)
  note srt = Node.prems(3) [simplified, unfolded sorted_ranges_split]
  have dist: "distinct (inorder l @ x # inorder r)"
    using sorted_ranges_distinct [OF Node.prems(3)] by simp
  consider (lo) "addr < nstart N x" | (hi) "nend N x < addr" "\<not> addr < nstart N x"
    using Node.prems(1) by (auto split: if_splits)
  then show ?case
  proof cases
    case lo
    show ?thesis
    proof (cases "l = Leaf")
      case True
      then show ?thesis using lo Node.prems(1) by (intro exI [of _ x] exI [of _ "[]"] exI [of _ "inorder r"]) auto
    next
      case False
      have "find_walk N addr l (Some x) = (None, q)" using lo Node.prems(1) by simp
      from Node.IH(1) [OF this False] srt obtain p a b where pab: "q = Some p" "inorder l = a @ p # b"
        and c: "addr < nstart N p \<and> (\<forall>m \<in> set a. nend N m < addr) \<and> (\<forall>n. inorder (rb_link_left p n l) = a @ n # p # b)
          \<or> nend N p < addr \<and> (\<forall>m \<in> set b. addr < nstart N m) \<and> (\<forall>n. inorder (rb_link_right p n l) = a @ p # n # b)"
        by blast
      have "p \<noteq> x" "p \<notin> set_tree r" using dist pab(2) by (auto simp flip: set_inorder)
      moreover have "\<forall>m \<in> set (x # inorder r). addr < nstart N m"
        using lo srt by (auto intro: less_le_trans order.strict_trans less_imp_le)
      ultimately show ?thesis
        using pab c by (intro exI [of _ p] exI [of _ a] exI [of _ "b @ x # inorder r"]) (auto simp: rb_link_notin)
    qed
  next
    case hi
    show ?thesis
    proof (cases "r = Leaf")
      case True
      then show ?thesis using hi Node.prems(1) by (intro exI [of _ x] exI [of _ "inorder l"] exI [of _ "[]"]) auto
    next
      case False
      have "find_walk N addr r (Some x) = (None, q)" using hi Node.prems(1) by simp
      from Node.IH(2) [OF this False] srt obtain p a b where pab: "q = Some p" "inorder r = a @ p # b"
        and c: "addr < nstart N p \<and> (\<forall>m \<in> set a. nend N m < addr) \<and> (\<forall>n. inorder (rb_link_left p n r) = a @ n # p # b)
          \<or> nend N p < addr \<and> (\<forall>m \<in> set b. addr < nstart N m) \<and> (\<forall>n. inorder (rb_link_right p n r) = a @ p # n # b)"
        by blast
      have "p \<noteq> x" "p \<notin> set_tree l" using dist pab(2) by (auto simp flip: set_inorder)
      moreover have "\<forall>m \<in> set (inorder l @ [x]). nend N m < addr"
        using hi srt by (auto intro: less_trans le_less_trans less_le_trans)
      ultimately show ?thesis
        using pab c by (intro exI [of _ p] exI [of _ "inorder l @ x # a"] exI [of _ b]) (auto simp: rb_link_notin)
    qed
  qed
qed

definition holds_addr :: "ranges \<Rightarrow> u64 \<Rightarrow> ptr \<Rightarrow> bool" where
  "holds_addr N addr m \<longleftrightarrow> nstart N m \<le> addr \<and> addr \<le> nend N m"

lemma find_unique:
  assumes "sorted_ranges N xs" "n \<in> set xs" "nstart N n \<le> addr" "addr \<le> nend N n"
  shows "List.find (holds_addr N addr) xs = Some n"
  using assms by (induction xs) (auto simp: sorted_ranges_Cons holds_addr_def)

lemma find_append_skip: "\<not> P n \<Longrightarrow> List.find P (a @ n # b) = List.find P (a @ b)"
  by (induction a) auto

lemma find_above:
  assumes "sorted_ranges N (a @ b)" "\<forall>m \<in> set a. \<not> addr < nstart N m" "\<forall>m \<in> set b. addr < nstart N m"
  shows "List.find (\<lambda>m. addr < nstart N m) (a @ b) = (case b of [] \<Rightarrow> None | y # _ \<Rightarrow> Some y)"
  using assms
proof (induction a)
  case Nil
  then show ?case by (cases b) auto
qed (auto simp: sorted_ranges_Cons)

lemma range_node_find_correct:
  assumes ok: "tree_ok N T"
  shows "fst (range_node_find N T addr) = List.find (holds_addr N addr) (rt_head T)"
    and "snd (snd (range_node_find N T addr)) = List.find (\<lambda>m. addr < nstart N m) (rt_head T)"
proof -
  obtain node par where w: "find_walk N addr (rb_root T) None = (node, par)" by fastforce
  have srt: "sorted_ranges N (rt_head T)" and ino: "inorder (rb_root T) = rt_head T"
    using ok by (simp_all add: tree_ok_def)
  have "fst (range_node_find N T addr) = List.find (holds_addr N addr) (rt_head T)
    \<and> snd (snd (range_node_find N T addr)) = List.find (\<lambda>m. addr < nstart N m) (rt_head T)"
  proof (cases node)
    case (Some n)
    with w find_walk_Some [of N addr "rb_root T" None n par]
    have n: "n \<in> set (rt_head T)" "nstart N n \<le> addr" "addr \<le> nend N n"
      by (auto simp flip: ino)
    from split_list [OF n(1)] obtain a b where ab: "rt_head T = a @ n # b" by blast
    note s = srt [unfolded ab sorted_ranges_split]
    have "distinct (a @ n # b)" using sorted_ranges_distinct [OF srt] ab by simp
    note nx = next_split [OF this ab]
    have "\<forall>m \<in> set (a @ [n]). \<not> addr < nstart N m"
    proof
      fix m assume "m \<in> set (a @ [n])"
      then show "\<not> addr < nstart N m"
        using s n sorted_ranges_mem [of N a m] by fastforce
    qed
    moreover have "\<forall>m \<in> set b. addr < nstart N m" using s n by (auto intro: le_less_trans)
    ultimately have "List.find (\<lambda>m. addr < nstart N m) ((a @ [n]) @ b) = (case b of [] \<Rightarrow> None | y # _ \<Rightarrow> Some y)"
      using srt ab by (intro find_above) auto
    with Some w nx find_unique [OF srt n] ab show ?thesis
      by (simp add: range_node_find_def)
  next
    case None
    show ?thesis
    proof (cases "rb_root T = Leaf")
      case True
      then show ?thesis using w ino by (simp add: range_node_find_def flip: ino)
    next
      case False
      from find_walk_None [OF w [unfolded None] False] srt ino obtain p a b where pab: "par = Some p" "rt_head T = a @ p # b"
        and c: "addr < nstart N p \<and> (\<forall>m \<in> set a. nend N m < addr) \<or> nend N p < addr \<and> (\<forall>m \<in> set b. addr < nstart N m)"
        by auto
      note s = srt [unfolded pab sorted_ranges_split]
      have nx: "uvm_range_tree_next T p = (case b of [] \<Rightarrow> None | y # _ \<Rightarrow> Some y)"
        using sorted_ranges_distinct [OF srt] pab by (intro next_split) auto
      from c show ?thesis
      proof
        assume c1: "addr < nstart N p \<and> (\<forall>m \<in> set a. nend N m < addr)"
        have above: "\<forall>m \<in> set (p # b). addr < nstart N m"
          using c1 s by (auto intro: less_trans le_less_trans less_le_trans)
        have below: "\<forall>m \<in> set a. \<not> addr < nstart N m"
          using c1 s sorted_ranges_mem [of N a] by fastforce
        have "\<forall>m \<in> set (a @ p # b). \<not> holds_addr N addr m"
          using above c1 by (fastforce simp: holds_addr_def)
        then have "List.find (holds_addr N addr) (rt_head T) = None"
          by (auto simp: pab find_None_iff)
        with None w pab c1 find_above [OF srt [unfolded pab(2)] below above] show ?thesis
          by (simp add: range_node_find_def)
      next
        assume c2: "nend N p < addr \<and> (\<forall>m \<in> set b. addr < nstart N m)"
        have le: "nstart N m \<le> nend N m \<and> nend N m < addr" if "m \<in> set (a @ [p])" for m
          using that c2 s sorted_ranges_mem [of N a m] by (auto intro: less_trans less_le_trans)
        then have below: "\<forall>m \<in> set (a @ [p]). \<not> addr < nstart N m" by fastforce
        have "\<forall>m \<in> set (a @ p # b). \<not> holds_addr N addr m"
          using le c2 by (fastforce simp: holds_addr_def)
        then have "List.find (holds_addr N addr) (rt_head T) = None"
          by (auto simp: pab find_None_iff)
        with None w pab c2 below find_above [of N "a @ [p]" b addr] srt nx show ?thesis
          by (simp add: range_node_find_def)
      qed
    qed
  qed
  then show "fst (range_node_find N T addr) = List.find (holds_addr N addr) (rt_head T)"
    "snd (snd (range_node_find N T addr)) = List.find (\<lambda>m. addr < nstart N m) (rt_head T)" by auto
qed

section \<open>Adding and removing\<close>

lemma overlap_iff: "range_nodes_overlap N n m \<longleftrightarrow> nstart N m \<le> nend N n \<and> nstart N n \<le> nend N m"
  by (auto simp: range_nodes_overlap_def uvm_ranges_overlap_def)

lemma find_None_parent:
  assumes ok: "tree_ok N T" and f: "range_node_find N T addr = (None, q, x)"
  shows "q = None \<and> rb_root T = Leaf \<and> rt_head T = []
    \<or> (\<exists>p a b. q = Some p \<and> rt_head T = a @ p # b
       \<and> (addr < nstart N p \<and> (\<forall>m \<in> set a. nend N m < addr) \<and> (\<forall>n. inorder (rb_link_left p n (rb_root T)) = a @ n # p # b)
        \<or> nend N p < addr \<and> (\<forall>m \<in> set b. addr < nstart N m) \<and> (\<forall>n. inorder (rb_link_right p n (rb_root T)) = a @ p # n # b)))"
proof -
  have w: "find_walk N addr (rb_root T) None = (None, q)"
    using f by (auto simp: range_node_find_def split: prod.splits)
  show ?thesis
  proof (cases "rb_root T = Leaf")
    case True
    then show ?thesis using w ok by (auto simp: tree_ok_def)
  next
    case False
    from find_walk_None [OF w False] ok show ?thesis by (simp add: tree_ok_def)
  qed
qed

lemma add_below:
  assumes "sorted_ranges N (a @ p # b)" "\<forall>m \<in> set a. nend N m < nstart N n" "nstart N n < nstart N p"
    "nstart N n \<le> nend N n" "\<not> range_nodes_overlap N n p"
  shows "sorted_ranges N (a @ n # p # b)"
proof -
  have np: "nend N n < nstart N p"
    using assms by (auto simp: overlap_iff sorted_ranges_split)
  moreover have "\<forall>m \<in> set b. nend N n < nstart N m"
    using np assms(1) by (auto simp: sorted_ranges_split intro: less_trans le_less_trans less_le_trans)
  ultimately show ?thesis
    using assms by (auto simp: sorted_ranges_split sorted_ranges_Cons)
qed

lemma add_above:
  assumes "sorted_ranges N (a @ p # b)" "nend N p < nstart N n" "\<forall>m \<in> set b. nstart N n < nstart N m"
    "nstart N n \<le> nend N n" "b \<noteq> [] \<longrightarrow> \<not> range_nodes_overlap N n (hd b)"
  shows "sorted_ranges N (a @ p # n # b)"
proof -
  have "\<forall>m \<in> set b. nend N n < nstart N m"
  proof (cases b)
    case (Cons y ys)
    then have "nend N n < nstart N y"
      using assms by (auto simp: overlap_iff sorted_ranges_split sorted_ranges_Cons)
    with Cons assms(1) show ?thesis
      by (auto simp: sorted_ranges_split sorted_ranges_Cons intro: less_trans le_less_trans less_le_trans)
  qed simp
  with assms show ?thesis
    by (auto simp: sorted_ranges_split sorted_ranges_Cons intro: less_trans le_less_trans less_le_trans)
qed

lemma sorted_no_overlap:
  assumes "sorted_ranges N (a @ n # b)" "m \<in> set (a @ b)"
  shows "\<not> range_nodes_overlap N n m"
  using assms by (auto simp: sorted_ranges_split overlap_iff)

lemma add_cases:
  assumes ok: "tree_ok N T" and rb: "rb_ok rb" and ne: "nstart N n \<le> nend N n"
  obtains (in_use) "\<exists>m \<in> set (rt_head T). range_nodes_overlap N n m"
      "uvm_range_tree_add rb N n T = (NV_ERR_UVM_ADDRESS_IN_USE, T)"
    | (added) a b T' where "rt_head T = a @ b" "uvm_range_tree_add rb N n T = (NV_OK, T')" "rt_head T' = a @ n # b"
      "tree_ok N T'"
proof -
  have srt: "sorted_ranges N (rt_head T)" using ok by (simp add: tree_ok_def)
  have col: "inorder (rb_insert_color rb n t) = inorder t" for t using rb by (simp add: rb_ok_def)
  obtain node q x where f: "range_node_find N T (nstart N n) = (node, q, x)" by (cases "range_node_find N T (nstart N n)")
  show ?thesis
  proof (cases node)
    case (Some m)
    with f range_node_find_correct(1) [OF ok, of "nstart N n"]
    have "m \<in> set (rt_head T)" "holds_addr N (nstart N n) m"
      by (auto simp: find_Some_iff2)
    then show ?thesis
      using Some f ne by (intro in_use) (auto simp: overlap_iff holds_addr_def uvm_range_tree_add_def intro: order_trans)
  next
    case None
    from find_None_parent [OF ok f [unfolded None]] show ?thesis
    proof (elim disjE conjE exE, goal_cases empty below above)
      case empty
      then show ?thesis
        using f None ne by (intro added [of "[]" "[]"]) (auto simp: uvm_range_tree_add_def col tree_ok_def sorted_ranges_Cons)
    next
      case (below p a b)
      have d: "distinct (a @ p # b)" using sorted_ranges_distinct [OF srt] below by simp
      show ?thesis
      proof (cases "range_nodes_overlap N n p")
        case True
        then show ?thesis using f None below by (intro in_use) (auto simp: uvm_range_tree_add_def)
      next
        case False
        then show ?thesis
          using f None below srt ne d
          by (intro added [of a "p # b"])
            (auto simp: uvm_range_tree_add_def col tree_ok_def insert_before_split intro!: add_below)
      qed
    next
      case (above p a b)
      have d: "distinct (a @ p # b)" using sorted_ranges_distinct [OF srt] above by simp
      note nx = next_split [OF d above(2)]
      have np: "\<not> range_nodes_overlap N n p" "\<not> nstart N n < nstart N p"
        using above srt by (auto simp: overlap_iff sorted_ranges_split)
      show ?thesis
      proof (cases "b \<noteq> [] \<and> range_nodes_overlap N n (hd b)")
        case True
        then show ?thesis
          using f None above np nx by (intro in_use) (auto simp: uvm_range_tree_add_def split: list.splits)
      next
        case False
        then have s: "sorted_ranges N (a @ p # n # b)"
          using above srt ne by (intro add_above) auto
        let ?T = "T\<lparr>rb_root := rb_insert_color rb n (rb_link_right p n (rb_root T)), rt_head := insert_after p n (rt_head T)\<rparr>"
        have "uvm_range_tree_add rb N n T = (NV_OK, ?T)"
          using f None above(1) np nx False by (cases b) (auto simp: uvm_range_tree_add_def)
        then show ?thesis
          using above s d
          by (intro added [of "a @ [p]" b ?T]) (auto simp: col tree_ok_def insert_after_split)
      qed
    qed
  qed
qed

lemma remove_ok:
  assumes "tree_ok N T" "rb_ok rb" "rt_head T = a @ n # b"
  shows "tree_ok N (uvm_range_tree_remove rb n T)" "rt_head (uvm_range_tree_remove rb n T) = a @ b"
proof -
  have srt: "sorted_ranges N (a @ n # b)" using assms by (simp add: tree_ok_def)
  have "n \<notin> set a" using sorted_ranges_distinct [OF srt] by auto
  then show h: "rt_head (uvm_range_tree_remove rb n T) = a @ b"
    using assms(3) by (simp add: uvm_range_tree_remove_def remove1_append)
  have "n \<in> set_tree (rb_root T)" using assms by (auto simp: tree_ok_def simp flip: set_inorder)
  then have "inorder (rb_root (uvm_range_tree_remove rb n T)) = rt_head (uvm_range_tree_remove rb n T)"
    using assms by (simp add: uvm_range_tree_remove_def rb_ok_def tree_ok_def)
  moreover have "sorted_ranges N (a @ b)"
    using srt by (auto simp: sorted_ranges_def sorted_wrt_append)
  ultimately show "tree_ok N (uvm_range_tree_remove rb n T)" using h by (simp add: tree_ok_def)
qed

section \<open>Iteration\<close>

lemma iter_first_list:
  assumes "sorted_ranges N xs" "lo \<le> hi"
  shows "(case List.find (holds_addr N lo) xs of
            Some n \<Rightarrow> Some n
          | None \<Rightarrow> (case List.find (\<lambda>m. lo < nstart N m) xs of
               None \<Rightarrow> None | Some x \<Rightarrow> if nstart N x \<le> hi then Some x else None))
       = List.find (\<lambda>m. nstart N m \<le> hi \<and> lo \<le> nend N m) xs"
  using assms
proof (induction xs)
  case Nil
  then show ?case by simp
next
  case (Cons x xs)
  have s: "sorted_ranges N xs" "nstart N x \<le> nend N x" "\<forall>m \<in> set xs. nend N x < nstart N m"
    using Cons.prems(1) by (auto simp: sorted_ranges_Cons)
  consider (skip) "nend N x < lo" | (hit) "nstart N x \<le> lo" "lo \<le> nend N x" | (above) "lo < nstart N x"
    by fastforce
  then show ?case
  proof cases
    case skip
    then have "\<not> holds_addr N lo x" "\<not> lo < nstart N x" "\<not> lo \<le> nend N x"
      using s(2) by (auto simp: holds_addr_def)
    then show ?thesis using Cons.IH [OF s(1) Cons.prems(2)] by (simp cong: option.case_cong)
  next
    case hit
    then show ?thesis using Cons.prems(2) by (auto simp: holds_addr_def)
  next
    case above
    have "lo < nstart N m \<and> nstart N x < nstart N m" if "m \<in> set xs" for m
      using s above that by (auto intro: less_trans le_less_trans less_le_trans)
    then have "List.find (holds_addr N lo) xs = None"
      "\<not> nstart N x \<le> hi \<Longrightarrow> List.find (\<lambda>m. nstart N m \<le> hi \<and> lo \<le> nend N m) xs = None"
      by (fastforce simp: find_None_iff holds_addr_def)+
    moreover have "\<not> holds_addr N lo x" "lo \<le> nend N x"
      using above s(2) by (auto simp: holds_addr_def)
    ultimately show ?thesis using above by (simp cong: option.case_cong)
  qed
qed

lemma iter_first_correct:
  assumes "tree_ok N T" "lo \<le> hi"
  shows "uvm_range_tree_iter_first N T lo hi = List.find (\<lambda>m. nstart N m \<le> hi \<and> lo \<le> nend N m) (rt_head T)"
  using iter_first_list [of N "rt_head T" lo hi] range_node_find_correct [OF assms(1), of lo] assms
  by (auto simp: uvm_range_tree_iter_first_def tree_ok_def split: option.splits prod.splits)

lemma for_each_loop_list:
  assumes "distinct (a @ n # b)" "rt_head T = a @ n # b" "length b < k"
  shows "for_each_loop k N T (Some n) hi = n # takeWhile (\<lambda>m. nstart N m \<le> hi) b"
  using assms
proof (induction b arbitrary: a n k)
  case Nil
  from Nil(3) obtain k' where "k = Suc k'" by (cases k) auto
  moreover have "for_each_loop k' N T None hi = []" for k' by (cases k') auto
  ultimately show ?case
    by (simp add: uvm_range_tree_iter_next_def next_split [OF Nil(1,2)])
next
  case (Cons y b)
  from Cons(4) obtain k' where k: "k = Suc k'" "length b < k'" by (cases k) auto
  have N: "for_each_loop k' N T None hi = []" by (cases k') auto
  have "for_each_loop k' N T (Some y) hi = y # takeWhile (\<lambda>m. nstart N m \<le> hi) b"
    by (rule Cons.IH [of "a @ [n]"]) (use Cons(2,3) k in auto)
  with k N show ?case
    by (simp add: uvm_range_tree_iter_next_def next_split [OF Cons(2,3)])
qed

lemma sorted_takeWhile:
  "sorted_ranges N b \<Longrightarrow> takeWhile (\<lambda>m. nstart N m \<le> hi) b = filter (\<lambda>m. nstart N m \<le> hi) b"
proof (induction b)
  case Nil
  then show ?case by simp
next
  case (Cons x b)
  then have "\<not> nstart N x \<le> hi \<Longrightarrow> \<forall>m \<in> set b. \<not> nstart N m \<le> hi"
    by (force simp: sorted_ranges_Cons)
  with Cons show ?case by (auto simp: sorted_ranges_Cons)
qed

lemma for_each_in_correct:
  assumes ok: "tree_ok N T" and le: "lo \<le> hi"
  shows "uvm_range_tree_for_each_in N T lo hi = filter (\<lambda>m. nstart N m \<le> hi \<and> lo \<le> nend N m) (rt_head T)"
proof (cases "uvm_range_tree_iter_first N T lo hi")
  case None
  then have "uvm_range_tree_for_each_in N T lo hi = []"
    unfolding uvm_range_tree_for_each_in_def by (cases "length (rt_head T)") auto
  moreover have "filter (\<lambda>m. nstart N m \<le> hi \<and> lo \<le> nend N m) (rt_head T) = []"
    using None iter_first_correct [OF ok le] by (auto simp: find_None_iff filter_empty_conv)
  ultimately show ?thesis by simp
next
  case (Some n)
  from Some iter_first_correct [OF ok le]
  obtain a b where ab: "rt_head T = a @ n # b" and n: "nstart N n \<le> hi" "lo \<le> nend N n"
    and a: "\<forall>m \<in> set a. \<not> (nstart N m \<le> hi \<and> lo \<le> nend N m)"
    by (metis (mono_tags, lifting) first_split)
  have srt: "sorted_ranges N (a @ n # b)" using ok ab by (simp add: tree_ok_def)
  have "\<forall>m \<in> set b. lo \<le> nend N m"
    using srt n sorted_ranges_mem [of N b] by (fastforce simp: sorted_ranges_split)
  with a n srt show ?thesis
    unfolding uvm_range_tree_for_each_in_def Some ab
    by (subst for_each_loop_list [OF sorted_ranges_distinct [OF srt] ab])
      (auto simp: ab sorted_ranges_split sorted_takeWhile filter_empty_conv cong: filter_cong)
qed

section \<open>Holes, splits and merges\<close>

text \<open>The addresses that the nodes cover.\<close>

definition covered :: "ranges \<Rightarrow> ptr list \<Rightarrow> u64 set" where
  "covered N xs = (\<Union>n \<in> set xs. {nstart N n..nend N n})"

lemma covered_simps [simp]:
  "covered N [] = {}" "covered N (x # xs) = {nstart N x..nend N x} \<union> covered N xs"
  "covered N (xs @ ys) = covered N xs \<union> covered N ys"
  by (auto simp: covered_def)

lemma covered_cong: "(\<And>n. n \<in> set xs \<Longrightarrow> N n = M n) \<Longrightarrow> covered N xs = covered M xs"
  by (simp add: covered_def)

lemma covered_below: "\<forall>m \<in> set a. nend N m < y \<Longrightarrow> x \<in> covered N a \<Longrightarrow> x < y"
  by (auto simp: covered_def intro: le_less_trans)

lemma covered_above: "\<forall>m \<in> set b. y < nstart N m \<Longrightarrow> x \<in> covered N b \<Longrightarrow> y < x"
  by (auto simp: covered_def intro: less_le_trans)

lemma hole_upper:
  fixes x y :: u64
  assumes "x < y"
  shows "x \<le> y - 1" "y - 1 < y" "y - 1 + 1 = y" "z \<le> y - 1 \<longleftrightarrow> z < y"
  using unat_pred [OF assms] assms by (auto simp: word_less_nat_alt word_le_nat_alt)

text \<open>
  A hole around an address that no node covers: nothing in it is covered, and it cannot be extended
  at either end.
\<close>

definition maximal_hole :: "u64 set \<Rightarrow> u64 \<Rightarrow> u64 \<Rightarrow> u64 \<Rightarrow> bool" where
  "maximal_hole C addr lo hi \<longleftrightarrow>
     lo \<le> addr \<and> addr \<le> hi \<and> {lo..hi} \<inter> C = {} \<and> (lo = 0 \<or> lo - 1 \<in> C) \<and> (hi = - 1 \<or> hi + 1 \<in> C)"

definition lower_bound :: "ranges \<Rightarrow> ptr list \<Rightarrow> u64" where
  "lower_bound N a = (if a = [] then 0 else nend N (last a) + 1)"

lemma lower_bound:
  assumes "sorted_ranges N a" "\<forall>m \<in> set a. nend N m < addr"
  shows "lower_bound N a \<le> addr" "x \<in> covered N a \<Longrightarrow> x < lower_bound N a"
    "lower_bound N a = 0 \<or> lower_bound N a - 1 \<in> covered N a"
proof -
  show "lower_bound N a \<le> addr" 
  proof (cases a rule: rev_cases)
    case (snoc b y)
    with unat_succ [of "nend N y" addr] assms(2) show ?thesis
      by (simp add: lower_bound_def word_le_nat_alt word_less_nat_alt)
  qed (simp add: lower_bound_def)
  show "x < lower_bound N a" if "x \<in> covered N a"
  proof (cases a rule: rev_cases)
    case (snoc b y)
    have le: "x \<le> nend N y"
      using that assms(1) snoc covered_below [of b N "nstart N y" x] by (auto simp: sorted_ranges_split)
    with unat_succ [of "nend N y" addr] assms(2) snoc show ?thesis
      by (simp add: lower_bound_def word_le_nat_alt word_less_nat_alt)
  qed (use that in simp)
  show "lower_bound N a = 0 \<or> lower_bound N a - 1 \<in> covered N a"
    using assms(1) by (cases a rule: rev_cases) (auto simp: lower_bound_def sorted_ranges_split)
qed

lemma hole_between:
  assumes "sorted_ranges N (a @ n # b)" "\<forall>m \<in> set a. nend N m < addr" "addr < nstart N n"
  shows "maximal_hole (covered N (a @ n # b)) addr (lower_bound N a) (nstart N n - 1)"
proof -
  note s = assms(1) [unfolded sorted_ranges_split]
  note u = hole_upper [OF assms(3)] and l = lower_bound [OF conjunct1 [OF s] assms(2)]
  have "y < x" if "x \<in> covered N (n # b)" "y \<le> nstart N n - 1" for x y
    using that s u covered_above [of b "nend N n" N x] by (auto intro: less_le_trans le_less_trans)
  then have "{lower_bound N a..nstart N n - 1} \<inter> covered N (a @ n # b) = {}"
    using l(2) by fastforce
  with u l s show ?thesis by (auto simp: maximal_hole_def)
qed

lemma hole_after:
  assumes "sorted_ranges N a" "\<forall>m \<in> set a. nend N m < addr"
  shows "maximal_hole (covered N a) addr (lower_bound N a) (- 1)"
  using lower_bound [OF assms] by (fastforce simp: maximal_hole_def)

lemma find_hole_correct:
  assumes ok: "tree_ok N T"
  shows "addr \<in> covered N (rt_head T) \<Longrightarrow> uvm_range_tree_find_hole N T addr = Inl NV_ERR_UVM_ADDRESS_IN_USE"
    and "addr \<notin> covered N (rt_head T) \<Longrightarrow>
      \<exists>lo hi. uvm_range_tree_find_hole N T addr = Inr (lo, hi) \<and> maximal_hole (covered N (rt_head T)) addr lo hi"
proof -
  have srt: "sorted_ranges N (rt_head T)" using ok by (simp add: tree_ok_def)
  note it = iter_first_correct [OF ok, of addr "- 1", simplified]
  have "(addr \<in> covered N (rt_head T) \<longrightarrow> uvm_range_tree_find_hole N T addr = Inl NV_ERR_UVM_ADDRESS_IN_USE)
    \<and> (addr \<notin> covered N (rt_head T) \<longrightarrow>
      (\<exists>lo hi. uvm_range_tree_find_hole N T addr = Inr (lo, hi) \<and> maximal_hole (covered N (rt_head T)) addr lo hi))"
  proof (cases "List.find (\<lambda>m. addr \<le> nend N m) (rt_head T)")
    case None
    then have below: "\<forall>m \<in> set (rt_head T). nend N m < addr" by (auto simp: find_None_iff not_le)
    moreover have "addr \<notin> covered N (rt_head T)" using covered_below [OF below, of addr] by auto
    ultimately show ?thesis
      using None it hole_after [OF srt below]
      by (auto simp: uvm_range_tree_find_hole_def lower_bound_def uvm_range_tree_last_def)
  next
    case (Some n)
    from first_split [OF this] obtain a b where ab: "rt_head T = a @ n # b" "addr \<le> nend N n"
      and a: "\<forall>m \<in> set a. nend N m < addr" by (auto simp: not_le)
    note pv = prev_split [OF sorted_ranges_distinct [OF srt, unfolded ab(1)] ab(1)]
    show ?thesis
    proof (cases "nstart N n \<le> addr")
      case True
      then show ?thesis using Some it ab by (simp add: uvm_range_tree_find_hole_def)
    next
      case False
      then have "maximal_hole (covered N (rt_head T)) addr (lower_bound N a) (nstart N n - 1)"
        using hole_between [of N a n b addr] srt ab a by simp
      moreover from this have "addr \<notin> covered N (rt_head T)" by (auto simp: maximal_hole_def)
      ultimately show ?thesis
        using False Some it pv by (auto simp: uvm_range_tree_find_hole_def lower_bound_def split: if_splits)
    qed
  qed
  then show "addr \<in> covered N (rt_head T) \<Longrightarrow> uvm_range_tree_find_hole N T addr = Inl NV_ERR_UVM_ADDRESS_IN_USE"
    "addr \<notin> covered N (rt_head T) \<Longrightarrow>
      \<exists>lo hi. uvm_range_tree_find_hole N T addr = Inr (lo, hi) \<and> maximal_hole (covered N (rt_head T)) addr lo hi"
    by blast+
qed

lemma sorted_ranges_unique:
  assumes "sorted_ranges N xs" "sorted_ranges N ys" "set xs = set ys"
  shows "xs = ys"
  using assms
proof (induction xs arbitrary: ys)
  case Nil
  then show ?case by simp
next
  case (Cons x xs)
  then obtain y ys' where ys: "ys = y # ys'" by (cases ys) auto
  have d: "x \<notin> set xs" "y \<notin> set ys'"
    using sorted_ranges_distinct Cons.prems ys by fastforce+
  have "x = y"
  proof (rule ccontr)
    assume "x \<noteq> y"
    with Cons.prems ys have "x \<in> set ys'" "y \<in> set xs" by auto
    with Cons.prems ys have "nend N y < nstart N x" "nend N x < nstart N y" "nstart N x \<le> nend N x" "nstart N y \<le> nend N y"
      by (auto simp: sorted_ranges_Cons)
    then show False by auto
  qed
  moreover have "sorted_ranges N ys'" "sorted_ranges N xs" "set xs = set ys'"
    using Cons.prems ys d \<open>x = y\<close> by (auto simp: sorted_ranges_Cons)
  ultimately show ?case using Cons.IH ys by simp
qed

lemma sorted_fresh: "n \<notin> set xs \<Longrightarrow> sorted_ranges (N(n := v)) xs = sorted_ranges N xs"
  by (rule sorted_ranges_cong) auto

lemma tree_ok_fresh: "n \<notin> set (rt_head T) \<Longrightarrow> tree_ok (N(n := v)) T = tree_ok N T"
  by (simp add: tree_ok_def sorted_fresh)

text \<open>A linked node may grow into the gaps around it, or shrink.\<close>

lemma tree_ok_resize:
  assumes ok: "tree_ok N T" and h: "rt_head T = a @ n # b"
    and lo: "\<forall>m \<in> set a. nend N m < s" and hi: "\<forall>m \<in> set b. e < nstart N m" and le: "s \<le> e"
  shows "tree_ok (N(n := (s, e))) T"
proof -
  have srt: "sorted_ranges N (a @ n # b)" using ok h by (simp add: tree_ok_def)
  have "n \<notin> set a" "n \<notin> set b" using sorted_ranges_distinct [OF srt] by auto
  moreover from this have "\<forall>m \<in> set a. m \<noteq> n" "\<forall>m \<in> set b. m \<noteq> n" by auto
  ultimately show ?thesis using srt lo hi le ok h by (simp add: tree_ok_def sorted_ranges_split sorted_fresh)
qed

lemma split_ok:
  assumes ok: "tree_ok N T" and rb: "rb_ok rb" and h: "rt_head T = a @ x # b" and nw: "n \<notin> set (rt_head T)"
    and inside: "nstart N x < nstart N n" "nstart N n \<le> nend N x"
  shows "\<exists>T'. uvm_range_tree_split rb x n N T
      = (N(n := (nstart N n, nend N x), x := (nstart N x, nstart N n - 1)), NV_OK, T')
    \<and> rt_head T' = a @ x # n # b
    \<and> tree_ok (N(n := (nstart N n, nend N x), x := (nstart N x, nstart N n - 1))) T'"
proof -
  let ?N1 = "N(n := (nstart N n, nend N x))"
  define M where "M = ?N1(x := (nstart N x, nstart N n - 1))"
  let ?N = M
  have srt: "sorted_ranges N (a @ x # b)" using ok h by (simp add: tree_ok_def)
  have d: "x \<noteq> n" "n \<notin> set a" "n \<notin> set b" "x \<notin> set a" "x \<notin> set b"
    using nw h sorted_ranges_distinct [OF srt] by auto
  note p = hole_upper [OF inside(1)]
  have ok1: "tree_ok ?N1 T"
    using ok nw by (simp add: tree_ok_fresh)
  have s: "\<forall>m \<in> set a. nend N m < nstart N x" "\<forall>m \<in> set b. nend N x < nstart N m" using srt by (auto simp: sorted_ranges_split)
  have "nstart N n - 1 < nend N x" using p inside by auto
  have ok2: "tree_ok ?N T"
    unfolding M_def using s d p inside \<open>nstart N n - 1 < nend N x\<close>
    by (intro tree_ok_resize [OF ok1 h]) (auto intro: less_trans)
  have srt2: "sorted_ranges ?N (a @ x # n # b)"
    using ok2 h d s p inside by (auto simp: M_def tree_ok_def sorted_ranges_split sorted_ranges_Cons)
  have ne: "nstart ?N n \<le> nend ?N n" using d inside by (simp add: M_def)
  show ?thesis
  proof (cases rule: add_cases [OF ok2 rb ne])
    case 1
    then have False using sorted_no_overlap [of ?N "a @ [x]" n b] srt2 h by auto
    then show ?thesis ..
  next
    case (2 a' b' T')
    have "set (a' @ b') = set (a @ x # b)" using 2(1) h by simp
    with 2 have "rt_head T' = a @ x # n # b"
      using srt2 by (intro sorted_ranges_unique [of ?N]) (auto simp: tree_ok_def)
    moreover have "uvm_range_tree_split rb x n N T = (M, uvm_range_tree_add rb M n T)"
      using d by (simp add: uvm_range_tree_split_def Let_def M_def)
    ultimately show ?thesis using 2 unfolding M_def [symmetric] by auto
  qed
qed

lemma tree_neighbours:
  assumes "tree_ok N T" "rt_head T = a @ n # b"
  shows "uvm_range_tree_next T n = (case b of [] \<Rightarrow> None | y # _ \<Rightarrow> Some y)"
    "uvm_range_tree_prev T n = (if a = [] then None else Some (last a))"
    "sorted_ranges N (a @ n # b)"
  using assms sorted_ranges_distinct [of N "rt_head T"] next_split [of a n b T] prev_split [of a n b T]
  by (simp_all add: tree_ok_def)

lemma merge_next_ok:
  assumes ok: "tree_ok N T" and rb: "rb_ok rb" and h: "rt_head T = a @ n # b"
  shows "if b \<noteq> [] \<and> nstart N (hd b) = nend N n + 1
    then \<exists>T'. uvm_range_tree_merge_next rb n N T = (Some (hd b), N(n := (nstart N n, nend N (hd b))), T')
      \<and> rt_head T' = a @ n # tl b \<and> tree_ok (N(n := (nstart N n, nend N (hd b)))) T'
    else uvm_range_tree_merge_next rb n N T = (None, N, T)"
proof (cases b)
  case Nil
  then show ?thesis
    using tree_neighbours(1) [OF ok h] by (simp add: uvm_range_tree_merge_next_def)
next
  case (Cons y c)
  have srt: "sorted_ranges N (a @ n # y # c)" using ok h Cons by (simp add: tree_ok_def)
  have nx: "uvm_range_tree_next T n = Some y" using tree_neighbours(1) [OF ok h] Cons by simp
  note r = remove_ok [OF ok rb, of "a @ [n]" y c]
  have "tree_ok (N(n := (nstart N n, nend N y))) (uvm_range_tree_remove rb y T)"
    using r h Cons srt by (intro tree_ok_resize [of N _ a n c]) (auto simp: sorted_ranges_split sorted_ranges_Cons intro: less_imp_le less_le_trans order_trans)
  with Cons nx r h show ?thesis by (auto simp: uvm_range_tree_merge_next_def)
qed

lemma merge_prev_ok:
  assumes ok: "tree_ok N T" and rb: "rb_ok rb" and h: "rt_head T = a @ n # b"
  shows "if a \<noteq> [] \<and> nend N (last a) = nstart N n - 1
    then \<exists>T'. uvm_range_tree_merge_prev rb n N T = (Some (last a), N(n := (nstart N (last a), nend N n)), T')
      \<and> rt_head T' = butlast a @ n # b \<and> tree_ok (N(n := (nstart N (last a), nend N n))) T'
    else uvm_range_tree_merge_prev rb n N T = (None, N, T)"
proof (cases a rule: rev_cases)
  case Nil
  then show ?thesis
    using tree_neighbours(2) [OF ok h] by (simp add: uvm_range_tree_merge_prev_def)
next
  case (snoc c y)
  have srt: "sorted_ranges N (c @ y # n # b)" using ok h snoc by (simp add: tree_ok_def)
  have pv: "uvm_range_tree_prev T n = Some y" using tree_neighbours(2) [OF ok h] snoc by simp
  note r = remove_ok [OF ok rb, of c y "n # b"]
  have "tree_ok (N(n := (nstart N y, nend N n))) (uvm_range_tree_remove rb y T)"
    using r h snoc srt by (intro tree_ok_resize [of N _ c n b]) (auto simp: sorted_ranges_split sorted_ranges_Cons intro: less_imp_le less_le_trans order_trans)
  with snoc pv r h show ?thesis by (auto simp: uvm_range_tree_merge_prev_def)
qed

section \<open>Properties\<close>

text \<open>
  C19.  Adding a node to a well-formed tree succeeds exactly when its range overlaps no node of the tree.
  The tree stays well-formed, and its nodes are the old ones and the new one; a refused node
  changes nothing.
\<close>

theorem range_tree_add_exact:
  assumes "tree_ok N T" "rb_ok rb" "n \<notin> set (rt_head T)" "nstart N n \<le> nend N n"
  shows "let (st, T') = uvm_range_tree_add rb N n T in
    tree_ok N T'
    \<and> (if \<exists>m \<in> set (rt_head T). range_nodes_overlap N n m
       then st = NV_ERR_UVM_ADDRESS_IN_USE \<and> T' = T
       else st = NV_OK \<and> set (rt_head T') = insert n (set (rt_head T))
         \<and> (\<forall>addr. uvm_range_tree_find N T' addr
               = (if nstart N n \<le> addr \<and> addr \<le> nend N n then Some n else uvm_range_tree_find N T addr)))"
proof (cases rule: add_cases [OF assms(1,2,4)])
  case 1
  then show ?thesis using assms(1) by simp
next
  case (2 a b T')
  have srt: "sorted_ranges N (a @ n # b)" using 2 by (simp add: tree_ok_def)
  then have no: "\<not> range_nodes_overlap N n m" if "m \<in> set (rt_head T)" for m
    using that 2 sorted_no_overlap [OF srt, of m] by simp
  have "uvm_range_tree_find N T' addr
    = (if nstart N n \<le> addr \<and> addr \<le> nend N n then Some n else uvm_range_tree_find N T addr)" for addr
  proof -
    have "List.find (holds_addr N addr) (a @ n # b) = (if holds_addr N addr n then Some n else List.find (holds_addr N addr) (a @ b))"
      using find_unique [OF srt, of n addr] by (auto simp: holds_addr_def find_append_skip)
    then show ?thesis
      using range_node_find_correct(1) [OF 2(4), of addr] range_node_find_correct(1) [OF assms(1), of addr] 2
      by (simp add: uvm_range_tree_find_def holds_addr_def)
  qed
  with 2 no show ?thesis by auto
qed

text \<open>
  A query for a hole fails exactly on the addresses that a node covers; on every other address it
  answers with the largest range around the address that no node touches.
\<close>

theorem find_hole_maximal:
  assumes "tree_ok N T"
  shows "case uvm_range_tree_find_hole N T addr of
      Inl e \<Rightarrow> e = NV_ERR_UVM_ADDRESS_IN_USE \<and> addr \<in> covered N (rt_head T)
    | Inr (lo, hi) \<Rightarrow> addr \<notin> covered N (rt_head T) \<and> maximal_hole (covered N (rt_head T)) addr lo hi"
proof (cases "addr \<in> covered N (rt_head T)")
  case True
  then show ?thesis using find_hole_correct(1) [OF assms True] by simp
next
  case False
  then show ?thesis using find_hole_correct(2) [OF assms False] by auto
qed

text \<open>
  Splitting a node and merging its two halves again is the identity on the order of the nodes and on
  every range that is linked; in between the tree is well-formed and covers the same addresses.
\<close>

theorem split_merge_roundtrip:
  assumes "tree_ok N T" "rb_ok rb" "x \<in> set (rt_head T)" "n \<notin> set (rt_head T)"
    "nstart N x < nstart N n" "nstart N n \<le> nend N x"
  shows "case uvm_range_tree_split rb x n N T of (N1, st, T1) \<Rightarrow>
      st = NV_OK \<and> tree_ok N1 T1 \<and> covered N1 (rt_head T1) = covered N (rt_head T)
      \<and> (case uvm_range_tree_merge_next rb x N1 T1 of (m, N2, T2) \<Rightarrow>
           m = Some n \<and> tree_ok N2 T2 \<and> rt_head T2 = rt_head T \<and> (\<forall>y \<in> set (rt_head T). N2 y = N y))"
proof -
  obtain a b where h: "rt_head T = a @ x # b" using split_list [OF assms(3)] by blast
  have srt: "sorted_ranges N (a @ x # b)" using assms(1) h by (simp add: tree_ok_def)
  have d: "x \<noteq> n" "n \<notin> set a" "n \<notin> set b" "x \<notin> set a" "x \<notin> set b"
    using assms(4) h sorted_ranges_distinct [OF srt] by auto
  note p = hole_upper [OF assms(5)]
  define M where "M = N(n := (nstart N n, nend N x), x := (nstart N x, nstart N n - 1))"
  obtain T1 where T1: "uvm_range_tree_split rb x n N T = (M, NV_OK, T1)" "rt_head T1 = a @ x # n # b" "tree_ok M T1"
    using split_ok [OF assms(1,2) h assms(4-6)] unfolding M_def by blast
  have M: "M x = (nstart N x, nstart N n - 1)" "M n = (nstart N n, nend N x)" "\<forall>y \<in> set a \<union> set b. M y = N y"
    using d by (auto simp: M_def)
  have "{nstart N x..nstart N n - 1} \<union> {nstart N n..nend N x} = {nstart N x..nend N x}"
    using p assms(5,6) by (auto simp: p(4) intro: order_trans less_imp_le)
  then have cov: "covered M (rt_head T1) = covered N (rt_head T)"
    using M T1(2) h covered_cong [of a M N] covered_cong [of b M N] by auto
  from merge_next_ok [OF T1(3) assms(2) T1(2)] M p
  obtain T2 where T2: "uvm_range_tree_merge_next rb x M T1 = (Some n, M(x := (nstart N x, nend N x)), T2)"
    "rt_head T2 = a @ x # b" "tree_ok (M(x := (nstart N x, nend N x))) T2"
    by auto
  have "\<forall>y \<in> set (rt_head T). (M(x := (nstart N x, nend N x))) y = N y" using M h by auto
  with T1 T2 cov h show ?thesis by simp
qed

text \<open>The loop over a range visits exactly the nodes that overlap it, each once, in address order.\<close>

theorem for_each_in_exact:
  assumes "tree_ok N T" "lo \<le> hi"
  shows "uvm_range_tree_for_each_in N T lo hi
    = filter (\<lambda>m. uvm_ranges_overlap (nstart N m) (nend N m) lo hi) (rt_head T)"
  using for_each_in_correct [OF assms] by (simp add: uvm_ranges_overlap_def conj_commute cong: filter_cong)

section \<open>Witnesses\<close>

text \<open>A tree library without balancing: erasing rebuilds the tree as a chain.\<close>

fun chain :: "ptr list \<Rightarrow> ptr tree" where
  "chain [] = Leaf"
| "chain (x # xs) = Node Leaf x (chain xs)"

definition plain_rb :: rb_lib where
  "plain_rb = \<lparr>rb_insert_color = \<lambda>n t. t, rb_erase = \<lambda>n t. chain (remove1 n (inorder t))\<rparr>"

lemma inorder_chain: "inorder (chain xs) = xs"
  by (induction xs) auto

lemma plain_rb_ok: "rb_ok plain_rb"
  by (simp add: rb_ok_def plain_rb_def inorder_chain)

definition ex_ranges :: ranges where
  "ex_ranges = (\<lambda>_. (0, 0))(1 := (0x1000, 0x1fff), 2 := (0x4000, 0x7fff), 3 := (0x5000, 0x5fff))"

definition ex_tree :: uvm_range_tree where
  "ex_tree = \<lparr>rb_root = Node Leaf 1 (Node Leaf 2 Leaf), rt_head = [1, 2]\<rparr>"

lemma ex_tree_ok: "tree_ok ex_ranges ex_tree"
  by (simp add: tree_ok_def ex_tree_def ex_ranges_def sorted_ranges_def)

theorem range_tree_add_exact_witness:
  "fst (uvm_range_tree_add plain_rb ex_ranges 3 ex_tree) = NV_ERR_UVM_ADDRESS_IN_USE"
  using range_tree_add_exact [OF ex_tree_ok plain_rb_ok, of 3]
  by (auto simp: ex_tree_def ex_ranges_def range_nodes_overlap_def uvm_ranges_overlap_def split: prod.splits)

theorem find_hole_maximal_witness:
  "uvm_range_tree_find_hole ex_ranges ex_tree 0x3000 = Inr (0x2000, 0x3fff)
   \<and> maximal_hole (covered ex_ranges [1, 2]) 0x3000 0x2000 0x3fff"
proof -
  have "uvm_range_tree_find_hole ex_ranges ex_tree 0x3000 = Inr (0x2000, 0x3fff)" by code_simp
  with find_hole_maximal [OF ex_tree_ok, of "0x3000"] show ?thesis by (simp add: ex_tree_def)
qed

theorem split_merge_roundtrip_witness:
  "\<exists>N1 T1 N2 T2. uvm_range_tree_split plain_rb 2 3 ex_ranges ex_tree = (N1, NV_OK, T1)
    \<and> uvm_range_tree_merge_next plain_rb 2 N1 T1 = (Some 3, N2, T2) \<and> rt_head T2 = [1, 2]"
  using split_merge_roundtrip [OF ex_tree_ok plain_rb_ok, of 2 3]
  by (auto simp: ex_tree_def ex_ranges_def split: prod.splits)

theorem for_each_in_exact_witness:
  "uvm_range_tree_for_each_in ex_ranges ex_tree 0x1800 0x4000 = [1, 2]"
  using for_each_in_exact [OF ex_tree_ok, of "0x1800" "0x4000"]
  by (simp add: ex_tree_def ex_ranges_def uvm_ranges_overlap_def)

end
