(* ===== verification/Uvm_Range_Allocator.thy ===== *)
theory Uvm_Range_Allocator
  imports Uvm_Range_Tree
begin

text \<open>
  The first-fit range allocator of the UVM driver (\<^verbatim>\<open>uvm_range_allocator.c\<close>): the free ranges are the
  nodes of a range tree, and every allocation carries the node that its release puts back.  The
  theory shows that free ranges and allocations partition the managed range in every reachable
  state, that an allocation fails only when no aligned range of its size is free, and that after the
  last release one node covers everything again, as the assertions of \<^verbatim>\<open>uvm_range_allocator_deinit\<close> say.
\<close>

section \<open>State and operations\<close>

record uvm_range_allocator =
  ra_size :: u64
  ra_tree :: uvm_range_tree
  ra_nodes :: ranges

record uvm_range_allocation =
  aligned_start :: u64
  al_node :: "ptr option"

text \<open>\<^verbatim>\<open>uvm_kvmalloc\<close> is an argument: the address of the new node, or nothing.\<close>

definition uvm_range_allocator_init :: "rb_lib \<Rightarrow> ptr option \<Rightarrow> u64 \<Rightarrow> ranges \<Rightarrow> nv_status \<times> uvm_range_allocator" where
  "uvm_range_allocator_init rb mem sz N =
     (case mem of
        None \<Rightarrow> (NV_ERR_NO_MEMORY, \<lparr>ra_size = 0, ra_tree = uvm_range_tree_init, ra_nodes = N\<rparr>)
      | Some n \<Rightarrow>
          let N1 = N(n := (0, sz - 1));
              (st, T) = uvm_range_tree_add rb N1 n uvm_range_tree_init in
          (NV_OK, \<lparr>ra_size = sz, ra_tree = T, ra_nodes = N1\<rparr>))"

definition alloc_fits :: "ranges \<Rightarrow> u64 \<Rightarrow> u64 \<Rightarrow> ptr \<Rightarrow> bool" where
  "alloc_fits N sz alignment n \<longleftrightarrow>
     (let a_start = UVM_ALIGN_UP (nstart N n) alignment;
          a_end = a_start + sz - 1 in
      \<not> (a_start < nstart N n \<or> a_end < a_start) \<and> \<not> a_end > nend N n)"

definition uvm_range_allocator_alloc ::
  "rb_lib \<Rightarrow> ptr option \<Rightarrow> u64 \<Rightarrow> u64 \<Rightarrow> uvm_range_allocator \<Rightarrow> uvm_range_allocation
     \<Rightarrow> nv_status \<times> uvm_range_allocator \<times> uvm_range_allocation" where
  "uvm_range_allocator_alloc rb mem sz align0 ra al =
     (let alignment = (if align0 = 0 then 1 else align0) in
      if sz > ra_size ra then (NV_ERR_UVM_ADDRESS_IN_USE, ra, al)
      else case mem of
        None \<Rightarrow> (NV_ERR_NO_MEMORY, ra, al\<lparr>al_node := None\<rparr>)
      | Some new \<Rightarrow>
          (let N = ra_nodes ra; T = ra_tree ra in
           case List.find (alloc_fits N sz alignment) (uvm_range_tree_for_each_in N T 0 (ra_size ra - sz)) of
             None \<Rightarrow> (NV_ERR_UVM_ADDRESS_IN_USE, ra, al\<lparr>al_node := None\<rparr>)
           | Some n \<Rightarrow>
               let a_start = UVM_ALIGN_UP (nstart N n) alignment;
                   a_end = a_start + sz - 1;
                   N1 = N(new := (nstart N n, a_end));
                   ra' = (if a_end < nend N n
                          then ra\<lparr>ra_nodes := uvm_range_tree_shrink_node n (a_end + 1) (nend N n) N1\<rparr>
                          else ra\<lparr>ra_nodes := N1, ra_tree := uvm_range_tree_remove rb n T\<rparr>) in
               (NV_OK, ra', al\<lparr>aligned_start := a_start, al_node := Some new\<rparr>)))"

definition uvm_range_allocator_free ::
  "rb_lib \<Rightarrow> uvm_range_allocator \<Rightarrow> uvm_range_allocation \<Rightarrow> uvm_range_allocator \<times> uvm_range_allocation" where
  "uvm_range_allocator_free rb ra al =
     (case al_node al of
        None \<Rightarrow> (ra, al)
      | Some n \<Rightarrow>
          let (st, T1) = uvm_range_tree_add rb (ra_nodes ra) n (ra_tree ra);
              (adj1, N2, T2) = uvm_range_tree_merge_prev rb n (ra_nodes ra) T1;
              (adj2, N3, T3) = uvm_range_tree_merge_next rb n N2 T2 in
          (ra\<lparr>ra_tree := T3, ra_nodes := N3\<rparr>, al\<lparr>al_node := None\<rparr>))"

definition uvm_range_allocator_deinit :: "rb_lib \<Rightarrow> uvm_range_allocator \<Rightarrow> bool \<times> uvm_range_allocator" where
  "uvm_range_allocator_deinit rb ra =
     (case uvm_range_tree_iter_first (ra_nodes ra) (ra_tree ra) 0 (ra_size ra - 1) of
        None \<Rightarrow> (False, ra)
      | Some n \<Rightarrow>
          (nstart (ra_nodes ra) n = 0 \<and> nend (ra_nodes ra) n = ra_size ra - 1,
           ra\<lparr>ra_tree := uvm_range_tree_remove rb n (ra_tree ra)\<rparr>))"

section \<open>Fitting\<close>

lemma alloc_fitsD:
  assumes "alloc_fits N sz al n" "pow2 al" "0 < sz"
  defines "a \<equiv> UVM_ALIGN_UP (nstart N n) al" and "e \<equiv> UVM_ALIGN_UP (nstart N n) al + sz - 1"
  shows "nstart N n \<le> a" "a \<le> e" "e \<le> nend N n" "aligned al a" "unat e = unat a + unat sz - 1"
    "aligned al y \<Longrightarrow> nstart N n \<le> y \<Longrightarrow> a \<le> y"
proof -
  show c: "nstart N n \<le> a" "a \<le> e" "e \<le> nend N n"
    using assms(1) by (auto simp: alloc_fits_def Let_def a_def e_def not_less)
  show "aligned al a" "aligned al y \<Longrightarrow> nstart N n \<le> y \<Longrightarrow> a \<le> y"
    using align_up_least(1,2) [OF assms(2)] c(1) by (simp_all add: a_def)
  show "unat e = unat a + unat sz - 1"
    using range_end_nat [OF assms(3), of a] c(2) unfolding a_def e_def not_less [symmetric] by blast
qed

lemma alloc_fitsI:
  assumes "pow2 al" "0 < sz" "aligned al y" "nstart N n \<le> y" "unat y + unat sz - 1 \<le> unat (nend N n)"
  shows "alloc_fits N sz al n"
proof -
  let ?a = "UVM_ALIGN_UP (nstart N n) al"
  have le: "nstart N n \<le> ?a" using align_up_least(3) [OF assms(1) _ assms(3), of "nstart N n"] assms(4) by blast
  have ay: "?a \<le> y" using align_up_least(2) [OF assms(1) le assms(3,4)] .
  have "unat ?a + unat sz - 1 \<le> unat (nend N n)" using ay assms(5) unfolding word_le_nat_alt by linarith
  moreover from this have "unat ?a + unat sz - 1 < 2 ^ 64"
    using unsigned_less [of "nend N n", where 'a = nat] by simp
  moreover note range_end_nat(1) [OF assms(2) this]
  moreover have "0 < unat sz" using assms(2) by (simp add: word_less_nat_alt)
  ultimately show ?thesis using le by (simp add: alloc_fits_def Let_def word_le_nat_alt word_less_nat_alt not_less)
qed

section \<open>The invariant\<close>

text \<open>Free ranges never touch: between two of them lies at least one address that is not free.\<close>

definition gapped :: "ranges \<Rightarrow> ptr list \<Rightarrow> bool" where
  "gapped N xs \<longleftrightarrow> sorted_wrt (\<lambda>x y. nend N x + 1 < nstart N y) xs"

abbreviation alloc_nodes :: "uvm_range_allocation list \<Rightarrow> ptr list" where
  "alloc_nodes As \<equiv> map (the \<circ> al_node) As"

abbreviation node_range :: "ranges \<Rightarrow> ptr \<Rightarrow> u64 set" where
  "node_range N n \<equiv> {nstart N n..nend N n}"

definition allocs_ok :: "ranges \<Rightarrow> uvm_range_allocation list \<Rightarrow> bool" where
  "allocs_ok N As \<longleftrightarrow> distinct (alloc_nodes As)
     \<and> (\<forall>al \<in> set As. al_node al \<noteq> None \<and> aligned_start al \<in> node_range N (the (al_node al)))
     \<and> (\<forall>n \<in> set (alloc_nodes As). \<forall>m \<in> set (alloc_nodes As). n \<noteq> m \<longrightarrow> node_range N n \<inter> node_range N m = {})"

definition ra_inv :: "uvm_range_allocator \<Rightarrow> uvm_range_allocation list \<Rightarrow> bool" where
  "ra_inv ra As \<longleftrightarrow>
     (let N = ra_nodes ra; free = rt_head (ra_tree ra) in
      tree_ok N (ra_tree ra) \<and> gapped N free \<and> allocs_ok N As
      \<and> set (alloc_nodes As) \<inter> set free = {}
      \<and> covered N (alloc_nodes As) \<inter> covered N free = {}
      \<and> covered N (alloc_nodes As) \<union> covered N free = {0..ra_size ra - 1}
      \<and> 0 < ra_size ra)"

lemma gapped_split:
  "gapped N (a @ n # b) \<longleftrightarrow> gapped N (a @ b) \<and> (\<forall>m \<in> set a. nend N m + 1 < nstart N n) \<and> (\<forall>m \<in> set b. nend N n + 1 < nstart N m)"
  by (auto simp: gapped_def sorted_wrt_append)

lemma gapped_cong: "(\<And>n. n \<in> set xs \<Longrightarrow> N n = M n) \<Longrightarrow> gapped N xs = gapped M xs"
  unfolding gapped_def by (induction xs) auto

lemma gapped_fresh: "n \<notin> set xs \<Longrightarrow> gapped (N(n := v)) xs = gapped N xs"
  by (rule gapped_cong) auto

lemma covered_fresh: "n \<notin> set xs \<Longrightarrow> covered (N(n := v)) xs = covered N xs"
  by (rule covered_cong) auto

lemma allocs_ok_cong: "(\<And>n. n \<in> set (alloc_nodes As) \<Longrightarrow> N n = M n) \<Longrightarrow> allocs_ok N As \<Longrightarrow> allocs_ok M As"
  unfolding allocs_ok_def by auto

lemma allocs_ok_fresh: "n \<notin> set (alloc_nodes As) \<Longrightarrow> allocs_ok N As \<Longrightarrow> allocs_ok (N(n := v)) As"
  by (rule allocs_ok_cong [of As N]) auto

lemma sorted_disjoint: "sorted_ranges N (a @ n # b) \<Longrightarrow> covered N (a @ b) \<inter> node_range N n = {}"
  using covered_below [of a N "nstart N n"] covered_above [of b "nend N n" N]
  by (fastforce simp: sorted_ranges_split)

lemma partition_move:
  assumes "A \<inter> (F \<union> D) = {}" "F \<inter> D = {}" "D = L \<union> R" "L \<inter> R = {}"
  shows "(L \<union> A) \<inter> (F \<union> R) = {}" "(L \<union> A) \<union> (F \<union> R) = A \<union> (F \<union> D)"
  using assms by blast+

lemma allocs_ok_Cons:
  assumes "allocs_ok N As" "n \<notin> set (alloc_nodes As)" "al_node al = Some n" "aligned_start al \<in> node_range N n"
    "node_range N n \<inter> covered N (alloc_nodes As) = {}"
  shows "allocs_ok N (al # As)"
proof -
  have "node_range N n \<inter> node_range N m = {}" if "m \<in> set (alloc_nodes As)" for m
  proof -
    have "node_range N m \<subseteq> covered N (alloc_nodes As)" unfolding covered_def using that by blast
    with assms(5) show ?thesis by blast
  qed
  with assms show ?thesis by (auto simp: allocs_ok_def Int_commute)
qed

lemma cut_range:
  fixes s e t :: u64
  assumes "s \<le> e" "e < t"
  shows "{s..t} = {s..e} \<union> {e + 1..t}" "{s..e} \<inter> {e + 1..t} = {}" "e + 1 \<le> t"
  using assms unat_succ [OF assms(2)] by (auto simp: word_less_nat_alt word_le_nat_alt)

text \<open>The part of an allocation that takes a node: what remains of the node stays free, the rest is the allocation.\<close>

lemma alloc_take:
  assumes inv: "ra_inv ra As" and rb: "rb_ok rb" and n: "n \<in> set (rt_head (ra_tree ra))"
    and fresh: "new \<notin> set (rt_head (ra_tree ra))" "new \<notin> set (alloc_nodes As)"
    and e: "nstart (ra_nodes ra) n \<le> a" "a \<le> e" "e \<le> nend (ra_nodes ra) n"
    and al: "al_node al = Some new" "aligned_start al = a"
  defines "N1 \<equiv> (ra_nodes ra)(new := (nstart (ra_nodes ra) n, e))"
  shows "ra_inv (if e < nend (ra_nodes ra) n
      then ra\<lparr>ra_nodes := uvm_range_tree_shrink_node n (e + 1) (nend (ra_nodes ra) n) N1\<rparr>
      else ra\<lparr>ra_nodes := N1, ra_tree := uvm_range_tree_remove rb n (ra_tree ra)\<rparr>) (al # As)"
proof -
  let ?N = "ra_nodes ra" and ?T = "ra_tree ra"
  note i = inv [unfolded ra_inv_def Let_def]
  from split_list [OF n] obtain xs ys where h: "rt_head ?T = xs @ n # ys" by blast
  have srt: "sorted_ranges ?N (xs @ n # ys)" using i h by (simp add: tree_ok_def)
  have d: "n \<notin> set xs" "n \<notin> set ys" "n \<noteq> new" "new \<notin> set xs" "new \<notin> set ys" "n \<notin> set (alloc_nodes As)"
    using sorted_ranges_distinct [OF srt] fresh h i by auto
  have F: "covered ?N (xs @ ys) \<inter> node_range ?N n = {}" by (rule sorted_disjoint [OF srt])
  have A: "covered ?N (alloc_nodes As) \<inter> (covered ?N (xs @ ys) \<union> node_range ?N n) = {}"
    using i h by auto
  have ok1: "tree_ok N1 ?T" unfolding N1_def using i fresh by (simp add: tree_ok_fresh)
  have N1: "N1 new = (nstart ?N n, e)" "N1 n = ?N n" "covered N1 (xs @ ys) = covered ?N (xs @ ys)"
    "covered N1 (alloc_nodes As) = covered ?N (alloc_nodes As)" "gapped N1 (xs @ n # ys)"
    using d i h fresh by (simp_all add: N1_def covered_fresh gapped_fresh)
  have cT: "covered ?N (rt_head ?T) = covered ?N (xs @ ys) \<union> node_range ?N n" unfolding h by auto
  have dj: "set (alloc_nodes (al # As)) \<inter> set (rt_head ?T) = {}" using i fresh al by auto
  have okA: "allocs_ok N1 As" unfolding N1_def using i fresh(2) by (intro allocs_ok_fresh) simp_all
  show ?thesis
  proof (cases "e < nend ?N n")
    case True
    define M where "M = uvm_range_tree_shrink_node n (e + 1) (nend ?N n) N1"
    have M: "M n = (e + 1, nend ?N n)" "M new = (nstart ?N n, e)" "M = N1(n := (e + 1, nend ?N n))"
      using d N1 by (simp_all add: M_def uvm_range_tree_shrink_node_def)
    have cM: "covered M (xs @ ys) = covered ?N (xs @ ys)" "covered M (alloc_nodes As) = covered ?N (alloc_nodes As)"
      using d N1 unfolding M(3) by (simp_all add: covered_fresh del: covered_simps)
    have se: "nstart ?N n \<le> e" using e by simp
    note cut = cut_range [OF se True]
    note pm = partition_move [OF A F cut(1,2)]
    have okM: "tree_ok M ?T"
      unfolding M(3) using srt N1 d e se cut(3) True
      by (intro tree_ok_resize [OF ok1 h])
        (auto simp: N1_def sorted_ranges_split word_less_nat_alt word_le_nat_alt unat_succ [OF True])
    have gM: "gapped M (xs @ n # ys)"
      using N1(5) M d se True unat_succ [OF True] unfolding gapped_split
      by (auto simp: gapped_fresh [of n] word_less_nat_alt word_le_nat_alt N1_def)
    have "node_range M new \<inter> covered M (alloc_nodes As) = {}"
      using A cut(1) unfolding cM M(2) by auto
    moreover have "allocs_ok M As" unfolding M(3) using okA d(6) by (intro allocs_ok_fresh)
    ultimately have aM: "allocs_ok M (al # As)"
      using fresh al e M(2) by (intro allocs_ok_Cons [of M As new]) simp_all
    have cH: "covered M (rt_head ?T) = covered ?N (xs @ ys) \<union> {e + 1..nend ?N n}"
      using cM(1) M(1) unfolding h by auto
    have cL: "covered M (alloc_nodes (al # As)) = {nstart ?N n..e} \<union> covered ?N (alloc_nodes As)"
      using cM(2) M(2) al by simp
    have "ra_inv (ra\<lparr>ra_nodes := M\<rparr>) (al # As)"
      using okM gM [folded h] aM pm dj cT i unfolding ra_inv_def Let_def by (simp add: cH cL del: list.map covered_simps)
    with True show ?thesis by (simp add: M_def)
  next
    case False
    then have en: "e = nend ?N n" using e by simp
    note r = remove_ok [OF ok1 rb h] and pm = partition_move [OF A F Un_empty_right [symmetric] Int_empty_right, unfolded Un_empty_right]
    have "allocs_ok N1 (al # As)"
      using okA fresh A N1 al e en by (intro allocs_ok_Cons [of N1 As new]) auto
    moreover have "covered N1 (alloc_nodes (al # As)) = node_range ?N n \<union> covered ?N (alloc_nodes As)"
      using N1 en al by simp
    moreover have "set (alloc_nodes (al # As)) \<inter> set (xs @ ys) = {}" using dj h by auto
    ultimately have "ra_inv (ra\<lparr>ra_nodes := N1, ra_tree := uvm_range_tree_remove rb n ?T\<rparr>) (al # As)"
      using r N1(3,5) pm cT i unfolding ra_inv_def Let_def by (simp add: gapped_split del: list.map covered_simps)
    with False show ?thesis by simp
  qed
qed

section \<open>Release\<close>

lemma gap_step:
  fixes e s :: u64
  assumes "e < s" "e + 1 \<noteq> s"
  shows "e + 1 < s"
  using assms unat_succ [OF assms(1)] by (auto simp: word_less_nat_alt word_unat_eq_iff)

lemma merge_prev_step:
  assumes ok: "tree_ok N T" and rb: "rb_ok rb" and h: "rt_head T = a @ n # b" and g: "gapped N (a @ b)"
  obtains adj T2 a' s where
    "uvm_range_tree_merge_prev rb n N T = (adj, N(n := (s, nend N n)), T2)"
    "rt_head T2 = a' @ n # b" "tree_ok (N(n := (s, nend N n))) T2" "set a' \<subseteq> set a"
    "gapped N (a' @ b)" "\<forall>m \<in> set a'. nend N m + 1 < s"
    "covered (N(n := (s, nend N n))) (a' @ n # b) = covered N (a @ n # b)"
proof -
  note m = merge_prev_ok [OF ok rb h]
  have srt: "sorted_ranges N (a @ n # b)" using ok h by (simp add: tree_ok_def)
  have d: "n \<notin> set a" "n \<notin> set b" using sorted_ranges_distinct [OF srt] by auto
  show ?thesis
  proof (cases "a \<noteq> [] \<and> nend N (last a) = nstart N n - 1")
    case True
    then obtain c p where a: "a = c @ [p]" by (cases a rule: rev_cases) auto
    have lt: "nstart N p \<le> nend N p" "nend N p < nstart N n" "nstart N n \<le> nend N n"
      using srt a by (auto simp: sorted_ranges_split sorted_ranges_Cons)
    have "nend N p + 1 = nstart N n" using True a by simp
    with cut_range(1) [of "nstart N p" "nend N p" "nend N n"] lt
    have j: "{nstart N p..nend N n} = node_range N p \<union> node_range N n" by auto
    have "covered (N(n := (nstart N p, nend N n))) (c @ n # b) = covered N (a @ n # b)"
      using d a j by (auto simp: covered_fresh)
    moreover have "gapped N (c @ b)" "\<forall>m \<in> set c. nend N m + 1 < nstart N p"
      using g a by (auto simp: gapped_split)
    ultimately show ?thesis using m True a by (auto intro: that [of "Some p" "nstart N p" _ c])
  next
    case False
    have "nend N m + 1 < nstart N n" if "m \<in> set a" for m
    proof (cases "m = last a")
      case True
      then have "nend N m < nstart N n" "nend N m + 1 \<noteq> nstart N n"
        using that srt False by (auto simp: sorted_ranges_split eq_diff_eq)
      then show ?thesis by (rule gap_step)
    next
      case neq: False
      from that neq obtain c p where a: "a = c @ [p]" "m \<in> set c" by (cases a rule: rev_cases) auto
      then have "nend N m + 1 < nstart N p" "nstart N p \<le> nend N p" "nend N p < nstart N n"
        using g srt by (auto simp: gapped_split sorted_ranges_split sorted_ranges_Cons)
      then show ?thesis by auto
    qed
    with m False g ok h show ?thesis by (intro that [of None "nstart N n" T a]) auto
  qed
qed

lemma merge_next_step:
  assumes ok: "tree_ok N T" and rb: "rb_ok rb" and h: "rt_head T = a @ n # b" and g: "gapped N (a @ b)"
  obtains adj T2 b' e where
    "uvm_range_tree_merge_next rb n N T = (adj, N(n := (nstart N n, e)), T2)"
    "rt_head T2 = a @ n # b'" "tree_ok (N(n := (nstart N n, e))) T2" "set b' \<subseteq> set b"
    "gapped N (a @ b')" "\<forall>m \<in> set b'. e + 1 < nstart N m"
    "covered (N(n := (nstart N n, e))) (a @ n # b') = covered N (a @ n # b)"
proof -
  note m = merge_next_ok [OF ok rb h]
  have srt: "sorted_ranges N (a @ n # b)" using ok h by (simp add: tree_ok_def)
  have d: "n \<notin> set a" "n \<notin> set b" using sorted_ranges_distinct [OF srt] by auto
  show ?thesis
  proof (cases "b \<noteq> [] \<and> nstart N (hd b) = nend N n + 1")
    case True
    then obtain p c where b: "b = p # c" by (cases b) auto
    have lt: "nstart N n \<le> nend N n" "nend N n < nend N p" "nstart N p \<le> nend N p"
      using srt b by (auto simp: sorted_ranges_split sorted_ranges_Cons intro: less_le_trans)
    with cut_range(1) [of "nstart N n" "nend N n" "nend N p"] True b
    have j: "{nstart N n..nend N p} = node_range N n \<union> node_range N p" by auto
    have "covered (N(n := (nstart N n, nend N p))) (a @ n # c) = covered N (a @ n # b)"
      using d b j by (auto simp: covered_fresh)
    moreover have "gapped N (a @ c)" "\<forall>m \<in> set c. nend N p + 1 < nstart N m"
      using g b by (auto simp: gapped_split)
    ultimately show ?thesis using m True b by (auto intro: that [of "Some p" "nend N p" _ c])
  next
    case False
    have "nend N n + 1 < nstart N m" if "m \<in> set b" for m
    proof -
      from that obtain p c where b: "b = p # c" by (cases b) auto
      have "nend N n < nstart N p" "nend N n + 1 \<noteq> nstart N p" using srt False b by (auto simp: sorted_ranges_split)
      then have p: "nend N n + 1 < nstart N p" by (rule gap_step)
      have "m = p \<or> nstart N p < nstart N m"
        using that b srt by (auto simp: sorted_ranges_split sorted_ranges_Cons intro: le_less_trans)
      with p show ?thesis by auto
    qed
    with m False g ok h show ?thesis by (intro that [of None "nend N n" T b]) auto
  qed
qed

lemma merge_both:
  assumes ok: "tree_ok N T" and rb: "rb_ok rb" and h: "rt_head T = a @ n # b" and g: "gapped N (a @ b)"
  obtains adj N2 T2 adj2 N3 T3 where
    "uvm_range_tree_merge_prev rb n N T = (adj, N2, T2)" "uvm_range_tree_merge_next rb n N2 T2 = (adj2, N3, T3)"
    "tree_ok N3 T3" "gapped N3 (rt_head T3)" "covered N3 (rt_head T3) = covered N (a @ n # b)"
    "set (rt_head T3) \<subseteq> set (a @ n # b)" "\<forall>x. x \<noteq> n \<longrightarrow> N3 x = N x"
proof -
  have d0: "n \<notin> set a" "n \<notin> set b"
    using ok h sorted_ranges_distinct [of N "rt_head T"] by (auto simp: tree_ok_def)
  obtain adj T2 a' s where
    p: "uvm_range_tree_merge_prev rb n N T = (adj, N(n := (s, nend N n)), T2)"
    "rt_head T2 = a' @ n # b" "tree_ok (N(n := (s, nend N n))) T2" "set a' \<subseteq> set a"
    "gapped N (a' @ b)" "\<forall>m \<in> set a'. nend N m + 1 < s"
    "covered (N(n := (s, nend N n))) (a' @ n # b) = covered N (a @ n # b)"
    by (rule merge_prev_step [OF ok rb h g])
  define N2 where "N2 = N(n := (s, nend N n))"
  have fr: "n \<notin> set (a' @ b)" using p(4) d0 by auto
  have g2: "gapped N2 (a' @ b)" unfolding N2_def using p(5) fr by (simp add: gapped_fresh)
  obtain adj2 T3 b' e where
    q: "uvm_range_tree_merge_next rb n N2 T2 = (adj2, N2(n := (nstart N2 n, e)), T3)"
    "rt_head T3 = a' @ n # b'" "tree_ok (N2(n := (nstart N2 n, e))) T3" "set b' \<subseteq> set b"
    "gapped N2 (a' @ b')" "\<forall>m \<in> set b'. e + 1 < nstart N2 m"
    "covered (N2(n := (nstart N2 n, e))) (a' @ n # b') = covered N2 (a' @ n # b)"
    by (rule merge_next_step [OF p(3) [folded N2_def] rb p(2) g2])
  have "n \<notin> set a'" "n \<notin> set b'" using fr q(4) by auto
  then have "gapped (N2(n := (nstart N2 n, e))) (rt_head T3)"
    using q(2,5,6) p(6) by (auto simp: gapped_split gapped_fresh N2_def)
  then show ?thesis
    using p(1,4,7) q(1,2,3,4,7) by (intro that [of adj N2 T2 adj2 "N2(n := (nstart N2 n, e))" T3]) (auto simp: N2_def)
qed

lemma overlap_common:
  assumes "range_nodes_overlap N n m" "nstart N n \<le> nend N n" "nstart N m \<le> nend N m"
  shows "node_range N n \<inter> node_range N m \<noteq> {}"
proof -
  have "max (nstart N n) (nstart N m) \<in> node_range N n \<inter> node_range N m"
    using assms by (auto simp: overlap_iff max_def)
  then show ?thesis by blast
qed

lemma allocs_ok_remove:
  assumes "allocs_ok N As" "al \<in> set As"
  shows "allocs_ok N (remove1 al As)" "the (al_node al) \<notin> set (alloc_nodes (remove1 al As))"
    "covered N (alloc_nodes As) = node_range N (the (al_node al)) \<union> covered N (alloc_nodes (remove1 al As))"
    "node_range N (the (al_node al)) \<inter> covered N (alloc_nodes (remove1 al As)) = {}"
proof -
  from split_list_first [OF assms(2)] obtain xs ys where x: "As = xs @ al # ys" "al \<notin> set xs" by blast
  then have r: "remove1 al As = xs @ ys" by (simp add: remove1_append)
  show ni: "the (al_node al) \<notin> set (alloc_nodes (remove1 al As))"
    using assms(1) x r by (auto simp: allocs_ok_def)
  show "allocs_ok N (remove1 al As)" using assms(1) x r by (auto simp: allocs_ok_def)
  show "covered N (alloc_nodes As) = node_range N (the (al_node al)) \<union> covered N (alloc_nodes (remove1 al As))"
    using x r by auto
  have "node_range N (the (al_node al)) \<inter> node_range N m = {}" if "m \<in> set (alloc_nodes (remove1 al As))" for m
  proof -
    have "m \<in> set (alloc_nodes As)" "the (al_node al) \<in> set (alloc_nodes As)" using that x r by auto
    moreover have "m \<noteq> the (al_node al)" using that ni by blast
    ultimately show ?thesis using assms(1) unfolding allocs_ok_def by blast
  qed
  then show "node_range N (the (al_node al)) \<inter> covered N (alloc_nodes (remove1 al As)) = {}"
    unfolding covered_def by blast
qed

lemma free_step:
  assumes inv: "ra_inv ra As" and rb: "rb_ok rb" and al: "al \<in> set As"
  shows "ra_inv (fst (uvm_range_allocator_free rb ra al)) (remove1 al As)"
    "ra_size (fst (uvm_range_allocator_free rb ra al)) = ra_size ra"
proof -
  let ?N = "ra_nodes ra" and ?T = "ra_tree ra"
  note i = inv [unfolded ra_inv_def Let_def]
  obtain n where n: "al_node al = Some n" using i al by (auto simp: allocs_ok_def)
  have okA: "allocs_ok ?N As" and okT: "tree_ok ?N ?T" using i by blast+
  note r = allocs_ok_remove [OF okA al, unfolded n option.sel]
  have ne: "nstart ?N n \<le> nend ?N n" using i al n by (fastforce simp: allocs_ok_def)
  have nF: "n \<notin> set (rt_head ?T)" using i al n by (force simp: image_iff)
  have disj: "node_range ?N n \<inter> covered ?N (rt_head ?T) = {}" using i r(3) by blast
  have no: "\<not> range_nodes_overlap ?N n m" if "m \<in> set (rt_head ?T)" for m
  proof
    assume "range_nodes_overlap ?N n m"
    then have "node_range ?N n \<inter> node_range ?N m \<noteq> {}"
      using that i ne sorted_ranges_mem by (intro overlap_common) (auto simp: tree_ok_def)
    moreover have "node_range ?N m \<subseteq> covered ?N (rt_head ?T)" unfolding covered_def using that by blast
    ultimately show False using disj by blast
  qed
  obtain a b T1 where T1: "rt_head ?T = a @ b" "uvm_range_tree_add rb ?N n ?T = (NV_OK, T1)" "rt_head T1 = a @ n # b" "tree_ok ?N T1"
  proof (cases rule: add_cases [OF okT rb ne])
    case 1
    with no show ?thesis by blast
  next
    case (2 a b T1)
    with that show ?thesis by blast
  qed
  have g: "gapped ?N (a @ b)" using i T1 by simp
  obtain adj N2 T2 adj2 N3 T3 where
    m: "uvm_range_tree_merge_prev rb n ?N T1 = (adj, N2, T2)" "uvm_range_tree_merge_next rb n N2 T2 = (adj2, N3, T3)"
    "tree_ok N3 T3" "gapped N3 (rt_head T3)" "covered N3 (rt_head T3) = covered ?N (a @ n # b)"
    "set (rt_head T3) \<subseteq> set (a @ n # b)" "\<forall>x. x \<noteq> n \<longrightarrow> N3 x = ?N x"
    by (rule merge_both [OF T1(4) rb T1(3) g])
  have f: "fst (uvm_range_allocator_free rb ra al) = ra\<lparr>ra_tree := T3, ra_nodes := N3\<rparr>"
    using n T1(2) m(1,2) by (simp add: uvm_range_allocator_free_def)
  have same: "N3 x = ?N x" if "x \<in> set (alloc_nodes (remove1 al As))" for x
  proof -
    have "x \<noteq> n" using that r(2) by blast
    then show ?thesis using m(7) by blast
  qed
  have c3: "covered N3 (alloc_nodes (remove1 al As)) = covered ?N (alloc_nodes (remove1 al As))"
    using same by (rule covered_cong)
  have "allocs_ok N3 (remove1 al As)"
    using r(1) by (rule allocs_ok_cong [rotated]) (simp only: same)
  moreover have "set (alloc_nodes (remove1 al As)) \<inter> set (rt_head T3) = {}"
  proof -
    have "set (alloc_nodes (remove1 al As)) \<subseteq> set (alloc_nodes As)" using set_remove1_subset by fastforce
    moreover have "set (rt_head T3) \<subseteq> insert n (set (rt_head ?T))" using m(6) T1(1) by auto
    ultimately show ?thesis using i r(2) by blast
  qed
  moreover have "covered N3 (rt_head T3) = node_range ?N n \<union> covered ?N (rt_head ?T)"
    using m(5) T1(1) by auto
  ultimately show "ra_inv (fst (uvm_range_allocator_free rb ra al)) (remove1 al As)"
    unfolding f ra_inv_def Let_def using i m(3,4) r(3,4) c3 by auto
  show "ra_size (fst (uvm_range_allocator_free rb ra al)) = ra_size ra" unfolding f by simp
qed

section \<open>First fit\<close>

lemma free_run_in_node:
  assumes "sorted_ranges N xs" "gapped N xs" "y \<le> e" "{y..e} \<subseteq> covered N xs"
  shows "\<exists>n \<in> set xs. nstart N n \<le> y \<and> e \<le> nend N n"
proof -
  have "y \<in> covered N xs" using assms(3,4) by auto
  then obtain n where n: "n \<in> set xs" "nstart N n \<le> y" "y \<le> nend N n" by (auto simp: covered_def)
  show ?thesis
  proof (cases "e \<le> nend N n")
    case True
    with n show ?thesis by blast
  next
    case False
    then have lt: "nend N n < e" by simp
    note u = unat_succ [OF lt]
    have z: "nend N n < nend N n + 1" "nend N n + 1 \<in> {y..e}"
      using u lt n(3) by (auto simp: word_less_nat_alt word_le_nat_alt)
    then obtain m where m: "m \<in> set xs" "nstart N m \<le> nend N n + 1" "nend N n + 1 \<le> nend N m"
      using assms(4) by (auto simp: covered_def)
    from split_list [OF n(1)] obtain a b where ab: "xs = a @ n # b" by blast
    have "nend N n + 1 < nstart N m" if "m \<in> set b" using that assms(2) ab by (simp add: gapped_split)
    moreover have "nend N m \<le> nend N n" if "m \<in> set a"
      using that assms(1) ab by (auto simp: sorted_ranges_split)
    moreover have "m \<in> set a \<or> m = n \<or> m \<in> set b" using m(1) ab by auto
    ultimately have False using m z by auto
    then show ?thesis ..
  qed
qed

text \<open>A run of \<open>sz\<close> free addresses at an aligned address \<open>y\<close>.\<close>

definition free_run :: "uvm_range_allocator \<Rightarrow> u64 \<Rightarrow> u64 \<Rightarrow> u64 \<Rightarrow> bool" where
  "free_run ra sz alignment y \<longleftrightarrow>
     aligned alignment y \<and> y \<le> y + sz - 1 \<and> {y..y + sz - 1} \<subseteq> covered (ra_nodes ra) (rt_head (ra_tree ra))"

lemma free_run_iff:
  assumes inv: "ra_inv ra As" and sz: "0 < sz"
  shows "free_run ra sz al y \<longleftrightarrow> aligned al y \<and>
    (\<exists>n \<in> set (rt_head (ra_tree ra)). nstart (ra_nodes ra) n \<le> y \<and> unat y + unat sz - 1 \<le> unat (nend (ra_nodes ra) n))"
    (is "_ \<longleftrightarrow> _ \<and> ?ex")
proof -
  let ?N = "ra_nodes ra" and ?F = "rt_head (ra_tree ra)"
  have srt: "sorted_ranges ?N ?F" "gapped ?N ?F" using inv by (auto simp: ra_inv_def Let_def tree_ok_def)
  note e = range_end_nat [OF sz, of y]
  have "y \<le> y + sz - 1 \<and> {y..y + sz - 1} \<subseteq> covered ?N ?F \<longleftrightarrow> ?ex"
  proof
    assume a: "y \<le> y + sz - 1 \<and> {y..y + sz - 1} \<subseteq> covered ?N ?F"
    then obtain n where "n \<in> set ?F" "nstart ?N n \<le> y" "y + sz - 1 \<le> nend ?N n"
      using free_run_in_node [OF srt] by blast
    moreover have "unat (y + sz - 1) = unat y + unat sz - 1" using a e not_less by blast
    ultimately show ?ex unfolding word_le_nat_alt by auto
  next
    assume ?ex
    then obtain n where n: "n \<in> set ?F" "nstart ?N n \<le> y" "unat y + unat sz - 1 \<le> unat (nend ?N n)" by blast
    have "unat y + unat sz - 1 < 2 ^ 64" using n(3) unsigned_less [of "nend ?N n", where 'a = nat] by simp
    note e1 = e(1) [OF this]
    have "0 < unat sz" using sz by (simp add: word_less_nat_alt)
    then have le: "y \<le> y + sz - 1" "y + sz - 1 \<le> nend ?N n" using e1 n(3) by (auto simp: word_le_nat_alt)
    then have "{y..y + sz - 1} \<subseteq> node_range ?N n" using n(2) by auto
    with le n(1) show "y \<le> y + sz - 1 \<and> {y..y + sz - 1} \<subseteq> covered ?N ?F" unfolding covered_def by blast
  qed
  then show ?thesis by (auto simp: free_run_def)
qed

lemma free_bound:
  assumes "ra_inv ra As" "n \<in> set (rt_head (ra_tree ra))"
  shows "nend (ra_nodes ra) n \<le> ra_size ra - 1" "unat (ra_size ra - 1) = unat (ra_size ra) - 1"
proof -
  have "nend (ra_nodes ra) n \<in> covered (ra_nodes ra) (rt_head (ra_tree ra))"
    using assms sorted_ranges_mem by (force simp: ra_inv_def Let_def tree_ok_def covered_def)
  then show "nend (ra_nodes ra) n \<le> ra_size ra - 1"
    using assms(1) unfolding ra_inv_def Let_def by fastforce
  show "unat (ra_size ra - 1) = unat (ra_size ra) - 1"
    using assms(1) unat_pred [of 0 "ra_size ra"] by (simp add: ra_inv_def Let_def)
qed

lemma alloc_search:
  assumes inv: "ra_inv ra As" and sz: "0 < sz" "sz \<le> ra_size ra" and al: "pow2 al"
  defines "r \<equiv> List.find (alloc_fits (ra_nodes ra) sz al) (uvm_range_tree_for_each_in (ra_nodes ra) (ra_tree ra) 0 (ra_size ra - sz))"
  shows "r = None \<Longrightarrow> \<not> free_run ra sz al y"
    and "r = Some n \<Longrightarrow> n \<in> set (rt_head (ra_tree ra)) \<and> alloc_fits (ra_nodes ra) sz al n"
    and "r = Some n \<Longrightarrow> free_run ra sz al y \<Longrightarrow> UVM_ALIGN_UP (nstart (ra_nodes ra) n) al \<le> y"
proof -
  let ?N = "ra_nodes ra" and ?F = "rt_head (ra_tree ra)"
  have ok: "tree_ok ?N (ra_tree ra)" and srt: "sorted_ranges ?N ?F" using inv by (auto simp: ra_inv_def Let_def tree_ok_def)
  define L where "L = filter (\<lambda>m. nstart ?N m \<le> ra_size ra - sz) ?F"
  have fe: "uvm_range_tree_for_each_in ?N (ra_tree ra) 0 (ra_size ra - sz) = L"
    using for_each_in_correct [OF ok, of 0 "ra_size ra - sz"] by (simp add: L_def)
  have run: "\<exists>m \<in> set L. alloc_fits ?N sz al m \<and> nstart ?N m \<le> y" if fr: "free_run ra sz al y"
  proof -
    from fr obtain m where m: "aligned al y" "m \<in> set ?F" "nstart ?N m \<le> y" "unat y + unat sz - 1 \<le> unat (nend ?N m)"
      using free_run_iff [OF inv sz(1)] by blast
    have s0: "0 < unat sz" using sz(1) by (simp add: word_less_nat_alt)
    have "unat y + unat sz \<le> unat (ra_size ra)"
      using free_bound [OF inv m(2)] m(4) s0 sz(2) unfolding word_le_nat_alt by linarith
    then have "y \<le> ra_size ra - sz" using unat_sub_le [OF sz(2)] by (simp add: word_le_nat_alt)
    with m show ?thesis using alloc_fitsI [OF al sz(1) m(1), of ?N m] by (auto simp: L_def)
  qed
  show "\<not> free_run ra sz al y" if "r = None"
    using that run unfolding r_def fe find_None_iff by blast
  have sp: "\<exists>a b. L = a @ n # b \<and> alloc_fits ?N sz al n \<and> (\<forall>m \<in> set a. \<not> alloc_fits ?N sz al m)" if "r = Some n"
    using that unfolding r_def fe by (rule first_split)
  show mem: "n \<in> set ?F \<and> alloc_fits ?N sz al n" if "r = Some n"
  proof -
    from sp [OF that] have "n \<in> set L" "alloc_fits ?N sz al n" by auto
    then show ?thesis by (simp add: L_def)
  qed
  show "UVM_ALIGN_UP (nstart ?N n) al \<le> y" if rn: "r = Some n" and fr: "free_run ra sz al y"
  proof -
    from sp [OF rn] obtain a b where ab: "L = a @ n # b" "\<forall>m \<in> set a. \<not> alloc_fits ?N sz al m" by blast
    from run [OF fr] obtain m where m: "m \<in> set L" "alloc_fits ?N sz al m" "nstart ?N m \<le> y" by blast
    note n = alloc_fitsD [OF conjunct2 [OF mem [OF rn]] al sz(1)]
    have "sorted_ranges ?N L" using srt unfolding L_def sorted_ranges_def by (auto intro: sorted_wrt_filter)
    then have "nend ?N n < nstart ?N m" if "m \<in> set b" using ab(1) that by (simp add: sorted_ranges_split)
    moreover have "m = n \<or> m \<in> set b" using m ab by auto
    ultimately show ?thesis using n(1,2,3,6) m(3) fr unfolding free_run_def by (meson le_less_trans less_imp_le order_trans)
  qed
qed

section \<open>Histories\<close>

abbreviation eff_align :: "u64 \<Rightarrow> u64" where
  "eff_align a \<equiv> (if a = 0 then 1 else a)"

definition fresh_node :: "ptr option \<Rightarrow> uvm_range_allocator \<Rightarrow> uvm_range_allocation list \<Rightarrow> bool" where
  "fresh_node mem ra As \<longleftrightarrow> (\<forall>n. mem = Some n \<longrightarrow> n \<notin> set (rt_head (ra_tree ra)) \<and> n \<notin> set (alloc_nodes As))"

lemma alloc_cases:
  assumes inv: "ra_inv ra As" and rb: "rb_ok rb" and sz: "0 < sz" and al: "pow2 (eff_align align0)"
    and fresh: "fresh_node mem ra As"
  obtains (ok) new ra' al' where
      "uvm_range_allocator_alloc rb mem sz align0 ra al0 = (NV_OK, ra', al')" "ra_inv ra' (al' # As)" "mem = Some new"
      "ra_size ra' = ra_size ra" "free_run ra sz (eff_align align0) (aligned_start al')"
      "\<And>y. free_run ra sz (eff_align align0) y \<Longrightarrow> aligned_start al' \<le> y"
      "nend (ra_nodes ra') (the (al_node al')) = aligned_start al' + sz - 1"
    | (full) al' where
      "uvm_range_allocator_alloc rb mem sz align0 ra al0 = (NV_ERR_UVM_ADDRESS_IN_USE, ra, al')"
      "\<And>y. \<not> free_run ra sz (eff_align align0) y"
    | (nomem) al' where
      "uvm_range_allocator_alloc rb mem sz align0 ra al0 = (NV_ERR_NO_MEMORY, ra, al')" "mem = None"
proof (cases "sz > ra_size ra")
  case True
  have "\<not> free_run ra sz (eff_align align0) y" for y
  proof
    assume "free_run ra sz (eff_align align0) y"
    then obtain n where n: "n \<in> set (rt_head (ra_tree ra))" "unat y + unat sz - 1 \<le> unat (nend (ra_nodes ra) n)"
      using free_run_iff [OF inv sz] by blast
    have "0 < unat (ra_size ra)" using inv by (simp add: ra_inv_def Let_def word_less_nat_alt)
    with free_bound [OF inv n(1)] n(2) True show False unfolding word_le_nat_alt word_less_nat_alt by linarith
  qed
  then show ?thesis using True by (intro full) (auto simp: uvm_range_allocator_alloc_def)
next
  case le: False
  show ?thesis
  proof (cases mem)
    case None
    then show ?thesis using le by (intro nomem) (auto simp: uvm_range_allocator_alloc_def)
  next
    case (Some new)
    let ?N = "ra_nodes ra" and ?A = "eff_align align0"
    have le': "sz \<le> ra_size ra" using le by simp
    note s = alloc_search [OF inv sz le' al]
    define r where "r = List.find (alloc_fits ?N sz ?A) (uvm_range_tree_for_each_in ?N (ra_tree ra) 0 (ra_size ra - sz))"
    show ?thesis
    proof (cases r)
      case None
      then show ?thesis
        using le Some s(1) by (intro full) (auto simp: uvm_range_allocator_alloc_def Let_def r_def)
    next
      case r: (Some n)
      have n: "n \<in> set (rt_head (ra_tree ra))" "alloc_fits ?N sz ?A n" using s(2) r by (auto simp: r_def)
      note f = alloc_fitsD [OF n(2) al sz]
      let ?a = "UVM_ALIGN_UP (nstart ?N n) ?A"
      let ?al = "al0\<lparr>aligned_start := ?a, al_node := Some new\<rparr>" and ?N1 = "?N(new := (nstart ?N n, ?a + sz - 1))"
      let ?ra = "if ?a + sz - 1 < nend ?N n
        then ra\<lparr>ra_nodes := uvm_range_tree_shrink_node n (?a + sz - 1 + 1) (nend ?N n) ?N1\<rparr>
        else ra\<lparr>ra_nodes := ?N1, ra_tree := uvm_range_tree_remove rb n (ra_tree ra)\<rparr>"
      have fr: "new \<notin> set (rt_head (ra_tree ra))" "new \<notin> set (alloc_nodes As)"
        using fresh Some by (auto simp: fresh_node_def)
      have "uvm_range_allocator_alloc rb mem sz align0 ra al0 = (NV_OK, ?ra, ?al)"
        using le Some r unfolding r_def by (simp add: uvm_range_allocator_alloc_def Let_def)
      moreover have "ra_inv ?ra (?al # As)"
        by (rule alloc_take [OF inv rb n(1) fr f(1-3)]) simp_all
      moreover have "free_run ra sz ?A ?a"
      proof -
        have "{?a..?a + sz - 1} \<subseteq> node_range ?N n" using f(1-3) by auto
        then show ?thesis using f(2,4) n(1) unfolding free_run_def covered_def by blast
      qed
      moreover have "nend (ra_nodes ?ra) new = ?a + sz - 1"
        using fr(1) n(1) by (auto simp: uvm_range_tree_shrink_node_def)
      ultimately show ?thesis
        using s(3) r Some by (intro ok [of ?ra ?al new]) (auto simp: r_def)
    qed
  qed
qed

text \<open>The states that a history of allocations and releases reaches, with the allocations outstanding.\<close>

inductive ra_reach :: "rb_lib \<Rightarrow> u64 \<Rightarrow> uvm_range_allocator \<Rightarrow> uvm_range_allocation list \<Rightarrow> bool" for rb tot where
  init: "0 < tot \<Longrightarrow> uvm_range_allocator_init rb (Some n) tot N = (NV_OK, ra) \<Longrightarrow> ra_reach rb tot ra []"
| alloc: "ra_reach rb tot ra As \<Longrightarrow> 0 < sz \<Longrightarrow> pow2 (eff_align al) \<Longrightarrow> fresh_node mem ra As
    \<Longrightarrow> uvm_range_allocator_alloc rb mem sz al ra a0 = (NV_OK, ra', a) \<Longrightarrow> ra_reach rb tot ra' (a # As)"
| alloc_fails: "ra_reach rb tot ra As \<Longrightarrow> 0 < sz \<Longrightarrow> pow2 (eff_align al) \<Longrightarrow> fresh_node mem ra As
    \<Longrightarrow> uvm_range_allocator_alloc rb mem sz al ra a0 = (st, ra', a) \<Longrightarrow> st \<noteq> NV_OK \<Longrightarrow> ra_reach rb tot ra' As"
| free: "ra_reach rb tot ra As \<Longrightarrow> a \<in> set As \<Longrightarrow> uvm_range_allocator_free rb ra a = (ra', a')
    \<Longrightarrow> ra_reach rb tot ra' (remove1 a As)"

lemma init_inv:
  assumes "0 < tot" "rb_ok rb" "uvm_range_allocator_init rb (Some n) tot N = (NV_OK, ra)"
  shows "ra_inv ra [] \<and> ra_size ra = tot"
  using assms
  by (auto simp: uvm_range_allocator_init_def uvm_range_tree_add_def range_node_find_def uvm_range_tree_init_def
      ra_inv_def Let_def tree_ok_def rb_ok_def sorted_ranges_Cons gapped_def allocs_ok_def)

lemma reach_inv:
  assumes "ra_reach rb tot ra As" "rb_ok rb"
  shows "ra_inv ra As \<and> ra_size ra = tot"
  using assms
proof induction
  case (init n N ra)
  then show ?case using init_inv by blast
next
  case (alloc ra As sz al mem a0 ra' a)
  then have inv: "ra_inv ra As" by blast
  show ?case
    by (cases rule: alloc_cases [OF inv alloc.prems alloc.hyps(2,3,4), of a0]) (use alloc in auto)
next
  case (alloc_fails ra As sz al mem a0 st ra' a)
  then have inv: "ra_inv ra As" by blast
  show ?case
    by (cases rule: alloc_cases [OF inv alloc_fails.prems alloc_fails.hyps(2,3,4), of a0]) (use alloc_fails in auto)
next
  case (free ra As a ra' a')
  then show ?case using free_step [of ra As rb a] by simp
qed

section \<open>Properties\<close>

text \<open>
  C20.  After every history of allocations and releases, the outstanding allocations and the free ranges
  partition the managed range: no two allocations share an address, none is free, every address is
  in one of them, and free ranges are merged as far as they can be.
\<close>

theorem range_allocator_partition:
  assumes "rb_ok rb" "ra_reach rb tot ra As"
  shows "let N = ra_nodes ra; free = rt_head (ra_tree ra) in
    tree_ok N (ra_tree ra) \<and> allocs_ok N As
    \<and> covered N (alloc_nodes As) \<inter> covered N free = {}
    \<and> covered N (alloc_nodes As) \<union> covered N free = {0..tot - 1}
    \<and> gapped N free"
  using reach_inv [OF assms(2,1)] by (simp add: ra_inv_def Let_def)

text \<open>
  C21.  In every reachable state an allocation with memory for its node succeeds exactly when some aligned
  run of the requested size is free; it then returns the lowest such run, whatever the size and the
  alignment, with no error from wrap-around at the top of the address space.
\<close>

theorem range_alloc_first_fit:
  assumes "rb_ok rb" "ra_reach rb tot ra As" "0 < sz" "pow2 (eff_align al)" "fresh_node (Some new) ra As"
  shows "case uvm_range_allocator_alloc rb (Some new) sz al ra a0 of (st, ra', a) \<Rightarrow>
    (st = NV_OK \<longleftrightarrow> (\<exists>y. free_run ra sz (eff_align al) y))
    \<and> (st = NV_OK \<longrightarrow> free_run ra sz (eff_align al) (aligned_start a)
         \<and> (\<forall>y. free_run ra sz (eff_align al) y \<longrightarrow> aligned_start a \<le> y))
    \<and> (st \<noteq> NV_OK \<longrightarrow> st = NV_ERR_UVM_ADDRESS_IN_USE \<and> ra' = ra)"
proof -
  have inv: "ra_inv ra As" using reach_inv [OF assms(2,1)] by simp
  show ?thesis
    by (cases rule: alloc_cases [OF inv assms(1,3,4,5), of a0]) auto
qed

text \<open>
  When every allocation has been released, the assertions of \<^verbatim>\<open>uvm_range_allocator_deinit\<close> hold: the
  tree is one node that covers the whole range, and removing it empties the tree.
\<close>

theorem range_allocator_deinit_ok:
  assumes "rb_ok rb" "ra_reach rb tot ra []"
  shows "case uvm_range_allocator_deinit rb ra of (asserts, ra') \<Rightarrow> asserts \<and> uvm_range_tree_empty (ra_tree ra')"
proof -
  let ?N = "ra_nodes ra" and ?F = "rt_head (ra_tree ra)"
  have inv: "ra_inv ra []" using reach_inv [OF assms(2,1)] by simp
  note i = inv [unfolded ra_inv_def Let_def, simplified]
  have srt: "sorted_ranges ?N ?F" and ok: "tree_ok ?N (ra_tree ra)" using i by (auto simp: tree_ok_def)
  have cov: "covered ?N ?F = {0..ra_size ra - 1}" using i by simp
  from free_run_in_node [OF srt, of 0 "ra_size ra - 1"] i cov
  obtain n where n: "n \<in> set ?F" "nstart ?N n = 0" "ra_size ra - 1 \<le> nend ?N n" by auto
  have e: "nend ?N n = ra_size ra - 1" using free_bound(1) [OF inv n(1)] n(3) by simp
  have only: "?F = [n]"
  proof -
    from split_list [OF n(1)] obtain a b where ab: "?F = a @ n # b" by blast
    have "a = []" using srt n(2) unfolding ab sorted_ranges_split by (cases a) auto
    moreover have "b = []"
    proof (rule ccontr)
      assume "b \<noteq> []"
      then obtain m where m: "m \<in> set b" by (cases b) auto
      then have "nend ?N n < nstart ?N m" "nstart ?N m \<le> nend ?N m"
        using srt sorted_ranges_mem [of ?N b m] unfolding ab sorted_ranges_split by auto
      with free_bound(1) [OF inv, of m] m ab e show False by auto
    qed
    ultimately show ?thesis using ab by simp
  qed
  have "uvm_range_tree_iter_first ?N (ra_tree ra) 0 (ra_size ra - 1) = Some n"
    using iter_first_correct [OF ok, of 0 "ra_size ra - 1"] only n by simp
  then show ?thesis
    using n(2) e only by (simp add: uvm_range_allocator_deinit_def uvm_range_tree_empty_def uvm_range_tree_remove_def)
qed

section \<open>Witnesses\<close>

definition ex_ra :: uvm_range_allocator where
  "ex_ra = snd (uvm_range_allocator_init plain_rb (Some 1) 0x10000 (\<lambda>_. (0, 0)))"

definition ex_alloc :: "nv_status \<times> uvm_range_allocator \<times> uvm_range_allocation" where
  "ex_alloc = uvm_range_allocator_alloc plain_rb (Some 2) 0x1800 0x1000 ex_ra \<lparr>aligned_start = 0, al_node = None\<rparr>"

lemma ex_reach0: "ra_reach plain_rb 0x10000 ex_ra []"
  by (rule ra_reach.init [of _ _ 1 "\<lambda>_. (0, 0)"])
    (simp_all add: ex_ra_def uvm_range_allocator_init_def Let_def split: prod.splits)

lemma ex_pow2: "pow2 (eff_align 0x1000)"
  unfolding pow2_def by (rule exI [of _ 12]) simp

lemma ex_fresh: "fresh_node (Some 2) ex_ra []"
  by (simp add: fresh_node_def) code_simp

lemma ex_reach: "ra_reach plain_rb 0x10000 (fst (snd ex_alloc)) [snd (snd ex_alloc)]"
proof (rule ra_reach.alloc [OF ex_reach0 _ ex_pow2 ex_fresh])
  show "(0 :: u64) < 0x1800" by simp
  have "fst ex_alloc = NV_OK" by code_simp
  then show "uvm_range_allocator_alloc plain_rb (Some 2) 0x1800 0x1000 ex_ra \<lparr>aligned_start = 0, al_node = None\<rparr>
      = (NV_OK, fst (snd ex_alloc), snd (snd ex_alloc))"
    by (simp add: ex_alloc_def prod_eq_iff)
qed

theorem range_allocator_partition_witness:
  "covered (ra_nodes (fst (snd ex_alloc))) (alloc_nodes [snd (snd ex_alloc)])
     \<union> covered (ra_nodes (fst (snd ex_alloc))) (rt_head (ra_tree (fst (snd ex_alloc)))) = {0..0xffff}"
  using range_allocator_partition [OF plain_rb_ok ex_reach] by (simp add: Let_def)

theorem range_alloc_first_fit_witness:
  "\<exists>ra' a. uvm_range_allocator_alloc plain_rb (Some 2) 0x1800 0x1000 ex_ra \<lparr>aligned_start = 0, al_node = None\<rparr> = (NV_OK, ra', a)
    \<and> free_run ex_ra 0x1800 0x1000 (aligned_start a)"
proof -
  have ok: "fst ex_alloc = NV_OK" by code_simp
  have "(0 :: u64) < 0x1800" by simp
  from range_alloc_first_fit [OF plain_rb_ok ex_reach0 this ex_pow2 ex_fresh, of "\<lparr>aligned_start = 0, al_node = None\<rparr>"] ok
  show ?thesis unfolding ex_alloc_def by (auto split: prod.splits)
qed

theorem range_allocator_deinit_ok_witness:
  "fst (uvm_range_allocator_deinit plain_rb (fst (uvm_range_allocator_free plain_rb (fst (snd ex_alloc)) (snd (snd ex_alloc)))))"
proof -
  have "ra_reach plain_rb 0x10000 (fst (uvm_range_allocator_free plain_rb (fst (snd ex_alloc)) (snd (snd ex_alloc))))
    (remove1 (snd (snd ex_alloc)) [snd (snd ex_alloc)])"
    by (rule ra_reach.free [OF ex_reach, where a' = "snd (uvm_range_allocator_free plain_rb (fst (snd ex_alloc)) (snd (snd ex_alloc)))"])
      simp_all
  then have "ra_reach plain_rb 0x10000 (fst (uvm_range_allocator_free plain_rb (fst (snd ex_alloc)) (snd (snd ex_alloc)))) []"
    by simp
  from range_allocator_deinit_ok [OF plain_rb_ok this] show ?thesis by (simp add: split_beta)
qed

end
