(* ===== verification/Uvm_Semaphore.thy ===== *)
theory Uvm_Semaphore
  imports Uvm_Common
begin

text \<open>
  GPU semaphores of the UVM driver (\<^verbatim>\<open>uvm_gpu_semaphore.c\<close>): the pool that hands out 32-bit
  semaphores from pages with a bitmap of free ones, the canaries that a debug build leaves in freed
  semaphores, the encrypted payloads of confidential computing, and the tracking semaphore that
  extends a 32-bit payload to a 64-bit value.  The theory shows that the pool never hands out a
  semaphore twice and keeps its count, that canaries stall pending acquires, that a decrypted payload
  comes from a consistent snapshot, and that the 64-bit value follows the counter of the GPU.
\<close>

section \<open>Pools and pages\<close>

text \<open>
  The build and the machine: whether this is a debug build, whether confidential computing is on,
  and \<^verbatim>\<open>UVM_SEMAPHORE_COUNT_PER_PAGE\<close>, which depends on the size of a page.
\<close>

record sem_config =
  cf_debug :: bool
  conf_computing_enabled :: bool
  COUNT_PER_PAGE :: nat

datatype uvm_aperture = UVM_APERTURE_SYS | UVM_APERTURE_VID

record sem_page =
  pg_id :: ptr
  pg_payloads :: "u32 list"
  pg_notifiers :: "u32 list"
  free_semaphores :: "bool list"

record sem_pool =
  sp_pages :: "sem_page list"
  sp_aperture :: uvm_aperture
  free_semaphores_count :: u32

record gpu_semaphore =
  se_page :: "ptr option"
  se_index :: nat
  cached_payload :: u32
  last_pushed_notifier :: u32
  last_observed_notifier :: u32

definition gpu_semaphore_pool_is_secure :: "sem_config \<Rightarrow> sem_pool \<Rightarrow> bool" where
  "gpu_semaphore_pool_is_secure cf pool \<longleftrightarrow> conf_computing_enabled cf \<and> sp_aperture pool = UVM_APERTURE_VID"

abbreviation (input) CANARY_BASE :: u32 where "CANARY_BASE \<equiv> 0x0badc0de"
abbreviation (input) CANARY_MASK :: u32 where "CANARY_MASK \<equiv> 0xf0000000"

definition make_canary :: "u32 \<Rightarrow> u32" where
  "make_canary payload =
     (let prev_quadrant = payload - push_bit 30 1 in (prev_quadrant AND CANARY_MASK) OR CANARY_BASE)"

definition is_canary :: "u32 \<Rightarrow> bool" where
  "is_canary val \<longleftrightarrow> val AND NOT CANARY_MASK = CANARY_BASE"

definition semaphore_uses_canary :: "sem_config \<Rightarrow> sem_pool \<Rightarrow> bool" where
  "semaphore_uses_canary cf pool \<longleftrightarrow> \<not> gpu_semaphore_pool_is_secure cf pool \<and> cf_debug cf"

text \<open>What the system answers to one allocation of a page: the structure, its buffers and their contents.\<close>

record page_env =
  pe_page :: "ptr option"
  pe_buffers :: nv_status
  pe_memory :: "u32 list"
  pe_notifiers :: "u32 list"

definition pool_alloc_page :: "sem_config \<Rightarrow> page_env \<Rightarrow> sem_pool \<Rightarrow> nv_status \<times> sem_pool" where
  "pool_alloc_page cf env pool =
     (case pe_page env of
        None \<Rightarrow> (NV_ERR_NO_MEMORY, pool)
      | Some pid \<Rightarrow>
          if pe_buffers env \<noteq> NV_OK then (pe_buffers env, pool)
          else
            let payloads = (if semaphore_uses_canary cf pool then replicate (COUNT_PER_PAGE cf) (make_canary 0) else pe_memory env);
                page = \<lparr>pg_id = pid, pg_payloads = payloads, pg_notifiers = pe_notifiers env,
                        free_semaphores = replicate (COUNT_PER_PAGE cf) True\<rparr> in
            (NV_OK, pool\<lparr>sp_pages := page # sp_pages pool,
               free_semaphores_count := free_semaphores_count pool + of_nat (COUNT_PER_PAGE cf)\<rparr>))"

text \<open>The assertions of \<^verbatim>\<open>pool_free_page\<close> are its first result.\<close>

definition pool_free_page :: "sem_config \<Rightarrow> sem_page \<Rightarrow> sem_pool \<Rightarrow> bool \<times> sem_pool" where
  "pool_free_page cf page pool =
     ((\<forall>b \<in> set (free_semaphores page). b)
        \<and> free_semaphores_count pool \<ge> of_nat (COUNT_PER_PAGE cf)
        \<and> (semaphore_uses_canary cf pool \<longrightarrow> (\<forall>v \<in> set (pg_payloads page). is_canary v)),
      pool\<lparr>free_semaphores_count := free_semaphores_count pool - of_nat (COUNT_PER_PAGE cf),
           sp_pages := filter (\<lambda>p. pg_id p \<noteq> pg_id page) (sp_pages pool)\<rparr>)"

definition upd_page :: "ptr \<Rightarrow> (sem_page \<Rightarrow> sem_page) \<Rightarrow> sem_pool \<Rightarrow> sem_pool" where
  "upd_page pid f pool = pool\<lparr>sp_pages := map (\<lambda>p. if pg_id p = pid then f p else p) (sp_pages pool)\<rparr>"

definition get_page :: "ptr \<Rightarrow> sem_pool \<Rightarrow> sem_page option" where
  "get_page pid pool = List.find (\<lambda>p. pg_id p = pid) (sp_pages pool)"

definition uvm_gpu_semaphore_get_payload :: "sem_config \<Rightarrow> sem_pool \<Rightarrow> gpu_semaphore \<Rightarrow> u32" where
  "uvm_gpu_semaphore_get_payload cf pool sem =
     (if gpu_semaphore_pool_is_secure cf pool then cached_payload sem
      else case se_page sem of
        None \<Rightarrow> 0
      | Some pid \<Rightarrow> (case get_page pid pool of None \<Rightarrow> 0 | Some p \<Rightarrow> pg_payloads p ! se_index sem))"

definition uvm_gpu_semaphore_set_payload ::
  "sem_config \<Rightarrow> u32 \<Rightarrow> sem_pool \<Rightarrow> gpu_semaphore \<Rightarrow> sem_pool \<times> gpu_semaphore" where
  "uvm_gpu_semaphore_set_payload cf v pool sem =
     (if gpu_semaphore_pool_is_secure cf pool then (pool, sem\<lparr>cached_payload := v\<rparr>)
      else case se_page sem of
        None \<Rightarrow> (pool, sem)
      | Some pid \<Rightarrow> (upd_page pid (\<lambda>p. p\<lparr>pg_payloads := (pg_payloads p)[se_index sem := v]\<rparr>) pool, sem))"

text \<open>The loop over the pages: the first page with a free semaphore, and its first free index.\<close>

fun scan_pages :: "sem_page list \<Rightarrow> (ptr \<times> nat) option" where
  "scan_pages [] = None"
| "scan_pages (p # ps) =
     (case first_idx (\<lambda>b. b) (free_semaphores p) of Some i \<Rightarrow> Some (pg_id p, i) | None \<Rightarrow> scan_pages ps)"

definition uvm_gpu_semaphore_alloc ::
  "sem_config \<Rightarrow> page_env \<Rightarrow> sem_pool \<Rightarrow> nv_status \<times> gpu_semaphore \<times> sem_pool" where
  "uvm_gpu_semaphore_alloc cf env pool =
     (let sem0 = \<lparr>se_page = None, se_index = 0, cached_payload = 0, last_pushed_notifier = 0, last_observed_notifier = 0\<rparr>;
          (st, pool1) = (if free_semaphores_count pool = 0 then pool_alloc_page cf env pool else (NV_OK, pool)) in
      if st \<noteq> NV_OK then (st, sem0, pool1)
      else case scan_pages (sp_pages pool1) of
        None \<Rightarrow> (NV_ERR_GENERIC, sem0, pool1)
      | Some (pid, i) \<Rightarrow>
          let sem1 = sem0\<lparr>se_page := Some pid, se_index := i\<rparr>;
              pool2 = (if gpu_semaphore_pool_is_secure cf pool1
                       then upd_page pid (\<lambda>p. p\<lparr>pg_notifiers := (pg_notifiers p)[i := last_observed_notifier sem1]\<rparr>) pool1
                       else pool1);
              (pool3, sem2) = uvm_gpu_semaphore_set_payload cf 0 pool2 sem1;
              pool4 = upd_page pid (\<lambda>p. p\<lparr>free_semaphores := (free_semaphores p)[i := False]\<rparr>) pool3 in
          (NV_OK, sem2, pool4\<lparr>free_semaphores_count := free_semaphores_count pool4 - 1\<rparr>))"

definition uvm_gpu_semaphore_free :: "sem_config \<Rightarrow> gpu_semaphore \<Rightarrow> sem_pool \<Rightarrow> gpu_semaphore \<times> sem_pool" where
  "uvm_gpu_semaphore_free cf sem pool =
     (case se_page sem of
        None \<Rightarrow> (sem, pool)
      | Some pid \<Rightarrow>
          let (pool1, sem1) = (if semaphore_uses_canary cf pool
                 then uvm_gpu_semaphore_set_payload cf (make_canary (uvm_gpu_semaphore_get_payload cf pool sem)) pool sem
                 else (pool, sem));
              pool2 = pool1\<lparr>free_semaphores_count := free_semaphores_count pool1 + 1\<rparr> in
          (sem1\<lparr>se_page := None\<rparr>,
           upd_page pid (\<lambda>p. p\<lparr>free_semaphores := (free_semaphores p)[se_index sem := True]\<rparr>) pool2))"

definition uvm_gpu_semaphore_pool_create :: sem_pool where
  "uvm_gpu_semaphore_pool_create = \<lparr>sp_pages = [], sp_aperture = UVM_APERTURE_SYS, free_semaphores_count = 0\<rparr>"

definition uvm_gpu_semaphore_secure_pool_create :: sem_pool where
  "uvm_gpu_semaphore_secure_pool_create = uvm_gpu_semaphore_pool_create\<lparr>sp_aperture := UVM_APERTURE_VID\<rparr>"

text \<open>Destruction frees the pages one after the other; the first result collects the assertions.\<close>

fun free_pages :: "sem_config \<Rightarrow> sem_page list \<Rightarrow> sem_pool \<Rightarrow> bool \<times> sem_pool" where
  "free_pages cf [] pool = (True, pool)"
| "free_pages cf (p # ps) pool =
     (let (ok1, pool1) = pool_free_page cf p pool; (ok2, pool2) = free_pages cf ps pool1 in (ok1 \<and> ok2, pool2))"

definition uvm_gpu_semaphore_pool_destroy :: "sem_config \<Rightarrow> sem_pool \<Rightarrow> bool \<times> sem_pool" where
  "uvm_gpu_semaphore_pool_destroy cf pool =
     (let (ok, pool1) = free_pages cf (sp_pages pool) pool in
      (ok \<and> free_semaphores_count pool1 = 0 \<and> sp_pages pool1 = [], pool1))"

definition uvm_gpu_semaphore_get_gpu_va :: "(ptr \<Rightarrow> u64) \<Rightarrow> gpu_semaphore \<Rightarrow> u64" where
  "uvm_gpu_semaphore_get_gpu_va base sem = base (the (se_page sem)) + of_nat (se_index sem) * 4"

section \<open>Encrypted payloads\<close>

text \<open>
  One turn of the loop of \<^verbatim>\<open>gpu_semaphore_encrypted_payload_update\<close>: the notifier, the authentication tag
  and the payload that are read, and the notifier read after them.  The list holds the turns that
  the GPU lets happen; running out of them is not returning yet.
\<close>

record enc_turn =
  tu_notifier :: u32
  tu_tag :: "u8 list"
  tu_payload :: u32
  tu_notifier2 :: u32

datatype enc_result = Unchanged | Left u32 enc_turn

fun enc_loop :: "u32 \<Rightarrow> u32 \<Rightarrow> enc_turn list \<Rightarrow> enc_result option" where
  "enc_loop last_seen tries [] = None"
| "enc_loop last_seen tries (t # ts) =
     (if odd (tu_notifier t) then
        if tries > 0 then enc_loop last_seen tries ts else Some (Left tries t)
      else if tu_notifier t = last_seen then Some Unchanged
      else
        let tries' = tries - 1 in
        if tries' > 0 \<and> tu_notifier t \<noteq> tu_notifier2 t then enc_loop last_seen tries' ts
        else Some (Left tries' t))"

text \<open>
  The update: the decryption is an argument that gets the payload, the tag and the index of the
  initialisation vector.  A failure is a fatal error of the driver, the second result.
\<close>

definition gpu_semaphore_encrypted_payload_update ::
  "u32 \<Rightarrow> (u32 \<Rightarrow> u8 list \<Rightarrow> u32 \<Rightarrow> u32 option) \<Rightarrow> enc_turn list \<Rightarrow> gpu_semaphore \<Rightarrow> (gpu_semaphore \<times> nv_status) option" where
  "gpu_semaphore_encrypted_payload_update num_gpfifo_entries decrypt turns sem =
     (case enc_loop (last_observed_notifier sem) num_gpfifo_entries turns of
        None \<Rightarrow> None
      | Some Unchanged \<Rightarrow> Some (sem, NV_OK)
      | Some (Left tries t) \<Rightarrow>
          if tries = 0 then Some (sem, NV_ERR_INVALID_STATE)
          else
            (let iv_index = (tu_notifier t div 2) mod num_gpfifo_entries in
             case decrypt (tu_payload t) (tu_tag t) iv_index of
               None \<Rightarrow> Some (sem, NV_ERR_GENERIC)
             | Some v \<Rightarrow> Some (sem\<lparr>cached_payload := v, last_observed_notifier := tu_notifier2 t\<rparr>, NV_OK)))"

section \<open>Tracking semaphores\<close>

record tracking_semaphore =
  ts_sem :: gpu_semaphore
  completed_value :: u64
  queued_value :: u64

definition UVM_GPU_SEMAPHORE_MAX_JUMP :: u64 where
  "UVM_GPU_SEMAPHORE_MAX_JUMP = 2 * (1024 * 1024)"

text \<open>The new value for a payload that was read; the first result is the assertion on the jump.\<close>

definition update_completed_value_locked :: "u32 \<Rightarrow> tracking_semaphore \<Rightarrow> bool \<times> u64 \<times> tracking_semaphore" where
  "update_completed_value_locked new_sem_value ts =
     (let old_value = completed_value ts;
          old_sem_value = ucast old_value :: u32 in
      if old_sem_value = new_sem_value then (True, old_value, ts)
      else
        let v1 = (old_value AND 0xFFFFFFFF00000000) OR ucast new_sem_value;
            v2 = (if new_sem_value < old_sem_value then v1 + push_bit 32 1 else v1) in
        (v2 - old_value \<le> UVM_GPU_SEMAPHORE_MAX_JUMP, v2, ts\<lparr>completed_value := v2\<rparr>))"

definition uvm_gpu_tracking_semaphore_update_completed_value :: "u32 \<Rightarrow> tracking_semaphore \<Rightarrow> u64 \<times> tracking_semaphore" where
  "uvm_gpu_tracking_semaphore_update_completed_value payload ts = snd (update_completed_value_locked payload ts)"

definition uvm_gpu_tracking_semaphore_is_value_completed :: "u32 \<Rightarrow> u64 \<Rightarrow> tracking_semaphore \<Rightarrow> bool \<times> tracking_semaphore" where
  "uvm_gpu_tracking_semaphore_is_value_completed payload val ts =
     (if completed_value ts \<ge> val then (True, ts)
      else let (v, ts') = uvm_gpu_tracking_semaphore_update_completed_value payload ts in (v \<ge> val, ts'))"

definition uvm_gpu_tracking_semaphore_is_completed :: "u32 \<Rightarrow> tracking_semaphore \<Rightarrow> bool \<times> tracking_semaphore" where
  "uvm_gpu_tracking_semaphore_is_completed payload ts =
     uvm_gpu_tracking_semaphore_is_value_completed payload (queued_value ts) ts"

definition uvm_gpu_tracking_semaphore_alloc ::
  "sem_config \<Rightarrow> page_env \<Rightarrow> sem_pool \<Rightarrow> nv_status \<times> tracking_semaphore \<times> sem_pool" where
  "uvm_gpu_tracking_semaphore_alloc cf env pool =
     (let (st, sem, pool') = uvm_gpu_semaphore_alloc cf env pool in
      (st, \<lparr>ts_sem = sem, completed_value = 0, queued_value = 0\<rparr>, pool'))"

definition uvm_gpu_tracking_semaphore_free :: "sem_config \<Rightarrow> tracking_semaphore \<Rightarrow> sem_pool \<Rightarrow> tracking_semaphore \<times> sem_pool" where
  "uvm_gpu_tracking_semaphore_free cf ts pool =
     (let (sem, pool') = uvm_gpu_semaphore_free cf (ts_sem ts) pool in (ts\<lparr>ts_sem := sem\<rparr>, pool'))"

section \<open>The 64-bit value follows the counter\<close>

lemma high_mask: "(0xFFFFFFFF00000000 :: u64) = NOT (mask 32)"
  by (simp add: mask_eq_exp_minus_1)

lemma replace_low:
  fixes c :: u64 and p :: u32
  shows "unat ((c AND 0xFFFFFFFF00000000) OR ucast p) = unat c - unat c mod 2 ^ 32 + unat p"
proof -
  let ?h = "c AND NOT (mask 32)" and ?l = "ucast p :: u64"
  have "?h AND ?l = 0" by (rule bit_word_eqI) (auto simp: bit_simps dest: bit_imp_le_length)
  then have sum: "?h OR ?l = ?h + ?l" by (simp add: disjunctive_add_eq_or)
  have pl: "unat p < 2 ^ 32" using unsigned_less [of p, where 'a = nat] by simp
  then have l: "unat ?l = unat p" by (simp add: unsigned_ucast_eq take_bit_nat_eq_self)
  have h: "unat ?h = unat c - unat c mod 2 ^ 32" by (rule and_not_mask_nat)
  have "unat c < 2 ^ 64" using unsigned_less [of c, where 'a = nat] by simp
  then have "unat c div 2 ^ 32 < 2 ^ 32" by (intro less_mult_imp_div_less) simp
  with pl have "unat ?h + unat ?l < 2 ^ 64"
    unfolding h l minus_mod_eq_mult_div by simp
  then have "unat (?h + ?l) = unat ?h + unat ?l" by (intro unat_add_nowrap) simp
  then show ?thesis unfolding high_mask sum h l .
qed

text \<open>The counter \<open>V\<close> of the GPU is ahead of the recorded value by less than \<open>2 ^ 32\<close>.\<close>

definition in_reach :: "nat \<Rightarrow> nat \<Rightarrow> bool" where
  "in_reach c V \<longleftrightarrow> c \<le> V \<and> V < c + 2 ^ 32 \<and> V < 2 ^ 64"

lemma unat_low: "unat (of_nat V :: u32) = V mod 2 ^ 32"
  by (simp add: unat_of_nat)

lemma follow_mod:
  fixes c V M :: nat
  assumes "c \<le> V" "V < c + M"
  shows "V mod M < c mod M \<Longrightarrow> V = c - c mod M + V mod M + M"
    and "\<not> V mod M < c mod M \<Longrightarrow> V = c - c mod M + V mod M"
proof -
  have M: "0 < M" using assms by simp
  have c: "c = M * (c div M) + c mod M" and V: "V = M * (V div M) + V mod M" by simp_all
  have "c div M \<le> V div M" using assms(1) by (rule div_le_mono)
  moreover have "V div M \<le> (c + M) div M" using assms(2) by (intro div_le_mono) simp
  moreover have "(c + M) div M = c div M + 1" using M by (intro div_add_self2) simp
  ultimately consider (same) "V div M = c div M" | (succ) "V div M = c div M + 1" by linarith
  then have "(V mod M < c mod M \<longrightarrow> V = c - c mod M + V mod M + M) \<and> (\<not> V mod M < c mod M \<longrightarrow> V = c - c mod M + V mod M)"
  proof cases
    case same
    then show ?thesis using assms(1) c V by (metis add_diff_cancel_right' add_le_cancel_left not_le)
  next
    case succ
    then have "V = M * (c div M) + M + V mod M" using V by (metis add.assoc mult.commute mult_Suc Suc_eq_plus1 add.commute)
    then show ?thesis using assms(2) c by (metis add.assoc add.commute add_diff_cancel_right' nat_add_left_cancel_less)
  qed
  then show "V mod M < c mod M \<Longrightarrow> V = c - c mod M + V mod M + M" "\<not> V mod M < c mod M \<Longrightarrow> V = c - c mod M + V mod M"
    by blast+
qed

lemma follow_counter:
  assumes "in_reach c V"
  shows "V mod 2 ^ 32 < c mod 2 ^ 32 \<Longrightarrow> V = c - c mod 2 ^ 32 + V mod 2 ^ 32 + 2 ^ 32"
    and "\<not> V mod 2 ^ 32 < c mod 2 ^ 32 \<Longrightarrow> V = c - c mod 2 ^ 32 + V mod 2 ^ 32"
  using follow_mod [of c V "2 ^ 32"] assms unfolding in_reach_def by blast+

lemma update_exact:
  assumes r: "in_reach (unat (completed_value ts)) V"
  shows "uvm_gpu_tracking_semaphore_update_completed_value (of_nat V) ts
    = (of_nat V, ts\<lparr>completed_value := of_nat V\<rparr>)"
proof -
  let ?c = "completed_value ts" and ?p = "of_nat V :: u32"
  have V: "V < 2 ^ 64" using r by (simp add: in_reach_def)
  have uV: "unat (of_nat V :: u64) = V" using V by (simp add: unat_of_nat)
  have low: "unat (ucast ?c :: u32) = unat ?c mod 2 ^ 32"
    by (simp add: unsigned_ucast_eq take_bit_eq_mod)
  let ?v1 = "(?c AND 0xFFFFFFFF00000000) OR ucast ?p"
  have v1: "unat ?v1 = unat ?c - unat ?c mod 2 ^ 32 + V mod 2 ^ 32"
    using replace_low [of ?c ?p] unat_low [of V] by simp
  have new: "(if ?p < ucast ?c then ?v1 + push_bit 32 1 else ?v1) = of_nat V"
  proof (cases "?p < (ucast ?c :: u32)")
    case True
    then have "V mod 2 ^ 32 < unat ?c mod 2 ^ 32" by (simp only: word_less_nat_alt low unat_low)
    note f = follow_counter(1) [OF r this]
    have "unat (push_bit 32 1 :: u64) = 2 ^ 32" by simp
    moreover from this have "unat ?v1 + unat (push_bit 32 1 :: u64) < 2 ^ LENGTH(64)" using v1 f V by simp
    ultimately have "unat (?v1 + push_bit 32 1) = unat (of_nat V :: u64)"
      using v1 f uV by (simp only: unat_add_nowrap)
    with True show ?thesis by (simp only: word_unat_eq_iff if_True)
  next
    case False
    then have "\<not> V mod 2 ^ 32 < unat ?c mod 2 ^ 32" by (simp only: word_less_nat_alt low unat_low not_False_eq_True)
    from follow_counter(2) [OF r this] have "unat ?v1 = unat (of_nat V :: u64)" using v1 uV by simp
    with False show ?thesis by (simp only: word_unat_eq_iff if_False)
  qed
  show ?thesis
  proof (cases "(ucast ?c :: u32) = ?p")
    case True
    then have "V mod 2 ^ 32 = unat ?c mod 2 ^ 32" using low unat_low by metis
    with follow_counter(2) [OF r] have "V = unat ?c - unat ?c mod 2 ^ 32 + unat ?c mod 2 ^ 32" by simp
    then have "V = unat ?c" by simp
    then have "of_nat V = ?c" by simp
    with True show ?thesis
      by (simp add: uvm_gpu_tracking_semaphore_update_completed_value_def update_completed_value_locked_def Let_def)
  next
    case False
    with new show ?thesis
      by (simp add: uvm_gpu_tracking_semaphore_update_completed_value_def update_completed_value_locked_def Let_def)
  qed
qed

lemma is_value_completed_exact:
  assumes r: "in_reach (unat (completed_value ts)) V"
  shows "case uvm_gpu_tracking_semaphore_is_value_completed (of_nat V) val ts of (b, ts') \<Rightarrow>
    (b \<longleftrightarrow> unat val \<le> V) \<and> completed_value ts \<le> completed_value ts' \<and> unat (completed_value ts') \<le> V"
proof -
  have uV: "unat (of_nat V :: u64) = V" using r by (simp add: in_reach_def unat_of_nat)
  show ?thesis
    using r update_exact [OF r] uV
    by (auto simp: uvm_gpu_tracking_semaphore_is_value_completed_def in_reach_def word_le_nat_alt)
qed

text \<open>Polls of the semaphore, each with the counter of the GPU at that time.\<close>

definition poll :: "tracking_semaphore \<Rightarrow> nat \<Rightarrow> tracking_semaphore" where
  "poll ts V = snd (uvm_gpu_tracking_semaphore_update_completed_value (of_nat V) ts)"

fun polls_ok :: "nat \<Rightarrow> nat list \<Rightarrow> bool" where
  "polls_ok c [] \<longleftrightarrow> True"
| "polls_ok c (V # Vs) \<longleftrightarrow> in_reach c V \<and> polls_ok V Vs"

lemma poll_exact: "in_reach (unat (completed_value ts)) V \<Longrightarrow> unat (completed_value (poll ts V)) = V"
  using update_exact [of ts V] by (simp add: poll_def in_reach_def unat_of_nat)

lemma polls_exact:
  "polls_ok (unat (completed_value ts)) Vs \<Longrightarrow>
     unat (completed_value (foldl poll ts Vs)) = last (unat (completed_value ts) # Vs)"
  by (induction Vs arbitrary: ts) (auto simp: poll_exact)

text \<open>
  C22.  The tracking semaphore is exact: after any history of polls in which the counter of the GPU never
  runs ahead by \<open>2 ^ 32\<close> between two of them, the 64-bit value is the counter at the last poll although
  every payload has only its low 32 bits, and a query answers whether the counter has passed the value.
\<close>

theorem tracking_semaphore_exact:
  assumes "polls_ok (unat (completed_value ts)) Vs" "in_reach (last (unat (completed_value ts) # Vs)) V"
  shows "unat (completed_value (foldl poll ts Vs)) = last (unat (completed_value ts) # Vs)
    \<and> (fst (uvm_gpu_tracking_semaphore_is_value_completed (of_nat V) val (foldl poll ts Vs)) \<longleftrightarrow> unat val \<le> V)"
proof -
  have c: "unat (completed_value (foldl poll ts Vs)) = last (unat (completed_value ts) # Vs)"
    by (rule polls_exact [OF assms(1)])
  have r: "in_reach (unat (completed_value (foldl poll ts Vs))) V" unfolding c by (rule assms(2))
  show ?thesis using c is_value_completed_exact [OF r, of val] by (auto split: prod.splits)
qed

theorem tracking_semaphore_exact_witness:
  "let ts = \<lparr>ts_sem = \<lparr>se_page = None, se_index = 0, cached_payload = 0, last_pushed_notifier = 0, last_observed_notifier = 0\<rparr>,
      completed_value = 0xFFFFFFF0, queued_value = 0\<rparr> in
   unat (completed_value (foldl poll ts [0x100000005, 0x100000007])) = 0x100000007"
  using tracking_semaphore_exact [of "\<lparr>ts_sem = \<lparr>se_page = None, se_index = 0, cached_payload = 0, last_pushed_notifier = 0,
      last_observed_notifier = 0\<rparr>, completed_value = 0xFFFFFFF0, queued_value = 0\<rparr>" "[0x100000005, 0x100000007]" "0x100000009"]
  by (simp add: in_reach_def)

section \<open>Canaries\<close>

lemma and_disjoint:
  fixes q m b :: u32
  shows "b AND m = 0 \<Longrightarrow> (q AND m) AND b = 0" "(q AND m) AND NOT m = 0"
  by (metis and.assoc and.commute bit.conj_zero_right) (simp add: and.assoc)

lemma unat_minus_pos:
  fixes x :: u32
  assumes "0 < unat x"
  shows "unat (- x) = 2 ^ 32 - unat x"
proof -
  have "(unat (- x) + unat x) mod 2 ^ 32 = unat (- x + x)"
    by (simp only: unat_word_ariths len_num1 len_bit0) simp
  moreover have "unat (- x) < 2 ^ 32" "unat x < 2 ^ 32"
    using unsigned_less [of x, where 'a = nat] unsigned_less [of "- x", where 'a = nat] by simp_all
  ultimately show ?thesis using assms by (auto simp: mod_if split: if_splits)
qed

lemma canary_distance:
  "\<exists>m < 2 ^ 28. unat (p - make_canary p) = 0x34523f22 + m"
proof -
  let ?q = "p - push_bit 30 1" and ?h = "(p - push_bit 30 1) AND NOT (mask 28)" and ?l = "(p - push_bit 30 1) AND mask 28"
  have mask: "(CANARY_MASK :: u32) = NOT (mask 28)" by (simp add: mask_eq_exp_minus_1)
  have "(CANARY_BASE :: u32) AND NOT (mask 28) = 0" by (simp add: mask_eq_exp_minus_1)
  then have "?h AND CANARY_BASE = 0" by (rule and_disjoint)
  then have can: "make_canary p = ?h + CANARY_BASE"
    unfolding make_canary_def Let_def mask by (simp add: disjunctive_add_eq_or)
  have "?h AND ?l = 0" by (rule bit_word_eqI) (auto simp: bit_simps)
  then have "?h + ?l = ?h OR ?l" by (rule disjunctive_add_eq_or)
  also have "\<dots> = ?q" by (rule bit_word_eqI) (auto simp: bit_simps)
  finally have "p = ?h + ?l + push_bit 30 1" by simp
  then have d: "p - make_canary p = 0x34523f22 + ?l" unfolding can by (simp add: algebra_simps)
  have l: "unat ?l < 2 ^ 28" by (simp add: unat_and_mask)
  then have "unat (0x34523f22 + ?l) = unat (0x34523f22 :: u32) + unat ?l" by (intro unat_add_nowrap) simp
  with d l show ?thesis by auto
qed

lemma make_canary_is_canary: "is_canary (make_canary p)"
proof -
  have "((x AND CANARY_MASK) OR CANARY_BASE) AND NOT CANARY_MASK = CANARY_BASE" for x :: u32
  proof -
    have "(x AND CANARY_MASK) AND NOT CANARY_MASK = 0" by (rule and_disjoint)
    then show ?thesis by (simp add: bit.conj_disj_distrib2)
  qed
  then show ?thesis by (simp add: is_canary_def make_canary_def Let_def)
qed

text \<open>Host compares a pending acquire with the payload on the wheel of 32-bit numbers.\<close>

definition geq_acquire :: "u32 \<Rightarrow> u32 \<Rightarrow> bool" where
  "geq_acquire payload v \<longleftrightarrow> unat (payload - v) < 2 ^ 31"

text \<open>
  The canary that a freed semaphore gets is recognised as one, and it makes every pending acquire
  stall whose value is at most \<open>0x34523f21\<close> behind and at most \<open>0x3badc0de\<close> ahead of the payload at the time of
  the release, across every wrap of the 32-bit payload.
\<close>

theorem canary_stalls:
  assumes "unat (v - payload + 0x34523f21) \<le> 0x34523f21 + 0x3badc0de"
  shows "is_canary (make_canary payload) \<and> \<not> geq_acquire (make_canary payload) v"
proof -
  obtain m where m: "m < 2 ^ 28" "unat (payload - make_canary payload) = 0x34523f22 + m"
    using canary_distance by blast
  let ?a = "v - payload + 0x34523f21" and ?b = "payload - make_canary payload - 0x34523f21"
  have b: "unat ?b = m + 1"
  proof -
    have "(0x34523f21 :: u32) \<le> payload - make_canary payload" using m by (simp add: word_le_nat_alt)
    from unat_sub_le [OF this] show ?thesis using m by simp
  qed
  have eq: "v - make_canary payload = ?a + ?b" by (simp add: algebra_simps)
  have "unat ?a + unat ?b < 2 ^ 31" using assms b m by simp
  then have s: "unat (v - make_canary payload) = unat ?a + unat ?b" unfolding eq by (intro unat_add_nowrap) simp
  have pos: "0 < unat (v - make_canary payload)" "unat (v - make_canary payload) < 2 ^ 31"
    using s b \<open>unat ?a + unat ?b < 2 ^ 31\<close> by simp_all
  have "unat (make_canary payload - v) = 2 ^ 32 - unat (v - make_canary payload)"
    using unat_minus_pos [OF pos(1)] by simp
  then show ?thesis using pos make_canary_is_canary by (simp add: geq_acquire_def)
qed

theorem canary_stalls_witness: "\<not> geq_acquire (make_canary 5) 7 \<and> geq_acquire 8 7"
  using canary_stalls [of 7 5] by (simp add: geq_acquire_def)

section \<open>Encrypted payloads come from one snapshot\<close>

definition torn :: "u32 \<Rightarrow> enc_turn \<Rightarrow> bool" where
  "torn last_seen t \<longleftrightarrow> even (tu_notifier t) \<and> tu_notifier t \<noteq> last_seen \<and> tu_notifier t \<noteq> tu_notifier2 t"

definition in_progress :: "enc_turn \<Rightarrow> bool" where
  "in_progress t \<longleftrightarrow> odd (tu_notifier t)"

lemma enc_loop_Left:
  "enc_loop c n ts = Some (Left k t) \<Longrightarrow> k \<noteq> 0 \<Longrightarrow>
     t \<in> set ts \<and> even (tu_notifier t) \<and> tu_notifier t \<noteq> c \<and> tu_notifier t = tu_notifier2 t"
  by (induction c n ts rule: enc_loop.induct) (auto simp: Let_def word_gt_0 split: if_splits)

lemma enc_loop_skip:
  assumes "\<forall>t \<in> set pre. torn c t \<or> in_progress t" "length (filter (torn c) pre) < unat n"
  shows "enc_loop c n (pre @ ts) = enc_loop c (n - of_nat (length (filter (torn c) pre))) ts"
  using assms
proof (induction pre arbitrary: n)
  case Nil
  then show ?case by simp
next
  case (Cons t pre)
  have pos: "0 < n" using Cons.prems(2) by (simp add: word_less_nat_alt)
  show ?case
  proof (cases "in_progress t")
    case True
    then have "\<not> torn c t" by (simp add: torn_def in_progress_def)
    with True Cons pos show ?thesis by (simp add: in_progress_def)
  next
    case False
    then have t: "torn c t" using Cons.prems(1) by simp
    have u: "unat (n - 1) = unat n - 1" by (rule unat_pred [OF pos])
    have lt: "length (filter (torn c) pre) < unat (n - 1)" using Cons.prems(2) t u by simp
    then have "0 < n - 1" by (simp add: word_less_nat_alt)
    with Cons.IH [OF _ lt] Cons.prems(1) t False show ?thesis
      by (simp add: torn_def in_progress_def algebra_simps)
  qed
qed

text \<open>
  C24.  An update of an encrypted payload either leaves the semaphore alone or takes the payload from one
  snapshot: an even notifier that was the same before and after the payload and the tag were read,
  decrypted with success.  Whatever turns the GPU interleaves, a torn snapshot is never decrypted.
\<close>

theorem encrypted_update_consistent:
  assumes "gpu_semaphore_encrypted_payload_update n decrypt ts sem = Some (sem', st)"
  shows "sem' = sem
    \<or> st = NV_OK \<and> (\<exists>t \<in> set ts. even (tu_notifier t) \<and> tu_notifier t = tu_notifier2 t
         \<and> tu_notifier t \<noteq> last_observed_notifier sem
         \<and> decrypt (tu_payload t) (tu_tag t) ((tu_notifier t div 2) mod n) = Some (cached_payload sem')
         \<and> last_observed_notifier sem' = tu_notifier t)"
proof (cases "enc_loop (last_observed_notifier sem) n ts")
  case None
  then show ?thesis using assms by (simp add: gpu_semaphore_encrypted_payload_update_def)
next
  case (Some r)
  show ?thesis
  proof (cases r)
    case Unchanged
    then show ?thesis using assms Some by (simp add: gpu_semaphore_encrypted_payload_update_def)
  next
    case (Left k t)
    show ?thesis
    proof (cases "k = 0")
      case True
      then show ?thesis using assms Some Left by (simp add: gpu_semaphore_encrypted_payload_update_def)
    next
      case False
      note f = enc_loop_Left [OF Some [unfolded Left] False]
      show ?thesis
      proof (cases "decrypt (tu_payload t) (tu_tag t) ((tu_notifier t div 2) mod n)")
        case None
        then show ?thesis using assms Some Left False by (simp add: gpu_semaphore_encrypted_payload_update_def Let_def)
      next
        case (Some v)
        then have "sem' = sem\<lparr>cached_payload := v, last_observed_notifier := tu_notifier2 t\<rparr>" "st = NV_OK"
          using assms \<open>enc_loop _ _ _ = Some r\<close> Left False
          by (auto simp: gpu_semaphore_encrypted_payload_update_def Let_def)
        with f Some show ?thesis by (intro disjI2 conjI bexI [of _ t]) auto
      qed
    qed
  qed
qed

text \<open>
  The number of tries: a snapshot that follows \<open>k\<close> torn ones is decrypted when \<open>k + 1 < n\<close>.  The
  \<open>n\<close>th try is counted as a failure even when its snapshot is consistent, which is a fatal error of
  the driver; turns with an update in progress are not counted at all.
\<close>

theorem encrypted_update_tries:
  assumes "\<forall>t \<in> set pre. torn (last_observed_notifier sem) t \<or> in_progress t"
    and "length (filter (torn (last_observed_notifier sem)) pre) < unat n"
    and "even (tu_notifier t)" "tu_notifier t \<noteq> last_observed_notifier sem" "tu_notifier2 t = tu_notifier t"
    and "decrypt (tu_payload t) (tu_tag t) ((tu_notifier t div 2) mod n) = Some v"
  shows "gpu_semaphore_encrypted_payload_update n decrypt (pre @ t # rest) sem
    = (if length (filter (torn (last_observed_notifier sem)) pre) + 1 < unat n
       then Some (sem\<lparr>cached_payload := v, last_observed_notifier := tu_notifier t\<rparr>, NV_OK)
       else Some (sem, NV_ERR_INVALID_STATE))"
proof -
  let ?k = "length (filter (torn (last_observed_notifier sem)) pre)"
  have "?k < 2 ^ 32" using assms(2) unsigned_less [of n, where 'a = nat] by simp
  then have uk: "unat (of_nat ?k :: u32) = ?k" by (simp add: unat_of_nat)
  have le: "of_nat ?k \<le> n" using assms(2) uk by (simp add: word_le_nat_alt)
  have un: "unat (n - of_nat ?k) = unat n - ?k" using unat_sub_le [OF le] uk by simp
  then have pos: "0 < n - of_nat ?k" using assms(2) by (simp add: word_less_nat_alt)
  have "unat (n - of_nat ?k - 1) = unat n - ?k - 1" using unat_pred [OF pos] un by simp
  then have z: "n - of_nat ?k - 1 = 0 \<longleftrightarrow> \<not> ?k + 1 < unat n" by (auto simp: word_unat_eq_iff)
  show ?thesis
    unfolding gpu_semaphore_encrypted_payload_update_def enc_loop_skip [OF assms(1,2)]
    using assms(3-6) z by (simp add: Let_def)
qed

definition ex_turn :: "u32 \<Rightarrow> u32 \<Rightarrow> enc_turn" where
  "ex_turn n n' = \<lparr>tu_notifier = n, tu_tag = [], tu_payload = 9, tu_notifier2 = n'\<rparr>"

definition ex_sem :: gpu_semaphore where
  "ex_sem = \<lparr>se_page = Some 1, se_index = 0, cached_payload = 0, last_pushed_notifier = 0, last_observed_notifier = 2\<rparr>"

theorem encrypted_update_consistent_witness:
  "\<exists>t \<in> set [ex_turn 3 4, ex_turn 4 4]. tu_notifier t = tu_notifier2 t"
proof -
  have "gpu_semaphore_encrypted_payload_update 32 (\<lambda>p tag iv. Some p) [ex_turn 3 4, ex_turn 4 4] ex_sem
      = Some (ex_sem\<lparr>cached_payload := 9, last_observed_notifier := 4\<rparr>, NV_OK)"
    by (simp add: gpu_semaphore_encrypted_payload_update_def ex_turn_def ex_sem_def Let_def)
  from encrypted_update_consistent [OF this] show ?thesis by (auto simp: ex_sem_def ex_turn_def)
qed

theorem encrypted_update_tries_witness:
  "gpu_semaphore_encrypted_payload_update 2 (\<lambda>p tag iv. Some p) ([ex_turn 3 4, ex_turn 4 6] @ ex_turn 6 6 # []) ex_sem
     = Some (ex_sem, NV_ERR_INVALID_STATE)"
  using encrypted_update_tries [of "[ex_turn 3 4, ex_turn 4 6]" ex_sem 2 "ex_turn 6 6" "\<lambda>p tag iv. Some p" 9 "[]"]
  by (simp add: ex_turn_def ex_sem_def torn_def in_progress_def)

section \<open>The pool\<close>

definition nfree :: "sem_page \<Rightarrow> nat" where
  "nfree p = length (filter (\<lambda>b. b) (free_semaphores p))"

definition taken :: "sem_page list \<Rightarrow> (ptr \<times> nat) set" where
  "taken ps = {(pg_id p, i) | p i. p \<in> set ps \<and> i < length (free_semaphores p) \<and> \<not> free_semaphores p ! i}"

definition page_ok :: "sem_config \<Rightarrow> bool \<Rightarrow> sem_page \<Rightarrow> bool" where
  "page_ok cf canary p \<longleftrightarrow> length (free_semaphores p) = COUNT_PER_PAGE cf \<and> length (pg_payloads p) = COUNT_PER_PAGE cf
     \<and> (canary \<longrightarrow> (\<forall>i < COUNT_PER_PAGE cf. free_semaphores p ! i \<longrightarrow> is_canary (pg_payloads p ! i)))"

definition pool_inv :: "sem_config \<Rightarrow> sem_pool \<Rightarrow> (ptr \<times> nat) list \<Rightarrow> bool" where
  "pool_inv cf pool As \<longleftrightarrow> 0 < COUNT_PER_PAGE cf
     \<and> distinct (map pg_id (sp_pages pool))
     \<and> (\<forall>p \<in> set (sp_pages pool). page_ok cf (semaphore_uses_canary cf pool) p)
     \<and> length (sp_pages pool) * COUNT_PER_PAGE cf < 2 ^ 32
     \<and> unat (free_semaphores_count pool) = sum_list (map nfree (sp_pages pool))
     \<and> distinct As \<and> set As = taken (sp_pages pool)"

lemma taken_simps [simp]:
  "taken [] = {}" "taken (ps @ qs) = taken ps \<union> taken qs"
  "taken (p # ps) = {(pg_id p, i) | i. i < length (free_semaphores p) \<and> \<not> free_semaphores p ! i} \<union> taken ps"
  by (auto simp: taken_def)

lemma taken_page: "(pid, i) \<in> taken ps \<Longrightarrow> pid \<in> pg_id ` set ps"
  by (auto simp: taken_def)

lemma unat_of_nat_small: "n < 2 ^ 32 \<Longrightarrow> unat (of_nat n :: u32) = n"
  by (simp add: unat_of_nat)

lemma nfree_le: "nfree p \<le> length (free_semaphores p)"
  by (simp add: nfree_def)

lemma nfree_take:
  assumes "i < length (free_semaphores p)" "free_semaphores p ! i"
  shows "nfree (p\<lparr>free_semaphores := (free_semaphores p)[i := False]\<rparr>) + 1 = nfree p"
proof -
  have mem: "free_semaphores p ! i \<in># mset (filter (\<lambda>b. b) (free_semaphores p))"
    using assms nth_mem [OF assms(1)] by auto
  have "size (mset (filter (\<lambda>b. b) ((free_semaphores p)[i := False]))) + 1 = size (mset (filter (\<lambda>b. b) (free_semaphores p)))"
    unfolding mset_filter_update [OF assms(1)] using assms size_Suc_Diff1 [OF mem] by (simp del: mset_filter)
  then show ?thesis by (simp add: nfree_def del: mset_filter)
qed

lemma nfree_give:
  assumes "i < length (free_semaphores p)" "\<not> free_semaphores p ! i"
  shows "nfree (p\<lparr>free_semaphores := (free_semaphores p)[i := True]\<rparr>) = nfree p + 1"
proof -
  have "size (mset (filter (\<lambda>b. b) ((free_semaphores p)[i := True]))) = size (mset (filter (\<lambda>b. b) (free_semaphores p))) + 1"
    unfolding mset_filter_update [OF assms(1)] using assms by (simp del: mset_filter)
  then show ?thesis by (simp add: nfree_def del: mset_filter)
qed

lemma nfree_0: "nfree p = 0 \<longleftrightarrow> first_idx (\<lambda>b. b) (free_semaphores p) = None"
  by (auto simp: nfree_def first_idx_None filter_empty_conv)

lemma other_id: "pid \<notin> pg_id ` S \<Longrightarrow> q \<in> S \<Longrightarrow> pg_id q \<noteq> pid"
  by (metis imageI)

lemma upd_page_split:
  assumes "distinct (map pg_id (sp_pages pool))" "sp_pages pool = a @ p # b" "pg_id p = pid"
  shows "upd_page pid f pool = pool\<lparr>sp_pages := a @ f p # b\<rparr>"
proof -
  have "pid \<notin> pg_id ` set a" "pid \<notin> pg_id ` set b" using assms by auto
  then have "\<forall>q \<in> set a \<union> set b. pg_id q \<noteq> pid" by blast
  then have "map (\<lambda>p. if pg_id p = pid then f p else p) a = a" "map (\<lambda>p. if pg_id p = pid then f p else p) b = b"
    by (auto intro: map_idI)
  then show ?thesis using assms by (simp add: upd_page_def)
qed

lemma scan_pages_Some:
  "scan_pages ps = Some (pid, i) \<Longrightarrow>
     \<exists>a p b. ps = a @ p # b \<and> pg_id p = pid \<and> first_idx (\<lambda>b. b) (free_semaphores p) = Some i"
proof (induction ps)
  case (Cons p ps)
  show ?case
  proof (cases "first_idx (\<lambda>b. b) (free_semaphores p)")
    case None
    with Cons obtain a q b where "ps = a @ q # b" "pg_id q = pid" "first_idx (\<lambda>b. b) (free_semaphores q) = Some i" by auto
    then show ?thesis by (intro exI [of _ "p # a"] exI [of _ q] exI [of _ b]) simp
  next
    case (Some j)
    with Cons.prems show ?thesis by (intro exI [of _ "[]"] exI [of _ p] exI [of _ ps]) simp
  qed
qed simp

lemma scan_pages_None: "scan_pages ps = None \<longleftrightarrow> sum_list (map nfree ps) = 0"
  by (induction ps) (auto simp: nfree_0 split: option.splits)

lemma uses_canary_pages [simp]:
  "semaphore_uses_canary cf (pool\<lparr>sp_pages := x\<rparr>) = semaphore_uses_canary cf pool"
  "semaphore_uses_canary cf (pool\<lparr>free_semaphores_count := c\<rparr>) = semaphore_uses_canary cf pool"
  "gpu_semaphore_pool_is_secure cf (pool\<lparr>sp_pages := x\<rparr>) = gpu_semaphore_pool_is_secure cf pool"
  "gpu_semaphore_pool_is_secure cf (pool\<lparr>free_semaphores_count := c\<rparr>) = gpu_semaphore_pool_is_secure cf pool"
  by (simp_all add: semaphore_uses_canary_def gpu_semaphore_pool_is_secure_def)

text \<open>Replacing one page by a page with the same name.\<close>

lemma pool_inv_replace:
  assumes inv: "pool_inv cf pool As" and h: "sp_pages pool = a @ p # b" and q: "pg_id q = pg_id p"
    and ok: "page_ok cf (semaphore_uses_canary cf pool) q"
    and c: "unat c + nfree p = unat (free_semaphores_count pool) + nfree q"
    and A: "distinct As'" "set As' = (set As - {(pg_id p, i) | i. True}) \<union> taken [q]"
  shows "pool_inv cf (pool\<lparr>sp_pages := a @ q # b, free_semaphores_count := c\<rparr>) As'"
proof -
  note i = inv [unfolded pool_inv_def h]
  have "pg_id p \<notin> pg_id ` set a" "pg_id p \<notin> pg_id ` set b" using i by auto
  then have "\<And>j. (pg_id p, j) \<notin> taken a" "\<And>j. (pg_id p, j) \<notin> taken b" using taken_page by blast+
  then have "set As' = taken (a @ q # b)" using A(2) i q by auto
  with i ok c A(1) q show ?thesis unfolding pool_inv_def by auto
qed

lemma count_pos:
  assumes "pool_inv cf pool As" "free_semaphores_count pool \<noteq> 0"
  shows "scan_pages (sp_pages pool) \<noteq> None"
proof -
  have "unat (free_semaphores_count pool) \<noteq> 0" using assms(2) by (simp only: unsigned_eq_0_iff not_False_eq_True)
  then show ?thesis using assms(1) unfolding scan_pages_None pool_inv_def by metis
qed

definition env_ok :: "sem_config \<Rightarrow> page_env \<Rightarrow> sem_pool \<Rightarrow> bool" where
  "env_ok cf env pool \<longleftrightarrow> length (pe_memory env) = COUNT_PER_PAGE cf
     \<and> (\<forall>pid. pe_page env = Some pid \<longrightarrow> pid \<notin> pg_id ` set (sp_pages pool))
     \<and> (length (sp_pages pool) + 1) * COUNT_PER_PAGE cf < 2 ^ 32"

lemma pool_alloc_page_inv:
  assumes inv: "pool_inv cf pool As" and env: "env_ok cf env pool"
  shows "pool_inv cf (snd (pool_alloc_page cf env pool)) As"
    "fst (pool_alloc_page cf env pool) = NV_OK \<Longrightarrow> scan_pages (sp_pages (snd (pool_alloc_page cf env pool))) \<noteq> None"
    "fst (pool_alloc_page cf env pool) \<noteq> NV_OK \<Longrightarrow> snd (pool_alloc_page cf env pool) = pool
       \<and> (pe_page env = None \<and> fst (pool_alloc_page cf env pool) = NV_ERR_NO_MEMORY
          \<or> pe_page env \<noteq> None \<and> fst (pool_alloc_page cf env pool) = pe_buffers env)"
    "sp_aperture (snd (pool_alloc_page cf env pool)) = sp_aperture pool"
proof -
  let ?C = "COUNT_PER_PAGE cf"
  note i = inv [unfolded pool_inv_def]
  show err: "fst (pool_alloc_page cf env pool) \<noteq> NV_OK \<Longrightarrow> snd (pool_alloc_page cf env pool) = pool
       \<and> (pe_page env = None \<and> fst (pool_alloc_page cf env pool) = NV_ERR_NO_MEMORY
          \<or> pe_page env \<noteq> None \<and> fst (pool_alloc_page cf env pool) = pe_buffers env)"
    "sp_aperture (snd (pool_alloc_page cf env pool)) = sp_aperture pool"
    by (auto simp: pool_alloc_page_def Let_def split: option.splits if_splits)
  have "pool_inv cf (snd (pool_alloc_page cf env pool)) As
    \<and> (fst (pool_alloc_page cf env pool) = NV_OK \<longrightarrow> scan_pages (sp_pages (snd (pool_alloc_page cf env pool))) \<noteq> None)"
  proof (cases "fst (pool_alloc_page cf env pool) = NV_OK")
    case False
    with err(1) inv show ?thesis by simp
  next
    case True
    then obtain pid where pid: "pe_page env = Some pid" "pe_buffers env = NV_OK"
      by (auto simp: pool_alloc_page_def split: option.splits if_splits)
    define page where "page = \<lparr>pg_id = pid,
      pg_payloads = (if semaphore_uses_canary cf pool then replicate ?C (make_canary 0) else pe_memory env),
      pg_notifiers = pe_notifiers env, free_semaphores = replicate ?C True\<rparr>"
    have r: "snd (pool_alloc_page cf env pool) = pool\<lparr>sp_pages := page # sp_pages pool,
        free_semaphores_count := free_semaphores_count pool + of_nat ?C\<rparr>"
      using pid by (simp add: pool_alloc_page_def page_def Let_def)
    have nf: "nfree page = ?C" by (simp add: nfree_def page_def)
    have le: "sum_list (map nfree (sp_pages pool)) \<le> length (sp_pages pool) * ?C"
      using i sum_list_mono [of "sp_pages pool" nfree "\<lambda>_. ?C"] nfree_le
      by (auto simp: page_ok_def sum_list_triv) metis
    have "unat (of_nat ?C :: u32) = ?C"
      using env unfolding env_ok_def by (intro unat_of_nat_small) simp
    then have c: "unat (free_semaphores_count pool + of_nat ?C) = unat (free_semaphores_count pool) + ?C"
      using env i le unfolding env_ok_def by (subst unat_add_nowrap) auto
    have "page_ok cf (semaphore_uses_canary cf pool) page"
      using env by (auto simp: page_ok_def page_def env_ok_def make_canary_is_canary)
    moreover have "taken (page # sp_pages pool) = taken (sp_pages pool)" "pg_id page = pid" by (auto simp: page_def)
    ultimately have "pool_inv cf (snd (pool_alloc_page cf env pool)) As"
      unfolding r pool_inv_def using i env pid nf c by (auto simp: env_ok_def simp del: taken_simps)
    moreover have "scan_pages (page # sp_pages pool) \<noteq> None" unfolding scan_pages_None using nf i by simp
    ultimately show ?thesis unfolding r by simp
  qed
  then show "pool_inv cf (snd (pool_alloc_page cf env pool)) As"
    "fst (pool_alloc_page cf env pool) = NV_OK \<Longrightarrow> scan_pages (sp_pages (snd (pool_alloc_page cf env pool))) \<noteq> None"
    by blast+
qed

lemma taken_of_page:
  assumes "pool_inv cf pool As" "sp_pages pool = a @ p # b"
  shows "(pg_id p, j) \<in> set As \<longleftrightarrow> j < COUNT_PER_PAGE cf \<and> \<not> free_semaphores p ! j"
proof -
  note i = assms(1) [unfolded pool_inv_def assms(2)]
  have "pg_id p \<notin> pg_id ` set a" "pg_id p \<notin> pg_id ` set b" using i by auto
  then have "(pg_id p, j) \<notin> taken a" "(pg_id p, j) \<notin> taken b" using taken_page by blast+
  then show ?thesis using i by (auto simp: page_ok_def)
qed

lemma take_step:
  assumes inv: "pool_inv cf pool As" and h: "sp_pages pool = a @ p # b"
    and i: "i < COUNT_PER_PAGE cf" "free_semaphores p ! i"
    and pl: "length pl = COUNT_PER_PAGE cf" "\<And>j. j \<noteq> i \<Longrightarrow> pl ! j = pg_payloads p ! j"
  shows "pool_inv cf (pool\<lparr>sp_pages := a @ p\<lparr>pg_payloads := pl, pg_notifiers := nt, free_semaphores := (free_semaphores p)[i := False]\<rparr> # b,
      free_semaphores_count := free_semaphores_count pool - 1\<rparr>) ((pg_id p, i) # As)"
proof -
  let ?q = "p\<lparr>pg_payloads := pl, pg_notifiers := nt, free_semaphores := (free_semaphores p)[i := False]\<rparr>"
  have ok: "page_ok cf (semaphore_uses_canary cf pool) p" using inv h by (simp add: pool_inv_def)
  then have len: "length (free_semaphores p) = COUNT_PER_PAGE cf" by (simp add: page_ok_def)
  have nf: "nfree ?q + 1 = nfree p" using nfree_take [of i p] i len by (simp add: nfree_def)
  have "nfree p \<le> unat (free_semaphores_count pool)" using inv h by (simp add: pool_inv_def)
  then have "0 < free_semaphores_count pool" using nf by (simp add: word_less_nat_alt)
  note c = unat_pred [OF this]
  note t = taken_of_page [OF inv h]
  show ?thesis
  proof (rule pool_inv_replace [OF inv h])
    show "page_ok cf (semaphore_uses_canary cf pool) ?q" using ok i pl by (auto simp: page_ok_def nth_list_update)
    show "unat (free_semaphores_count pool - 1) + nfree p = unat (free_semaphores_count pool) + nfree ?q"
      using c nf \<open>nfree p \<le> _\<close> by simp
    show "distinct ((pg_id p, i) # As)" using t i inv by (simp add: pool_inv_def)
    show "set ((pg_id p, i) # As) = (set As - {(pg_id p, j) | j. True}) \<union> taken [?q]"
      using t i len by (auto simp: nth_list_update)
  qed simp
qed

lemma give_step:
  assumes inv: "pool_inv cf pool As" and h: "sp_pages pool = a @ p # b" and i: "(pg_id p, i) \<in> set As"
    and pl: "length pl = COUNT_PER_PAGE cf" "\<And>j. j \<noteq> i \<Longrightarrow> pl ! j = pg_payloads p ! j"
    and can: "semaphore_uses_canary cf pool \<Longrightarrow> is_canary (pl ! i)"
  shows "pool_inv cf (pool\<lparr>sp_pages := a @ p\<lparr>pg_payloads := pl, free_semaphores := (free_semaphores p)[i := True]\<rparr> # b,
      free_semaphores_count := free_semaphores_count pool + 1\<rparr>) (remove1 (pg_id p, i) As)"
proof -
  let ?q = "p\<lparr>pg_payloads := pl, free_semaphores := (free_semaphores p)[i := True]\<rparr>"
  let ?C = "COUNT_PER_PAGE cf"
  note v = inv [unfolded pool_inv_def]
  have ok: "page_ok cf (semaphore_uses_canary cf pool) p" using v h by simp
  then have len: "length (free_semaphores p) = ?C" by (simp add: page_ok_def)
  note t = taken_of_page [OF inv h]
  have ii: "i < ?C" "\<not> free_semaphores p ! i" using i t by auto
  have nf: "nfree ?q = nfree p + 1" using nfree_give [of i p] ii len by (simp add: nfree_def)
  have "sum_list (map nfree (a @ ?q # b)) \<le> sum_list (map (\<lambda>_. ?C) (a @ ?q # b))"
    using v h nfree_le len by (intro sum_list_mono) (auto simp: page_ok_def nfree_def intro: order_trans [OF length_filter_le])
  also have "\<dots> = length (sp_pages pool) * ?C" using h by (simp add: sum_list_triv algebra_simps)
  finally have "unat (free_semaphores_count pool) + 1 < 2 ^ 32" using v h nf by simp
  then have c: "unat (free_semaphores_count pool + 1) = unat (free_semaphores_count pool) + 1"
    using unat_add_nowrap [of "free_semaphores_count pool" 1] by simp
  show ?thesis
  proof (rule pool_inv_replace [OF inv h])
    show "page_ok cf (semaphore_uses_canary cf pool) ?q" using ok ii pl can by (auto simp: page_ok_def nth_list_update)
    show "unat (free_semaphores_count pool + 1) + nfree p = unat (free_semaphores_count pool) + nfree ?q"
      using c nf by simp
    show "distinct (remove1 (pg_id p, i) As)" using v by simp
    have "distinct As" using v by simp
    then show "set (remove1 (pg_id p, i) As) = (set As - {(pg_id p, j) | j. True}) \<union> taken [?q]"
      using t ii len by (auto simp: nth_list_update set_remove1_eq) metis
  qed simp
qed

lemma write_step:
  assumes inv: "pool_inv cf pool As" and h: "sp_pages pool = a @ p # b" and i: "(pg_id p, i) \<in> set As"
  shows "pool_inv cf (pool\<lparr>sp_pages := a @ p\<lparr>pg_payloads := (pg_payloads p)[i := v]\<rparr> # b\<rparr>) As"
proof -
  let ?q = "p\<lparr>pg_payloads := (pg_payloads p)[i := v]\<rparr>"
  have ok: "page_ok cf (semaphore_uses_canary cf pool) p" using inv h by (simp add: pool_inv_def)
  note t = taken_of_page [OF inv h]
  have "pool_inv cf (pool\<lparr>sp_pages := a @ ?q # b, free_semaphores_count := free_semaphores_count pool\<rparr>) As"
  proof (rule pool_inv_replace [OF inv h])
    show "page_ok cf (semaphore_uses_canary cf pool) ?q" using ok i t by (auto simp: page_ok_def nth_list_update)
    show "distinct As" using inv by (simp add: pool_inv_def)
    show "set As = (set As - {(pg_id p, j) | j. True}) \<union> taken [?q]" using t ok by (auto simp: page_ok_def)
  qed (simp_all add: nfree_def)
  then show ?thesis by simp
qed

lemma page_of_taken:
  assumes "pool_inv cf pool As" "(pid, i) \<in> set As"
  obtains a p b where "sp_pages pool = a @ p # b" "pg_id p = pid" "i < COUNT_PER_PAGE cf" "\<not> free_semaphores p ! i"
    "length (pg_payloads p) = COUNT_PER_PAGE cf"
proof -
  from assms obtain p where "p \<in> set (sp_pages pool)" "pg_id p = pid" "i < length (free_semaphores p)" "\<not> free_semaphores p ! i"
    by (auto simp: pool_inv_def taken_def)
  moreover from this have "page_ok cf (semaphore_uses_canary cf pool) p" using assms(1) by (simp add: pool_inv_def)
  ultimately show ?thesis using that split_list [of p] by (metis page_ok_def)
qed

lemma get_page_split:
  assumes "distinct (map pg_id (sp_pages pool))" "sp_pages pool = a @ p # b"
  shows "get_page (pg_id p) pool = Some p"
proof -
  have "pg_id p \<notin> pg_id ` set a" using assms by auto
  then have "\<forall>q \<in> set a. pg_id q \<noteq> pg_id p" by (metis imageI)
  then show ?thesis unfolding get_page_def assms(2) by (induction a) auto
qed

lemma sem_alloc_cases:
  assumes inv: "pool_inv cf pool As" and env: "env_ok cf env pool"
  obtains (allocated) sem pool' pid where
      "uvm_gpu_semaphore_alloc cf env pool = (NV_OK, sem, pool')" "se_page sem = Some pid" "(pid, se_index sem) \<notin> set As"
      "se_index sem < COUNT_PER_PAGE cf" "pool_inv cf pool' ((pid, se_index sem) # As)"
      "uvm_gpu_semaphore_get_payload cf pool' sem = 0" "sp_aperture pool' = sp_aperture pool"
    | (err) st sem where
      "uvm_gpu_semaphore_alloc cf env pool = (st, sem, pool)" "st \<noteq> NV_OK" "free_semaphores_count pool = 0" "se_page sem = None"
      "pe_page env = None \<and> st = NV_ERR_NO_MEMORY \<or> pe_page env \<noteq> None \<and> st = pe_buffers env"
proof -
  let ?sem0 = "\<lparr>se_page = None, se_index = 0, cached_payload = 0, last_pushed_notifier = 0, last_observed_notifier = 0\<rparr> :: gpu_semaphore"
  obtain st pool1 where p1: "(if free_semaphores_count pool = 0 then pool_alloc_page cf env pool else (NV_OK, pool)) = (st, pool1)"
    by fastforce
  note pa = pool_alloc_page_inv [OF inv env]
  show ?thesis
  proof (cases "st = NV_OK")
    case False
    then have z: "free_semaphores_count pool = 0" "pool_alloc_page cf env pool = (st, pool1)" using p1 by (auto split: if_splits)
    with pa(3) False have "pool1 = pool" "pe_page env = None \<and> st = NV_ERR_NO_MEMORY \<or> pe_page env \<noteq> None \<and> st = pe_buffers env"
      by auto
    then show ?thesis using False z p1 by (intro err [of st ?sem0]) (auto simp: uvm_gpu_semaphore_alloc_def Let_def)
  next
    case True
    have inv1: "pool_inv cf pool1 As" and sc: "scan_pages (sp_pages pool1) \<noteq> None" and ap: "sp_aperture pool1 = sp_aperture pool"
      using p1 True pa inv count_pos [OF inv] by (auto split: if_splits)
    then obtain pid i where s: "scan_pages (sp_pages pool1) = Some (pid, i)" by fastforce
    from scan_pages_Some [OF s] obtain a p b where h: "sp_pages pool1 = a @ p # b" and pid: "pg_id p = pid"
      and f: "first_idx (\<lambda>b. b) (free_semaphores p) = Some i" by blast
    have d: "distinct (map pg_id (sp_pages pool1))" using inv1 by (simp add: pool_inv_def)
    have ok: "page_ok cf (semaphore_uses_canary cf pool1) p" using inv1 h by (simp add: pool_inv_def)
    have i: "i < COUNT_PER_PAGE cf" "free_semaphores p ! i" using first_idx_SomeD [OF f] ok by (auto simp: page_ok_def)
    define sec where "sec = gpu_semaphore_pool_is_secure cf pool1"
    define pl where "pl = (if sec then pg_payloads p else (pg_payloads p)[i := 0])"
    define nt where "nt = (if sec then (pg_notifiers p)[i := 0] else pg_notifiers p)"
    let ?q = "p\<lparr>pg_payloads := pl, pg_notifiers := nt, free_semaphores := (free_semaphores p)[i := False]\<rparr>"
    let ?pool = "pool1\<lparr>sp_pages := a @ ?q # b, free_semaphores_count := free_semaphores_count pool1 - 1\<rparr>"
    let ?sem = "?sem0\<lparr>se_page := Some pid, se_index := i\<rparr>"
    have upd: "upd_page pid g (pool1\<lparr>sp_pages := a @ r # b\<rparr>) = pool1\<lparr>sp_pages := a @ g r # b\<rparr>" if "pg_id r = pid" for g r
      by (subst upd_page_split [of _ a r b]) (use d h pid that in auto)
    have pool1: "pool1 = pool1\<lparr>sp_pages := a @ p # b\<rparr>" using h by simp
    have "uvm_gpu_semaphore_alloc cf env pool = (NV_OK, ?sem, ?pool)"
    proof (cases sec)
      case True
      then show ?thesis
        using \<open>st = NV_OK\<close> p1 s upd [OF pid] upd [of "p\<lparr>pg_notifiers := (pg_notifiers p)[i := 0]\<rparr>"] pid pool1
        unfolding uvm_gpu_semaphore_alloc_def sec_def pl_def nt_def
        by (simp add: uvm_gpu_semaphore_set_payload_def Let_def)
    next
      case False
      then show ?thesis
        using \<open>st = NV_OK\<close> p1 s upd [OF pid] upd [of "p\<lparr>pg_payloads := (pg_payloads p)[i := 0]\<rparr>"] pid pool1
        unfolding uvm_gpu_semaphore_alloc_def sec_def pl_def nt_def
        by (simp add: uvm_gpu_semaphore_set_payload_def Let_def)
    qed
    moreover have "pool_inv cf ?pool ((pid, i) # As)"
      using take_step [OF inv1 h i, of pl nt] ok pid by (auto simp: pl_def page_ok_def)
    moreover have "(pid, i) \<notin> set As" using taken_of_page [OF inv1 h, of i] i pid by simp
    moreover have "uvm_gpu_semaphore_get_payload cf ?pool ?sem = 0"
    proof (cases sec)
      case False
      have "get_page (pg_id ?q) ?pool = Some ?q" by (rule get_page_split [of _ a _ b]) (use d h in simp_all)
      then show ?thesis using False i ok pid by (simp add: uvm_gpu_semaphore_get_payload_def sec_def pl_def page_ok_def)
    qed (simp add: uvm_gpu_semaphore_get_payload_def sec_def)
    ultimately show ?thesis using i ap by (intro allocated [of ?sem ?pool pid]) simp_all
  qed
qed

lemma free_inv:
  assumes inv: "pool_inv cf pool As" and sem: "se_page sem = Some pid" "(pid, se_index sem) \<in> set As"
  shows "pool_inv cf (snd (uvm_gpu_semaphore_free cf sem pool)) (remove1 (pid, se_index sem) As)
    \<and> sp_aperture (snd (uvm_gpu_semaphore_free cf sem pool)) = sp_aperture pool"
proof -
  obtain a p b where h: "sp_pages pool = a @ p # b" and pid: "pg_id p = pid" and i: "se_index sem < COUNT_PER_PAGE cf"
    and len: "length (pg_payloads p) = COUNT_PER_PAGE cf"
    using page_of_taken [OF inv sem(2)] by metis
  have d: "distinct (map pg_id (sp_pages pool))" using inv by (simp add: pool_inv_def)
  define can where "can = make_canary (uvm_gpu_semaphore_get_payload cf pool sem)"
  define pl where "pl = (if semaphore_uses_canary cf pool then (pg_payloads p)[se_index sem := can] else pg_payloads p)"
  let ?q = "p\<lparr>pg_payloads := pl, free_semaphores := (free_semaphores p)[se_index sem := True]\<rparr>"
  have upd: "upd_page pid g (pool\<lparr>sp_pages := a @ r # b, free_semaphores_count := c\<rparr>)
      = pool\<lparr>sp_pages := a @ g r # b, free_semaphores_count := c\<rparr>" if "pg_id r = pid" for g r c
    by (subst upd_page_split [of _ a r b]) (use d h pid that in auto)
  have pool: "pool = pool\<lparr>sp_pages := a @ p # b, free_semaphores_count := free_semaphores_count pool\<rparr>" using h by simp
  have "snd (uvm_gpu_semaphore_free cf sem pool)
    = pool\<lparr>sp_pages := a @ ?q # b, free_semaphores_count := free_semaphores_count pool + 1\<rparr>"
  proof (cases "semaphore_uses_canary cf pool")
    case True
    then have "\<not> gpu_semaphore_pool_is_secure cf pool" by (simp add: semaphore_uses_canary_def)
    with True show ?thesis
      using sem upd [OF pid, of "\<lambda>p. p\<lparr>pg_payloads := (pg_payloads p)[se_index sem := can]\<rparr>" "free_semaphores_count pool", folded pool]
        upd [of "p\<lparr>pg_payloads := (pg_payloads p)[se_index sem := can]\<rparr>"] pid
      by (simp add: uvm_gpu_semaphore_free_def uvm_gpu_semaphore_set_payload_def can_def pl_def Let_def)
  next
    case False
    have "pool\<lparr>free_semaphores_count := c\<rparr> = pool\<lparr>sp_pages := a @ p # b, free_semaphores_count := c\<rparr>" for c using h by simp
    with False show ?thesis using sem upd [OF pid] by (simp add: uvm_gpu_semaphore_free_def pl_def Let_def)
  qed
  then show ?thesis
    using give_step [OF inv h, of "se_index sem" pl] sem pid i len
    by (auto simp: pl_def can_def make_canary_is_canary)
qed

text \<open>
  The states that a pool reaches: allocations, releases, and writes of the GPU or the CPU to
  semaphores that are allocated.
\<close>

inductive pool_reach :: "sem_config \<Rightarrow> sem_pool \<Rightarrow> (ptr \<times> nat) list \<Rightarrow> bool" for cf where
  create: "0 < COUNT_PER_PAGE cf \<Longrightarrow> pool = uvm_gpu_semaphore_pool_create \<or> pool = uvm_gpu_semaphore_secure_pool_create
    \<Longrightarrow> pool_reach cf pool []"
| alloc: "pool_reach cf pool As \<Longrightarrow> env_ok cf env pool \<Longrightarrow> uvm_gpu_semaphore_alloc cf env pool = (NV_OK, sem, pool')
    \<Longrightarrow> se_page sem = Some pid \<Longrightarrow> pool_reach cf pool' ((pid, se_index sem) # As)"
| alloc_fails: "pool_reach cf pool As \<Longrightarrow> env_ok cf env pool \<Longrightarrow> uvm_gpu_semaphore_alloc cf env pool = (st, sem, pool')
    \<Longrightarrow> st \<noteq> NV_OK \<Longrightarrow> pool_reach cf pool' As"
| free: "pool_reach cf pool As \<Longrightarrow> se_page sem = Some pid \<Longrightarrow> (pid, se_index sem) \<in> set As
    \<Longrightarrow> pool_reach cf (snd (uvm_gpu_semaphore_free cf sem pool)) (remove1 (pid, se_index sem) As)"
| release: "pool_reach cf pool As \<Longrightarrow> se_page sem = Some pid \<Longrightarrow> (pid, se_index sem) \<in> set As
    \<Longrightarrow> pool_reach cf (fst (uvm_gpu_semaphore_set_payload cf v pool sem)) As"

lemma pool_reach_inv: "pool_reach cf pool As \<Longrightarrow> pool_inv cf pool As"
proof (induction rule: pool_reach.induct)
  case (create pool)
  then show ?case
    by (auto simp: pool_inv_def uvm_gpu_semaphore_pool_create_def uvm_gpu_semaphore_secure_pool_create_def)
next
  case (alloc pool As env sem pool' pid)
  from alloc.IH alloc.hyps(2) show ?case
    by (cases rule: sem_alloc_cases) (use alloc.hyps in auto)
next
  case (alloc_fails pool As env st sem pool')
  from alloc_fails.IH alloc_fails.hyps(2) show ?case
    by (cases rule: sem_alloc_cases) (use alloc_fails in auto)
next
  case (free pool As sem pid)
  then show ?case using free_inv by blast
next
  case (release pool As sem pid v)
  obtain a p b where h: "sp_pages pool = a @ p # b" "pg_id p = pid" using page_of_taken [OF release.IH release.hyps(3)] by metis
  have d: "distinct (map pg_id (sp_pages pool))" using release.IH by (simp add: pool_inv_def)
  show ?case
    using release upd_page_split [OF d h] write_step [OF release.IH h(1), of "se_index sem" v] h(2)
    by (auto simp: uvm_gpu_semaphore_set_payload_def)
qed

text \<open>
  C23.  In every reachable state an allocation hands out a semaphore that nobody holds, with payload
  zero.  It fails only when every semaphore is taken and no page can be had, with the status of that
  failure and the pool unchanged; the internal error of the code is unreachable.
\<close>

theorem semaphore_alloc_fresh:
  assumes "pool_reach cf pool As" "env_ok cf env pool"
  shows "case uvm_gpu_semaphore_alloc cf env pool of (st, sem, pool') \<Rightarrow>
    if st = NV_OK then
      (\<exists>pid. se_page sem = Some pid \<and> (pid, se_index sem) \<notin> set As \<and> se_index sem < COUNT_PER_PAGE cf
        \<and> uvm_gpu_semaphore_get_payload cf pool' sem = 0)
    else pool' = pool \<and> free_semaphores_count pool = 0
      \<and> (pe_page env = None \<and> st = NV_ERR_NO_MEMORY \<or> pe_page env \<noteq> None \<and> st = pe_buffers env)"
  using sem_alloc_cases [OF pool_reach_inv [OF assms(1)] assms(2)] by cases auto

lemma free_pages_ok:
  assumes "pool_inv cf pool []" "sp_pages pool = ps"
  shows "fst (free_pages cf ps pool) \<and> free_semaphores_count (snd (free_pages cf ps pool)) = 0 \<and> sp_pages (snd (free_pages cf ps pool)) = []"
  using assms
proof (induction ps arbitrary: pool)
  case Nil
  then show ?case by (simp add: pool_inv_def unsigned_eq_0_iff)
next
  case (Cons p ps)
  let ?C = "COUNT_PER_PAGE cf"
  note i = Cons.prems(1) [unfolded pool_inv_def Cons.prems(2)]
  have ok: "page_ok cf (semaphore_uses_canary cf pool) p" using i by simp
  have full: "\<forall>b \<in> set (free_semaphores p). b" using i by (auto simp: in_set_conv_nth)
  then have "filter (\<lambda>b. b) (free_semaphores p) = free_semaphores p" by (simp add: filter_id_conv)
  then have nf: "nfree p = ?C" using ok by (simp add: nfree_def page_ok_def)
  have can: "semaphore_uses_canary cf pool \<longrightarrow> (\<forall>v \<in> set (pg_payloads p). is_canary v)"
  proof (intro impI ballI)
    fix v assume c: "semaphore_uses_canary cf pool" and "v \<in> set (pg_payloads p)"
    then obtain j where j: "j < ?C" "v = pg_payloads p ! j" using ok by (auto simp: page_ok_def in_set_conv_nth)
    then have "free_semaphores p ! j" using bspec [OF full nth_mem, of j] ok by (simp add: page_ok_def)
    with c j ok show "is_canary v" by (simp add: page_ok_def)
  qed
  have uC: "unat (of_nat ?C :: u32) = ?C" using i by (intro unat_of_nat_small) auto
  have ge: "of_nat ?C \<le> free_semaphores_count pool" using i nf uC by (simp add: word_le_nat_alt)
  have "filter (\<lambda>q. pg_id q \<noteq> pg_id p) ps = ps" using i by (auto simp: filter_id_conv dest: other_id)
  then have r: "pool_free_page cf p pool = (True, pool\<lparr>free_semaphores_count := free_semaphores_count pool - of_nat ?C, sp_pages := ps\<rparr>)"
    using full ge can Cons.prems(2) by (simp add: pool_free_page_def)
  have "pool_inv cf (pool\<lparr>free_semaphores_count := free_semaphores_count pool - of_nat ?C, sp_pages := ps\<rparr>) []"
    using i unat_sub_le [OF ge] nf uC by (auto simp: pool_inv_def)
  from Cons.IH [OF this] r show ?case by (auto simp: Let_def split: prod.splits)
qed

text \<open>
  When every semaphore has been released, destroying the pool passes all its assertions, canaries
  included, and leaves no page and a count of zero.
\<close>

theorem semaphore_pool_destroy_ok:
  assumes "pool_reach cf pool []"
  shows "case uvm_gpu_semaphore_pool_destroy cf pool of (asserts, pool') \<Rightarrow> asserts \<and> sp_pages pool' = []"
  using free_pages_ok [OF pool_reach_inv [OF assms] refl]
  by (auto simp: uvm_gpu_semaphore_pool_destroy_def Let_def split: prod.splits)

definition ex_cf :: sem_config where
  "ex_cf = \<lparr>cf_debug = True, conf_computing_enabled = False, COUNT_PER_PAGE = 2\<rparr>"

definition ex_page_env :: page_env where
  "ex_page_env = \<lparr>pe_page = Some 1, pe_buffers = NV_OK, pe_memory = [0, 0], pe_notifiers = [0, 0]\<rparr>"

lemma ex_pool_reach: "pool_reach ex_cf uvm_gpu_semaphore_pool_create []"
  by (rule pool_reach.create) (simp_all add: ex_cf_def)

lemma ex_env_ok: "env_ok ex_cf ex_page_env uvm_gpu_semaphore_pool_create"
  by (simp add: env_ok_def ex_cf_def ex_page_env_def uvm_gpu_semaphore_pool_create_def)

definition ex_sem_alloc :: "nv_status \<times> gpu_semaphore \<times> sem_pool" where
  "ex_sem_alloc = uvm_gpu_semaphore_alloc ex_cf ex_page_env uvm_gpu_semaphore_pool_create"

lemma ex_sem_alloc: "fst ex_sem_alloc = NV_OK" "se_page (fst (snd ex_sem_alloc)) = Some 1"
  by (simp_all add: ex_sem_alloc_def uvm_gpu_semaphore_alloc_def pool_alloc_page_def ex_cf_def ex_page_env_def
      uvm_gpu_semaphore_pool_create_def Let_def semaphore_uses_canary_def gpu_semaphore_pool_is_secure_def upd_page_def
      uvm_gpu_semaphore_set_payload_def numeral_2_eq_2)

theorem semaphore_alloc_fresh_witness:
  "uvm_gpu_semaphore_get_payload ex_cf (snd (snd ex_sem_alloc)) (fst (snd ex_sem_alloc)) = 0"
  using semaphore_alloc_fresh [OF ex_pool_reach ex_env_ok] ex_sem_alloc(1)
  by (auto simp: ex_sem_alloc_def split: prod.splits)

theorem semaphore_pool_destroy_ok_witness:
  "fst (uvm_gpu_semaphore_pool_destroy ex_cf (snd (uvm_gpu_semaphore_free ex_cf (fst (snd ex_sem_alloc)) (snd (snd ex_sem_alloc)))))"
proof -
  let ?sem = "fst (snd ex_sem_alloc)"
  have "uvm_gpu_semaphore_alloc ex_cf ex_page_env uvm_gpu_semaphore_pool_create = (NV_OK, ?sem, snd (snd ex_sem_alloc))"
    using ex_sem_alloc(1) by (simp add: ex_sem_alloc_def prod_eq_iff)
  from pool_reach.alloc [OF ex_pool_reach ex_env_ok this ex_sem_alloc(2)]
  have "pool_reach ex_cf (snd (snd ex_sem_alloc)) [(1, se_index ?sem)]" .
  from pool_reach.free [OF this ex_sem_alloc(2)]
  have "pool_reach ex_cf (snd (uvm_gpu_semaphore_free ex_cf ?sem (snd (snd ex_sem_alloc)))) []" by simp
  from semaphore_pool_destroy_ok [OF this] show ?thesis by (simp add: split_beta)
qed

end
