(* ===== verification/Uvm_Tracker.thy ===== *)
theory Uvm_Tracker
  imports Uvm_Semaphore
begin

text \<open>
  Trackers of the UVM driver (\<^verbatim>\<open>uvm_tracker.c\<close>): a tracker holds, per channel, the value that must
  complete before dependent work may run.  The theory has every operation with its allocation
  failures and its waiting loops.  It shows that a tracker never forgets a dependency: when it reports
  completion, everything that was added to it has completed, also when memory ran out on the way.
  What it needs of the channels is the locale \<open>completion\<close>, interpreted by the tracking semaphores.
\<close>

section \<open>State and operations\<close>

record uvm_tracker_entry =
  te_channel :: ptr
  te_value :: u64

text \<open>The entries in use; \<^verbatim>\<open>size\<close> is their number.  With \<^verbatim>\<open>max_size\<close> one they are the static entry.\<close>

record uvm_tracker =
  tr_entries :: "uvm_tracker_entry list"
  max_size :: u32

definition tr_size :: "uvm_tracker \<Rightarrow> u32" where
  "tr_size t = of_nat (length (tr_entries t))"

definition uvm_tracker_init :: uvm_tracker where
  "uvm_tracker_init = \<lparr>tr_entries = [], max_size = 1\<rparr>"

definition uvm_tracker_deinit :: "uvm_tracker \<Rightarrow> uvm_tracker" where
  "uvm_tracker_deinit t = \<lparr>tr_entries = [], max_size = 0\<rparr>"

definition uvm_tracker_clear :: "uvm_tracker \<Rightarrow> uvm_tracker" where
  "uvm_tracker_clear t = t\<lparr>tr_entries := []\<rparr>"

definition uvm_tracker_is_empty :: "uvm_tracker \<Rightarrow> bool" where
  "uvm_tracker_is_empty t \<longleftrightarrow> tr_size t = 0"

text \<open>\<^verbatim>\<open>roundup_pow_of_two\<close> of the kernel: the least power of two that is not less.\<close>

function pow2_from :: "nat \<Rightarrow> nat \<Rightarrow> nat" where
  "pow2_from k n = (if n \<le> 2 ^ k \<or> 64 \<le> k then 2 ^ k else pow2_from (Suc k) n)"
  by pat_completeness auto
termination by (relation "measure (\<lambda>(k, n). 64 - k)") auto

declare pow2_from.simps [simp del]

text \<open>The flag \<open>mem\<close> says whether the allocation or reallocation succeeds.\<close>

definition uvm_tracker_reserve :: "bool \<Rightarrow> u32 \<Rightarrow> uvm_tracker \<Rightarrow> nv_status \<times> uvm_tracker" where
  "uvm_tracker_reserve mem min_free t =
     (if tr_size t + min_free > max_size t then
        let new_max = max 8 (of_nat (pow2_from 0 (unat (tr_size t + min_free)))) in
        if mem then (NV_OK, t\<lparr>max_size := new_max\<rparr>) else (NV_ERR_NO_MEMORY, t)
      else (NV_OK, t))"

definition uvm_tracker_add_entry :: "bool \<Rightarrow> uvm_tracker_entry \<Rightarrow> uvm_tracker \<Rightarrow> nv_status \<times> uvm_tracker" where
  "uvm_tracker_add_entry mem e t =
     (case first_idx (\<lambda>x. te_channel x = te_channel e) (tr_entries t) of
        Some i \<Rightarrow>
          (NV_OK, t\<lparr>tr_entries := (tr_entries t)[i := (tr_entries t ! i)\<lparr>te_value := max (te_value (tr_entries t ! i)) (te_value e)\<rparr>]\<rparr>)
      | None \<Rightarrow>
          (case uvm_tracker_reserve mem 1 t of
             (st, t1) \<Rightarrow> if st \<noteq> NV_OK then (NV_ERR_NO_MEMORY, t1)
                         else (NV_OK, t1\<lparr>tr_entries := tr_entries t1 @ [e]\<rparr>)))"

definition uvm_tracker_overwrite :: "bool \<Rightarrow> uvm_tracker \<Rightarrow> uvm_tracker \<Rightarrow> nv_status \<times> uvm_tracker" where
  "uvm_tracker_overwrite mem dst src =
     (let dst1 = uvm_tracker_clear dst;
          (st, dst2) = uvm_tracker_reserve mem (tr_size src) dst1 in
      if st \<noteq> NV_OK then (st, dst2) else (NV_OK, dst2\<lparr>tr_entries := tr_entries src\<rparr>))"

definition uvm_tracker_init_from :: "bool \<Rightarrow> uvm_tracker \<Rightarrow> nv_status \<times> uvm_tracker" where
  "uvm_tracker_init_from mem src =
     (let (st, dst) = uvm_tracker_overwrite mem uvm_tracker_init src in
      if st \<noteq> NV_OK then (st, uvm_tracker_init) else (st, dst))"

definition uvm_tracker_overwrite_with_entry :: "bool \<Rightarrow> uvm_tracker_entry \<Rightarrow> uvm_tracker \<Rightarrow> nv_status \<times> uvm_tracker" where
  "uvm_tracker_overwrite_with_entry mem e t = uvm_tracker_add_entry mem e (uvm_tracker_clear t)"

text \<open>Completion of a value on a channel, as the channel answers it at one moment.\<close>

type_synonym completed = "ptr \<Rightarrow> u64 \<Rightarrow> bool"

definition uvm_tracker_is_entry_completed :: "completed \<Rightarrow> uvm_tracker_entry \<Rightarrow> bool" where
  "uvm_tracker_is_entry_completed c e \<longleftrightarrow> te_channel e = 0 \<or> c (te_channel e) (te_value e)"

text \<open>The loop that replaces a completed entry by the last one and looks at the same index again.\<close>

function rc_loop :: "(uvm_tracker_entry \<Rightarrow> bool) \<Rightarrow> nat \<Rightarrow> uvm_tracker_entry list \<Rightarrow> uvm_tracker_entry list" where
  "rc_loop done i xs =
     (if i < length xs then
        if done (xs ! i) then
          let n = length xs - 1 in
          rc_loop done i (take n (if i \<noteq> n then xs[i := xs ! n] else xs))
        else rc_loop done (Suc i) xs
      else xs)"
  by pat_completeness auto
termination by (relation "measure (\<lambda>(done, i, xs). length xs - i)") auto

declare rc_loop.simps [simp del]

definition uvm_tracker_remove_completed :: "completed \<Rightarrow> uvm_tracker \<Rightarrow> uvm_tracker" where
  "uvm_tracker_remove_completed c t = t\<lparr>tr_entries := rc_loop (uvm_tracker_is_entry_completed c) 0 (tr_entries t)\<rparr>"

definition uvm_tracker_is_completed :: "completed \<Rightarrow> uvm_tracker \<Rightarrow> bool \<times> uvm_tracker" where
  "uvm_tracker_is_completed c t =
     (let t1 = uvm_tracker_remove_completed c t in (tr_size t1 = 0, t1))"

text \<open>The loop of \<^verbatim>\<open>reserve_for_entries_from_tracker\<close> counts the channels of the source that the target lacks.\<close>

definition needed_free_entries :: "uvm_tracker \<Rightarrow> uvm_tracker \<Rightarrow> u32" where
  "needed_free_entries dst src =
     of_nat (length (filter (\<lambda>e. \<not> (\<exists>d \<in> set (tr_entries dst). te_channel d = te_channel e)) (tr_entries src)))"

definition reserve_for_entries_from_tracker :: "bool \<Rightarrow> uvm_tracker \<Rightarrow> uvm_tracker \<Rightarrow> nv_status \<times> uvm_tracker" where
  "reserve_for_entries_from_tracker mem dst src = uvm_tracker_reserve mem (needed_free_entries dst src) dst"

fun add_entries :: "bool \<Rightarrow> uvm_tracker_entry list \<Rightarrow> uvm_tracker \<Rightarrow> bool \<times> uvm_tracker" where
  "add_entries mem [] t = (True, t)"
| "add_entries mem (e # es) t =
     (let (st, t1) = uvm_tracker_add_entry mem e t; (ok, t2) = add_entries mem es t1 in (st = NV_OK \<and> ok, t2))"

text \<open>
  The source is a \<^verbatim>\<open>NULL\<close> pointer, the target itself, or another tracker.  The results are the status,
  both trackers, and whether the assertions on the additions held.
\<close>

datatype tracker_src = Src_null | Src_same | Src_other uvm_tracker

record add_tracker_res =
  at_status :: nv_status
  at_dst :: uvm_tracker
  at_src :: tracker_src
  at_asserts :: bool

definition uvm_tracker_add_tracker ::
  "completed \<Rightarrow> bool \<Rightarrow> bool \<Rightarrow> bool \<Rightarrow> uvm_tracker \<Rightarrow> tracker_src \<Rightarrow> add_tracker_res" where
  "uvm_tracker_add_tracker c mem1 mem2 mem3 dst s =
     (case s of
        Src_null \<Rightarrow> \<lparr>at_status = NV_OK, at_dst = dst, at_src = s, at_asserts = True\<rparr>
      | Src_same \<Rightarrow> \<lparr>at_status = NV_OK, at_dst = dst, at_src = s, at_asserts = True\<rparr>
      | Src_other src \<Rightarrow>
          if uvm_tracker_is_empty src then \<lparr>at_status = NV_OK, at_dst = dst, at_src = s, at_asserts = True\<rparr>
          else
            let (st1, dst1) = uvm_tracker_reserve mem1 (tr_size src) dst;
                (st2, dst2, src2) =
                  (if st1 = NV_ERR_NO_MEMORY then
                     let d = uvm_tracker_remove_completed c dst1; s' = uvm_tracker_remove_completed c src;
                         (st, d') = reserve_for_entries_from_tracker mem2 d s' in (st, d', s')
                   else (st1, dst1, src)) in
            if st2 \<noteq> NV_OK then \<lparr>at_status = st2, at_dst = dst2, at_src = Src_other src2, at_asserts = True\<rparr>
            else let (ok, dst3) = add_entries mem3 (tr_entries src2) dst2 in
              \<lparr>at_status = NV_OK, at_dst = dst3, at_src = Src_other src2, at_asserts = ok\<rparr>)"

section \<open>Waiting\<close>

text \<open>
  One turn of a waiting loop: what the channels have completed, which channels report an error, and
  the global status of the driver.  A list holds the turns that happen; running out of them is not
  returning yet.
\<close>

record turn =
  tn_completed :: completed
  tn_channel_error :: "ptr \<Rightarrow> nv_status"
  tn_global :: nv_status

definition uvm_tracker_check_errors :: "turn \<Rightarrow> uvm_tracker \<Rightarrow> nv_status" where
  "uvm_tracker_check_errors tn t =
     (if tn_global tn \<noteq> NV_OK then tn_global tn
      else case List.find (\<lambda>e. tn_channel_error tn (te_channel e) \<noteq> NV_OK) (tr_entries t) of
        None \<Rightarrow> NV_OK
      | Some e \<Rightarrow> tn_channel_error tn (te_channel e))"

fun uvm_tracker_wait :: "turn list \<Rightarrow> uvm_tracker \<Rightarrow> (nv_status \<times> uvm_tracker) option" where
  "uvm_tracker_wait [] t = None"
| "uvm_tracker_wait (tn # tns) t =
     (let (fin, t1) = uvm_tracker_is_completed (tn_completed tn) t in
      if fin then Some (NV_OK, t1)
      else
        let st = uvm_tracker_check_errors tn t1 in
        if st \<noteq> NV_OK then Some (st, uvm_tracker_clear t1) else uvm_tracker_wait tns t1)"

fun uvm_tracker_wait_for_entry :: "turn list \<Rightarrow> uvm_tracker_entry \<Rightarrow> (nv_status \<times> uvm_tracker_entry) option" where
  "uvm_tracker_wait_for_entry [] e = None"
| "uvm_tracker_wait_for_entry (tn # tns) e =
     (if uvm_tracker_is_entry_completed (tn_completed tn) e then Some (NV_OK, e)
      else
        let st1 = tn_channel_error tn (te_channel e);
            st = (if st1 = NV_OK then tn_global tn else st1) in
        if st \<noteq> NV_OK then Some (st, \<lparr>te_channel = 0, te_value = 0\<rparr>) else uvm_tracker_wait_for_entry tns e)"

definition uvm_tracker_query :: "turn \<Rightarrow> uvm_tracker \<Rightarrow> nv_status \<times> uvm_tracker" where
  "uvm_tracker_query tn t =
     (let (fin, t1) = uvm_tracker_is_completed (tn_completed tn) t;
          st = uvm_tracker_check_errors tn t1 in
      (if st \<noteq> NV_OK then st else if fin then NV_OK else NV_WARN_MORE_PROCESSING_REQUIRED, t1))"

definition uvm_tracker_wait_deinit :: "turn list \<Rightarrow> uvm_tracker \<Rightarrow> (nv_status \<times> uvm_tracker) option" where
  "uvm_tracker_wait_deinit tns t = map_option (\<lambda>(st, t1). (st, uvm_tracker_deinit t1)) (uvm_tracker_wait tns t)"

text \<open>
  Waiting for the channels of other GPUs: each of their entries in turn, then the completed entries are
  removed.  The turns are one list per entry, and the moment after the last.
\<close>

fun wait_others :: "(ptr \<Rightarrow> bool) \<Rightarrow> turn list list \<Rightarrow> uvm_tracker_entry list \<Rightarrow> nv_status option" where
  "wait_others own tnss [] = Some NV_OK"
| "wait_others own tnss (e # es) =
     (if own (te_channel e) then wait_others own tnss es
      else case tnss of
        [] \<Rightarrow> None
      | tns # tnss' \<Rightarrow>
          (case uvm_tracker_wait_for_entry tns e of
             None \<Rightarrow> None
           | Some (st, e') \<Rightarrow> if st \<noteq> NV_OK then Some st else wait_others own tnss' es))"

definition uvm_tracker_wait_for_other_gpus ::
  "(ptr \<Rightarrow> bool) \<Rightarrow> turn list list \<Rightarrow> completed \<Rightarrow> uvm_tracker \<Rightarrow> (nv_status \<times> uvm_tracker) option" where
  "uvm_tracker_wait_for_other_gpus own tnss c t =
     (case wait_others own tnss (tr_entries t) of
        None \<Rightarrow> None
      | Some st \<Rightarrow> Some (st, if st = NV_OK then uvm_tracker_remove_completed c t else uvm_tracker_clear t))"

definition uvm_tracker_add_entry_safe ::
  "bool \<Rightarrow> turn list \<Rightarrow> uvm_tracker_entry \<Rightarrow> uvm_tracker \<Rightarrow> (nv_status \<times> uvm_tracker_entry \<times> uvm_tracker) option" where
  "uvm_tracker_add_entry_safe mem tns e t =
     (case uvm_tracker_add_entry mem e t of
        (st, t1) \<Rightarrow>
          if st = NV_ERR_NO_MEMORY then map_option (\<lambda>(st', e'). (st', e', t1)) (uvm_tracker_wait_for_entry tns e)
          else Some (st, e, t1))"

definition uvm_tracker_overwrite_safe ::
  "bool \<Rightarrow> turn list \<Rightarrow> uvm_tracker \<Rightarrow> uvm_tracker \<Rightarrow> (nv_status \<times> uvm_tracker \<times> uvm_tracker) option" where
  "uvm_tracker_overwrite_safe mem tns dst src =
     (case uvm_tracker_overwrite mem dst src of
        (st, d) \<Rightarrow>
          if st = NV_ERR_NO_MEMORY then map_option (\<lambda>(st', s'). (st', d, s')) (uvm_tracker_wait tns src)
          else Some (st, d, src))"

definition uvm_tracker_add_tracker_safe ::
  "completed \<Rightarrow> bool \<Rightarrow> bool \<Rightarrow> bool \<Rightarrow> turn list \<Rightarrow> uvm_tracker \<Rightarrow> tracker_src \<Rightarrow> add_tracker_res option" where
  "uvm_tracker_add_tracker_safe c mem1 mem2 mem3 tns dst s =
     (let r = uvm_tracker_add_tracker c mem1 mem2 mem3 dst s in
      if at_status r = NV_ERR_NO_MEMORY then
        (case at_src r of
           Src_other src \<Rightarrow> map_option (\<lambda>(st', s'). r\<lparr>at_status := st', at_src := Src_other s'\<rparr>) (uvm_tracker_wait tns src)
         | _ \<Rightarrow> Some r)
      else Some r)"

section \<open>Removing completed entries\<close>

lemma rc_loop_mset:
  "i \<le> length xs \<Longrightarrow> \<forall>x \<in> set (take i xs). \<not> d x \<Longrightarrow>
   mset (rc_loop d i xs) = filter_mset (\<lambda>x. \<not> d x) (mset xs)"
proof (induction d i xs rule: rc_loop.induct)
  case (1 d i xs)
  show ?case
  proof (cases "i < length xs")
    case False
    then show ?thesis using 1(3,4) by (simp add: rc_loop.simps flip: mset_filter)
  next
    case i: True
    define n where "n = length xs - 1"
    have n: "n < length xs" "i \<le> n" "length xs = Suc n" using i by (auto simp: n_def)
    have split: "xs = take n xs @ [xs ! n]" using n take_Suc_conv_app_nth [of n xs] by simp
    show ?thesis
    proof (cases "d (xs ! i)")
      case False
      have "mset (rc_loop d (Suc i) xs) = filter_mset (\<lambda>x. \<not> d x) (mset xs)"
        using 1(2) i False 1(4) by (simp add: take_Suc_conv_app_nth)
      then show ?thesis using i False by (simp add: rc_loop.simps [of d i xs])
    next
      case True
      define ys where "ys = take n (if i \<noteq> n then xs[i := xs ! n] else xs)"
      have loop: "rc_loop d i xs = rc_loop d i ys"
        using i True by (simp add: rc_loop.simps [of d i xs] Let_def ys_def n_def)
      have len: "i \<le> length ys" using n by (simp add: ys_def)
      have tk: "take i ys = take i xs" using n by (simp add: ys_def min_def)
      have ms: "add_mset (xs ! i) (mset ys) = mset xs"
      proof (cases "i = n")
        case True
        have "mset xs = mset (take n xs @ [xs ! n])" using split by simp
        then show ?thesis using True by (simp add: ys_def)
      next
        case False
        then have i': "i < length (take n xs)" using n by simp
        have ys: "ys = (take n xs)[i := xs ! n]" using False by (simp add: ys_def take_update_swap)
        have e: "take n xs ! i = xs ! i" using i' by simp
        have "mset xs = mset (take n xs @ [xs ! n])" using split by simp
        moreover have "xs ! i \<in># mset (take n xs)" using i' e by (metis nth_mem set_mset_mset)
        ultimately show ?thesis unfolding ys by (simp add: mset_update [OF i'] e)
      qed
      have "mset (rc_loop d i ys) = filter_mset (\<lambda>x. \<not> d x) (mset ys)"
        using 1(1) [OF i True n_def, folded ys_def] len 1(4) unfolding tk by simp
      then show ?thesis using True by (simp add: loop flip: ms)
    qed
  qed
qed

lemma remove_completed_mset:
  "mset (tr_entries (uvm_tracker_remove_completed c t))
     = filter_mset (\<lambda>e. \<not> uvm_tracker_is_entry_completed c e) (mset (tr_entries t))"
  by (simp add: uvm_tracker_remove_completed_def rc_loop_mset)

lemma remove_completed_set [simp]:
  "set (tr_entries (uvm_tracker_remove_completed c t))
     = {e \<in> set (tr_entries t). \<not> uvm_tracker_is_entry_completed c e}"
  using arg_cong [OF remove_completed_mset, of set_mset] by auto

lemma remove_completed_max [simp]: "max_size (uvm_tracker_remove_completed c t) = max_size t"
  by (simp add: uvm_tracker_remove_completed_def)

lemma remove_completed_length: "length (tr_entries (uvm_tracker_remove_completed c t)) \<le> length (tr_entries t)"
  using arg_cong [OF remove_completed_mset, of size] size_filter_mset_lesseq
  by (metis size_mset)

section \<open>Space\<close>

abbreviation chans :: "uvm_tracker \<Rightarrow> ptr list" where
  "chans t \<equiv> map te_channel (tr_entries t)"

definition tracker_ok :: "uvm_tracker \<Rightarrow> bool" where
  "tracker_ok t \<longleftrightarrow> distinct (chans t) \<and> length (tr_entries t) \<le> unat (max_size t) \<and> unat (max_size t) \<le> 2 ^ 31
     \<and> 0 < max_size t"

lemma tracker_okD:
  assumes "tracker_ok t"
  shows "distinct (chans t)" "length (tr_entries t) \<le> unat (max_size t)" "unat (max_size t) \<le> 2 ^ 31" "0 < max_size t"
    "length (tr_entries t) \<le> 2 ^ 31"
  using assms by (auto simp: tracker_ok_def)

lemma tr_size_nat: "length (tr_entries t) \<le> 2 ^ 31 \<Longrightarrow> unat (tr_size t) = length (tr_entries t)"
  by (simp add: tr_size_def unat_of_nat)

lemma tr_size_0: "length (tr_entries t) \<le> 2 ^ 31 \<Longrightarrow> tr_size t = 0 \<longleftrightarrow> tr_entries t = []"
  using tr_size_nat [of t] by (metis length_0_conv unsigned_0 unsigned_eq_0_iff)

lemma remove_completed_ok: "tracker_ok t \<Longrightarrow> tracker_ok (uvm_tracker_remove_completed c t)"
proof -
  assume ok: "tracker_ok t"
  have "mset (chans (uvm_tracker_remove_completed c t)) \<subseteq># mset (chans t)"
    unfolding mset_map remove_completed_mset by (intro image_mset_subseteq_mono multiset_filter_subset)
  then have "distinct (chans (uvm_tracker_remove_completed c t))"
    using ok mset_subset_eq_multiset_union_diff_commute
    by (metis distinct_append mset_append mset_eq_imp_distinct_iff subset_mset.le_iff_add ex_mset tracker_okD(1))
  then show ?thesis
    using ok remove_completed_length [of c t] by (simp add: tracker_ok_def)
qed

lemma pow2_from_bounds:
  assumes "n \<le> 2 ^ 31" "k \<le> 31"
  shows "n \<le> pow2_from k n \<and> pow2_from k n \<le> 2 ^ 31"
  using assms
proof (induction k n rule: pow2_from.induct)
  case (1 k n)
  show ?case
  proof (cases "n \<le> 2 ^ k")
    case True
    have "(2::nat) ^ k \<le> 2 ^ 31" using 1(3) by (rule power_increasing) simp
    then show ?thesis using True by (simp add: pow2_from.simps)
  next
    case False
    then have "k \<noteq> 31" using 1(2) by auto
    then show ?thesis using False 1 by (simp add: pow2_from.simps [of k n])
  qed
qed

lemma reserve_ok:
  assumes "length (tr_entries t) \<le> unat (max_size t)" "unat (max_size t) \<le> 2 ^ 31" "length (tr_entries t) + unat m \<le> 2 ^ 31"
    and "uvm_tracker_reserve mem m t = (st, t')"
  shows "tr_entries t' = tr_entries t" "unat (max_size t') \<le> 2 ^ 31" "max_size t \<le> max_size t'"
    "st = NV_OK \<Longrightarrow> length (tr_entries t') + unat m \<le> unat (max_size t')"
    "st \<noteq> NV_OK \<Longrightarrow> st = NV_ERR_NO_MEMORY \<and> \<not> mem \<and> t' = t \<and> unat (max_size t) < length (tr_entries t) + unat m"
proof -
  let ?n = "length (tr_entries t) + unat m"
  have n: "unat (tr_size t + m) = ?n"
    using assms(3) by (simp add: tr_size_def unat_word_ariths unat_of_nat)
  have p: "?n \<le> pow2_from 0 ?n" "pow2_from 0 ?n \<le> 2 ^ 31" using pow2_from_bounds [OF assms(3), of 0] by auto
  have u: "unat (of_nat (pow2_from 0 ?n) :: u32) = pow2_from 0 ?n" using p(2) by (simp add: unat_of_nat)
  have mx: "unat (max 8 (of_nat (pow2_from 0 ?n) :: u32)) = max 8 (pow2_from 0 ?n)"
    using u by (auto simp: max_def word_le_nat_alt)
  have c: "tr_size t + m > max_size t \<longleftrightarrow> unat (max_size t) < ?n" using n by (simp add: word_less_nat_alt)
  note r = assms(4) [unfolded uvm_tracker_reserve_def c n Let_def]
  show "tr_entries t' = tr_entries t" using r by (auto split: if_splits)
  show "unat (max_size t') \<le> 2 ^ 31" using r assms(2) p mx by (auto split: if_splits)
  show "max_size t \<le> max_size t'" using r p mx by (auto split: if_splits simp: word_le_nat_alt)
  show "st = NV_OK \<Longrightarrow> length (tr_entries t') + unat m \<le> unat (max_size t')"
    using r p mx by (auto split: if_splits)
  show "st \<noteq> NV_OK \<Longrightarrow> st = NV_ERR_NO_MEMORY \<and> \<not> mem \<and> t' = t \<and> unat (max_size t) < ?n"
    using r by (auto split: if_splits)
qed

section \<open>What an addition does to the entries\<close>

text \<open>Every entry of \<open>X\<close> is subsumed by one of \<open>Y\<close> on the same channel.\<close>

definition subsumed :: "uvm_tracker_entry set \<Rightarrow> uvm_tracker_entry set \<Rightarrow> bool" where
  "subsumed X Y \<longleftrightarrow> (\<forall>x \<in> X. \<exists>y \<in> Y. te_channel y = te_channel x \<and> te_value x \<le> te_value y)"

lemma subsumed_trans: "subsumed X Y \<Longrightarrow> subsumed Y Z \<Longrightarrow> subsumed X Z"
  unfolding subsumed_def
proof
  fix x assume xy: "\<forall>x\<in>X. \<exists>y\<in>Y. te_channel y = te_channel x \<and> te_value x \<le> te_value y"
    and yz: "\<forall>x\<in>Y. \<exists>y\<in>Z. te_channel y = te_channel x \<and> te_value x \<le> te_value y" and "x \<in> X"
  then obtain y where y: "y \<in> Y" "te_channel y = te_channel x" "te_value x \<le> te_value y" by blast
  then obtain z where "z \<in> Z" "te_channel z = te_channel y" "te_value y \<le> te_value z" using yz by blast
  then show "\<exists>z\<in>Z. te_channel z = te_channel x \<and> te_value x \<le> te_value z" using y by (auto intro: order_trans)
qed

lemma subsumed_simps [simp]:
  "subsumed (insert x X) Y \<longleftrightarrow> (\<exists>y \<in> Y. te_channel y = te_channel x \<and> te_value x \<le> te_value y) \<and> subsumed X Y"
  "subsumed (X \<union> X') Y \<longleftrightarrow> subsumed X Y \<and> subsumed X' Y"
  "subsumed {} Y" "subsumed X X"
  by (auto simp: subsumed_def)

lemma add_entry_hit:
  assumes "te_channel e \<in> set (chans t)" "uvm_tracker_add_entry mem e t = (st, t')"
  shows "st = NV_OK" "max_size t' = max_size t" "chans t' = chans t"
    "subsumed (insert e (set (tr_entries t))) (set (tr_entries t'))"
    "set (tr_entries t') \<subseteq> insert e (set (tr_entries t))"
proof -
  let ?xs = "tr_entries t"
  obtain i where i: "first_idx (\<lambda>x. te_channel x = te_channel e) ?xs = Some i"
    using assms(1) by (auto dest: first_idx_ex [where P = "\<lambda>x. te_channel x = te_channel e"])
  have b: "i < length ?xs" "te_channel (?xs ! i) = te_channel e" using first_idx_SomeD [OF i] by auto
  define y where "y = (?xs ! i)\<lparr>te_value := max (te_value (?xs ! i)) (te_value e)\<rparr>"
  have t': "st = NV_OK" "t' = t\<lparr>tr_entries := ?xs[i := y]\<rparr>"
    using assms(2) i by (auto simp: uvm_tracker_add_entry_def y_def)
  have y: "te_channel y = te_channel e" "te_value (?xs ! i) \<le> te_value y" "te_value e \<le> te_value y"
    using b by (auto simp: y_def)
  have yc: "y = e \<or> y = ?xs ! i"
    using b(2) by (cases "?xs ! i"; cases e) (auto simp: y_def max_def)
  have el: "\<exists>z \<in> set (?xs[i := y]). te_channel z = te_channel x \<and> te_value x \<le> te_value z" if "x \<in> set ?xs" for x
  proof -
    obtain j where j: "j < length ?xs" "x = ?xs ! j" using \<open>x \<in> set ?xs\<close> by (auto simp: in_set_conv_nth)
    have "?xs[i := y] ! j \<in> set (?xs[i := y])" using j by (intro nth_mem) simp
    then show ?thesis using j b y by (cases "j = i") auto
  qed
  have yin: "y \<in> set (?xs[i := y])" using b(1) by (rule set_update_memI)
  show "st = NV_OK" "max_size t' = max_size t" using t' by auto
  show "chans t' = chans t" using t' b y by (simp add: map_update list_update_same_conv)
  show "subsumed (insert e (set ?xs)) (set (tr_entries t'))"
    using t' y yin el by (auto simp: subsumed_def)
  show "set (tr_entries t') \<subseteq> insert e (set ?xs)"
    using t' yc b set_update_subset_insert [of ?xs i y] by auto
qed

lemma chans_miss:
  "first_idx (\<lambda>x. te_channel x = ch) (tr_entries t) = None \<longleftrightarrow> ch \<notin> set (chans t)"
  by (force simp: first_idx_None)

lemma add_entry_miss:
  assumes "te_channel e \<notin> set (chans t)" "tracker_ok t" "length (tr_entries t) < 2 ^ 31"
    and "uvm_tracker_add_entry mem e t = (st, t')"
  shows "st = NV_OK \<and> tr_entries t' = tr_entries t @ [e] \<and> tracker_ok t'
         \<and> (length (tr_entries t) < unat (max_size t) \<longrightarrow> max_size t' = max_size t)
       \<or> st = NV_ERR_NO_MEMORY \<and> t' = t \<and> \<not> mem \<and> length (tr_entries t) = unat (max_size t)"
proof -
  obtain s t1 where r: "uvm_tracker_reserve mem 1 t = (s, t1)" by fastforce
  have l: "length (tr_entries t) + unat (1 :: u32) \<le> 2 ^ 31" using assms(3) by simp
  note R = reserve_ok [OF tracker_okD(2,3) [OF assms(2)] l r]
  have n: "first_idx (\<lambda>x. te_channel x = te_channel e) (tr_entries t) = None"
    using assms(1) by (simp add: chans_miss)
  have same: "length (tr_entries t) < unat (max_size t) \<Longrightarrow> t1 = t"
    using r tr_size_nat [OF tracker_okD(5) [OF assms(2)]] assms(3)
    by (auto simp: uvm_tracker_reserve_def word_less_nat_alt unat_word_ariths Let_def split: if_splits)
  show ?thesis
  proof (cases "s = NV_OK")
    case True
    have "0 < max_size t1" using R(3) tracker_okD(4) [OF assms(2)] by (rule less_le_trans [rotated])
    then have "tracker_ok (t1\<lparr>tr_entries := tr_entries t1 @ [e]\<rparr>)"
      using R(1,2) R(4) [OF True] tracker_okD(1) [OF assms(2)] assms(1) by (auto simp: tracker_ok_def)
    then show ?thesis using assms(4) n r R(1) True same by (auto simp: uvm_tracker_add_entry_def)
  next
    case False
    then show ?thesis using assms(4) n r R(5) [OF False] tracker_okD(2) [OF assms(2)]
      by (auto simp: uvm_tracker_add_entry_def)
  qed
qed

text \<open>Both cases together.\<close>

lemma add_entry_spec:
  assumes "tracker_ok t" "length (tr_entries t) < 2 ^ 31" "uvm_tracker_add_entry mem e t = (st, t')"
  shows "st = NV_OK \<and> tracker_ok t' \<and> subsumed (insert e (set (tr_entries t))) (set (tr_entries t'))
           \<and> set (tr_entries t') \<subseteq> insert e (set (tr_entries t)) \<and> max_size t \<le> max_size t'
       \<or> st = NV_ERR_NO_MEMORY \<and> t' = t \<and> \<not> mem"
proof (cases "te_channel e \<in> set (chans t)")
  case True
  note H = add_entry_hit [OF True assms(3)]
  have "length (tr_entries t') = length (tr_entries t)" using arg_cong [OF H(3), of length] by simp
  then have "tracker_ok t'" using assms(1) H(2,3) by (simp add: tracker_ok_def)
  then show ?thesis using H(1,2,4,5) by simp
next
  case False
  have "max_size t \<le> max_size t'" if "tr_entries t' = tr_entries t @ [e]"
  proof -
    obtain s t1 where r: "uvm_tracker_reserve mem 1 t = (s, t1)" by fastforce
    have "max_size t \<le> max_size t1"
      using reserve_ok(3) [OF tracker_okD(2,3) [OF assms(1)] _ r] assms(2) by simp
    then show ?thesis using assms(3) r False that
      by (auto simp: uvm_tracker_add_entry_def simp flip: chans_miss split: if_splits option.splits)
  qed
  then show ?thesis using add_entry_miss [OF False assms] by (auto simp: subsumed_def)
qed

text \<open>The entries of a list whose channel a tracker does not have yet.\<close>

definition fresh_entries :: "uvm_tracker_entry list \<Rightarrow> uvm_tracker \<Rightarrow> uvm_tracker_entry list" where
  "fresh_entries es t = filter (\<lambda>e. te_channel e \<notin> set (chans t)) es"

lemma fresh_entries_mono: "set (chans t) \<subseteq> set (chans t') \<Longrightarrow> length (fresh_entries es t') \<le> length (fresh_entries es t)"
  unfolding fresh_entries_def by (induction es) auto

lemma add_entries_reserved:
  assumes "tracker_ok t" "length (tr_entries t) + length (fresh_entries es t) \<le> unat (max_size t)"
    and "add_entries mem es t = (ok, t')"
  shows "ok \<and> tracker_ok t' \<and> max_size t' = max_size t
    \<and> subsumed (set es \<union> set (tr_entries t)) (set (tr_entries t')) \<and> set (tr_entries t') \<subseteq> set es \<union> set (tr_entries t)"
  using assms
proof (induction es arbitrary: t ok)
  case Nil
  then show ?case by auto
next
  case (Cons e es)
  obtain st t1 where a: "uvm_tracker_add_entry mem e t = (st, t1)" by fastforce
  obtain ok2 where b: "add_entries mem es t1 = (ok2, t')" "ok = (st = NV_OK \<and> ok2)"
    using Cons.prems(3) a by (auto split: prod.splits)
  have l: "st = NV_OK \<and> tracker_ok t1 \<and> max_size t1 = max_size t
      \<and> subsumed (insert e (set (tr_entries t))) (set (tr_entries t1)) \<and> set (tr_entries t1) \<subseteq> insert e (set (tr_entries t))
      \<and> length (tr_entries t1) + length (fresh_entries es t1) \<le> unat (max_size t)"
  proof (cases "te_channel e \<in> set (chans t)")
    case True
    note H = add_entry_hit [OF True a]
    have n: "length (tr_entries t1) = length (tr_entries t)" using arg_cong [OF H(3), of length] by simp
    have "fresh_entries es t1 = fresh_entries (e # es) t" using True unfolding fresh_entries_def H(3) by simp
    then show ?thesis using H Cons.prems(1,2) n by (simp add: tracker_ok_def)
  next
    case False
    have f: "length (fresh_entries (e # es) t) = Suc (length (fresh_entries es t))"
      using False by (simp add: fresh_entries_def)
    then have lt: "length (tr_entries t) < unat (max_size t)" using Cons.prems(2) by simp
    then have lt': "length (tr_entries t) < 2 ^ 31" using tracker_okD(3) [OF Cons.prems(1)] by linarith
    have r: "st = NV_OK" "tr_entries t1 = tr_entries t @ [e]" "tracker_ok t1" "max_size t1 = max_size t"
      using add_entry_miss [OF False Cons.prems(1) lt' a] lt by auto
    have "length (fresh_entries es t1) \<le> length (fresh_entries es t)" using r(2) by (intro fresh_entries_mono) auto
    then show ?thesis using r f Cons.prems(2) by (auto simp: subsumed_def)
  qed
  then have S: "ok2 \<and> tracker_ok t' \<and> max_size t' = max_size t1
      \<and> subsumed (set es \<union> set (tr_entries t1)) (set (tr_entries t')) \<and> set (tr_entries t') \<subseteq> set es \<union> set (tr_entries t1)"
    using Cons.IH [OF _ _ b(1)] by simp
  have "subsumed (insert e (set (tr_entries t))) (set (tr_entries t'))"
    using subsumed_trans [of _ "set (tr_entries t1)"] l S unfolding subsumed_simps(2) by blast
  then show ?case using l S b(2) by auto
qed

lemma fresh_le: "length (fresh_entries es t) \<le> length es"
  by (simp add: fresh_entries_def)

lemma needed_eq:
  assumes "length (tr_entries src) \<le> 2 ^ 31"
  shows "unat (needed_free_entries dst src) = length (fresh_entries (tr_entries src) dst)"
proof -
  have e: "(\<lambda>e. \<not> (\<exists>d \<in> set (tr_entries dst). te_channel d = te_channel e)) = (\<lambda>e. te_channel e \<notin> set (chans dst))"
    by (force simp: fun_eq_iff)
  have "needed_free_entries dst src = of_nat (length (fresh_entries (tr_entries src) dst))"
    unfolding needed_free_entries_def e fresh_entries_def ..
  then show ?thesis using le_trans [OF fresh_le assms, of dst] by (simp add: unat_of_nat)
qed

text \<open>Both sizes at most \<open>2\<^sup>3\<^sup>0\<close> keep the sum and its power of two in 32 bits.\<close>

definition small :: "uvm_tracker \<Rightarrow> bool" where
  "small t \<longleftrightarrow> tracker_ok t \<and> length (tr_entries t) \<le> 2 ^ 30"

lemma reserve_tracker_ok:
  assumes "small t" "unat m \<le> 2 ^ 30" "uvm_tracker_reserve mem m t = (st, t')"
  shows "tr_entries t' = tr_entries t \<and> tracker_ok t' \<and> (st = NV_OK \<longrightarrow> length (tr_entries t) + unat m \<le> unat (max_size t'))
    \<and> (st \<noteq> NV_OK \<longrightarrow> st = NV_ERR_NO_MEMORY \<and> \<not> mem \<and> t' = t)"
proof -
  have ok: "tracker_ok t" and l: "length (tr_entries t) + unat m \<le> 2 ^ 31" using assms by (auto simp: small_def)
  note R = reserve_ok [OF tracker_okD(2,3) [OF ok] l assms(3)]
  have "length (tr_entries t') \<le> unat (max_size t')" using R(1,3) tracker_okD(2) [OF ok] by (simp add: word_le_nat_alt)
  moreover have "0 < max_size t'" using tracker_okD(4) [OF ok] R(3) by (rule less_le_trans)
  ultimately show ?thesis using R(1,2,4,5) tracker_okD(1) [OF ok] by (auto simp: tracker_ok_def)
qed

lemma add_entries_after_reserve:
  assumes "small dst" "length (tr_entries src) \<le> 2 ^ 30" "length (fresh_entries (tr_entries src) dst) \<le> unat m" "unat m \<le> 2 ^ 30"
    and "uvm_tracker_reserve mem m dst = (NV_OK, dst')" "add_entries mem' (tr_entries src) dst' = (ok, t)"
  shows "ok \<and> tracker_ok t \<and> subsumed (set (tr_entries src) \<union> set (tr_entries dst)) (set (tr_entries t))
    \<and> set (tr_entries t) \<subseteq> set (tr_entries src) \<union> set (tr_entries dst)"
proof -
  have r: "tr_entries dst' = tr_entries dst" "tracker_ok dst'" "length (tr_entries dst) + unat m \<le> unat (max_size dst')"
    using reserve_tracker_ok [OF assms(1,4,5)] by auto
  have "fresh_entries (tr_entries src) dst' = fresh_entries (tr_entries src) dst" by (simp add: fresh_entries_def r(1))
  then have "length (tr_entries dst') + length (fresh_entries (tr_entries src) dst') \<le> unat (max_size dst')"
    using r assms(3) by simp
  from add_entries_reserved [OF r(2) this assms(6)] show ?thesis using r(1) by auto
qed

abbreviation entries :: "uvm_tracker \<Rightarrow> uvm_tracker_entry set" where
  "entries t \<equiv> set (tr_entries t)"

abbreviation pending :: "completed \<Rightarrow> uvm_tracker \<Rightarrow> uvm_tracker_entry set" where
  "pending c t \<equiv> {e \<in> entries t. \<not> uvm_tracker_is_entry_completed c e}"

lemma small_remove: "small t \<Longrightarrow> small (uvm_tracker_remove_completed c t)"
  using remove_completed_length [of c t] by (simp add: small_def remove_completed_ok)

lemma subsumed_subset: "X \<subseteq> Y \<Longrightarrow> subsumed X Y" "X \<subseteq> X' \<Longrightarrow> subsumed X' Y \<Longrightarrow> subsumed X Y"
  by (auto simp: subsumed_def)

lemma add_tracker_spec:
  assumes "small dst" "small src" and r: "r = uvm_tracker_add_tracker c m1 m2 m3 dst (Src_other src)"
  shows "at_asserts r \<and> tracker_ok (at_dst r)
    \<and> (at_src r = Src_other src \<or> at_src r = Src_other (uvm_tracker_remove_completed c src))
    \<and> (at_status r = NV_OK \<and> subsumed (pending c dst \<union> pending c src) (entries (at_dst r)) \<and> entries (at_dst r) \<subseteq> entries dst \<union> entries src
     \<or> at_status r = NV_ERR_NO_MEMORY \<and> \<not> m1 \<and> \<not> m2 \<and> at_dst r = uvm_tracker_remove_completed c dst)"
proof -
  have ok: "tracker_ok dst" "tracker_ok src" and ls: "length (tr_entries src) \<le> 2 ^ 30" using assms by (auto simp: small_def)
  have us: "unat (tr_size src) = length (tr_entries src)" using ls by (intro tr_size_nat) simp
  then have us': "unat (tr_size src) \<le> 2 ^ 30" "length (fresh_entries (tr_entries src) dst) \<le> unat (tr_size src)"
    using ls fresh_le by auto
  obtain st1 d1 where r1: "uvm_tracker_reserve m1 (tr_size src) dst = (st1, d1)" by fastforce
  note R1 = reserve_tracker_ok [OF assms(1) us'(1) r1]
  consider (empty) "uvm_tracker_is_empty src" | (room) "\<not> uvm_tracker_is_empty src" "st1 = NV_OK"
    | (tight) "\<not> uvm_tracker_is_empty src" "st1 = NV_ERR_NO_MEMORY" "\<not> m1" "d1 = dst" using R1 by blast
  then show ?thesis
  proof cases
    case empty
    then have "tr_entries src = []" using tr_size_0 tracker_okD(5) [OF ok(2)] by (auto simp: uvm_tracker_is_empty_def)
    then show ?thesis using empty ok by (auto simp: r uvm_tracker_add_tracker_def intro: subsumed_subset)
  next
    case room
    obtain b t where a: "add_entries m3 (tr_entries src) d1 = (b, t)" by fastforce
    have A: "b \<and> tracker_ok t \<and> subsumed (entries src \<union> entries dst) (entries t) \<and> entries t \<subseteq> entries src \<union> entries dst"
      using add_entries_after_reserve [OF assms(1) ls us'(2,1) _ a] r1 room by blast
    have "r = \<lparr>at_status = NV_OK, at_dst = t, at_src = Src_other src, at_asserts = b\<rparr>"
      using room r1 a by (simp add: r uvm_tracker_add_tracker_def)
    moreover have "subsumed (pending c dst \<union> pending c src) (entries t)"
      using A by (auto intro: subsumed_subset(2) [of _ "entries src"] subsumed_subset(2) [of _ "entries dst"])
    ultimately show ?thesis using A by auto
  next
    case tight
    define d s where "d = uvm_tracker_remove_completed c dst" and "s = uvm_tracker_remove_completed c src"
    have sm: "small d" "small s" using assms small_remove by (auto simp: d_def s_def)
    have l: "length (tr_entries s) \<le> 2 ^ 30" using sm(2) by (simp add: small_def)
    have un: "unat (needed_free_entries d s) = length (fresh_entries (tr_entries s) d)" using l by (intro needed_eq) simp
    then have un': "length (fresh_entries (tr_entries s) d) \<le> unat (needed_free_entries d s)" "unat (needed_free_entries d s) \<le> 2 ^ 30"
      using le_trans [OF fresh_le l, of d] by auto
    obtain st2 d2 where r2: "uvm_tracker_reserve m2 (needed_free_entries d s) d = (st2, d2)" by fastforce
    note R2 = reserve_tracker_ok [OF sm(1) un'(2) r2]
    show ?thesis
    proof (cases "st2 = NV_OK")
      case True
      obtain b t where a: "add_entries m3 (tr_entries s) d2 = (b, t)" by fastforce
      have A: "b \<and> tracker_ok t \<and> subsumed (entries s \<union> entries d) (entries t) \<and> entries t \<subseteq> entries s \<union> entries d"
        using add_entries_after_reserve [OF sm(1) l un' _ a] r2 True by blast
      have "r = \<lparr>at_status = NV_OK, at_dst = t, at_src = Src_other s, at_asserts = b\<rparr>"
        using tight r1 r2 True a
        by (simp add: r uvm_tracker_add_tracker_def reserve_for_entries_from_tracker_def d_def s_def Let_def)
      then show ?thesis using A by (auto simp: d_def s_def)
    next
      case False
      have "r = \<lparr>at_status = st2, at_dst = d2, at_src = Src_other s, at_asserts = True\<rparr>"
        using tight r1 r2 False
        by (simp add: r uvm_tracker_add_tracker_def reserve_for_entries_from_tracker_def d_def s_def Let_def)
      then show ?thesis using False R2 sm tight by (simp add: d_def s_def small_def)
    qed
  qed
qed

section \<open>Waiting loops\<close>

lemma is_completed_unfold:
  "uvm_tracker_is_completed c t = (tr_size (uvm_tracker_remove_completed c t) = 0, uvm_tracker_remove_completed c t)"
  by (simp add: uvm_tracker_is_completed_def Let_def)

lemma is_completed_iff:
  assumes "length (tr_entries t) \<le> 2 ^ 31"
  shows "fst (uvm_tracker_is_completed c t) \<longleftrightarrow> pending c t = {}"
proof -
  have "tr_size (uvm_tracker_remove_completed c t) = 0 \<longleftrightarrow> entries (uvm_tracker_remove_completed c t) = {}"
    by (simp only: tr_size_0 [OF le_trans [OF remove_completed_length assms], of c] set_empty)
  then show ?thesis by (simp only: is_completed_unfold fst_conv remove_completed_set)
qed

lemma wait_result:
  assumes "uvm_tracker_wait tns t = Some (st, t')" "tracker_ok t"
  shows "tr_entries t' = [] \<and> tracker_ok t'
    \<and> (st = NV_OK \<longrightarrow> (\<forall>e \<in> entries t. \<exists>tn \<in> set tns. uvm_tracker_is_entry_completed (tn_completed tn) e))"
  using assms
proof (induction tns arbitrary: t)
  case Nil
  then show ?case by simp
next
  case (Cons tn tns)
  define t1 where "t1 = uvm_tracker_remove_completed (tn_completed tn) t"
  have ok: "tracker_ok t1" using Cons.prems(2) remove_completed_ok by (simp add: t1_def)
  have z: "tr_size t1 = 0 \<longleftrightarrow> tr_entries t1 = []" using tr_size_0 tracker_okD(5) [OF ok] by blast
  have en: "entries t1 = pending (tn_completed tn) t" by (simp add: t1_def)
  show ?case
  proof (cases "tr_size t1 = 0")
    case True
    then have "st = NV_OK" "t' = t1" using Cons.prems(1) by (auto simp: is_completed_unfold t1_def)
    moreover have "pending (tn_completed tn) t = {}" using True z en by auto
    ultimately show ?thesis using ok True z by auto
  next
    case False
    define s where "s = uvm_tracker_check_errors tn t1"
    have f: "(if s \<noteq> NV_OK then Some (s, uvm_tracker_clear t1) else uvm_tracker_wait tns t1) = Some (st, t')"
      using Cons.prems(1) False by (auto simp: is_completed_unfold s_def t1_def Let_def split: if_splits)
    show ?thesis
    proof (cases "s = NV_OK")
      case True
      then show ?thesis using Cons.IH [OF _ ok] f en by auto
    next
      case s: False
      then have "st = s" "t' = uvm_tracker_clear t1" using f by auto
      then show ?thesis using s ok by (simp add: uvm_tracker_clear_def tracker_ok_def)
    qed
  qed
qed

lemma wait_entry_result:
  "uvm_tracker_wait_for_entry tns e = Some (NV_OK, e') \<Longrightarrow>
   e' = e \<and> (\<exists>tn \<in> set tns. uvm_tracker_is_entry_completed (tn_completed tn) e)"
  by (induction tns) (auto simp: Let_def split: if_splits)

lemma wait_others_result:
  "wait_others own tnss es = Some NV_OK \<Longrightarrow> e \<in> set es \<Longrightarrow> \<not> own (te_channel e) \<Longrightarrow>
   \<exists>tns \<in> set tnss. \<exists>tn \<in> set tns. uvm_tracker_is_entry_completed (tn_completed tn) e"
proof (induction own tnss es rule: wait_others.induct)
  case (1 own tnss)
  then show ?case by simp
next
  case (2 own tnss x es)
  show ?case
  proof (cases "own (te_channel x)")
    case True
    then show ?thesis using 2(1) [OF True] 2(3,4,5) by auto
  next
    case False
    then obtain tns tnss' e' where t: "tnss = tns # tnss'" "uvm_tracker_wait_for_entry tns x = Some (NV_OK, e')"
      "wait_others own tnss' es = Some NV_OK"
      using 2(3) by (auto split: list.splits option.splits prod.splits if_splits)
    show ?thesis
    proof (cases "e = x")
      case True
      then show ?thesis using wait_entry_result [OF t(2)] t(1) by auto
    next
      case ne: False
      then have "e \<in> set es" using 2(4) by simp
      from 2(2) [OF False t(1,2) refl _ t(3) this 2(5)] show ?thesis using t(1) by auto
    qed
  qed
qed

section \<open>The contract of the channels\<close>

text \<open>
  Moments of the system: \<open>cmp m\<close> says what is completed at moment \<open>m\<close>.  A channel completes its values in
  order, and what is completed stays completed.
\<close>

locale completion =
  fixes cmp :: "'m \<Rightarrow> completed" and later :: "'m \<Rightarrow> 'm \<Rightarrow> bool"
  assumes in_order: "cmp m ch v \<Longrightarrow> w \<le> v \<Longrightarrow> cmp m ch w"
    and stable: "later m m' \<Longrightarrow> cmp m ch v \<Longrightarrow> cmp m' ch v"

text \<open>Turns of a wait between two moments.\<close>

definition turns_between :: "('m \<Rightarrow> completed) \<Rightarrow> ('m \<Rightarrow> 'm \<Rightarrow> bool) \<Rightarrow> 'm \<Rightarrow> turn list \<Rightarrow> 'm \<Rightarrow> bool" where
  "turns_between cmp later m tns m' \<longleftrightarrow> later m m' \<and> (\<forall>tn \<in> set tns. \<exists>k. tn_completed tn = cmp k \<and> later k m')"

text \<open>
  \<open>tr_reach cmp later C m t G\<close>: at moment \<open>m\<close> tracker \<open>t\<close> can exist, having been given the entries \<open>G\<close> since it
  was last emptied.  All channels are in \<open>C\<close>.  A \<^verbatim>\<open>safe\<close> operation may fail to allocate and wait instead.
\<close>

inductive tr_reach ::
  "('m \<Rightarrow> completed) \<Rightarrow> ('m \<Rightarrow> 'm \<Rightarrow> bool) \<Rightarrow> ptr set \<Rightarrow> 'm \<Rightarrow> uvm_tracker \<Rightarrow> uvm_tracker_entry set \<Rightarrow> bool"
  for cmp later C where
  init: "tr_reach cmp later C m uvm_tracker_init {}"
| time: "tr_reach cmp later C m t G \<Longrightarrow> later m m' \<Longrightarrow> tr_reach cmp later C m' t G"
| clear: "tr_reach cmp later C m t G \<Longrightarrow> tr_reach cmp later C m (uvm_tracker_clear t) {}"
| remove: "tr_reach cmp later C m t G \<Longrightarrow> tr_reach cmp later C m (uvm_tracker_remove_completed (cmp m) t) G"
| query: "tr_reach cmp later C m t G \<Longrightarrow> tn_completed tn = cmp m \<Longrightarrow> uvm_tracker_query tn t = (st, t') \<Longrightarrow>
    tr_reach cmp later C m t' G"
| add: "tr_reach cmp later C m t G \<Longrightarrow> te_channel e \<in> C \<Longrightarrow> uvm_tracker_add_entry mem e t = (st, t') \<Longrightarrow>
    tr_reach cmp later C m t' (if st = NV_OK then insert e G else G)"
| add_safe: "tr_reach cmp later C m t G \<Longrightarrow> te_channel e \<in> C \<Longrightarrow> turns_between cmp later m tns m' \<Longrightarrow>
    uvm_tracker_add_entry_safe mem tns e t = Some (st, e', t') \<Longrightarrow>
    tr_reach cmp later C m' t' (if st = NV_OK then insert e G else G)"
| put: "tr_reach cmp later C m t G \<Longrightarrow> te_channel e \<in> C \<Longrightarrow> uvm_tracker_overwrite_with_entry mem e t = (st, t') \<Longrightarrow>
    tr_reach cmp later C m t' {e}"
| overwrite_safe: "tr_reach cmp later C m t G \<Longrightarrow> tr_reach cmp later C m s H \<Longrightarrow> turns_between cmp later m tns m' \<Longrightarrow>
    uvm_tracker_overwrite_safe mem tns t s = Some (st, t', s') \<Longrightarrow>
    tr_reach cmp later C m' t' (if st = NV_OK then H else {})"
| init_from: "tr_reach cmp later C m s H \<Longrightarrow> uvm_tracker_init_from mem s = (st, t') \<Longrightarrow>
    tr_reach cmp later C m t' (if st = NV_OK then H else {})"
| merge_safe: "tr_reach cmp later C m t G \<Longrightarrow> tr_reach cmp later C m s H \<Longrightarrow> turns_between cmp later m tns m' \<Longrightarrow>
    uvm_tracker_add_tracker_safe (cmp m) m1 m2 m3 tns t (Src_other s) = Some r \<Longrightarrow>
    tr_reach cmp later C m' (at_dst r) (if at_status r = NV_OK then G \<union> H else G)"
| merged_src: "tr_reach cmp later C m t G \<Longrightarrow> tr_reach cmp later C m s H \<Longrightarrow>
    at_src (uvm_tracker_add_tracker (cmp m) m1 m2 m3 t (Src_other s)) = Src_other s' \<Longrightarrow>
    tr_reach cmp later C m s' H"
| wait: "tr_reach cmp later C m t G \<Longrightarrow> turns_between cmp later m tns m' \<Longrightarrow> uvm_tracker_wait tns t = Some (st, t') \<Longrightarrow>
    tr_reach cmp later C m' t' (if st = NV_OK then G else {})"
| wait_other_gpus: "tr_reach cmp later C m t G \<Longrightarrow> later m m' \<Longrightarrow>
    uvm_tracker_wait_for_other_gpus own tnss (cmp m') t = Some (st, t') \<Longrightarrow>
    tr_reach cmp later C m' t' (if st = NV_OK then G else {})"

text \<open>The tracker holds only what it was given, and everything given is held or completed.\<close>

definition tr_inv :: "ptr set \<Rightarrow> completed \<Rightarrow> uvm_tracker \<Rightarrow> uvm_tracker_entry set \<Rightarrow> bool" where
  "tr_inv C c t G \<longleftrightarrow> tracker_ok t \<and> te_channel ` G \<subseteq> C \<and> entries t \<subseteq> G
     \<and> subsumed {g \<in> G. \<not> uvm_tracker_is_entry_completed c g} (entries t)"

lemma tr_inv_small:
  assumes "tr_inv C c t G" "finite C" "card C \<le> 2 ^ 30"
  shows "small t"
proof -
  have "te_channel ` entries t \<subseteq> C" using assms(1) by (force simp: tr_inv_def)
  then have "card (te_channel ` entries t) \<le> card C" using assms(2) by (intro card_mono)
  moreover have "card (te_channel ` entries t) = length (tr_entries t)"
    using assms(1) distinct_card [of "chans t"] by (simp add: tr_inv_def tracker_ok_def)
  ultimately show ?thesis using assms(1,3) by (simp add: small_def tr_inv_def)
qed

lemma clear_ok: "tracker_ok t \<Longrightarrow> small (uvm_tracker_clear t)"
  by (simp add: small_def tracker_ok_def uvm_tracker_clear_def)

lemma init_ok: "tracker_ok uvm_tracker_init"
  by (simp add: uvm_tracker_init_def tracker_ok_def)

lemma overwrite_spec:
  assumes "tracker_ok dst" "small src" "uvm_tracker_overwrite mem dst src = (st, d)"
  shows "st = NV_OK \<and> tracker_ok d \<and> tr_entries d = tr_entries src \<or> st = NV_ERR_NO_MEMORY \<and> d = uvm_tracker_clear dst"
proof -
  obtain s d1 where r: "uvm_tracker_reserve mem (tr_size src) (uvm_tracker_clear dst) = (s, d1)" by fastforce
  have us: "unat (tr_size src) = length (tr_entries src)" using assms(2) by (intro tr_size_nat) (simp add: small_def)
  have R: "tr_entries d1 = tr_entries (uvm_tracker_clear dst) \<and> tracker_ok d1 \<and> (s = NV_OK \<longrightarrow>
      length (tr_entries (uvm_tracker_clear dst)) + unat (tr_size src) \<le> unat (max_size d1))
      \<and> (s \<noteq> NV_OK \<longrightarrow> s = NV_ERR_NO_MEMORY \<and> \<not> mem \<and> d1 = uvm_tracker_clear dst)"
    using reserve_tracker_ok [OF clear_ok [OF assms(1)] _ r] us assms(2) by (simp add: small_def)
  show ?thesis
  proof (cases "s = NV_OK")
    case True
    then have "st = NV_OK" "d = d1\<lparr>tr_entries := tr_entries src\<rparr>" using assms(3) r by (auto simp: uvm_tracker_overwrite_def Let_def)
    then show ?thesis using R True us assms(2) by (auto simp: tracker_ok_def small_def)
  next
    case False
    then show ?thesis using R assms(3) r by (auto simp: uvm_tracker_overwrite_def Let_def)
  qed
qed

lemma tr_inv_ok: "tr_inv C c t G \<Longrightarrow> tracker_ok t"
  by (simp add: tr_inv_def)

lemma tr_inv_empty: "tracker_ok t \<Longrightarrow> tr_entries t = [] \<Longrightarrow> tr_inv C c t {}"
  by (simp add: tr_inv_def)

lemma tr_inv_all_done:
  assumes "tracker_ok t" "tr_entries t = []" "te_channel ` G \<subseteq> C" "\<forall>g \<in> G. uvm_tracker_is_entry_completed c g"
  shows "tr_inv C c t G"
  using assms by (auto simp: tr_inv_def subsumed_def)

lemma tr_inv_insert_done:
  "tr_inv C c t G \<Longrightarrow> te_channel e \<in> C \<Longrightarrow> uvm_tracker_is_entry_completed c e \<Longrightarrow> tr_inv C c t (insert e G)"
  by (auto simp: tr_inv_def subsumed_def)

lemma tr_inv_insert:
  assumes "tr_inv C c t G" "te_channel e \<in> C" "tracker_ok t'"
    and "subsumed (insert e (entries t)) (entries t')" "entries t' \<subseteq> insert e (entries t)"
  shows "tr_inv C c t' (insert e G)"
proof -
  have "subsumed {g \<in> G. \<not> uvm_tracker_is_entry_completed c g} (entries t')"
    using assms(1,4) subsumed_trans unfolding tr_inv_def subsumed_simps by blast
  moreover have "subsumed {e} (entries t')" using assms(4) by simp
  ultimately have "subsumed ({g \<in> G. \<not> uvm_tracker_is_entry_completed c g} \<union> {e}) (entries t')" by simp
  then have "subsumed {g \<in> insert e G. \<not> uvm_tracker_is_entry_completed c g} (entries t')"
    by (rule subsumed_subset(2) [rotated]) auto
  then show ?thesis using assms by (auto simp: tr_inv_def)
qed

lemma tr_inv_same_entries: "tr_inv C c s H \<Longrightarrow> tracker_ok t \<Longrightarrow> tr_entries t = tr_entries s \<Longrightarrow> tr_inv C c t H"
  by (simp add: tr_inv_def)

context completion
begin

lemma done_later: "later m m' \<Longrightarrow> uvm_tracker_is_entry_completed (cmp m) e \<Longrightarrow> uvm_tracker_is_entry_completed (cmp m') e"
  using stable by (auto simp: uvm_tracker_is_entry_completed_def)

lemma done_below:
  "uvm_tracker_is_entry_completed (cmp m) y \<Longrightarrow> te_channel y = te_channel x \<Longrightarrow> te_value x \<le> te_value y \<Longrightarrow>
   uvm_tracker_is_entry_completed (cmp m) x"
  using in_order by (auto simp: uvm_tracker_is_entry_completed_def)

lemma subsumed_pending:
  assumes "subsumed X Y" "\<forall>x \<in> X. \<not> uvm_tracker_is_entry_completed (cmp m) x"
  shows "subsumed X {y \<in> Y. \<not> uvm_tracker_is_entry_completed (cmp m) y}"
  unfolding subsumed_def
proof
  fix x assume x: "x \<in> X"
  then obtain y where y: "y \<in> Y" "te_channel y = te_channel x" "te_value x \<le> te_value y"
    using assms(1) by (auto simp: subsumed_def)
  then have "\<not> uvm_tracker_is_entry_completed (cmp m) y" using assms(2) x done_below by blast
  then show "\<exists>y \<in> {y \<in> Y. \<not> uvm_tracker_is_entry_completed (cmp m) y}. te_channel y = te_channel x \<and> te_value x \<le> te_value y"
    using y by blast
qed

lemma inv_pending: "tr_inv C (cmp m) t G \<Longrightarrow> subsumed {g \<in> G. \<not> uvm_tracker_is_entry_completed (cmp m) g} (pending (cmp m) t)"
  by (auto simp: tr_inv_def intro: subsumed_pending)

lemma inv_later: "tr_inv C (cmp m) t G \<Longrightarrow> later m m' \<Longrightarrow> tr_inv C (cmp m') t G"
  using done_later [of m m'] unfolding tr_inv_def subsumed_def by blast

lemma inv_remove: "tr_inv C (cmp m) t G \<Longrightarrow> tr_inv C (cmp m) (uvm_tracker_remove_completed (cmp m) t) G"
  using inv_pending [of C m t G] by (auto simp: tr_inv_def remove_completed_ok)

lemma inv_all_done:
  assumes "tr_inv C (cmp m) t G" "\<forall>e \<in> entries t. uvm_tracker_is_entry_completed (cmp m) e"
  shows "\<forall>g \<in> G. uvm_tracker_is_entry_completed (cmp m) g"
  using inv_pending [OF assms(1)] assms(2) by (auto simp: subsumed_def)

lemma turns_done:
  assumes "turns_between cmp later m tns m'" "tn \<in> set tns" "uvm_tracker_is_entry_completed (tn_completed tn) e"
  shows "uvm_tracker_is_entry_completed (cmp m') e"
  using assms done_later by (force simp: turns_between_def)

lemma wait_inv:
  assumes "tr_inv C (cmp m) t G" "turns_between cmp later m tns m'" "uvm_tracker_wait tns t = Some (st, t')"
  shows "tr_inv C (cmp m') t' (if st = NV_OK then G else {})"
    "st = NV_OK \<Longrightarrow> \<forall>g \<in> G. uvm_tracker_is_entry_completed (cmp m') g"
proof -
  note W = wait_result [OF assms(3) tr_inv_ok [OF assms(1)]]
  have i: "tr_inv C (cmp m') t G" using assms inv_later by (auto simp: turns_between_def)
  have a: "st = NV_OK \<Longrightarrow> \<forall>e \<in> entries t. uvm_tracker_is_entry_completed (cmp m') e"
    using W turns_done [OF assms(2)] by blast
  show "st = NV_OK \<Longrightarrow> \<forall>g \<in> G. uvm_tracker_is_entry_completed (cmp m') g" using a inv_all_done [OF i] by blast
  then show "tr_inv C (cmp m') t' (if st = NV_OK then G else {})"
    using W i tr_inv_all_done [of t' G C] tr_inv_empty by (auto simp: tr_inv_def)
qed

lemma merge_inv:
  assumes "tr_inv C (cmp m) t G" "tr_inv C (cmp m) s H" "small t" "small s"
    and r: "r = uvm_tracker_add_tracker (cmp m) m1 m2 m3 t (Src_other s)"
  shows "\<exists>s'. at_src r = Src_other s' \<and> tr_inv C (cmp m) s' H"
    "at_status r = NV_OK \<Longrightarrow> tr_inv C (cmp m) (at_dst r) (G \<union> H)"
    "at_status r \<noteq> NV_OK \<Longrightarrow> at_status r = NV_ERR_NO_MEMORY \<and> tr_inv C (cmp m) (at_dst r) G"
proof -
  note S = add_tracker_spec [OF assms(3,4) r]
  show "\<exists>s'. at_src r = Src_other s' \<and> tr_inv C (cmp m) s' H" using S assms(2) inv_remove by blast
  show "tr_inv C (cmp m) (at_dst r) (G \<union> H)" if "at_status r = NV_OK"
  proof -
    have b: "subsumed (pending (cmp m) t \<union> pending (cmp m) s) (entries (at_dst r))" "entries (at_dst r) \<subseteq> entries t \<union> entries s"
      using S that by auto
    have "subsumed {g \<in> G. \<not> uvm_tracker_is_entry_completed (cmp m) g} (entries (at_dst r))"
      "subsumed {g \<in> H. \<not> uvm_tracker_is_entry_completed (cmp m) g} (entries (at_dst r))"
      using b(1) subsumed_trans [OF inv_pending [OF assms(1)]] subsumed_trans [OF inv_pending [OF assms(2)]]
      unfolding subsumed_simps by blast+
    then have "subsumed ({g \<in> G. \<not> uvm_tracker_is_entry_completed (cmp m) g}
        \<union> {g \<in> H. \<not> uvm_tracker_is_entry_completed (cmp m) g}) (entries (at_dst r))" by simp
    then have "subsumed {g \<in> G \<union> H. \<not> uvm_tracker_is_entry_completed (cmp m) g} (entries (at_dst r))"
      by (rule subsumed_subset(2) [rotated]) auto
    then show ?thesis using S b(2) assms(1,2) by (auto simp: tr_inv_def)
  qed
  show "at_status r = NV_ERR_NO_MEMORY \<and> tr_inv C (cmp m) (at_dst r) G" if "at_status r \<noteq> NV_OK"
    using S that assms(1) inv_remove by auto
qed

lemma add_inv:
  assumes i: "tr_inv C (cmp m) t G" and "small t" "te_channel e \<in> C" "uvm_tracker_add_entry mem e t = (st, t')"
  shows "tr_inv C (cmp m) t' (if st = NV_OK then insert e G else G)"
proof -
  have "length (tr_entries t) < 2 ^ 31" using assms(2) by (simp add: small_def)
  from add_entry_spec [OF tr_inv_ok [OF i] this assms(4)] show ?thesis using tr_inv_insert [OF i assms(3)] i by auto
qed

lemma add_safe_inv:
  assumes "tr_inv C (cmp m) t G" "small t" "te_channel e \<in> C" and tb: "turns_between cmp later m tns m'"
    and "uvm_tracker_add_entry_safe mem tns e t = Some (st, e', t')"
  shows "tr_inv C (cmp m') t' (if st = NV_OK then insert e G else G)"
proof -
  obtain s t1 where a: "uvm_tracker_add_entry mem e t = (s, t1)" by fastforce
  have i: "tr_inv C (cmp m') t G" using assms(1) tb inv_later by (auto simp: turns_between_def)
  have l: "length (tr_entries t) < 2 ^ 31" using assms(2) by (simp add: small_def)
  show ?thesis
  proof (cases "s = NV_OK")
    case True
    then show ?thesis using add_inv [OF i assms(2,3) a] assms(5) a by (auto simp: uvm_tracker_add_entry_safe_def)
  next
    case False
    then have "s = NV_ERR_NO_MEMORY" "t1 = t" using add_entry_spec [OF tr_inv_ok [OF i] l a] by auto
    then have w: "uvm_tracker_wait_for_entry tns e = Some (st, e')" "t' = t"
      using assms(5) a by (auto simp: uvm_tracker_add_entry_safe_def)
    have "st = NV_OK \<Longrightarrow> uvm_tracker_is_entry_completed (cmp m') e" using w wait_entry_result turns_done [OF tb] by blast
    then show ?thesis using tr_inv_insert_done [OF i assms(3)] i w by simp
  qed
qed

lemma put_inv:
  assumes "tr_inv C (cmp m) t G" "te_channel e \<in> C" "uvm_tracker_overwrite_with_entry mem e t = (st, t')"
  shows "tr_inv C (cmp m) t' {e}"
proof -
  let ?c = "uvm_tracker_clear t"
  have c: "tracker_ok ?c" "tr_entries ?c = []" "max_size ?c = max_size t"
    using clear_ok [OF tr_inv_ok [OF assms(1)]] by (auto simp: small_def uvm_tracker_clear_def)
  have "0 < unat (max_size t)" using tracker_okD(4) [OF tr_inv_ok [OF assms(1)]] by (simp add: word_less_nat_alt)
  then have "tr_entries t' = [e]" "tracker_ok t'"
    using add_entry_miss [of e ?c mem st t'] assms(3) c by (auto simp: uvm_tracker_overwrite_with_entry_def)
  then show ?thesis using assms(2) by (auto simp: tr_inv_def subsumed_def)
qed

lemma overwrite_safe_inv:
  assumes "tracker_ok t" "tr_inv C (cmp m) s H" "small s" and tb: "turns_between cmp later m tns m'"
    and "uvm_tracker_overwrite_safe mem tns t s = Some (st, t', s')"
  shows "tr_inv C (cmp m') t' (if st = NV_OK then H else {})"
proof -
  obtain st1 d where o: "uvm_tracker_overwrite mem t s = (st1, d)" by fastforce
  have i: "tr_inv C (cmp m') s H" using assms(2) tb inv_later by (auto simp: turns_between_def)
  from overwrite_spec [OF assms(1,3) o] show ?thesis
  proof (elim disjE conjE)
    assume "st1 = NV_OK" "tracker_ok d" "tr_entries d = tr_entries s"
    then show ?thesis using o assms(5) tr_inv_same_entries [OF i] by (auto simp: uvm_tracker_overwrite_safe_def)
  next
    assume "st1 = NV_ERR_NO_MEMORY" and d: "d = uvm_tracker_clear t"
    then have w: "uvm_tracker_wait tns s = Some (st, s')" "t' = d"
      using o assms(5) by (auto simp: uvm_tracker_overwrite_safe_def)
    have e: "tracker_ok d" "tr_entries d = []"
      using clear_ok [OF assms(1)] by (auto simp: d small_def uvm_tracker_clear_def)
    have "te_channel ` H \<subseteq> C" using i by (simp add: tr_inv_def)
    then show ?thesis
      using e w tr_inv_all_done [OF e] wait_inv(2) [OF assms(2) tb w(1)] tr_inv_empty [OF e] by auto
  qed
qed

lemma merge_safe_inv:
  assumes I: "tr_inv C (cmp m) t G" "tr_inv C (cmp m) s H" "small t" "small s" and tb: "turns_between cmp later m tns m'"
    and r: "uvm_tracker_add_tracker_safe (cmp m) m1 m2 m3 tns t (Src_other s) = Some r"
  shows "tr_inv C (cmp m') (at_dst r) (if at_status r = NV_OK then G \<union> H else G)"
proof -
  define q where "q = uvm_tracker_add_tracker (cmp m) m1 m2 m3 t (Src_other s)"
  note M = merge_inv [OF I q_def]
  have l: "later m m'" using tb by (simp add: turns_between_def)
  show ?thesis
  proof (cases "at_status q = NV_OK")
    case True
    then show ?thesis using r inv_later [OF M(2) l] by (simp add: uvm_tracker_add_tracker_safe_def flip: q_def)
  next
    case False
    obtain s' where s': "at_src q = Src_other s'" "tr_inv C (cmp m) s' H" using M(1) by blast
    obtain st z where w: "uvm_tracker_wait tns s' = Some (st, z)" "r = q\<lparr>at_status := st, at_src := Src_other z\<rparr>"
      using r M(3) [OF False] s' by (auto simp: uvm_tracker_add_tracker_safe_def simp flip: q_def)
    have i: "tr_inv C (cmp m') (at_dst r) G" using inv_later [OF _ l] M(3) [OF False] w(2) by simp
    have "te_channel ` H \<subseteq> C" using s'(2) by (simp add: tr_inv_def)
    then show ?thesis using i wait_inv(2) [OF s'(2) tb w(1)] w(2) by (auto simp: tr_inv_def subsumed_def)
  qed
qed

lemma tr_reach_inv:
  assumes C: "finite C" "card C \<le> 2 ^ 30"
  shows "tr_reach cmp later C m t G \<Longrightarrow> tr_inv C (cmp m) t G"
proof (induction rule: tr_reach.induct)
  case (init m)
  show ?case by (intro tr_inv_empty init_ok) (simp add: uvm_tracker_init_def)
next
  case (time m t G m')
  then show ?case using inv_later by blast
next
  case (clear m t G)
  then show ?case using clear_ok tr_inv_ok by (intro tr_inv_empty) (auto simp: small_def uvm_tracker_clear_def)
next
  case (remove m t G)
  then show ?case using inv_remove by blast
next
  case (query m t G tn st t')
  then have "t' = uvm_tracker_remove_completed (cmp m) t" by (auto simp: uvm_tracker_query_def is_completed_unfold Let_def)
  then show ?case using query inv_remove by blast
next
  case (add m t G e mem st t')
  then show ?case using add_inv tr_inv_small [OF _ C] by blast
next
  case (add_safe m t G e tns m' mem st e' t')
  then show ?case using add_safe_inv tr_inv_small [OF _ C] by blast
next
  case (put m t G e mem st t')
  then show ?case using put_inv by blast
next
  case (overwrite_safe m t G s H tns m' mem st t' s')
  then show ?case using overwrite_safe_inv tr_inv_small [OF _ C] tr_inv_ok by blast
next
  case (init_from m s H mem st t')
  obtain st1 d where o: "uvm_tracker_overwrite mem uvm_tracker_init s = (st1, d)" by fastforce
  have "tr_inv C (cmp m) uvm_tracker_init {}" by (intro tr_inv_empty init_ok) (simp add: uvm_tracker_init_def)
  then show ?case
    using overwrite_spec [OF init_ok tr_inv_small [OF init_from.IH C] o] init_from.hyps(2) o tr_inv_same_entries [OF init_from.IH]
    by (auto simp: uvm_tracker_init_from_def)
next
  case (merge_safe m t G s H tns m' m1 m2 m3 r)
  then show ?case using merge_safe_inv tr_inv_small [OF _ C] by blast
next
  case (merged_src m t G s H m1 m2 m3 s')
  from merge_inv(1) [OF merged_src.IH tr_inv_small [OF merged_src.IH(1) C] tr_inv_small [OF merged_src.IH(2) C]
      refl [of "uvm_tracker_add_tracker (cmp m) m1 m2 m3 t (Src_other s)"]]
  show ?case using merged_src.hyps(3) by auto
next
  case (wait m t G tns m' st t')
  then show ?case using wait_inv(1) by blast
next
  case (wait_other_gpus m t G m' own tnss st t')
  have i: "tr_inv C (cmp m') t G" using wait_other_gpus inv_later by blast
  have "tr_inv C (cmp m') (uvm_tracker_clear t) {}"
    using clear_ok tr_inv_ok [OF i] by (intro tr_inv_empty) (auto simp: small_def uvm_tracker_clear_def)
  then show ?case
    using wait_other_gpus.hyps(3) inv_remove [OF i] by (auto simp: uvm_tracker_wait_for_other_gpus_def split: option.splits)
qed

lemma is_completed_exact:
  assumes "finite C" "card C \<le> 2 ^ 30" "tr_reach cmp later C m t G"
  shows "fst (uvm_tracker_is_completed (cmp m) t) \<longleftrightarrow> (\<forall>g \<in> G. uvm_tracker_is_entry_completed (cmp m) g)"
proof -
  have i: "tr_inv C (cmp m) t G" using tr_reach_inv [OF assms] .
  have "length (tr_entries t) \<le> 2 ^ 31" using tr_inv_small [OF i assms(1,2)] by (simp add: small_def)
  then have "fst (uvm_tracker_is_completed (cmp m) t) \<longleftrightarrow> pending (cmp m) t = {}" by (rule is_completed_iff)
  also have "... \<longleftrightarrow> (\<forall>g \<in> G. uvm_tracker_is_entry_completed (cmp m) g)"
    using inv_all_done [OF i] i by (auto simp: tr_inv_def)
  finally show ?thesis .
qed

end

section \<open>The tracking semaphores fulfil the contract\<close>

text \<open>A moment: for every channel its tracking semaphore and the counter of the work the GPU has completed.\<close>

type_synonym sem_moment = "ptr \<Rightarrow> tracking_semaphore \<times> nat"

definition sem_completed :: "sem_moment \<Rightarrow> completed" where
  "sem_completed m ch v = (case m ch of (ts, V) \<Rightarrow> fst (uvm_gpu_tracking_semaphore_is_value_completed (of_nat V) v ts))"

definition sem_later :: "sem_moment \<Rightarrow> sem_moment \<Rightarrow> bool" where
  "sem_later m m' \<longleftrightarrow> (\<forall>ch. in_reach (unat (completed_value (fst (m ch)))) (snd (m ch))
     \<and> in_reach (unat (completed_value (fst (m' ch)))) (snd (m' ch)) \<and> snd (m ch) \<le> snd (m' ch))"

interpretation sems: completion sem_completed sem_later
proof
  fix m ch v w assume "sem_completed m ch v" "w \<le> v"
  then show "sem_completed m ch w"
    by (auto simp: sem_completed_def uvm_gpu_tracking_semaphore_is_value_completed_def split: prod.splits if_splits)
next
  fix m m' ch v assume l: "sem_later m m'" and c: "sem_completed m ch v"
  obtain ts V ts' V' where m: "m ch = (ts, V)" "m' ch = (ts', V')" by fastforce
  have r: "in_reach (unat (completed_value ts)) V" "in_reach (unat (completed_value ts')) V'" "V \<le> V'"
    using spec [OF l [unfolded sem_later_def], of ch] m by auto
  show "sem_completed m' ch v"
    using c m r(3) is_value_completed_exact [OF r(1), of v] is_value_completed_exact [OF r(2), of v]
    by (auto simp: sem_completed_def split: prod.splits)
qed

section \<open>Properties\<close>

text \<open>
  C25.  A tracker forgets no dependency and invents none.  Whatever sequence of additions, merges, overwrites,
  queries and waits produced it, with allocations failing at any point, it reports completion exactly
  when every entry it was given since it was last emptied is completed by the tracking semaphores.
\<close>

theorem tracker_completion_exact:
  assumes "finite C" "card C \<le> 2 ^ 30" "tr_reach sem_completed sem_later C m t G"
  shows "fst (uvm_tracker_is_completed (sem_completed m) t) \<longleftrightarrow> (\<forall>g \<in> G. uvm_tracker_is_entry_completed (sem_completed m) g)"
  using assms by (rule sems.is_completed_exact)

text \<open>
  Merging one tracker into another never needs memory after its reservation, so its assertions hold
  whatever later allocations would do.  It fails only when both reservations failed, and then the target
  has lost completed entries only.
\<close>

theorem tracker_merge_reserved:
  assumes "small dst" "small src"
  shows "case uvm_tracker_add_tracker c m1 m2 m3 dst (Src_other src) of r \<Rightarrow>
    at_asserts r \<and> tracker_ok (at_dst r)
    \<and> (at_status r = NV_OK \<and> subsumed (pending c dst \<union> pending c src) (entries (at_dst r)) \<and> entries (at_dst r) \<subseteq> entries dst \<union> entries src
     \<or> at_status r = NV_ERR_NO_MEMORY \<and> \<not> m1 \<and> \<not> m2 \<and> entries (at_dst r) = pending c dst)"
  using add_tracker_spec [OF assms refl, of c m1 m2 m3] by auto

text \<open>
  The loop that swaps completed entries with the last one ends, and keeps exactly the entries that are
  not completed, each as often as before.
\<close>

theorem tracker_remove_completed_exact:
  "mset (tr_entries (uvm_tracker_remove_completed c t))
     = mset (filter (\<lambda>e. \<not> uvm_tracker_is_entry_completed c e) (tr_entries t))"
  by (simp add: remove_completed_mset)

lemma find_SomeD: "List.find P xs = Some x \<Longrightarrow> P x" "List.find P xs = Some x \<Longrightarrow> x \<in> set xs"
  by (auto simp: find_Some_iff)

lemma wait_ends:
  assumes "tracker_ok t" "tn \<in> set tns" "\<forall>e \<in> entries t. uvm_tracker_is_entry_completed (tn_completed tn) e"
  shows "\<exists>st t'. uvm_tracker_wait tns t = Some (st, t')
    \<and> (st \<noteq> NV_OK \<longrightarrow> (\<exists>x \<in> set tns. tn_global x = st \<or> (\<exists>e \<in> entries t. tn_channel_error x (te_channel e) = st)))"
  using assms
proof (induction tns arbitrary: t)
  case Nil
  then show ?case by simp
next
  case (Cons x tns)
  define t1 where "t1 = uvm_tracker_remove_completed (tn_completed x) t"
  have t1: "tracker_ok t1" "entries t1 \<subseteq> entries t" using Cons.prems(1) remove_completed_ok by (auto simp: t1_def)
  have u: "uvm_tracker_wait (x # tns) t =
      (if tr_size t1 = 0 then Some (NV_OK, t1)
       else if uvm_tracker_check_errors x t1 \<noteq> NV_OK then Some (uvm_tracker_check_errors x t1, uvm_tracker_clear t1)
       else uvm_tracker_wait tns t1)"
    by (simp add: is_completed_unfold t1_def Let_def)
  have err: "tn_global x = uvm_tracker_check_errors x t1
      \<or> (\<exists>e \<in> entries t. tn_channel_error x (te_channel e) = uvm_tracker_check_errors x t1)"
    if "uvm_tracker_check_errors x t1 \<noteq> NV_OK"
  proof (cases "List.find (\<lambda>e. tn_channel_error x (te_channel e) \<noteq> NV_OK) (tr_entries t1)")
    case (Some e)
    have "e \<in> entries t1" using find_SomeD(2) [OF Some] .
    then show ?thesis using t1(2) Some by (auto simp: uvm_tracker_check_errors_def)
  qed (use that in \<open>auto simp: uvm_tracker_check_errors_def split: if_splits\<close>)
  consider (fin) "tr_size t1 = 0" | (err) "tr_size t1 \<noteq> 0" "uvm_tracker_check_errors x t1 \<noteq> NV_OK"
    | (go) "tr_size t1 \<noteq> 0" "uvm_tracker_check_errors x t1 = NV_OK" by blast
  then show ?case
  proof cases
    case go
    have "tn \<noteq> x"
    proof
      assume "tn = x"
      then have "entries t1 = {}" using Cons.prems(3) by (auto simp: t1_def)
      then show False using go(1) by (simp add: tr_size_def)
    qed
    then have "tn \<in> set tns" using Cons.prems(2) by simp
    moreover have "\<forall>e \<in> entries t1. uvm_tracker_is_entry_completed (tn_completed tn) e" using Cons.prems(3) t1(2) by blast
    ultimately obtain st t' where w: "uvm_tracker_wait tns t1 = Some (st, t')"
        "st \<noteq> NV_OK \<longrightarrow> (\<exists>x \<in> set tns. tn_global x = st \<or> (\<exists>e \<in> entries t1. tn_channel_error x (te_channel e) = st))"
      using Cons.IH [OF t1(1)] by blast
    then show ?thesis using go u t1(2) by auto
  qed (use u err in auto)
qed

text \<open>
  C26.  A wait ends: once a turn comes at which everything in the tracker is completed, \<^verbatim>\<open>uvm_tracker_wait\<close> has
  returned, with an empty tracker; a failure is an error that a channel of the tracker or the driver
  reported.
\<close>

theorem tracker_wait_terminates:
  assumes "tracker_ok t" "tn \<in> set tns" "\<forall>e \<in> entries t. uvm_tracker_is_entry_completed (tn_completed tn) e"
  shows "\<exists>st t'. uvm_tracker_wait tns t = Some (st, t') \<and> tr_entries t' = []
    \<and> (st \<noteq> NV_OK \<longrightarrow> (\<exists>x \<in> set tns. tn_global x = st \<or> (\<exists>e \<in> entries t. tn_channel_error x (te_channel e) = st)))"
  using wait_ends [OF assms] wait_result [OF _ assms(1)] by blast

section \<open>Witnesses\<close>

definition ex_moment :: "nat \<Rightarrow> sem_moment" where
  "ex_moment V = (\<lambda>ch. (\<lparr>ts_sem = \<lparr>se_page = None, se_index = 0, cached_payload = 0, last_pushed_notifier = 0, last_observed_notifier = 0\<rparr>,
     completed_value = 0, queued_value = 9\<rparr>, V))"

lemma ex_completed: "V < 100 \<Longrightarrow> sem_completed (ex_moment V) ch v \<longleftrightarrow> unat v \<le> V"
  using is_value_completed_exact [of "fst (ex_moment V ch)" V v]
  by (auto simp: sem_completed_def ex_moment_def in_reach_def split: prod.splits)

definition ex_entry :: "ptr \<Rightarrow> u64 \<Rightarrow> uvm_tracker_entry" where
  "ex_entry ch v = \<lparr>te_channel = ch, te_value = v\<rparr>"

text \<open>A tracker with room for one entry, and the second addition without memory: it waits.\<close>

lemma ex_tracker_reach:
  "tr_reach sem_completed sem_later {1, 2} (ex_moment 7) \<lparr>tr_entries = [ex_entry 1 8], max_size = 1\<rparr> {ex_entry 1 8, ex_entry 2 5}"
proof -
  let ?t = "\<lparr>tr_entries = [ex_entry 1 8], max_size = 1\<rparr>"
  have a: "uvm_tracker_add_entry True (ex_entry 1 8) uvm_tracker_init = (NV_OK, ?t)"
    by (simp add: uvm_tracker_add_entry_def uvm_tracker_init_def uvm_tracker_reserve_def tr_size_def)
  have 1: "tr_reach sem_completed sem_later {1, 2} (ex_moment 3) ?t {ex_entry 1 8}"
    using tr_reach.add [OF tr_reach.init _ a, of "{1, 2}" sem_completed sem_later "ex_moment 3"] by (simp add: ex_entry_def)
  let ?tn = "\<lambda>V. \<lparr>tn_completed = sem_completed (ex_moment V), tn_channel_error = (\<lambda>ch. NV_OK), tn_global = NV_OK\<rparr>"
  have v: "sem_completed (ex_moment 3) 2 5 = False" "sem_completed (ex_moment 7) 2 5 = True"
    by (simp_all add: ex_completed)
  have s: "uvm_tracker_add_entry_safe False [?tn 3, ?tn 7] (ex_entry 2 5) ?t = Some (NV_OK, ex_entry 2 5, ?t)"
    by (simp add: uvm_tracker_add_entry_safe_def uvm_tracker_add_entry_def uvm_tracker_reserve_def tr_size_def ex_entry_def
        uvm_tracker_is_entry_completed_def v Let_def)
  have "turns_between sem_completed sem_later (ex_moment 3) [?tn 3, ?tn 7] (ex_moment 7)"
    by (auto simp: turns_between_def sem_later_def ex_moment_def in_reach_def)
  from tr_reach.add_safe [OF 1 _ this s] show ?thesis by (simp add: ex_entry_def insert_commute)
qed

theorem tracker_completion_exact_witness:
  "\<not> fst (uvm_tracker_is_completed (sem_completed (ex_moment 7)) \<lparr>tr_entries = [ex_entry 1 8], max_size = 1\<rparr>)"
  using tracker_completion_exact [OF _ _ ex_tracker_reach]
  by (simp add: ex_entry_def uvm_tracker_is_entry_completed_def ex_completed)

theorem tracker_merge_reserved_witness:
  "at_status (uvm_tracker_add_tracker (\<lambda>ch v. ch = 1) False True False
     \<lparr>tr_entries = [ex_entry 1 8], max_size = 1\<rparr> (Src_other \<lparr>tr_entries = [ex_entry 2 5], max_size = 1\<rparr>)) = NV_OK"
  using tracker_merge_reserved [of "\<lparr>tr_entries = [ex_entry 1 8], max_size = 1\<rparr>" "\<lparr>tr_entries = [ex_entry 2 5], max_size = 1\<rparr>"
      "\<lambda>ch v. ch = 1" False True False]
  by (auto simp: small_def tracker_ok_def)

theorem tracker_wait_terminates_witness:
  "\<exists>st t'. uvm_tracker_wait [\<lparr>tn_completed = (\<lambda>ch v. False), tn_channel_error = (\<lambda>ch. NV_OK), tn_global = NV_OK\<rparr>,
       \<lparr>tn_completed = (\<lambda>ch v. True), tn_channel_error = (\<lambda>ch. NV_OK), tn_global = NV_OK\<rparr>]
     \<lparr>tr_entries = [ex_entry 1 8], max_size = 1\<rparr> = Some (st, t') \<and> tr_entries t' = []"
  using tracker_wait_terminates [of "\<lparr>tr_entries = [ex_entry 1 8], max_size = 1\<rparr>"
      "\<lparr>tn_completed = (\<lambda>ch v. True), tn_channel_error = (\<lambda>ch. NV_OK), tn_global = NV_OK\<rparr>"
      "[\<lparr>tn_completed = (\<lambda>ch v. False), tn_channel_error = (\<lambda>ch. NV_OK), tn_global = NV_OK\<rparr>,
       \<lparr>tn_completed = (\<lambda>ch v. True), tn_channel_error = (\<lambda>ch. NV_OK), tn_global = NV_OK\<rparr>]"]
  by (auto simp: tracker_ok_def uvm_tracker_is_entry_completed_def)

end
