(* ===== verification/Uvm_Pushbuffer.thy ===== *)
theory Uvm_Pushbuffer
  imports Uvm_Common
begin

text \<open>
  The pushbuffer of the UVM driver (\<^verbatim>\<open>uvm_pushbuffer.c\<close>): sixteen chunks, each roughly a ring of pending
  pushes that may complete out of order.  The theory has the claim of a chunk with its waiting loop, the
  end of a push, the completion of a GPFIFO entry, and creation and destruction with their error paths.
  It shows that pending and on-going pushes never share a byte, that a chunk is offered exactly when it
  can hold a push of maximal size, and what a failed claim leaves behind.
\<close>

section \<open>State\<close>

definition UVM_MAX_PUSH_SIZE :: u32 where
  "UVM_MAX_PUSH_SIZE = 128 * 1024"

definition UVM_PUSHBUFFER_CHUNK_SIZE :: u32 where
  "UVM_PUSHBUFFER_CHUNK_SIZE = 8 * UVM_MAX_PUSH_SIZE"

definition UVM_PUSHBUFFER_CHUNKS :: nat where
  "UVM_PUSHBUFFER_CHUNKS = 16"

definition UVM_PUSHBUFFER_SIZE :: u32 where
  "UVM_PUSHBUFFER_SIZE = UVM_PUSHBUFFER_CHUNK_SIZE * of_nat UVM_PUSHBUFFER_CHUNKS"

text \<open>A GPFIFO entry of the software state: its identity and the part of the pushbuffer that it uses.\<close>

record uvm_gpfifo_entry =
  ge_id :: nat
  pushbuffer_offset :: u32
  pushbuffer_size :: u32

record uvm_pushbuffer_chunk =
  next_push_start :: u32
  pending_gpfifos :: "uvm_gpfifo_entry list"
  current_push :: "nat option"

record uvm_pushbuffer =
  pb_chunks :: "uvm_pushbuffer_chunk list"
  available_chunks :: "bool list"
  idle_chunks :: "bool list"
  concurrent_pushes_sema :: nat

text \<open>A push: its identity, the kind of its channel, and the start of its methods in memory.\<close>

record uvm_push =
  pu_id :: nat
  pu_wlc :: bool
  pu_begin :: u64
  pu_next :: u64

section \<open>Chunks\<close>

definition get_chunk_in_mask :: "bool list \<Rightarrow> nat option" where
  "get_chunk_in_mask bits = first_idx (\<lambda>b. b) bits"

definition pick_chunk :: "uvm_pushbuffer \<Rightarrow> nat option" where
  "pick_chunk pb =
     (case get_chunk_in_mask (idle_chunks pb) of
        None \<Rightarrow> get_chunk_in_mask (available_chunks pb)
      | Some i \<Rightarrow> Some i)"

definition uvm_pushbuffer_has_space :: "uvm_pushbuffer \<Rightarrow> bool" where
  "uvm_pushbuffer_has_space pb \<longleftrightarrow> pick_chunk pb \<noteq> None"

definition chunk_get_offset :: "nat \<Rightarrow> u32" where
  "chunk_get_offset i = of_nat i * UVM_PUSHBUFFER_CHUNK_SIZE"

definition try_claim_chunk :: "nat \<Rightarrow> uvm_pushbuffer \<Rightarrow> nat option \<times> uvm_pushbuffer" where
  "try_claim_chunk push pb =
     (case pick_chunk pb of
        None \<Rightarrow> (None, pb)
      | Some i \<Rightarrow>
          (Some i, pb\<lparr>pb_chunks := (pb_chunks pb)[i := (pb_chunks pb ! i)\<lparr>current_push := Some push\<rparr>],
                      idle_chunks := (idle_chunks pb)[i := False],
                      available_chunks := (available_chunks pb)[i := False]\<rparr>))"

definition chunk_get_next_push_start_addr :: "u64 \<Rightarrow> uvm_pushbuffer \<Rightarrow> nat \<Rightarrow> u64" where
  "chunk_get_next_push_start_addr base pb i =
     base + ucast (chunk_get_offset i) + ucast (next_push_start (pb_chunks pb ! i))"

definition chunk_get_cpu_put :: "nat \<Rightarrow> uvm_gpfifo_entry list \<Rightarrow> u32" where
  "chunk_get_cpu_put i es =
     (if es = [] then 0 else pushbuffer_offset (last es) + pushbuffer_size (last es) - chunk_get_offset i)"

definition chunk_get_gpu_get :: "nat \<Rightarrow> uvm_gpfifo_entry list \<Rightarrow> u32" where
  "chunk_get_gpu_get i es = (if es = [] then 0 else pushbuffer_offset (hd es) - chunk_get_offset i)"

definition offer_chunk :: "nat \<Rightarrow> u32 \<Rightarrow> uvm_pushbuffer \<Rightarrow> uvm_pushbuffer" where
  "offer_chunk i start pb =
     pb\<lparr>available_chunks := (available_chunks pb)[i := True],
        pb_chunks := (pb_chunks pb)[i := (pb_chunks pb ! i)\<lparr>next_push_start := start\<rparr>]\<rparr>"

definition update_chunk :: "nat \<Rightarrow> uvm_pushbuffer \<Rightarrow> uvm_pushbuffer" where
  "update_chunk i pb =
     (let es = pending_gpfifos (pb_chunks pb ! i);
          gpu_get = chunk_get_gpu_get i es;
          cpu_put = chunk_get_cpu_put i es in
      if gpu_get = cpu_put then
        if es \<noteq> [] then pb
        else offer_chunk i 0 (pb\<lparr>idle_chunks := (idle_chunks pb)[i := True]\<rparr>)
      else if gpu_get > cpu_put then
        if gpu_get - cpu_put \<ge> UVM_MAX_PUSH_SIZE then offer_chunk i cpu_put pb else pb
      else if UVM_PUSHBUFFER_CHUNK_SIZE \<ge> cpu_put + UVM_MAX_PUSH_SIZE then offer_chunk i cpu_put pb
      else if gpu_get \<ge> UVM_MAX_PUSH_SIZE then offer_chunk i 0 pb
      else pb)"

definition offset_to_chunk :: "u32 \<Rightarrow> nat" where
  "offset_to_chunk off = unat (off div UVM_PUSHBUFFER_CHUNK_SIZE)"

definition gpfifo_to_chunk :: "uvm_gpfifo_entry \<Rightarrow> nat" where
  "gpfifo_to_chunk g = offset_to_chunk (pushbuffer_offset g)"

section \<open>Completion\<close>

text \<open>
  The callback of a push and its crypto bundle: the size to decrypt, or \<^verbatim>\<open>None\<close> when the channel has no
  bundles.  The events are the calls in order.
\<close>

record uvm_push_info =
  on_complete :: "ptr option"
  on_complete_data :: "ptr option"
  bundle_size :: "u32 option"

datatype pb_event = Cpu_decrypt u32 u32 | On_complete ptr "ptr option"

definition decrypt_push :: "uvm_gpfifo_entry \<Rightarrow> uvm_push_info \<Rightarrow> pb_event list \<times> uvm_push_info" where
  "decrypt_push g info =
     (case bundle_size info of
        None \<Rightarrow> ([], info)
      | Some n \<Rightarrow> if n = 0 then ([], info)
                  else ([Cpu_decrypt (pushbuffer_offset g) n], info\<lparr>bundle_size := Some 0\<rparr>))"

definition complete_info :: "uvm_gpfifo_entry \<Rightarrow> uvm_push_info \<Rightarrow> pb_event list \<times> uvm_push_info" where
  "complete_info g info =
     (case on_complete info of
        None \<Rightarrow> ([], info)
      | Some f \<Rightarrow>
          let (ev, info1) = decrypt_push g info in
          (ev @ [On_complete f (on_complete_data info1)], info1\<lparr>on_complete := None, on_complete_data := None\<rparr>))"

definition complete_chunk :: "uvm_gpfifo_entry \<Rightarrow> uvm_pushbuffer \<Rightarrow> uvm_pushbuffer" where
  "complete_chunk g pb =
     (let i = gpfifo_to_chunk g; c = pb_chunks pb ! i; es = pending_gpfifos c;
          need = (es \<noteq> [] \<and> (ge_id g = ge_id (hd es) \<or> ge_id g = ge_id (last es)));
          pb1 = pb\<lparr>pb_chunks := (pb_chunks pb)[i := c\<lparr>pending_gpfifos := filter (\<lambda>x. ge_id x \<noteq> ge_id g) es\<rparr>]\<rparr> in
      if need \<and> current_push c = None then update_chunk i pb1 else pb1)"

definition uvm_pushbuffer_mark_completed ::
  "uvm_gpfifo_entry \<Rightarrow> uvm_push_info \<Rightarrow> uvm_pushbuffer \<Rightarrow> pb_event list \<times> uvm_push_info \<times> uvm_pushbuffer" where
  "uvm_pushbuffer_mark_completed g info pb =
     (let (ev, info') = complete_info g info in (ev, info', complete_chunk g pb))"

section \<open>Pushes\<close>

text \<open>
  One turn of the waiting loop: the entries that \<^verbatim>\<open>uvm_channel_manager_update_progress\<close> completes and the
  answer of \<^verbatim>\<open>uvm_channel_manager_check_errors\<close>.
\<close>

record claim_turn =
  ct_status :: nv_status
  ct_completed :: "uvm_gpfifo_entry list"

definition update_progress :: "uvm_gpfifo_entry list \<Rightarrow> uvm_pushbuffer \<Rightarrow> uvm_pushbuffer" where
  "update_progress gs pb = fold complete_chunk gs pb"

text \<open>The condition of the loop tries to claim a chunk before it looks at the status.\<close>

fun claim_loop :: "nat \<Rightarrow> nv_status \<Rightarrow> claim_turn list \<Rightarrow> uvm_pushbuffer \<Rightarrow> (nv_status \<times> nat option \<times> uvm_pushbuffer) option" where
  "claim_loop push st tns pb =
     (case try_claim_chunk push pb of
        (Some i, pb1) \<Rightarrow> Some (st, Some i, pb1)
      | (None, pb1) \<Rightarrow>
          if st \<noteq> NV_OK then Some (st, None, pb1)
          else case tns of
            [] \<Rightarrow> None
          | tn # tns' \<Rightarrow> claim_loop push (ct_status tn) tns' (update_progress (ct_completed tn) pb1))"

declare claim_loop.simps [simp del]

definition claim_chunk ::
  "nat \<Rightarrow> uvm_gpfifo_entry list \<Rightarrow> claim_turn list \<Rightarrow> uvm_pushbuffer \<Rightarrow> (nv_status \<times> nat option \<times> uvm_pushbuffer) option" where
  "claim_chunk push gs tns pb =
     (case try_claim_chunk push pb of
        (Some i, pb1) \<Rightarrow> Some (NV_OK, Some i, pb1)
      | (None, pb1) \<Rightarrow> claim_loop push NV_OK tns (update_progress gs pb1))"

text \<open>\<^verbatim>\<open>None\<close> when the semaphore or the loop still blocks.\<close>

definition uvm_pushbuffer_begin_push ::
  "u64 \<Rightarrow> u64 \<Rightarrow> uvm_gpfifo_entry list \<Rightarrow> claim_turn list \<Rightarrow> uvm_push \<Rightarrow> uvm_pushbuffer
     \<Rightarrow> (nv_status \<times> uvm_push \<times> uvm_pushbuffer) option" where
  "uvm_pushbuffer_begin_push base static_pb gs tns push pb =
     (if pu_wlc push then
        let b = UVM_ALIGN_UP static_pb 4096 in Some (NV_OK, push\<lparr>pu_begin := b, pu_next := b\<rparr>, pb)
      else if concurrent_pushes_sema pb = 0 then None
      else
        case claim_chunk (pu_id push) gs tns (pb\<lparr>concurrent_pushes_sema := concurrent_pushes_sema pb - 1\<rparr>) of
          None \<Rightarrow> None
        | Some (st, c, pb1) \<Rightarrow>
            if st \<noteq> NV_OK then Some (st, push, pb1\<lparr>concurrent_pushes_sema := concurrent_pushes_sema pb1 + 1\<rparr>)
            else let b = chunk_get_next_push_start_addr base pb1 (the c) in
              Some (NV_OK, push\<lparr>pu_begin := b, pu_next := b\<rparr>, pb1))"

definition uvm_pushbuffer_get_offset_for_push :: "u64 \<Rightarrow> uvm_push \<Rightarrow> u32" where
  "uvm_pushbuffer_get_offset_for_push base push = (if pu_wlc push then 0 else ucast (pu_begin push - base))"

definition uvm_pushbuffer_end_push :: "uvm_push \<Rightarrow> uvm_gpfifo_entry \<Rightarrow> uvm_pushbuffer \<Rightarrow> bool \<times> uvm_pushbuffer" where
  "uvm_pushbuffer_end_push push g pb =
     (if pu_wlc push then (True, pb)
      else
        let i = gpfifo_to_chunk g; c = pb_chunks pb ! i;
            pb1 = pb\<lparr>pb_chunks := (pb_chunks pb)[i := c\<lparr>pending_gpfifos := pending_gpfifos c @ [g]\<rparr>]\<rparr>;
            pb2 = update_chunk i pb1; c2 = pb_chunks pb2 ! i in
        (current_push c2 = Some (pu_id push),
         pb2\<lparr>pb_chunks := (pb_chunks pb2)[i := c2\<lparr>current_push := None\<rparr>],
             concurrent_pushes_sema := concurrent_pushes_sema pb2 + 1\<rparr>))"

text \<open>GPU addresses of a push; the addresses of the backing allocations are arguments.\<close>

record pb_bases =
  memory_va :: u64
  unprotected_va :: u64
  static_vidmem_va :: u64
  static_unprotected_va :: u64

datatype channel_kind = Ch_normal | Ch_wlc | Ch_lcic | Ch_sec2

definition uvm_pushbuffer_get_gpu_va_for_push :: "channel_kind \<Rightarrow> pb_bases \<Rightarrow> u64 \<Rightarrow> uvm_push \<Rightarrow> u64" where
  "uvm_pushbuffer_get_gpu_va_for_push k bs base push =
     (if k = Ch_wlc \<or> k = Ch_lcic then static_vidmem_va bs
      else (if k = Ch_sec2 then unprotected_va bs else memory_va bs) + ucast (uvm_pushbuffer_get_offset_for_push base push))"

definition uvm_pushbuffer_get_unprotected_gpu_va_for_push :: "pb_bases \<Rightarrow> u64 \<Rightarrow> uvm_push \<Rightarrow> u64" where
  "uvm_pushbuffer_get_unprotected_gpu_va_for_push bs base push =
     (if pu_wlc push then static_unprotected_va bs
      else unprotected_va bs + ucast (uvm_pushbuffer_get_offset_for_push base push))"

section \<open>Creation and destruction\<close>

datatype pb_resource = R_struct | R_rm_mem | R_rm_mem_gpu | R_protected | R_procfs

text \<open>What the callees of \<^verbatim>\<open>uvm_pushbuffer_create\<close> answer.\<close>

record create_env =
  ce_kvmalloc :: bool
  ce_alloc_and_map :: nv_status
  ce_conf_computing :: bool
  ce_protected :: bool
  ce_alloc_gpu :: nv_status
  ce_map_gpu :: nv_status
  ce_procfs_debug :: bool
  ce_procfs :: bool

record pb_memory =
  pm_memory :: "pb_resource option"
  pm_unprotected :: "pb_resource option"
  pm_protected :: "pb_resource option"
  pm_info_file :: "pb_resource option"

definition uvm_pushbuffer_destroy :: "pb_memory \<Rightarrow> pb_resource list" where
  "uvm_pushbuffer_destroy m =
     concat (map (\<lambda>r. case r of None \<Rightarrow> [] | Some x \<Rightarrow> [x]) [pm_info_file m, pm_unprotected m, pm_protected m, pm_memory m]) @ [R_struct]"

definition create_procfs :: "create_env \<Rightarrow> nv_status \<times> pb_resource option" where
  "create_procfs env =
     (if \<not> ce_procfs_debug env then (NV_OK, None)
      else if \<not> ce_procfs env then (NV_ERR_OPERATING_SYSTEM, None) else (NV_OK, Some R_procfs))"

text \<open>The confidential computing part: status, memory, and the resources it allocated.\<close>

definition create_secure :: "create_env \<Rightarrow> pb_memory \<Rightarrow> nv_status \<times> pb_memory \<times> pb_resource list" where
  "create_secure env m =
     (if \<not> ce_conf_computing env then (NV_OK, m, [])
      else
        let m1 = m\<lparr>pm_unprotected := pm_memory m, pm_memory := None\<rparr> in
        if \<not> ce_protected env then (NV_ERR_NO_MEMORY, m1, [])
        else let m2 = m1\<lparr>pm_protected := Some R_protected\<rparr> in
          if ce_alloc_gpu env \<noteq> NV_OK then (ce_alloc_gpu env, m2, [R_protected])
          else (ce_map_gpu env, m2\<lparr>pm_memory := Some R_rm_mem_gpu\<rparr>, [R_protected, R_rm_mem_gpu]))"

definition init_chunks :: uvm_pushbuffer where
  "init_chunks =
     \<lparr>pb_chunks = replicate UVM_PUSHBUFFER_CHUNKS \<lparr>next_push_start = 0, pending_gpfifos = [], current_push = None\<rparr>,
      available_chunks = replicate UVM_PUSHBUFFER_CHUNKS True, idle_chunks = replicate UVM_PUSHBUFFER_CHUNKS True,
      concurrent_pushes_sema = UVM_PUSHBUFFER_CHUNKS\<rparr>"

text \<open>The result: status, the pushbuffer when it is created, and the resources allocated and freed.\<close>

definition uvm_pushbuffer_create ::
  "create_env \<Rightarrow> nv_status \<times> (pb_memory \<times> uvm_pushbuffer) option \<times> pb_resource list \<times> pb_resource list" where
  "uvm_pushbuffer_create env =
     (if \<not> ce_kvmalloc env then (NV_ERR_NO_MEMORY, None, [], [])
      else
        let m0 = \<lparr>pm_memory = None, pm_unprotected = None, pm_protected = None, pm_info_file = None\<rparr>; st = ce_alloc_and_map env in
        if st \<noteq> NV_OK then (st, None, [R_struct], uvm_pushbuffer_destroy m0)
        else
          let (st2, m2, got) = create_secure env (m0\<lparr>pm_memory := Some R_rm_mem\<rparr>); al = [R_struct, R_rm_mem] @ got in
          if st2 \<noteq> NV_OK then (st2, None, al, uvm_pushbuffer_destroy m2)
          else
            let (st3, f) = create_procfs env in
            if st3 \<noteq> NV_OK then (st3, None, al, uvm_pushbuffer_destroy m2)
            else (NV_OK, Some (m2\<lparr>pm_info_file := f\<rparr>, init_chunks), al @ (case f of None \<Rightarrow> [] | Some x \<Rightarrow> [x]), []))"

section \<open>Rings of regions\<close>

lemma const_nat [simp]:
  "unat UVM_MAX_PUSH_SIZE = 131072" "unat UVM_PUSHBUFFER_CHUNK_SIZE = 1048576" "unat UVM_PUSHBUFFER_SIZE = 16777216"
  by (simp_all add: UVM_MAX_PUSH_SIZE_def UVM_PUSHBUFFER_CHUNK_SIZE_def UVM_PUSHBUFFER_SIZE_def UVM_PUSHBUFFER_CHUNKS_def)

abbreviation r_start :: "uvm_gpfifo_entry \<Rightarrow> nat" where
  "r_start e \<equiv> unat (pushbuffer_offset e)"

abbreviation r_end :: "uvm_gpfifo_entry \<Rightarrow> nat" where
  "r_end e \<equiv> unat (pushbuffer_offset e) + unat (pushbuffer_size e)"

definition before :: "uvm_gpfifo_entry \<Rightarrow> uvm_gpfifo_entry \<Rightarrow> bool" where
  "before a b \<longleftrightarrow> r_end a \<le> r_start b"

text \<open>A nonempty region inside chunk \<open>i\<close>, aligned to methods.\<close>

definition in_chunk :: "nat \<Rightarrow> uvm_gpfifo_entry \<Rightarrow> bool" where
  "in_chunk i e \<longleftrightarrow> i < 16 \<and> i * 1048576 \<le> r_start e \<and> r_end e \<le> i * 1048576 + 1048576 \<and> 0 < unat (pushbuffer_size e)
     \<and> 4 dvd r_start e \<and> 4 dvd unat (pushbuffer_size e)"

text \<open>The entries of a chunk in list order are a rotation of their order in memory.\<close>

definition ring :: "nat \<Rightarrow> uvm_gpfifo_entry list \<Rightarrow> bool" where
  "ring i es \<longleftrightarrow> (\<forall>e \<in> set es. in_chunk i e) \<and> (\<exists>xs ys. es = xs @ ys \<and> sorted_wrt before (ys @ xs))"

text \<open>The region that a push of maximal size would take at a start.\<close>

definition slot :: "nat \<Rightarrow> u32 \<Rightarrow> uvm_gpfifo_entry" where
  "slot i s = \<lparr>ge_id = 0, pushbuffer_offset = chunk_get_offset i + s, pushbuffer_size = UVM_MAX_PUSH_SIZE\<rparr>"

definition room :: "nat \<Rightarrow> uvm_gpfifo_entry list \<Rightarrow> u32 \<Rightarrow> bool" where
  "room i es s \<longleftrightarrow> unat s + 131072 \<le> 1048576 \<and> ring i (es @ [slot i s])"

lemma chunk_offset_nat [simp]: "i < 16 \<Longrightarrow> unat (chunk_get_offset i) = i * 1048576"
  by (simp add: chunk_get_offset_def unat_word_ariths unat_of_nat)

lemma slot_nat:
  assumes "i < 16" "unat s \<le> 1048576"
  shows "r_start (slot i s) = i * 1048576 + unat s" "r_end (slot i s) = i * 1048576 + unat s + 131072"
  using assms by (simp_all add: slot_def unat_word_ariths)

lemma in_chunk_slot: "i < 16 \<Longrightarrow> unat s + 131072 \<le> 1048576 \<Longrightarrow> 4 dvd unat s \<Longrightarrow> in_chunk i (slot i s)"
  using slot_nat [of i s] by (auto simp: in_chunk_def slot_def intro: dvd_add)

lemma ring_filter: "ring i es \<Longrightarrow> ring i (filter P es)"
  unfolding ring_def
proof (elim conjE exE, intro conjI)
  fix xs ys assume a: "\<forall>e \<in> set es. in_chunk i e" "es = xs @ ys" "sorted_wrt before (ys @ xs)"
  show "\<forall>e \<in> set (filter P es). in_chunk i e" using a by auto
  have "sorted_wrt before (filter P (ys @ xs))" using a(3) by (rule sorted_wrt_filter)
  then show "\<exists>xs ys. filter P es = xs @ ys \<and> sorted_wrt before (ys @ xs)"
    using a(2) by (intro exI [of _ "filter P xs"] exI [of _ "filter P ys"]) simp
qed

lemma ring_shrink:
  assumes "ring i (es @ [e])" "in_chunk i e'" "r_start e' = r_start e" "r_end e' \<le> r_end e"
  shows "ring i (es @ [e'])"
proof -
  obtain xs ys where s: "es @ [e] = xs @ ys" "sorted_wrt before (ys @ xs)" using assms(1) by (auto simp: ring_def)
  have b: "before a e \<Longrightarrow> before a e'" "before e a \<Longrightarrow> before e' a" for a using assms(3,4) by (auto simp: before_def)
  show ?thesis
  proof (cases ys rule: rev_cases)
    case Nil
    then have "sorted_wrt before (es @ [e])" using s by simp
    then have "sorted_wrt before (es @ [e'])" using b by (auto simp: sorted_wrt_append)
    then show ?thesis using assms unfolding ring_def by (intro conjI exI [of _ "es @ [e']"] exI [of _ "[]"]) auto
  next
    case (snoc ys' z)
    then have z: "z = e" "es = xs @ ys'" using s(1) by auto
    have "sorted_wrt before ((ys' @ [e']) @ xs)" using s(2) snoc z b by (auto simp: sorted_wrt_append)
    then show ?thesis using assms z unfolding ring_def by (intro conjI exI [of _ xs] exI [of _ "ys' @ [e']"]) auto
  qed
qed

text \<open>The bounds \<^verbatim>\<open>gpu_get\<close> and \<^verbatim>\<open>cpu_put\<close> without wrap-around.\<close>

lemma get_put_nat:
  assumes "ring i es" "es \<noteq> []"
  shows "i < 16" "unat (chunk_get_gpu_get i es) + i * 1048576 = r_start (hd es)"
    "unat (chunk_get_cpu_put i es) + i * 1048576 = r_end (last es)"
proof -
  have c: "in_chunk i (hd es)" "in_chunk i (last es)" using assms by (auto simp: ring_def)
  then show i: "i < 16" by (simp add: in_chunk_def)
  show "unat (chunk_get_gpu_get i es) + i * 1048576 = r_start (hd es)"
    using c i assms(2) by (simp add: chunk_get_gpu_get_def in_chunk_def unat_sub word_le_nat_alt)
  have s: "unat (pushbuffer_offset (last es) + pushbuffer_size (last es)) = r_end (last es)"
    using c i by (simp add: in_chunk_def unat_word_ariths)
  then have "chunk_get_offset i \<le> pushbuffer_offset (last es) + pushbuffer_size (last es)"
    using c i by (simp add: word_le_nat_alt in_chunk_def)
  then show "unat (chunk_get_cpu_put i es) + i * 1048576 = r_end (last es)"
    using s c i assms(2) by (simp add: chunk_get_cpu_put_def unat_sub in_chunk_def)
qed

lemma line_bounds:
  assumes "sorted_wrt before es" "e \<in> set es"
  shows "r_start (hd es) \<le> r_start e" "r_end e \<le> r_end (last es)"
proof -
  show "r_start (hd es) \<le> r_start e" using assms by (cases es) (auto simp: before_def)
  show "r_end e \<le> r_end (last es)"
    using assms by (cases es rule: rev_cases) (auto simp: before_def sorted_wrt_append)
qed

lemma ring_cases:
  assumes "ring i es" "es \<noteq> []"
  obtains (line) "sorted_wrt before es" "r_start (hd es) < r_end (last es)"
  | (wrap) xs ys where "es = xs @ ys" "xs \<noteq> []" "ys \<noteq> []" "sorted_wrt before (ys @ xs)" "r_end (last es) \<le> r_start (hd es)"
proof -
  obtain xs ys where s: "es = xs @ ys" "sorted_wrt before (ys @ xs)" using assms(1) by (auto simp: ring_def)
  have c: "in_chunk i (last es)" using assms by (auto simp: ring_def)
  show ?thesis
  proof (cases "xs = [] \<or> ys = []")
    case True
    then have l: "sorted_wrt before es" using s by auto
    moreover have "r_start (hd es) \<le> r_start (last es)" using line_bounds(1) [OF l] assms(2) by simp
    ultimately show ?thesis using line c by (auto simp: in_chunk_def)
  next
    case False
    then have "last ys \<in> set ys" "hd xs \<in> set xs" by auto
    then have "before (last ys) (hd xs)" using s(2) by (auto simp: sorted_wrt_append)
    then show ?thesis using wrap [OF s(1) _ _ s(2)] False s(1) by (auto simp: before_def)
  qed
qed

abbreviation gget :: "nat \<Rightarrow> uvm_gpfifo_entry list \<Rightarrow> nat" where
  "gget i es \<equiv> unat (chunk_get_gpu_get i es)"

abbreviation cput :: "nat \<Rightarrow> uvm_gpfifo_entry list \<Rightarrow> nat" where
  "cput i es \<equiv> unat (chunk_get_cpu_put i es)"

lemma put_aligned: "ring i es \<Longrightarrow> es \<noteq> [] \<Longrightarrow> 4 dvd cput i es"
proof -
  assume r: "ring i es" "es \<noteq> []"
  then have "in_chunk i (last es)" by (auto simp: ring_def)
  then have "4 dvd cput i es + i * 1048576" using get_put_nat(3) [OF r] by (auto simp: in_chunk_def intro: dvd_add)
  moreover have "(4::nat) dvd i * 1048576" by simp
  ultimately show ?thesis by (metis dvd_add_left_iff)
qed

lemma ringI: "\<forall>e \<in> set (xs @ ys). in_chunk i e \<Longrightarrow> sorted_wrt before (ys @ xs) \<Longrightarrow> ring i (xs @ ys)"
  unfolding ring_def by blast

lemma room_empty: "i < 16 \<Longrightarrow> room i [] 0"
  using in_chunk_slot [of i 0] ringI [of "[]" "[slot i 0]" i] by (simp add: room_def)

lemma room_after:
  assumes "ring i es" "es \<noteq> []" "cput i es + 131072 \<le> 1048576" "sorted_wrt before es"
  shows "room i es (chunk_get_cpu_put i es)"
proof -
  note g = get_put_nat [OF assms(1,2)]
  have n: "r_start (slot i (chunk_get_cpu_put i es)) = r_end (last es)" using slot_nat(1) [of i] g assms(3) by simp
  have "sorted_wrt before (es @ [slot i (chunk_get_cpu_put i es)])"
    using assms(4) line_bounds(2) [OF assms(4)] n by (auto simp: sorted_wrt_append before_def)
  moreover have "in_chunk i (slot i (chunk_get_cpu_put i es))"
    using in_chunk_slot g(1) assms(3) put_aligned [OF assms(1,2)] by blast
  ultimately show ?thesis
    using assms(1,3) ringI [of "es @ [slot i (chunk_get_cpu_put i es)]" "[]" i] by (auto simp: room_def ring_def)
qed

lemma room_front:
  assumes "ring i es" "es \<noteq> []" "131072 \<le> gget i es" "sorted_wrt before es"
  shows "room i es 0"
proof -
  note g = get_put_nat [OF assms(1,2)]
  have n: "r_end (slot i 0) \<le> r_start (hd es)" using slot_nat(2) [of i 0] g assms(3) by simp
  have "before (slot i 0) e" if "e \<in> set es" for e
    using n line_bounds(1) [OF assms(4) that] by (simp add: before_def)
  then have "sorted_wrt before ([slot i 0] @ es)" using assms(4) by simp
  then show ?thesis using assms(1) in_chunk_slot [of i 0] g(1) ringI [of es "[slot i 0]" i] by (auto simp: room_def ring_def)
qed

lemma room_between:
  assumes "ring i es" "es = xs @ ys" "xs \<noteq> []" "ys \<noteq> []" "sorted_wrt before (ys @ xs)" "cput i es + 131072 \<le> gget i es"
  shows "room i es (chunk_get_cpu_put i es)"
proof -
  let ?s = "slot i (chunk_get_cpu_put i es)"
  have ne: "es \<noteq> []" using assms by simp
  note g = get_put_nat [OF assms(1) ne]
  have "in_chunk i (hd es)" using assms(1) ne by (auto simp: ring_def)
  then have "gget i es \<le> 1048576" using g(2) by (simp add: in_chunk_def)
  then have sz: "cput i es + 131072 \<le> 1048576" using assms(6) by simp
  have n: "r_start ?s = r_end (last es)" "r_end ?s \<le> r_start (hd es)" using slot_nat [of i] g assms(6) sz by auto
  have ys: "before y ?s" if "y \<in> set ys" for y
    using line_bounds(2) [of ys y] assms(2,4,5) that n by (auto simp: before_def sorted_wrt_append)
  have xs: "before ?s x" if "x \<in> set xs" for x
    using line_bounds(1) [of xs x] assms(2,3,5) that n by (auto simp: before_def sorted_wrt_append)
  have "sorted_wrt before ((ys @ [?s]) @ xs)" using assms(5) ys xs by (auto simp: sorted_wrt_append)
  moreover have "in_chunk i ?s" using in_chunk_slot g(1) sz put_aligned [OF assms(1) ne] by blast
  ultimately show ?thesis using assms(1,2) sz ringI [of xs "ys @ [?s]" i] by (auto simp: room_def ring_def)
qed

text \<open>Conversely, a place for a push is one of these three.\<close>

lemma roomE:
  assumes "room i es s" "ring i es" "es \<noteq> []"
  obtains (after) "sorted_wrt before es" "cput i es + 131072 \<le> 1048576"
  | (front) "sorted_wrt before es" "131072 \<le> gget i es"
  | (between) "r_end (last es) \<le> r_start (hd es)" "cput i es + 131072 \<le> gget i es"
proof -
  note g = get_put_nat [OF assms(2,3)]
  have sz: "unat s + 131072 \<le> 1048576" using assms(1) by (simp add: room_def)
  have sl: "r_start (slot i s) = i * 1048576 + unat s" "r_end (slot i s) = i * 1048576 + unat s + 131072"
    using slot_nat [of i s] g(1) sz by auto
  obtain xs ys where s: "es @ [slot i s] = xs @ ys" "sorted_wrt before (ys @ xs)"
    using assms(1) by (auto simp: room_def ring_def)
  have aft: thesis if "sorted_wrt before (es @ [slot i s])"
  proof -
    have "before (last es) (slot i s)" using that assms(3) by (auto simp: sorted_wrt_append)
    then show thesis using after that sl g(3) sz by (auto simp: before_def sorted_wrt_append)
  qed
  show thesis
  proof (cases ys rule: rev_cases)
    case Nil
    then show thesis using aft s by simp
  next
    case (snoc ys' z)
    then have z: "es = xs @ ys'" "ys = ys' @ [slot i s]" using s(1) by auto
    consider "xs = []" | "xs \<noteq> []" "ys' = []" | "xs \<noteq> []" "ys' \<noteq> []" by blast
    then show thesis
    proof cases
      case 1
      then show thesis using aft s z by simp
    next
      case 2
      then have "before (slot i s) (hd es)" "sorted_wrt before es" using s(2) z assms(3) by auto
      then show thesis using front g(2) sl by (auto simp: before_def)
    next
      case 3
      then have "before (last ys') (slot i s)" "before (slot i s) (hd xs)" using s(2) z by (auto simp: sorted_wrt_append)
      then show thesis using between g sl z 3 by (auto simp: before_def)
    qed
  qed
qed

section \<open>Updates of a chunk\<close>

text \<open>The start that \<^verbatim>\<open>update_chunk\<close> offers.\<close>

definition new_start :: "nat \<Rightarrow> uvm_gpfifo_entry list \<Rightarrow> u32 option" where
  "new_start i es =
     (if es = [] then Some 0
      else if gget i es = cput i es then None
      else if cput i es < gget i es then
        if 131072 \<le> gget i es - cput i es then Some (chunk_get_cpu_put i es) else None
      else if cput i es + 131072 \<le> 1048576 then Some (chunk_get_cpu_put i es)
      else if 131072 \<le> gget i es then Some 0 else None)"

lemma put_bound: "ring i es \<Longrightarrow> es \<noteq> [] \<Longrightarrow> cput i es \<le> 1048576"
  using get_put_nat(3) [of i es] last_in_set [of es] unfolding ring_def in_chunk_def by fastforce

lemma update_chunk_eq:
  assumes "ring i es" "es = pending_gpfifos (pb_chunks pb ! i)"
  shows "update_chunk i pb = (case new_start i es of
      None \<Rightarrow> pb
    | Some s \<Rightarrow> offer_chunk i s (if es = [] then pb\<lparr>idle_chunks := (idle_chunks pb)[i := True]\<rparr> else pb))"
proof (cases "es = []")
  case True
  then show ?thesis
    using assms(2) by (simp add: update_chunk_def new_start_def chunk_get_gpu_get_def chunk_get_cpu_put_def Let_def)
next
  case False
  let ?g = "chunk_get_gpu_get i es" and ?p = "chunk_get_cpu_put i es"
  have b: "cput i es \<le> 1048576" using put_bound [OF assms(1) False] .
  have e1: "?p + UVM_MAX_PUSH_SIZE \<le> UVM_PUSHBUFFER_CHUNK_SIZE \<longleftrightarrow> cput i es + 131072 \<le> 1048576"
    using b by (simp add: word_le_nat_alt unat_word_ariths)
  have e2: "UVM_MAX_PUSH_SIZE \<le> ?g - ?p \<longleftrightarrow> 131072 \<le> gget i es - cput i es" if "?p < ?g"
    using that by (simp add: word_le_nat_alt unat_sub word_less_nat_alt)
  have e3: "?g = ?p \<longleftrightarrow> gget i es = cput i es" "?p < ?g \<longleftrightarrow> cput i es < gget i es" "UVM_MAX_PUSH_SIZE \<le> ?g \<longleftrightarrow> 131072 \<le> gget i es"
    by (simp_all add: word_unat_eq_iff word_less_nat_alt word_le_nat_alt)
  show ?thesis
    using False e2 unfolding update_chunk_def new_start_def Let_def assms(2) [symmetric] e1 e3 by auto
qed

lemma new_start_room:
  assumes "ring i es" "i < 16" "new_start i es = Some s"
  shows "room i es s"
proof (cases "es = []")
  case True
  then show ?thesis using assms room_empty by (simp add: new_start_def)
next
  case False
  note g = get_put_nat [OF assms(1) False]
  from assms(1) False show ?thesis
  proof (cases rule: ring_cases)
    case line
    then have "gget i es < cput i es" using g by linarith
    then show ?thesis
      using assms(3) False line room_after [OF assms(1) False] room_front [OF assms(1) False]
      by (auto simp: new_start_def split: if_splits)
  next
    case (wrap xs ys)
    then have "cput i es \<le> gget i es" using g by linarith
    then show ?thesis
      using assms(3) False room_between [OF assms(1) wrap(1-4)] by (auto simp: new_start_def split: if_splits)
  qed
qed

lemma room_new_start:
  assumes "ring i es" "room i es s"
  shows "new_start i es \<noteq> None"
proof (cases "es = []")
  case True
  then show ?thesis by (simp add: new_start_def)
next
  case False
  note g = get_put_nat [OF assms(1) False]
  have ln: "gget i es < cput i es" if "sorted_wrt before es"
  proof -
    have "r_start (hd es) \<le> r_start (last es)" using line_bounds(1) [OF that] False by simp
    moreover have "0 < unat (pushbuffer_size (last es))" using assms(1) False unfolding ring_def in_chunk_def by auto
    ultimately show ?thesis using g by linarith
  qed
  from assms(2,1) False show ?thesis
  proof (cases rule: roomE)
    case after
    then show ?thesis using ln False by (simp add: new_start_def)
  next
    case front
    then show ?thesis using ln False by (simp add: new_start_def)
  next
    case between
    then show ?thesis using g False by (simp add: new_start_def)
  qed
qed

section \<open>The invariant\<close>

definition chunk_inv :: "nat \<Rightarrow> uvm_pushbuffer_chunk \<Rightarrow> bool \<Rightarrow> bool \<Rightarrow> bool" where
  "chunk_inv i c av idl \<longleftrightarrow>
     ring i (pending_gpfifos c)
     \<and> (current_push c \<noteq> None \<or> av \<longrightarrow> room i (pending_gpfifos c) (next_push_start c))
     \<and> (av \<longleftrightarrow> current_push c = None \<and> (\<exists>s. room i (pending_gpfifos c) s))
     \<and> (idl \<longleftrightarrow> current_push c = None \<and> pending_gpfifos c = [])"

definition pb_inv :: "uvm_pushbuffer \<Rightarrow> bool" where
  "pb_inv pb \<longleftrightarrow> length (pb_chunks pb) = 16 \<and> length (available_chunks pb) = 16 \<and> length (idle_chunks pb) = 16
     \<and> (\<forall>i < 16. chunk_inv i (pb_chunks pb ! i) (available_chunks pb ! i) (idle_chunks pb ! i))"

lemma pb_invD:
  assumes "pb_inv pb" "i < 16"
  shows "chunk_inv i (pb_chunks pb ! i) (available_chunks pb ! i) (idle_chunks pb ! i)"
    "length (pb_chunks pb) = 16" "length (available_chunks pb) = 16" "length (idle_chunks pb) = 16"
  using assms by (auto simp: pb_inv_def)

text \<open>Changing one chunk and its bits.\<close>

lemma pb_inv_upd:
  assumes "pb_inv pb" "i < 16" "chunk_inv i c av idl"
    and "pb_chunks pb' = (pb_chunks pb)[i := c]" "available_chunks pb' = (available_chunks pb)[i := av]"
    "idle_chunks pb' = (idle_chunks pb)[i := idl]"
  shows "pb_inv pb'"
  using assms by (auto simp: pb_inv_def nth_list_update)

lemma pb_init_inv: "pb_inv init_chunks"
  using room_empty by (auto simp: init_chunks_def pb_inv_def chunk_inv_def UVM_PUSHBUFFER_CHUNKS_def ring_def)

lemma room_iff: "ring i es \<Longrightarrow> i < 16 \<Longrightarrow> (\<exists>s. room i es s) \<longleftrightarrow> new_start i es \<noteq> None"
  using new_start_room room_new_start by blast

lemma ring_filter_keep:
  assumes "ring i (es @ [x])"
  shows "ring i (filter P es @ [x])"
proof -
  obtain xs ys where s: "es @ [x] = xs @ ys" "sorted_wrt before (ys @ xs)" using assms by (auto simp: ring_def)
  have f: "sorted_wrt before zs \<Longrightarrow> sorted_wrt before (filter P zs)" for zs by (rule sorted_wrt_filter)
  show ?thesis
  proof (cases ys rule: rev_cases)
    case Nil
    then have "sorted_wrt before (es @ [x])" using s by simp
    then have "sorted_wrt before (filter P es @ [x])" using f by (auto simp: sorted_wrt_append)
    then show ?thesis using assms ringI [of "filter P es @ [x]" "[]" i] by (auto simp: ring_def)
  next
    case (snoc ys' z)
    then have z: "z = x" "es = xs @ ys'" using s(1) by auto
    have "sorted_wrt before ((filter P ys' @ [x]) @ filter P xs)" using s(2) snoc z f by (auto simp: sorted_wrt_append)
    then show ?thesis using assms z ringI [of "filter P xs" "filter P ys' @ [x]" i] by (auto simp: ring_def)
  qed
qed

lemma room_filter: "room i es s \<Longrightarrow> room i (filter P es) s"
  by (auto simp: room_def intro: ring_filter_keep)

lemma bit_same: "\<not> xs ! i \<Longrightarrow> xs[i := False] = xs"
  by (metis list_update_id)

lemma update_chunk_spec:
  assumes "length (available_chunks pb) = 16" "length (idle_chunks pb) = 16" "i < 16"
    and c: "c = pb_chunks pb ! i" and r: "ring i (pending_gpfifos c)"
    and av: "available_chunks pb ! i \<Longrightarrow> room i (pending_gpfifos c) (next_push_start c)"
    and idl: "idle_chunks pb ! i \<Longrightarrow> pending_gpfifos c = []"
  shows "\<exists>s av idl. pb_chunks (update_chunk i pb) = (pb_chunks pb)[i := c\<lparr>next_push_start := s\<rparr>]
    \<and> available_chunks (update_chunk i pb) = (available_chunks pb)[i := av] \<and> idle_chunks (update_chunk i pb) = (idle_chunks pb)[i := idl]
    \<and> concurrent_pushes_sema (update_chunk i pb) = concurrent_pushes_sema pb
    \<and> (av \<longleftrightarrow> (\<exists>s. room i (pending_gpfifos c) s)) \<and> (av \<longrightarrow> room i (pending_gpfifos c) s)
    \<and> (idl \<longleftrightarrow> pending_gpfifos c = [])"
proof (cases "new_start i (pending_gpfifos c)")
  case None
  then have n: "\<not> (\<exists>s. room i (pending_gpfifos c) s)" "pending_gpfifos c \<noteq> []"
    using room_iff [OF r assms(3)] by (auto simp: new_start_def)
  have "update_chunk i pb = pb" using update_chunk_eq [OF r, of pb] None c by simp
  moreover have "\<not> available_chunks pb ! i" "\<not> idle_chunks pb ! i" using n av idl by blast+
  ultimately show ?thesis
    using n c by (intro exI [of _ "next_push_start c"] exI [of _ False]) (auto simp: bit_same)
next
  case (Some s)
  have "update_chunk i pb = offer_chunk i s (if pending_gpfifos c = [] then pb\<lparr>idle_chunks := (idle_chunks pb)[i := True]\<rparr> else pb)"
    using update_chunk_eq [OF r, of pb] Some c by simp
  moreover have "pending_gpfifos c \<noteq> [] \<Longrightarrow> \<not> idle_chunks pb ! i" using idl by blast
  ultimately show ?thesis
    using new_start_room [OF r assms(3) Some] c
    by (intro exI [of _ s] exI [of _ True] exI [of _ "pending_gpfifos c = []"])
       (auto simp: offer_chunk_def bit_same)
qed

lemma idle_available: "chunk_inv i c av idl \<Longrightarrow> i < 16 \<Longrightarrow> idl \<Longrightarrow> av"
  using room_empty unfolding chunk_inv_def by metis

lemma pick_chunk_Some:
  assumes "pb_inv pb" "pick_chunk pb = Some i"
  shows "i < 16" "available_chunks pb ! i" "current_push (pb_chunks pb ! i) = None"
proof -
  have b: "i < 16 \<and> (idle_chunks pb ! i \<or> available_chunks pb ! i)"
    using assms by (auto simp: pick_chunk_def get_chunk_in_mask_def first_idx_Some pb_inv_def split: option.splits)
  then show i: "i < 16" by simp
  note I = pb_invD(1) [OF assms(1) i]
  show av: "available_chunks pb ! i" using b idle_available [OF I i] by blast
  then show "current_push (pb_chunks pb ! i) = None" using I by (auto simp: chunk_inv_def)
qed

lemma has_space_iff:
  assumes "pb_inv pb"
  shows "pick_chunk pb \<noteq> None \<longleftrightarrow>
    (\<exists>i < 16. current_push (pb_chunks pb ! i) = None \<and> (\<exists>s. room i (pending_gpfifos (pb_chunks pb ! i)) s))"
proof -
  have "pick_chunk pb \<noteq> None \<longleftrightarrow> (\<exists>i < 16. available_chunks pb ! i)"
  proof
    assume "pick_chunk pb \<noteq> None"
    then show "\<exists>i < 16. available_chunks pb ! i" using pick_chunk_Some [OF assms] by blast
  next
    assume "\<exists>i < 16. available_chunks pb ! i"
    then obtain i where i: "i < 16" "available_chunks pb ! i" by blast
    then have "available_chunks pb ! i \<in> set (available_chunks pb)" using pb_invD(3) [OF assms i(1)] by (intro nth_mem) simp
    then have "True \<in> set (available_chunks pb)" using i by simp
    then show "pick_chunk pb \<noteq> None"
      by (auto simp: pick_chunk_def get_chunk_in_mask_def split: option.splits dest: first_idx_ex [where P = "\<lambda>b. b"])
  qed
  then show ?thesis using pb_invD(1) [OF assms] by (auto simp: chunk_inv_def)
qed

lemma try_claim_inv:
  assumes "pb_inv pb" "try_claim_chunk p pb = (r, pb')"
  shows "pb_inv pb'" "concurrent_pushes_sema pb' = concurrent_pushes_sema pb"
    "r = None \<Longrightarrow> pb' = pb"
    "r = Some i \<Longrightarrow> i < 16 \<and> current_push (pb_chunks pb ! i) = None
       \<and> pb_chunks pb' = (pb_chunks pb)[i := (pb_chunks pb ! i)\<lparr>current_push := Some p\<rparr>]"
proof -
  have "pb_inv pb' \<and> concurrent_pushes_sema pb' = concurrent_pushes_sema pb \<and> (r = None \<longrightarrow> pb' = pb)
    \<and> (r = Some i \<longrightarrow> i < 16 \<and> current_push (pb_chunks pb ! i) = None
       \<and> pb_chunks pb' = (pb_chunks pb)[i := (pb_chunks pb ! i)\<lparr>current_push := Some p\<rparr>])" for i
  proof (cases "pick_chunk pb")
    case None
    then show ?thesis using assms by (simp add: try_claim_chunk_def)
  next
    case (Some k)
    note k = pick_chunk_Some [OF assms(1) Some]
    have c: "chunk_inv k ((pb_chunks pb ! k)\<lparr>current_push := Some p\<rparr>) False False"
      using pb_invD(1) [OF assms(1) k(1)] k(2) by (auto simp: chunk_inv_def)
    have "pb_inv pb'" using assms(2) Some by (intro pb_inv_upd [OF assms(1) k(1) c]) (auto simp: try_claim_chunk_def)
    then show ?thesis using assms(2) Some k by (auto simp: try_claim_chunk_def)
  qed
  then show "pb_inv pb'" "concurrent_pushes_sema pb' = concurrent_pushes_sema pb" "r = None \<Longrightarrow> pb' = pb"
    "r = Some i \<Longrightarrow> i < 16 \<and> current_push (pb_chunks pb ! i) = None
       \<and> pb_chunks pb' = (pb_chunks pb)[i := (pb_chunks pb ! i)\<lparr>current_push := Some p\<rparr>]"
    by blast+
qed

lemma gpfifo_to_chunk_nat: "gpfifo_to_chunk g = r_start g div 1048576"
  by (simp add: gpfifo_to_chunk_def offset_to_chunk_def unat_div)

lemma new_start_ends:
  assumes "es \<noteq> []" "es' \<noteq> []" "hd es' = hd es" "last es' = last es"
  shows "new_start i es' = new_start i es"
  using assms by (simp add: new_start_def chunk_get_gpu_get_def chunk_get_cpu_put_def)

lemma filter_ends:
  assumes "es \<noteq> []" "P (hd es)" "P (last es)"
  shows "filter P es \<noteq> []" "hd (filter P es) = hd es" "last (filter P es) = last es"
proof -
  show "filter P es \<noteq> []" "hd (filter P es) = hd es" using assms by (cases es; simp)+
  show "last (filter P es) = last es" using assms by (cases es rule: rev_cases) auto
qed

text \<open>Claims, their starts and the semaphore are as before.\<close>

definition keeps_claims :: "uvm_pushbuffer \<Rightarrow> uvm_pushbuffer \<Rightarrow> bool" where
  "keeps_claims pb pb' \<longleftrightarrow> concurrent_pushes_sema pb' = concurrent_pushes_sema pb
     \<and> (\<forall>j < 16. current_push (pb_chunks pb' ! j) = current_push (pb_chunks pb ! j)
         \<and> (current_push (pb_chunks pb ! j) \<noteq> None \<longrightarrow> next_push_start (pb_chunks pb' ! j) = next_push_start (pb_chunks pb ! j)))"

lemma complete_chunk_inv:
  assumes "pb_inv pb" "r_start g < 16777216"
  shows "pb_inv (complete_chunk g pb) \<and> keeps_claims pb (complete_chunk g pb)"
proof -
  define i where "i = gpfifo_to_chunk g"
  define c where "c = pb_chunks pb ! i"
  define es where "es = pending_gpfifos c"
  define es' where "es' = filter (\<lambda>x. ge_id x \<noteq> ge_id g) es"
  define need where "need = (es \<noteq> [] \<and> (ge_id g = ge_id (hd es) \<or> ge_id g = ge_id (last es)))"
  define pb1 where "pb1 = pb\<lparr>pb_chunks := (pb_chunks pb)[i := c\<lparr>pending_gpfifos := es'\<rparr>]\<rparr>"
  have i: "i < 16" using assms(2) by (simp add: i_def gpfifo_to_chunk_nat)
  have def: "complete_chunk g pb = (if need \<and> current_push c = None then update_chunk i pb1 else pb1)"
    by (simp add: complete_chunk_def Let_def i_def c_def es_def es'_def need_def pb1_def)
  note I = pb_invD [OF assms(1) i]
  note J = I(1) [unfolded chunk_inv_def, folded c_def, folded es_def]
  have r': "ring i es'" using J ring_filter by (simp add: es'_def)
  have rm: "room i es s \<Longrightarrow> room i es' s" for s using room_filter by (simp add: es'_def)
  have c1: "pb_chunks pb1 ! i = c\<lparr>pending_gpfifos := es'\<rparr>" using I(2) i by (simp add: pb1_def)
  show ?thesis
  proof (cases "need \<and> current_push c = None")
    case True
    have p1: "length (available_chunks pb1) = 16" "length (idle_chunks pb1) = 16" using I(3,4) by (simp_all add: pb1_def)
    have nc: "pending_gpfifos (c\<lparr>pending_gpfifos := es'\<rparr>) = es'" "next_push_start (c\<lparr>pending_gpfifos := es'\<rparr>) = next_push_start c"
      by simp_all
    have a1: "available_chunks pb1 ! i \<Longrightarrow> room i es' (next_push_start c)" using J rm by (simp add: pb1_def)
    have b1: "idle_chunks pb1 ! i \<Longrightarrow> es' = []" using J True by (simp add: pb1_def need_def)
    from update_chunk_spec [OF p1 i c1 [symmetric], unfolded nc, OF r' a1 b1]
    obtain s av idl where u: "pb_chunks (update_chunk i pb1) = (pb_chunks pb1)[i := (c\<lparr>pending_gpfifos := es'\<rparr>)\<lparr>next_push_start := s\<rparr>]"
      "available_chunks (update_chunk i pb1) = (available_chunks pb1)[i := av]" "idle_chunks (update_chunk i pb1) = (idle_chunks pb1)[i := idl]"
      "concurrent_pushes_sema (update_chunk i pb1) = concurrent_pushes_sema pb1"
      and f: "av \<longleftrightarrow> (\<exists>s. room i es' s)" "av \<longrightarrow> room i es' s" "idl \<longleftrightarrow> es' = []" by blast
    have n: "chunk_inv i ((c\<lparr>pending_gpfifos := es'\<rparr>)\<lparr>next_push_start := s\<rparr>) av idl"
      using r' f True by (simp add: chunk_inv_def)
    have "pb_inv (update_chunk i pb1)" using u by (intro pb_inv_upd [OF assms(1) i n]) (simp_all add: pb1_def)
    then show ?thesis using True u def I(2) i by (auto simp: pb1_def c_def keeps_claims_def nth_list_update)
  next
    case False
    have e: "(\<exists>s. room i es' s) \<longleftrightarrow> (\<exists>s. room i es s)" "es' = [] \<longleftrightarrow> es = []" if "current_push c = None"
    proof -
      have "\<not> need" using False that by simp
      then have "es = [] \<or> es \<noteq> [] \<and> new_start i es' = new_start i es \<and> es' \<noteq> []"
        using filter_ends [of es "\<lambda>x. ge_id x \<noteq> ge_id g"] new_start_ends [of es es' i] by (auto simp: need_def es'_def)
      then show "(\<exists>s. room i es' s) \<longleftrightarrow> (\<exists>s. room i es s)" "es' = [] \<longleftrightarrow> es = []"
        using room_iff [OF r' i] room_iff [of i es] J i by (auto simp: es'_def)
    qed
    have n: "chunk_inv i (c\<lparr>pending_gpfifos := es'\<rparr>) (available_chunks pb ! i) (idle_chunks pb ! i)"
      using J r' rm e unfolding chunk_inv_def by auto
    have "pb_inv pb1" by (intro pb_inv_upd [OF assms(1) i n]) (simp_all add: pb1_def)
    then show ?thesis using False def I(2) i by (auto simp: pb1_def c_def keeps_claims_def nth_list_update)
  qed
qed

section \<open>Pushes keep the invariant\<close>

text \<open>Push \<open>p\<close> is on-going in chunk \<open>i\<close>.\<close>

definition active :: "u64 \<Rightarrow> uvm_pushbuffer \<Rightarrow> uvm_push \<Rightarrow> nat \<Rightarrow> bool" where
  "active base pb p i \<longleftrightarrow> \<not> pu_wlc p \<and> i < 16 \<and> current_push (pb_chunks pb ! i) = Some (pu_id p)
     \<and> pu_begin p = chunk_get_next_push_start_addr base pb i"

definition entry_for :: "u64 \<Rightarrow> uvm_push \<Rightarrow> uvm_gpfifo_entry \<Rightarrow> bool" where
  "entry_for base p g \<longleftrightarrow> pushbuffer_offset g = uvm_pushbuffer_get_offset_for_push base p
     \<and> 0 < unat (pushbuffer_size g) \<and> unat (pushbuffer_size g) \<le> 131072 \<and> 4 dvd unat (pushbuffer_size g)"

lemma active_room:
  assumes "pb_inv pb" "active base pb p i"
  shows "room i (pending_gpfifos (pb_chunks pb ! i)) (next_push_start (pb_chunks pb ! i))"
  using pb_invD(1) [OF assms(1), of i] assms(2) by (auto simp: active_def chunk_inv_def)

lemma active_offset:
  assumes "pb_inv pb" "active base pb p i"
  shows "uvm_pushbuffer_get_offset_for_push base p = chunk_get_offset i + next_push_start (pb_chunks pb ! i)"
proof -
  let ?o = "chunk_get_offset i" and ?s = "next_push_start (pb_chunks pb ! i)"
  have i: "i < 16" using assms(2) by (simp add: active_def)
  have s: "unat ?s \<le> 1048576" using active_room [OF assms] by (simp add: room_def)
  have "pu_begin p - base = ucast ?o + ucast ?s"
    using assms(2) by (simp add: active_def chunk_get_next_push_start_addr_def)
  moreover have "(ucast (ucast ?o + ucast ?s :: u64) :: u32) = ?o + ?s"
    using i s by (simp add: word_unat_eq_iff unat_word_ariths unsigned_ucast_eq take_bit_eq_mod)
  ultimately show ?thesis using assms(2) by (simp add: active_def uvm_pushbuffer_get_offset_for_push_def)
qed

lemma entry_in_chunk:
  assumes "pb_inv pb" "active base pb p i" "entry_for base p g"
  shows "gpfifo_to_chunk g = i" "ring i (pending_gpfifos (pb_chunks pb ! i) @ [g])"
proof -
  let ?s = "next_push_start (pb_chunks pb ! i)" and ?es = "pending_gpfifos (pb_chunks pb ! i)"
  have i: "i < 16" using assms(2) by (simp add: active_def)
  have R: "unat ?s + 131072 \<le> 1048576" "ring i (?es @ [slot i ?s])" using active_room [OF assms(1,2)] by (auto simp: room_def)
  have o: "pushbuffer_offset g = pushbuffer_offset (slot i ?s)"
    using assms(3) active_offset [OF assms(1,2)] by (simp add: entry_for_def slot_def)
  have n: "r_start g = i * 1048576 + unat ?s" using slot_nat(1) [OF i, of ?s] R(1) o by simp
  show "gpfifo_to_chunk g = i" using n R(1) by (simp add: gpfifo_to_chunk_nat)
  have sl: "in_chunk i (slot i ?s)" using R(2) by (simp add: ring_def)
  have "in_chunk i g" using sl assms(3) o R(1) n i by (simp add: in_chunk_def entry_for_def)
  then show "ring i (?es @ [g])"
    using ring_shrink [OF R(2)] o assms(3) by (simp add: entry_for_def slot_def)
qed

text \<open>Chunk \<open>i\<close> changes from one claim state to another; the claims of the other chunks are kept.\<close>

definition claim_change :: "nat \<Rightarrow> nat option \<Rightarrow> nat option \<Rightarrow> uvm_pushbuffer \<Rightarrow> uvm_pushbuffer \<Rightarrow> bool" where
  "claim_change i a b pb pb' \<longleftrightarrow> i < 16 \<and> current_push (pb_chunks pb ! i) = a \<and> current_push (pb_chunks pb' ! i) = b
     \<and> (\<forall>j < 16. j \<noteq> i \<longrightarrow> pb_chunks pb' ! j = pb_chunks pb ! j)"

lemma end_push_inv:
  assumes "pb_inv pb" "active base pb p i" "entry_for base p g" "uvm_pushbuffer_end_push p g pb = (ok, pb')"
  shows "ok \<and> pb_inv pb' \<and> claim_change i (Some (pu_id p)) None pb pb'
    \<and> concurrent_pushes_sema pb' = concurrent_pushes_sema pb + 1
    \<and> pending_gpfifos (pb_chunks pb' ! i) = pending_gpfifos (pb_chunks pb ! i) @ [g]"
proof -
  define c where "c = pb_chunks pb ! i"
  define c1 where "c1 = c\<lparr>pending_gpfifos := pending_gpfifos c @ [g]\<rparr>"
  define pb1 where "pb1 = pb\<lparr>pb_chunks := (pb_chunks pb)[i := c1]\<rparr>"
  have i: "i < 16" "\<not> pu_wlc p" and cur: "current_push c = Some (pu_id p)" using assms(2) by (auto simp: active_def c_def)
  note I = pb_invD [OF assms(1) i(1)]
  note E = entry_in_chunk [OF assms(1-3)]
  have r: "ring i (pending_gpfifos c1)" using E(2) by (simp add: c1_def c_def)
  have b: "\<not> available_chunks pb1 ! i" "\<not> idle_chunks pb1 ! i" using I(1) cur by (auto simp: pb1_def chunk_inv_def c_def)
  have c1: "c1 = pb_chunks pb1 ! i" using I(2) i by (simp add: pb1_def)
  have l: "length (available_chunks pb1) = 16" "length (idle_chunks pb1) = 16" using I(3,4) by (simp_all add: pb1_def)
  obtain s av idl where u: "pb_chunks (update_chunk i pb1) = (pb_chunks pb1)[i := c1\<lparr>next_push_start := s\<rparr>]"
      "available_chunks (update_chunk i pb1) = (available_chunks pb1)[i := av]" "idle_chunks (update_chunk i pb1) = (idle_chunks pb1)[i := idl]"
      "concurrent_pushes_sema (update_chunk i pb1) = concurrent_pushes_sema pb1"
    and f: "av \<longleftrightarrow> (\<exists>s. room i (pending_gpfifos c1) s)" "av \<longrightarrow> room i (pending_gpfifos c1) s" "idl \<longleftrightarrow> pending_gpfifos c1 = []"
    using update_chunk_spec [OF l i(1) c1 r] b by blast
  have res: "ok = (current_push c1 = Some (pu_id p))"
      "pb' = (update_chunk i pb1)\<lparr>pb_chunks := (pb_chunks pb)[i := c1\<lparr>next_push_start := s, current_push := None\<rparr>],
         concurrent_pushes_sema := concurrent_pushes_sema pb + 1\<rparr>"
    using assms(4) i u E(1) I(2) by (auto simp: uvm_pushbuffer_end_push_def Let_def pb1_def c1_def c_def)
  have n: "chunk_inv i (c1\<lparr>next_push_start := s, current_push := None\<rparr>) av idl"
    using r f by (simp add: chunk_inv_def)
  have "pb_inv pb'" using u res by (intro pb_inv_upd [OF assms(1) i(1) n]) (simp_all add: pb1_def)
  then show ?thesis
    using res cur I(2) i by (auto simp: c1_def c_def claim_change_def)
qed

lemma try_claim_change:
  assumes "pb_inv pb" "try_claim_chunk p pb = (Some i, pb')"
  shows "pb_inv pb'" "claim_change i None (Some p) pb pb'" "next_push_start (pb_chunks pb' ! i) = next_push_start (pb_chunks pb ! i)"
  using try_claim_inv [OF assms] pb_invD(2) [OF assms(1), of 0] by (auto simp: claim_change_def)

lemma keeps_trans: "keeps_claims a b \<Longrightarrow> keeps_claims b c \<Longrightarrow> keeps_claims a c"
  by (simp add: keeps_claims_def)

lemma update_progress_inv:
  "pb_inv pb \<Longrightarrow> \<forall>g \<in> set gs. r_start g < 16777216 \<Longrightarrow> pb_inv (update_progress gs pb) \<and> keeps_claims pb (update_progress gs pb)"
  unfolding update_progress_def
proof (induction gs arbitrary: pb)
  case Nil
  then show ?case by (simp add: keeps_claims_def)
next
  case (Cons g gs)
  have a: "pb_inv (complete_chunk g pb)" "keeps_claims pb (complete_chunk g pb)" using complete_chunk_inv Cons.prems by auto
  have "pb_inv (fold complete_chunk gs (complete_chunk g pb)) \<and> keeps_claims (complete_chunk g pb) (fold complete_chunk gs (complete_chunk g pb))"
    using Cons.IH [OF a(1)] Cons.prems(2) by simp
  then show ?case using a(2) keeps_trans by auto
qed

section \<open>Threads\<close>

text \<open>
  The steps of several threads, one critical section each.  \<open>W\<close> counts the pushes that passed the semaphore
  and wait for a chunk, \<open>Ps\<close> has the on-going pushes with their chunks, and \<open>L\<close> the chunks that were claimed
  by the loop after its status had become an error: \<^verbatim>\<open>claim_chunk\<close> then fails although \<^verbatim>\<open>try_claim_chunk\<close>
  succeeded.
\<close>

inductive pb_reach :: "u64 \<Rightarrow> uvm_pushbuffer \<Rightarrow> nat \<Rightarrow> (uvm_push \<times> nat) list \<Rightarrow> nat list \<Rightarrow> bool" for base where
  create: "pb_reach base init_chunks 0 [] []"
| down: "pb_reach base pb W Ps L \<Longrightarrow> 0 < concurrent_pushes_sema pb \<Longrightarrow>
    pb_reach base (pb\<lparr>concurrent_pushes_sema := concurrent_pushes_sema pb - 1\<rparr>) (Suc W) Ps L"
| claim: "pb_reach base pb (Suc W) Ps L \<Longrightarrow> \<not> pu_wlc p \<Longrightarrow> try_claim_chunk (pu_id p) pb = (Some i, pb') \<Longrightarrow>
    b = chunk_get_next_push_start_addr base pb' i \<Longrightarrow>
    pb_reach base pb' W ((p\<lparr>pu_begin := b, pu_next := b\<rparr>, i) # Ps) L"
| claim_error: "pb_reach base pb (Suc W) Ps L \<Longrightarrow> try_claim_chunk p pb = (Some i, pb') \<Longrightarrow>
    pb_reach base (pb'\<lparr>concurrent_pushes_sema := concurrent_pushes_sema pb' + 1\<rparr>) W Ps (i # L)"
| give_up: "pb_reach base pb (Suc W) Ps L \<Longrightarrow>
    pb_reach base (pb\<lparr>concurrent_pushes_sema := concurrent_pushes_sema pb + 1\<rparr>) W Ps L"
| end_push: "pb_reach base pb W Ps L \<Longrightarrow> (p, i) \<in> set Ps \<Longrightarrow> entry_for base p g \<Longrightarrow>
    uvm_pushbuffer_end_push p g pb = (ok, pb') \<Longrightarrow> pb_reach base pb' W (remove1 (p, i) Ps) L"
| complete: "pb_reach base pb W Ps L \<Longrightarrow> r_start g < 16777216 \<Longrightarrow>
    uvm_pushbuffer_mark_completed g info pb = (ev, info', pb') \<Longrightarrow> pb_reach base pb' W Ps L"

definition claims_inv :: "u64 \<Rightarrow> uvm_pushbuffer \<Rightarrow> nat \<Rightarrow> (uvm_push \<times> nat) list \<Rightarrow> nat list \<Rightarrow> bool" where
  "claims_inv base pb W Ps L \<longleftrightarrow> pb_inv pb \<and> (\<forall>(p, i) \<in> set Ps. active base pb p i) \<and> distinct (map snd Ps @ L)
     \<and> set (map snd Ps @ L) = {i. i < 16 \<and> current_push (pb_chunks pb ! i) \<noteq> None}
     \<and> concurrent_pushes_sema pb + W + length Ps = 16"

lemma active_cong:
  assumes "active base pb p i" "current_push (pb_chunks pb' ! i) = current_push (pb_chunks pb ! i)"
    "next_push_start (pb_chunks pb' ! i) = next_push_start (pb_chunks pb ! i)"
  shows "active base pb' p i"
  using assms by (simp add: active_def chunk_get_next_push_start_addr_def)

lemma claims_set:
  "claims_inv base pb W Ps L \<Longrightarrow> set (map snd Ps @ L) = {i. i < 16 \<and> current_push (pb_chunks pb ! i) \<noteq> None}"
  by (simp add: claims_inv_def)

lemma claims_keep:
  assumes "claims_inv base pb W Ps L" "pb_inv pb'" "keeps_claims pb pb'"
  shows "claims_inv base pb' W Ps L"
proof -
  have "active base pb' p i" if "(p, i) \<in> set Ps" for p i
  proof -
    have a: "active base pb p i" using assms(1) that by (auto simp: claims_inv_def)
    then show ?thesis using assms(3) by (intro active_cong [OF a]) (auto simp: keeps_claims_def active_def)
  qed
  moreover have "{i. i < 16 \<and> current_push (pb_chunks pb' ! i) \<noteq> None} = {i. i < 16 \<and> current_push (pb_chunks pb ! i) \<noteq> None}"
    using assms(3) by (auto simp: keeps_claims_def)
  ultimately show ?thesis using assms by (auto simp: claims_inv_def keeps_claims_def)
qed

lemma claims_sema:
  "claims_inv base pb W Ps L \<Longrightarrow> n + W' + length Ps = 16 \<Longrightarrow> claims_inv base (pb\<lparr>concurrent_pushes_sema := n\<rparr>) W' Ps L"
  by (auto simp: claims_inv_def pb_inv_def active_def chunk_get_next_push_start_addr_def)

lemma change_claimed:
  assumes "claim_change i a b pb pb'"
  shows "{j. j < 16 \<and> current_push (pb_chunks pb' ! j) \<noteq> None}
    = (if b = None then {j. j < 16 \<and> current_push (pb_chunks pb ! j) \<noteq> None} - {i}
       else insert i {j. j < 16 \<and> current_push (pb_chunks pb ! j) \<noteq> None})"
  using assms unfolding claim_change_def by (auto split: if_splits)

lemma change_active:
  assumes "claim_change i a b pb pb'" "active base pb p j" "j \<noteq> i"
  shows "active base pb' p j"
  using assms by (intro active_cong [OF assms(2)]) (auto simp: claim_change_def active_def)

lemma claims_claim:
  assumes "claims_inv base pb (Suc W) Ps L" "try_claim_chunk (pu_id p) pb = (Some i, pb')" "\<not> pu_wlc p"
    "b = chunk_get_next_push_start_addr base pb' i"
  shows "claims_inv base pb' W ((p\<lparr>pu_begin := b, pu_next := b\<rparr>, i) # Ps) L"
proof -
  have I: "pb_inv pb" using assms(1) by (simp add: claims_inv_def)
  note T = try_claim_change [OF I assms(2)]
  have i: "i < 16" "i \<notin> {i. i < 16 \<and> current_push (pb_chunks pb ! i) \<noteq> None}" using T(2) by (auto simp: claim_change_def)
  have "active base pb' (p\<lparr>pu_begin := b, pu_next := b\<rparr>) i" using T(2) assms(3,4) by (simp add: active_def claim_change_def)
  moreover have "active base pb' q j" if "(q, j) \<in> set Ps" for q j
  proof -
    have a: "active base pb q j" using assms(1) that by (auto simp: claims_inv_def)
    then have "j \<noteq> i" using i by (auto simp: active_def)
    then show ?thesis using change_active [OF T(2) a] by simp
  qed
  ultimately show ?thesis
    using assms(1) T(1) change_claimed [OF T(2)] i try_claim_inv(2) [OF I assms(2)] by (auto simp: claims_inv_def)
qed

lemma claims_claim_error:
  assumes "claims_inv base pb (Suc W) Ps L" "try_claim_chunk p pb = (Some i, pb')"
  shows "claims_inv base (pb'\<lparr>concurrent_pushes_sema := concurrent_pushes_sema pb' + 1\<rparr>) W Ps (i # L)"
proof -
  have I: "pb_inv pb" using assms(1) by (simp add: claims_inv_def)
  note T = try_claim_change [OF I assms(2)]
  have i: "i < 16" "i \<notin> {i. i < 16 \<and> current_push (pb_chunks pb ! i) \<noteq> None}" using T(2) by (auto simp: claim_change_def)
  have "active base pb' q j" if "(q, j) \<in> set Ps" for q j
  proof -
    have a: "active base pb q j" using assms(1) that by (auto simp: claims_inv_def)
    then have "j \<noteq> i" using i by (auto simp: active_def)
    then show ?thesis using change_active [OF T(2) a] by simp
  qed
  moreover have "i \<notin> set (map snd Ps @ L)" using i(2) unfolding claims_set [OF assms(1)] .
  ultimately have "claims_inv base pb' (Suc W) Ps (i # L)"
    using assms(1) T(1) change_claimed [OF T(2)] try_claim_inv(2) [OF I assms(2)] by (auto simp: claims_inv_def)
  then show ?thesis by (rule claims_sema) (use \<open>claims_inv base pb' (Suc W) Ps (i # L)\<close> in \<open>simp add: claims_inv_def\<close>)
qed

lemma claims_end:
  assumes "claims_inv base pb W Ps L" "(p, i) \<in> set Ps" "entry_for base p g" "uvm_pushbuffer_end_push p g pb = (ok, pb')"
  shows "claims_inv base pb' W (remove1 (p, i) Ps) L"
proof -
  have I: "pb_inv pb" and a: "active base pb p i" and d: "distinct (map snd Ps @ L)"
    and S: "set (map snd Ps @ L) = {i. i < 16 \<and> current_push (pb_chunks pb ! i) \<noteq> None}"
    using assms(1,2) by (auto simp: claims_inv_def)
  note E = end_push_inv [OF I a assms(3,4)]
  obtain xs ys where s: "Ps = xs @ (p, i) # ys" "(p, i) \<notin> set xs" using assms(2) by (meson split_list_first)
  then have r: "remove1 (p, i) Ps = xs @ ys" by (simp add: remove1_append)
  have "active base pb' q j" if "(q, j) \<in> set (xs @ ys)" for q j
  proof -
    have b: "active base pb q j" using assms(1) that s(1) by (auto simp: claims_inv_def)
    have "j \<noteq> i" using d s(1) that by force
    then show ?thesis using change_active [OF _ b, of i] E by blast
  qed
  moreover have "set (map snd (xs @ ys) @ L) = {j. j < 16 \<and> current_push (pb_chunks pb' ! j) \<noteq> None}"
  proof -
    have "set (map snd (xs @ ys) @ L) = set (map snd Ps @ L) - {i}" using d s(1) by auto
    then show ?thesis using S change_claimed [of i "Some (pu_id p)" None pb pb'] E by simp
  qed
  moreover have "distinct (map snd (xs @ ys) @ L)" using d s(1) by auto
  ultimately show ?thesis
    using E assms(1) s(1) unfolding r claims_inv_def by auto
qed

lemma pb_reach_inv: "pb_reach base pb W Ps L \<Longrightarrow> claims_inv base pb W Ps L"
proof (induction rule: pb_reach.induct)
  case create
  then show ?case using pb_init_inv by (auto simp: claims_inv_def init_chunks_def UVM_PUSHBUFFER_CHUNKS_def)
next
  case (down pb W Ps L)
  then show ?case by (intro claims_sema) (auto simp: claims_inv_def)
next
  case (claim pb W Ps L p i pb' b)
  then show ?case using claims_claim by blast
next
  case (claim_error pb W Ps L p i pb')
  then show ?case using claims_claim_error by blast
next
  case (give_up pb W Ps L)
  have "concurrent_pushes_sema pb + 1 + W + length Ps = 16" using give_up.IH by (simp add: claims_inv_def)
  from claims_sema [OF give_up.IH this] show ?case .
next
  case (end_push pb W Ps L p i g ok pb')
  then show ?case using claims_end by blast
next
  case (complete pb W Ps L g info ev info' pb')
  have "pb' = complete_chunk g pb" using complete.hyps(3) by (auto simp: uvm_pushbuffer_mark_completed_def split: prod.splits)
  moreover have "pb_inv pb" using complete.IH by (simp add: claims_inv_def)
  ultimately show ?case using complete_chunk_inv [OF _ complete.hyps(2)] claims_keep [OF complete.IH] by simp
qed

section \<open>Properties\<close>

text \<open>The regions in use in chunk \<open>i\<close>: those of the pending entries, and the reserve of an on-going push.\<close>

definition chunk_regions :: "uvm_pushbuffer \<Rightarrow> nat \<Rightarrow> (nat \<times> nat) list" where
  "chunk_regions pb i = map (\<lambda>e. (r_start e, unat (pushbuffer_size e))) (pending_gpfifos (pb_chunks pb ! i))
     @ (if current_push (pb_chunks pb ! i) = None then []
        else [(unat (chunk_get_offset i) + unat (next_push_start (pb_chunks pb ! i)), unat UVM_MAX_PUSH_SIZE)])"

fun disjoint_regions :: "(nat \<times> nat) list \<Rightarrow> bool" where
  "disjoint_regions [] \<longleftrightarrow> True"
| "disjoint_regions ((a, n) # rs) \<longleftrightarrow> list_all (\<lambda>(b, m). a + n \<le> b \<or> b + m \<le> a) rs \<and> disjoint_regions rs"

lemma disjoint_append:
  "disjoint_regions (xs @ ys) \<longleftrightarrow> disjoint_regions xs \<and> disjoint_regions ys
     \<and> (\<forall>(a, n) \<in> set xs. \<forall>(b, m) \<in> set ys. a + n \<le> b \<or> b + m \<le> a)"
  by (induction xs rule: disjoint_regions.induct) (auto simp: list_all_iff)

abbreviation region :: "uvm_gpfifo_entry \<Rightarrow> nat \<times> nat" where
  "region e \<equiv> (r_start e, unat (pushbuffer_size e))"

lemma line_disjoint: "sorted_wrt before es \<Longrightarrow> disjoint_regions (map region es)"
  by (induction es) (auto simp: list_all_iff before_def)

lemma ring_disjoint:
  assumes "ring i es"
  shows "disjoint_regions (map region es)" "\<forall>(a, n) \<in> set (map region es). i * 1048576 \<le> a \<and> a + n \<le> i * 1048576 + 1048576"
proof -
  obtain xs ys where s: "es = xs @ ys" "sorted_wrt before (ys @ xs)" using assms by (auto simp: ring_def)
  have "disjoint_regions (map region ys @ map region xs)" using line_disjoint [OF s(2)] by simp
  then show "disjoint_regions (map region es)" unfolding s(1) map_append disjoint_append by fast
  show "\<forall>(a, n) \<in> set (map region es). i * 1048576 \<le> a \<and> a + n \<le> i * 1048576 + 1048576"
    using assms by (auto simp: ring_def in_chunk_def)
qed

lemma chunk_regions_ok:
  assumes "pb_inv pb" "i < 16"
  shows "disjoint_regions (chunk_regions pb i)" "\<forall>(a, n) \<in> set (chunk_regions pb i). i * 1048576 \<le> a \<and> a + n \<le> i * 1048576 + 1048576"
proof -
  let ?c = "pb_chunks pb ! i"
  note I = pb_invD(1) [OF assms, unfolded chunk_inv_def]
  let ?es = "if current_push ?c = None then pending_gpfifos ?c else pending_gpfifos ?c @ [slot i (next_push_start ?c)]"
  have r: "ring i ?es" using I by (auto simp: room_def)
  have e: "chunk_regions pb i = map region ?es"
    using I assms(2) slot_nat(1) [of i "next_push_start ?c"] by (auto simp: chunk_regions_def room_def slot_def)
  show "disjoint_regions (chunk_regions pb i)" "\<forall>(a, n) \<in> set (chunk_regions pb i). i * 1048576 \<le> a \<and> a + n \<le> i * 1048576 + 1048576"
    unfolding e by (rule ring_disjoint [OF r])+
qed

lemma all_regions_ok:
  assumes "pb_inv pb" "n \<le> 16"
  shows "disjoint_regions (concat (map (chunk_regions pb) [0..<n]))
    \<and> (\<forall>(a, k) \<in> set (concat (map (chunk_regions pb) [0..<n])). a + k \<le> n * 1048576)"
  using assms(2)
proof (induction n)
  case 0
  then show ?case by simp
next
  case (Suc n)
  then have n: "n < 16" by simp
  note C = chunk_regions_ok [OF assms(1) n]
  have "\<forall>(a, k) \<in> set (concat (map (chunk_regions pb) [0..<n])). \<forall>(b, m) \<in> set (chunk_regions pb n). a + k \<le> b"
    using Suc C(2) by fastforce
  then have "disjoint_regions (concat (map (chunk_regions pb) [0..<n]) @ chunk_regions pb n)"
    using Suc C(1) unfolding disjoint_append by fastforce
  moreover have "\<forall>(a, k) \<in> set (concat (map (chunk_regions pb) [0..<Suc n])). a + k \<le> Suc n * 1048576"
    using Suc C(2) by fastforce
  ultimately show ?case by simp
qed

text \<open>
  C27.  In every reachable state of any number of threads the memory of the pending pushes and the reserve of
  the on-going ones never share a byte and lie inside the pushbuffer, and every on-going push writes in
  the reserve of its own chunk.
\<close>

theorem pushbuffer_disjoint:
  assumes "pb_reach base pb W Ps L"
  shows "disjoint_regions (concat (map (chunk_regions pb) [0..<16]))
    \<and> list_all (\<lambda>(a, n). a + n \<le> unat UVM_PUSHBUFFER_SIZE) (concat (map (chunk_regions pb) [0..<16]))
    \<and> list_all (\<lambda>(p, i). (unat (uvm_pushbuffer_get_offset_for_push base p), unat UVM_MAX_PUSH_SIZE) \<in> set (chunk_regions pb i)) Ps"
proof -
  have I: "pb_inv pb" and A: "\<forall>(p, i) \<in> set Ps. active base pb p i" using pb_reach_inv [OF assms] by (auto simp: claims_inv_def)
  have "(unat (uvm_pushbuffer_get_offset_for_push base p), 131072) \<in> set (chunk_regions pb i)" if "(p, i) \<in> set Ps" for p i
  proof -
    have a: "active base pb p i" using A that by auto
    then have "i < 16" "unat (next_push_start (pb_chunks pb ! i)) \<le> 1048576"
      using active_room [OF I a] by (auto simp: active_def room_def)
    then have "unat (uvm_pushbuffer_get_offset_for_push base p)
        = unat (chunk_get_offset i) + unat (next_push_start (pb_chunks pb ! i))"
      unfolding active_offset [OF I a] by (simp add: unat_word_ariths)
    then show ?thesis using a by (simp add: chunk_regions_def active_def)
  qed
  then show ?thesis using all_regions_ok [OF I, of 16] by (auto simp: list_all_iff)
qed

text \<open>
  Every operation keeps the pushbuffer well-formed: sixteen chunks and two bitmaps of sixteen bits, idle chunks
  are available and have nothing pending, available chunks have no on-going push, and pending pushes are
  nonempty, aligned to methods and inside their chunk.
\<close>

theorem pushbuffer_well_formed:
  assumes "pb_reach base pb W Ps L"
  shows "length (pb_chunks pb) = UVM_PUSHBUFFER_CHUNKS \<and> length (available_chunks pb) = UVM_PUSHBUFFER_CHUNKS
    \<and> length (idle_chunks pb) = UVM_PUSHBUFFER_CHUNKS
    \<and> (\<forall>i < UVM_PUSHBUFFER_CHUNKS.
         (idle_chunks pb ! i \<longrightarrow> available_chunks pb ! i \<and> pending_gpfifos (pb_chunks pb ! i) = [])
         \<and> (available_chunks pb ! i \<longrightarrow> current_push (pb_chunks pb ! i) = None)
         \<and> list_all (in_chunk i) (pending_gpfifos (pb_chunks pb ! i)))"
proof -
  have I: "pb_inv pb" using pb_reach_inv [OF assms] by (simp add: claims_inv_def)
  have "(idle_chunks pb ! i \<longrightarrow> available_chunks pb ! i \<and> pending_gpfifos (pb_chunks pb ! i) = [])
      \<and> (available_chunks pb ! i \<longrightarrow> current_push (pb_chunks pb ! i) = None)
      \<and> list_all (in_chunk i) (pending_gpfifos (pb_chunks pb ! i))" if "i < 16" for i
    using pb_invD(1) [OF I that] idle_available [OF pb_invD(1) [OF I that] that]
    unfolding chunk_inv_def ring_def list_all_iff by blast
  then show ?thesis using pb_invD(2-4) [OF I, of 0] by (simp add: UVM_PUSHBUFFER_CHUNKS_def)
qed


lemma complete_pending:
  assumes "length (pb_chunks pb) = 16" "gpfifo_to_chunk g = i" "i < 16"
  shows "pending_gpfifos (pb_chunks (complete_chunk g pb) ! i) = filter (\<lambda>x. ge_id x \<noteq> ge_id g) (pending_gpfifos (pb_chunks pb ! i))"
  using assms by (simp add: complete_chunk_def Let_def update_chunk_def offer_chunk_def)

lemma progress_pending:
  assumes "pb_inv pb" "i < 16" "\<forall>g \<in> set gs. gpfifo_to_chunk g = i"
  shows "pending_gpfifos (pb_chunks (update_progress gs pb) ! i)
    = filter (\<lambda>x. ge_id x \<notin> ge_id ` set gs) (pending_gpfifos (pb_chunks pb ! i))"
  using assms unfolding update_progress_def
proof (induction gs arbitrary: pb)
  case Nil
  then show ?case by simp
next
  case (Cons g gs)
  then have g: "gpfifo_to_chunk g = i" by simp
  then have "r_start g < 16777216" using Cons.prems(2) by (simp add: gpfifo_to_chunk_nat)
  then have I: "pb_inv (complete_chunk g pb)" using complete_chunk_inv Cons.prems(1) by blast
  show ?case
    using Cons.IH [OF I Cons.prems(2)] Cons.prems(3) complete_pending [OF _ g Cons.prems(2)] pb_invD(2) [OF Cons.prems(1,2)]
    by (auto intro: filter_cong)
qed


lemma progress_reach:
  "pb_reach base pb W Ps L \<Longrightarrow> \<forall>g \<in> set gs. r_start g < 16777216 \<Longrightarrow> pb_reach base (update_progress gs pb) W Ps L"
  unfolding update_progress_def
proof (induction gs arbitrary: pb)
  case (Cons g gs)
  have "pb_reach base (complete_chunk g pb) W Ps L"
    using pb_reach.complete [OF Cons.prems(1), of g "\<lparr>on_complete = None, on_complete_data = None, bundle_size = None\<rparr>"] Cons.prems(2)
    by (simp add: uvm_pushbuffer_mark_completed_def complete_info_def)
  then show ?case using Cons by simp
qed simp

lemma try_claim_None: "try_claim_chunk p pb = (None, pb1) \<Longrightarrow> pb1 = pb"
  by (auto simp: try_claim_chunk_def split: option.splits)

lemma claim_loop_reach:
  assumes "pb_reach base pb (Suc W) Ps L" "\<forall>tn \<in> set tns. \<forall>g \<in> set (ct_completed tn). r_start g < 16777216"
    and "claim_loop p st tns pb = Some (st', c, pb')"
  shows "case c of Some i \<Rightarrow> \<exists>pb0. pb_reach base pb0 (Suc W) Ps L \<and> try_claim_chunk p pb0 = (Some i, pb')
    | None \<Rightarrow> st' \<noteq> NV_OK \<and> pb_reach base pb' (Suc W) Ps L"
  using assms
proof (induction p st tns pb rule: claim_loop.induct)
  case (1 push st tns pb)
  obtain r pb1 where t: "try_claim_chunk push pb = (r, pb1)" by fastforce
  show ?case
  proof (cases r)
    case (Some i)
    then show ?thesis using 1 t by (auto simp: claim_loop.simps [of push st])
  next
    case None
    then have pb1: "pb1 = pb" using t try_claim_None by blast
    show ?thesis
    proof (cases "st = NV_OK")
      case False
      then show ?thesis using 1 t None pb1 by (auto simp: claim_loop.simps [of push st])
    next
      case True
      then obtain tn tns' where tn: "tns = tn # tns'"
        using 1(4) t None by (cases tns) (auto simp: claim_loop.simps [of push NV_OK])
      have l: "claim_loop push (ct_status tn) tns' (update_progress (ct_completed tn) pb1) = Some (st', c, pb')"
        using 1(4) t None True tn by (simp add: claim_loop.simps [of push NV_OK])
      have r: "pb_reach base (update_progress (ct_completed tn) pb1) (Suc W) Ps L"
        using progress_reach 1(2,3) tn pb1 by simp
      show ?thesis
        using 1(1) [OF t [symmetric] None _ tn r _ l] True 1(3) tn by simp
    qed
  qed
qed

text \<open>
  The whole of \<^verbatim>\<open>uvm_pushbuffer_begin_push\<close> is a sequence of these steps.  When it succeeds the push is on-going
  in a chunk of its own; when it fails the semaphore is released, and a chunk may have been lost.
\<close>

theorem begin_push_reach:
  assumes "pb_reach base pb W Ps L" "\<not> pu_wlc p"
    and "\<forall>g \<in> set gs. r_start g < 16777216" "\<forall>tn \<in> set tns. \<forall>g \<in> set (ct_completed tn). r_start g < 16777216"
    and "uvm_pushbuffer_begin_push base spb gs tns p pb = Some (st, p', pb')"
  shows "if st = NV_OK then \<exists>i. pb_reach base pb' W ((p', i) # Ps) L
    else p' = p \<and> (pb_reach base pb' W Ps L \<or> (\<exists>i. pb_reach base pb' W Ps (i # L)))"
proof -
  define pb0 where "pb0 = pb\<lparr>concurrent_pushes_sema := concurrent_pushes_sema pb - 1\<rparr>"
  obtain s c pb1 where q: "0 < concurrent_pushes_sema pb" "claim_chunk (pu_id p) gs tns pb0 = Some (s, c, pb1)"
    and res: "if s \<noteq> NV_OK then st = s \<and> p' = p \<and> pb' = pb1\<lparr>concurrent_pushes_sema := concurrent_pushes_sema pb1 + 1\<rparr>
       else st = NV_OK \<and> pb' = pb1 \<and> p' = p\<lparr>pu_begin := chunk_get_next_push_start_addr base pb1 (the c),
         pu_next := chunk_get_next_push_start_addr base pb1 (the c)\<rparr>"
    using assms(2,5) by (auto simp: uvm_pushbuffer_begin_push_def pb0_def Let_def split: if_splits option.splits)
  have r0: "pb_reach base pb0 (Suc W) Ps L" unfolding pb0_def by (rule pb_reach.down [OF assms(1) q(1)])
  have "case c of Some i \<Rightarrow> \<exists>pbx. pb_reach base pbx (Suc W) Ps L \<and> try_claim_chunk (pu_id p) pbx = (Some i, pb1)
    | None \<Rightarrow> s \<noteq> NV_OK \<and> pb_reach base pb1 (Suc W) Ps L"
  proof (cases "try_claim_chunk (pu_id p) pb0")
    case (Pair r pbt)
    show ?thesis
    proof (cases r)
      case None
      then have "pbt = pb0" "claim_loop (pu_id p) NV_OK tns (update_progress gs pb0) = Some (s, c, pb1)"
        using Pair q(2) try_claim_None by (auto simp: claim_chunk_def)
      then show ?thesis using claim_loop_reach [OF progress_reach [OF r0 assms(3)] assms(4)] by blast
    qed (use Pair q(2) r0 in \<open>auto simp: claim_chunk_def\<close>)
  qed
  then show ?thesis
  proof (cases c)
    case None
    then show ?thesis using \<open>case c of Some i \<Rightarrow> _ i | None \<Rightarrow> _\<close> res pb_reach.give_up [of base pb1 W Ps L] by auto
  next
    case (Some i)
    then obtain pbx where x: "pb_reach base pbx (Suc W) Ps L" "try_claim_chunk (pu_id p) pbx = (Some i, pb1)"
      using \<open>case c of Some i \<Rightarrow> _ i | None \<Rightarrow> _\<close> by auto
    show ?thesis
    proof (cases "s = NV_OK")
      case True
      then show ?thesis using res Some pb_reach.claim [OF x(1) assms(2) x(2) refl] by auto
    next
      case False
      then show ?thesis using res pb_reach.claim_error [OF x] by auto
    qed
  qed
qed

lemma pick_chunk_sema: "pick_chunk (pb\<lparr>concurrent_pushes_sema := n\<rparr>) = pick_chunk pb"
  by (simp add: pick_chunk_def cong: option.case_cong)

lemma complete_sema:
  "complete_chunk g (pb\<lparr>concurrent_pushes_sema := n\<rparr>) = (complete_chunk g pb)\<lparr>concurrent_pushes_sema := n\<rparr>"
  "length (pb_chunks (complete_chunk g pb)) = length (pb_chunks pb)"
  "concurrent_pushes_sema (complete_chunk g pb) = concurrent_pushes_sema pb"
  by (simp_all add: complete_chunk_def update_chunk_def offer_chunk_def Let_def)

lemma progress_sema:
  "update_progress gs (pb\<lparr>concurrent_pushes_sema := n\<rparr>) = (update_progress gs pb)\<lparr>concurrent_pushes_sema := n\<rparr>"
  by (induction gs arbitrary: pb) (simp_all add: update_progress_def complete_sema)

lemma progress_length [simp]:
  "length (pb_chunks (update_progress gs pb)) = length (pb_chunks pb)"
  "concurrent_pushes_sema (update_progress gs pb) = concurrent_pushes_sema pb"
  by (induction gs arbitrary: pb) (simp_all add: update_progress_def complete_sema)

text \<open>
  The loss is real: when the turn that reports an error also completes work, the condition of the loop
  claims the freed chunk before it looks at the status.  The push fails, nobody ends it, and its chunk
  stays claimed.
\<close>

theorem begin_push_error_claims:
  assumes "\<not> pu_wlc p" "0 < concurrent_pushes_sema pb"
    and "pick_chunk pb = None" "pick_chunk (update_progress gs pb) = None"
    and "ct_status tn \<noteq> NV_OK" "pick_chunk (update_progress (ct_completed tn) (update_progress gs pb)) = Some i"
    and "length (pb_chunks pb) = 16" "i < 16"
  shows "\<exists>pb'. uvm_pushbuffer_begin_push base spb gs (tn # tns) p pb = Some (ct_status tn, p, pb')
    \<and> current_push (pb_chunks pb' ! i) = Some (pu_id p) \<and> concurrent_pushes_sema pb' = concurrent_pushes_sema pb"
proof -
  define n where "n = concurrent_pushes_sema pb - 1"
  define q where "q = update_progress (ct_completed tn) (update_progress gs pb)"
  have l: "length (pb_chunks q) = 16" "concurrent_pushes_sema q = concurrent_pushes_sema pb" using assms(7) by (simp_all add: q_def)
  let ?q = "q\<lparr>concurrent_pushes_sema := n\<rparr>"
  obtain q' where t: "try_claim_chunk (pu_id p) ?q = (Some i, q')" "current_push (pb_chunks q' ! i) = Some (pu_id p)"
    "concurrent_pushes_sema q' = n"
    using assms(6,8) l by (auto simp: try_claim_chunk_def pick_chunk_sema q_def [symmetric])
  have n1: "try_claim_chunk (pu_id p) (pb\<lparr>concurrent_pushes_sema := n\<rparr>) = (None, pb\<lparr>concurrent_pushes_sema := n\<rparr>)"
    "try_claim_chunk (pu_id p) (update_progress gs (pb\<lparr>concurrent_pushes_sema := n\<rparr>)) = (None, update_progress gs (pb\<lparr>concurrent_pushes_sema := n\<rparr>))"
    using assms(3,4) by (simp_all add: try_claim_chunk_def pick_chunk_sema progress_sema)
  have "claim_loop (pu_id p) (ct_status tn) tns ?q = Some (ct_status tn, Some i, q')"
    using t by (simp add: claim_loop.simps)
  then have "claim_chunk (pu_id p) gs (tn # tns) (pb\<lparr>concurrent_pushes_sema := n\<rparr>) = Some (ct_status tn, Some i, q')"
    using n1 by (simp add: claim_chunk_def claim_loop.simps [of _ NV_OK] progress_sema q_def)
  then show ?thesis using assms(1,2,5) t by (auto simp: uvm_pushbuffer_begin_push_def n_def)
qed

text \<open>
  Creation is balanced on every path: after a failure everything that was allocated has been freed once, and
  after a success destruction frees exactly what creation allocated.
\<close>

theorem pushbuffer_create_balanced:
  "case uvm_pushbuffer_create env of (st, r, got, freed) \<Rightarrow>
     (case r of None \<Rightarrow> st \<noteq> NV_OK \<and> mset freed = mset got
      | Some (m, pb) \<Rightarrow> st = NV_OK \<and> freed = [] \<and> mset (uvm_pushbuffer_destroy m) = mset got \<and> pb = init_chunks)"
  by (auto simp: uvm_pushbuffer_create_def create_secure_def create_procfs_def uvm_pushbuffer_destroy_def Let_def)

section \<open>Witnesses\<close>

definition ex_push :: uvm_push where
  "ex_push = \<lparr>pu_id = 7, pu_wlc = False, pu_begin = 0, pu_next = 0\<rparr>"

definition ex_down :: uvm_pushbuffer where
  "ex_down = init_chunks\<lparr>concurrent_pushes_sema := 15\<rparr>"

definition ex_claimed :: uvm_pushbuffer where
  "ex_claimed = snd (try_claim_chunk 7 ex_down)"

lemma ex_down_reach: "pb_reach base ex_down 1 [] []"
  using pb_reach.down [OF pb_reach.create] by (simp add: ex_down_def init_chunks_def UVM_PUSHBUFFER_CHUNKS_def)

lemma ex_claim: "try_claim_chunk 7 ex_down = (Some 0, ex_claimed)"
  by (simp add: ex_claimed_def try_claim_chunk_def pick_chunk_def get_chunk_in_mask_def ex_down_def init_chunks_def
      UVM_PUSHBUFFER_CHUNKS_def numeral_eq_Suc)

lemma ex_claimed_reach: "\<exists>p. pb_reach 4096 ex_claimed 0 [(p, 0)] []"
  using pb_reach.claim [of 4096 ex_down 0 "[]" "[]" ex_push 0 ex_claimed, OF _ _ _ refl] ex_down_reach ex_claim by (auto simp: ex_push_def)

theorem pushbuffer_disjoint_witness: "disjoint_regions (concat (map (chunk_regions ex_claimed) [0..<16]))"
proof -
  obtain p where "pb_reach 4096 ex_claimed 0 [(p, 0)] []" using ex_claimed_reach by blast
  from pushbuffer_disjoint [OF this] show ?thesis by blast
qed

theorem pushbuffer_well_formed_witness: "length (pb_chunks ex_down) = UVM_PUSHBUFFER_CHUNKS"
  using pushbuffer_well_formed [OF ex_down_reach] by blast



theorem begin_push_reach_witness:
  "\<exists>st p' pb' i. uvm_pushbuffer_begin_push 4096 0 [] [] ex_push init_chunks = Some (st, p', pb') \<and> pb_reach 4096 pb' 0 [(p', i)] []"
proof -
  have "init_chunks\<lparr>concurrent_pushes_sema := concurrent_pushes_sema init_chunks - 1\<rparr> = ex_down"
    by (simp add: ex_down_def init_chunks_def UVM_PUSHBUFFER_CHUNKS_def)
  then obtain p' pb' where b: "uvm_pushbuffer_begin_push 4096 0 [] [] ex_push init_chunks = Some (NV_OK, p', pb')"
    using ex_claim
    by (simp add: uvm_pushbuffer_begin_push_def ex_push_def claim_chunk_def init_chunks_def UVM_PUSHBUFFER_CHUNKS_def Let_def)
  from begin_push_reach [OF pb_reach.create _ _ _ this] show ?thesis using b by (auto simp: ex_push_def)
qed

text \<open>Fifteen chunks are claimed; in the last a pending push leaves no room.\<close>

definition ex_full :: uvm_pushbuffer where
  "ex_full = \<lparr>pb_chunks = \<lparr>next_push_start = 0, pending_gpfifos = [\<lparr>ge_id = 1, pushbuffer_offset = 0, pushbuffer_size = 1048576\<rparr>], current_push = None\<rparr>
       # replicate 15 \<lparr>next_push_start = 0, pending_gpfifos = [], current_push = Some 3\<rparr>,
     available_chunks = replicate 16 False, idle_chunks = replicate 16 False, concurrent_pushes_sema = 1\<rparr>"

theorem begin_push_error_claims_witness:
  "\<exists>pb'. uvm_pushbuffer_begin_push 4096 0 []
       [\<lparr>ct_status = NV_ERR_RC_ERROR, ct_completed = [\<lparr>ge_id = 1, pushbuffer_offset = 0, pushbuffer_size = 1048576\<rparr>]\<rparr>] ex_push ex_full
     = Some (NV_ERR_RC_ERROR, ex_push, pb') \<and> current_push (pb_chunks pb' ! 0) = Some 7"
proof -
  let ?g = "\<lparr>ge_id = 1, pushbuffer_offset = 0, pushbuffer_size = 1048576\<rparr>"
  have n: "pick_chunk ex_full = None" by (simp add: pick_chunk_def get_chunk_in_mask_def ex_full_def numeral_eq_Suc)
  have "update_progress [?g] ex_full = ex_full\<lparr>pb_chunks := \<lparr>next_push_start = 0, pending_gpfifos = [], current_push = None\<rparr>
       # replicate 15 \<lparr>next_push_start = 0, pending_gpfifos = [], current_push = Some 3\<rparr>,
      available_chunks := True # replicate 15 False, idle_chunks := True # replicate 15 False\<rparr>"
    by (simp add: update_progress_def complete_chunk_def Let_def gpfifo_to_chunk_def offset_to_chunk_def ex_full_def
        update_chunk_def chunk_get_gpu_get_def chunk_get_cpu_put_def offer_chunk_def numeral_eq_Suc)
  then have k: "pick_chunk (update_progress [?g] ex_full) = Some 0"
    by (simp add: pick_chunk_def get_chunk_in_mask_def)
  have p: "\<not> pu_wlc ex_push" "pu_id ex_push = 7" "0 < concurrent_pushes_sema ex_full" "length (pb_chunks ex_full) = 16"
    "update_progress [] ex_full = ex_full"
    by (simp_all add: ex_push_def ex_full_def update_progress_def)
  show ?thesis
    using begin_push_error_claims [of ex_push ex_full "[]" "\<lparr>ct_status = NV_ERR_RC_ERROR, ct_completed = [?g]\<rparr>" 0 4096 0 "[]"] k n p
    by auto
qed

end
