(* ===== verification/Uvm_Channel.thy ===== *)
theory Uvm_Channel
  imports Interfaces Uvm_Semaphore Uvm_Pushbuffer
begin

text \<open>
  The GPFIFO ring of a UVM channel (\<^verbatim>\<open>uvm_channel.c\<close>) without confidential computing: reservation of
  entries, begin and end of a push, control entries, retirement of completed entries, waiting, and the
  suspension of peer traffic.  The pushbuffer and the tracking semaphore are those of their theories.
  The theory shows that the ring is a queue: entries retire in the order of submission, none is
  overwritten while it is pending, and the number of free entries is exact.  It also shows what two
  error paths do to the reservation count.
\<close>

section \<open>State\<close>

datatype gpfifo_entry_type = UVM_GPFIFO_ENTRY_TYPE_NORMAL | UVM_GPFIFO_ENTRY_TYPE_CONTROL

record chan_entry =
  en_type :: gpfifo_entry_type
  tracking_semaphore_value :: u64
  en_offset :: u32
  en_size :: u32
  control_value :: u64
  en_info :: nat

text \<open>\<open>ch_base\<close> is the identity of the first entry, so that entries of different channels differ.\<close>

record uvm_channel =
  ch_base :: nat
  gpfifo_entries :: "chan_entry list"
  num_gpfifo_entries :: u32
  cpu_put :: u32
  gpu_get :: u32
  current_gpfifo_count :: u32
  push_infos :: "uvm_push_info list"
  available_push_infos :: "nat list"
  tracking_sem :: tracking_semaphore
  suspended_p2p :: bool
  ch_proxy :: bool

text \<open>What a channel does to the device: writes of the GPFIFO ring and of \<^verbatim>\<open>GPPUT\<close>, and streams of a proxy.\<close>

datatype chan_event = Gpfifo_write u32 u64 | Write_gpu_put u32 | Push_stream u64 u32 | Pb pb_event

datatype update_mode = UVM_CHANNEL_UPDATE_MODE_COMPLETED | UVM_CHANNEL_UPDATE_MODE_FORCE_ALL

datatype reserve_kind = UVM_CHANNEL_RESERVE_WITH_P2P | UVM_CHANNEL_RESERVE_NO_P2P

section \<open>Progress\<close>

definition pb_entry :: "uvm_channel \<Rightarrow> nat \<Rightarrow> uvm_gpfifo_entry" where
  "pb_entry ch i = \<lparr>ge_id = ch_base ch + i, pushbuffer_offset = en_offset (gpfifo_entries ch ! i),
     pushbuffer_size = en_size (gpfifo_entries ch ! i)\<rparr>"

text \<open>One entry of the loop retires: a push leaves the pushbuffer and gives its push info back.\<close>

definition retire_entry :: "uvm_channel \<Rightarrow> uvm_pushbuffer \<Rightarrow> chan_event list \<times> uvm_channel \<times> uvm_pushbuffer" where
  "retire_entry ch pb =
     (let i = unat (gpu_get ch); e = gpfifo_entries ch ! i;
          ch' = ch\<lparr>gpu_get := (gpu_get ch + 1) mod num_gpfifo_entries ch\<rparr> in
      if en_type e = UVM_GPFIFO_ENTRY_TYPE_NORMAL then
        let (ev, info, pb1) = uvm_pushbuffer_mark_completed (pb_entry ch i) (push_infos ch ! en_info e) pb in
        (map Pb ev, ch'\<lparr>push_infos := (push_infos ch)[en_info e := info], available_push_infos := available_push_infos ch @ [en_info e]\<rparr>, pb1)
      else ([], ch', pb))"

fun progress_loop ::
  "update_mode \<Rightarrow> u64 \<Rightarrow> nat \<Rightarrow> uvm_channel \<Rightarrow> uvm_pushbuffer \<Rightarrow> chan_event list \<times> uvm_channel \<times> uvm_pushbuffer" where
  "progress_loop mode v 0 ch pb = ([], ch, pb)"
| "progress_loop mode v (Suc n) ch pb =
     (if gpu_get ch = cpu_put ch then ([], ch, pb)
      else if mode = UVM_CHANNEL_UPDATE_MODE_COMPLETED
          \<and> tracking_semaphore_value (gpfifo_entries ch ! unat (gpu_get ch)) > v then ([], ch, pb)
      else
        let (ev1, ch1, pb1) = retire_entry ch pb; (ev2, ch2, pb2) = progress_loop mode v n ch1 pb1 in
        (ev1 @ ev2, ch2, pb2))"

definition pending_gpfifos_count :: "uvm_channel \<Rightarrow> u32" where
  "pending_gpfifos_count ch =
     (if cpu_put ch \<ge> gpu_get ch then cpu_put ch - gpu_get ch
      else num_gpfifo_entries ch - gpu_get ch + cpu_put ch)"

text \<open>The argument \<open>payload\<close> is what the GPU has written to the semaphore.\<close>

definition uvm_channel_update_progress_with_max ::
  "u32 \<Rightarrow> u32 \<Rightarrow> update_mode \<Rightarrow> uvm_channel \<Rightarrow> uvm_pushbuffer \<Rightarrow> u32 \<times> chan_event list \<times> uvm_channel \<times> uvm_pushbuffer" where
  "uvm_channel_update_progress_with_max payload max_to_complete mode ch pb =
     (let (v, ts) = uvm_gpu_tracking_semaphore_update_completed_value payload (tracking_sem ch);
          (ev, ch1, pb1) = progress_loop mode v (unat max_to_complete) (ch\<lparr>tracking_sem := ts\<rparr>) pb in
      (pending_gpfifos_count ch1, ev, ch1, pb1))"

definition uvm_channel_update_progress ::
  "u32 \<Rightarrow> uvm_channel \<Rightarrow> uvm_pushbuffer \<Rightarrow> u32 \<times> chan_event list \<times> uvm_channel \<times> uvm_pushbuffer" where
  "uvm_channel_update_progress payload ch pb =
     uvm_channel_update_progress_with_max payload 8 UVM_CHANNEL_UPDATE_MODE_COMPLETED ch pb"

definition channel_update_progress_all ::
  "u32 \<Rightarrow> update_mode \<Rightarrow> uvm_channel \<Rightarrow> uvm_pushbuffer \<Rightarrow> u32 \<times> chan_event list \<times> uvm_channel \<times> uvm_pushbuffer" where
  "channel_update_progress_all payload mode ch pb =
     uvm_channel_update_progress_with_max payload (num_gpfifo_entries ch) mode ch pb"

text \<open>All channels of a manager share the pushbuffer.\<close>

fun uvm_channel_manager_update_progress ::
  "u32 list \<Rightarrow> uvm_channel list \<Rightarrow> uvm_pushbuffer \<Rightarrow> u32 \<times> uvm_channel list \<times> uvm_pushbuffer" where
  "uvm_channel_manager_update_progress (p # ps) (ch # chs) pb =
     (let (n, ev, ch1, pb1) = uvm_channel_update_progress p ch pb;
          (m, chs1, pb2) = uvm_channel_manager_update_progress ps chs pb1 in (n + m, ch1 # chs1, pb2))"
| "uvm_channel_manager_update_progress _ chs pb = (0, chs, pb)"

section \<open>Reservation\<close>

definition channel_get_available_gpfifo_entries :: "uvm_channel \<Rightarrow> u32" where
  "channel_get_available_gpfifo_entries ch =
     (let available = num_gpfifo_entries ch - 1 - current_gpfifo_count ch in
      if cpu_put ch \<ge> gpu_get ch then available - (cpu_put ch - gpu_get ch)
      else available - (cpu_put ch + num_gpfifo_entries ch - gpu_get ch))"

definition try_claim_channel :: "u32 \<Rightarrow> reserve_kind \<Rightarrow> uvm_channel \<Rightarrow> bool \<times> uvm_channel" where
  "try_claim_channel n kind ch =
     (if kind = UVM_CHANNEL_RESERVE_WITH_P2P \<and> suspended_p2p ch then (False, ch)
      else if channel_get_available_gpfifo_entries ch \<ge> n then
        (True, ch\<lparr>current_gpfifo_count := current_gpfifo_count ch + n\<rparr>)
      else (False, ch))"

text \<open>One turn of a wait on a channel: the error status, then the payload at the next update.\<close>

record chan_turn =
  cn_status :: nv_status
  cn_payload :: u32

definition progress_step :: "u32 \<Rightarrow> uvm_channel \<times> uvm_pushbuffer \<Rightarrow> uvm_channel \<times> uvm_pushbuffer" where
  "progress_step p s = snd (snd (uvm_channel_update_progress p (fst s) (snd s)))"

text \<open>The condition of the loop claims before it looks at the status.\<close>

fun reserve_loop ::
  "u32 \<Rightarrow> nv_status \<Rightarrow> chan_turn list \<Rightarrow> uvm_channel \<times> uvm_pushbuffer \<Rightarrow> (nv_status \<times> uvm_channel \<times> uvm_pushbuffer) option" where
  "reserve_loop n st tns s =
     (case try_claim_channel n UVM_CHANNEL_RESERVE_NO_P2P (fst s) of
        (True, ch) \<Rightarrow> Some (st, ch, snd s)
      | (False, ch) \<Rightarrow>
          if st \<noteq> NV_OK then Some (st, s)
          else case tns of
            [] \<Rightarrow> None
          | tn # tns' \<Rightarrow> reserve_loop n (cn_status tn) tns' (progress_step (cn_payload tn) s))"

declare reserve_loop.simps [simp del]

definition uvm_channel_reserve ::
  "u32 \<Rightarrow> u32 \<Rightarrow> chan_turn list \<Rightarrow> uvm_channel \<times> uvm_pushbuffer \<Rightarrow> (nv_status \<times> uvm_channel \<times> uvm_pushbuffer) option" where
  "uvm_channel_reserve n payload tns s =
     (case try_claim_channel n UVM_CHANNEL_RESERVE_NO_P2P (fst s) of
        (True, ch) \<Rightarrow> Some (NV_OK, ch, snd s)
      | (False, ch) \<Rightarrow> reserve_loop n NV_OK tns (progress_step payload s))"

definition uvm_channel_release :: "u32 \<Rightarrow> uvm_channel \<Rightarrow> uvm_channel" where
  "uvm_channel_release n ch = ch\<lparr>current_gpfifo_count := current_gpfifo_count ch - n\<rparr>"

text \<open>A channel of a pool: the first that can be claimed.\<close>

fun claim_first :: "reserve_kind \<Rightarrow> uvm_channel list \<Rightarrow> (nat \<times> uvm_channel list) option" where
  "claim_first kind [] = None"
| "claim_first kind (ch # chs) =
     (case try_claim_channel 1 kind ch of
        (True, ch') \<Rightarrow> Some (0, ch' # chs)
      | (False, _) \<Rightarrow> map_option (\<lambda>(i, chs'). (Suc i, ch # chs')) (claim_first kind chs))"

text \<open>Then the channels in turn, each with its progress, its claim and its errors.\<close>

fun pool_loop ::
  "reserve_kind \<Rightarrow> chan_turn list \<Rightarrow> nat \<Rightarrow> uvm_channel list \<times> uvm_pushbuffer
     \<Rightarrow> (nv_status \<times> nat option \<times> uvm_channel list \<times> uvm_pushbuffer) option" where
  "pool_loop kind [] i s = None"
| "pool_loop kind (tn # tns) i (chs, pb) =
     (let k = i mod length chs; (ch, pb1) = progress_step (cn_payload tn) (chs ! k, pb) in
      case try_claim_channel 1 kind ch of
        (True, ch') \<Rightarrow> Some (NV_OK, Some k, chs[k := ch'], pb1)
      | (False, _) \<Rightarrow>
          if cn_status tn \<noteq> NV_OK then Some (cn_status tn, None, chs[k := ch], pb1)
          else if kind = UVM_CHANNEL_RESERVE_WITH_P2P \<and> suspended_p2p ch then Some (NV_ERR_BUSY_RETRY, None, chs[k := ch], pb1)
          else pool_loop kind tns (Suc i) (chs[k := ch], pb1))"

definition channel_reserve_in_pool ::
  "reserve_kind \<Rightarrow> chan_turn list \<Rightarrow> uvm_channel list \<times> uvm_pushbuffer
     \<Rightarrow> (nv_status \<times> nat option \<times> uvm_channel list \<times> uvm_pushbuffer) option" where
  "channel_reserve_in_pool kind tns s =
     (case claim_first kind (fst s) of
        Some (i, chs) \<Rightarrow> Some (NV_OK, Some i, chs, snd s)
      | None \<Rightarrow> pool_loop kind tns 0 s)"

section \<open>Pushes\<close>

record chan_push =
  cp_push :: uvm_push
  push_info_index :: nat
  channel_tracking_value :: u64

definition channel_get_available_push_info_index :: "uvm_channel \<Rightarrow> (nat \<times> uvm_channel) option" where
  "channel_get_available_push_info_index ch =
     (case available_push_infos ch of
        [] \<Rightarrow> None
      | i # is \<Rightarrow> Some (i, ch\<lparr>available_push_infos := is\<rparr>))"

text \<open>
  What the push needs of the pushbuffer comes as for \<^const>\<open>uvm_pushbuffer_begin_push\<close>.  The outer \<^verbatim>\<open>None\<close> means
  that the claim of a chunk still waits; \<^verbatim>\<open>None\<close> for the push info is the failed assertion.
\<close>

definition uvm_channel_begin_push ::
  "u64 \<Rightarrow> uvm_gpfifo_entry list \<Rightarrow> claim_turn list \<Rightarrow> uvm_push \<Rightarrow> uvm_channel \<Rightarrow> uvm_pushbuffer
     \<Rightarrow> (nv_status \<times> chan_push option \<times> uvm_channel \<times> uvm_pushbuffer) option" where
  "uvm_channel_begin_push base gs tns push ch pb =
     (case uvm_pushbuffer_begin_push base 0 gs tns push pb of
        None \<Rightarrow> None
      | Some (st, push', pb1) \<Rightarrow>
          if st \<noteq> NV_OK then Some (st, None, ch, pb1)
          else case channel_get_available_push_info_index ch of
            None \<Rightarrow> Some (NV_OK, None, ch, pb1)
          | Some (i, ch1) \<Rightarrow> Some (NV_OK, Some \<lparr>cp_push = push', push_info_index = i, channel_tracking_value = 0\<rparr>, ch1, pb1))"

definition uvm_push_get_size :: "uvm_push \<Rightarrow> u32" where
  "uvm_push_get_size p = ucast (pu_next p - pu_begin p)"

definition internal_channel_submit_work ::
  "(u64 \<Rightarrow> u32 \<Rightarrow> u64) \<Rightarrow> pb_bases \<Rightarrow> u64 \<Rightarrow> uvm_push \<Rightarrow> u32 \<Rightarrow> u32 \<Rightarrow> uvm_channel \<Rightarrow> chan_event list" where
  "internal_channel_submit_work set_gpfifo_entry bs base push push_size new_gpu_put ch =
     [Gpfifo_write (cpu_put ch) (set_gpfifo_entry (uvm_pushbuffer_get_gpu_va_for_push Ch_normal bs base push) push_size),
      Write_gpu_put new_gpu_put]"

text \<open>
  The semaphore release adds \<open>rel\<close> bytes of methods; they and the format of a GPFIFO entry depend on the
  architecture.
\<close>

definition uvm_channel_end_push ::
  "(u64 \<Rightarrow> u32 \<Rightarrow> u64) \<Rightarrow> u64 \<Rightarrow> pb_bases \<Rightarrow> u64 \<Rightarrow> chan_push \<Rightarrow> uvm_channel \<Rightarrow> uvm_pushbuffer
     \<Rightarrow> chan_push \<times> chan_event list \<times> uvm_channel \<times> uvm_pushbuffer" where
  "uvm_channel_end_push set_gpfifo_entry rel bs base p ch pb =
     (let new_tracking_value = queued_value (tracking_sem ch) + 1;
          push = (cp_push p)\<lparr>pu_next := pu_next (cp_push p) + rel\<rparr>;
          push_size = uvm_push_get_size push;
          put = cpu_put ch;
          new_cpu_put = (put + 1) mod num_gpfifo_entries ch;
          entry = \<lparr>en_type = UVM_GPFIFO_ENTRY_TYPE_NORMAL, tracking_semaphore_value = new_tracking_value,
            en_offset = uvm_pushbuffer_get_offset_for_push base push, en_size = push_size, control_value = 0, en_info = push_info_index p\<rparr>;
          ch1 = ch\<lparr>tracking_sem := (tracking_sem ch)\<lparr>queued_value := new_tracking_value\<rparr>,
            gpfifo_entries := (gpfifo_entries ch)[unat put := entry],
            current_gpfifo_count := current_gpfifo_count ch - 1\<rparr>;
          ev = (if ch_proxy ch then [Push_stream (pu_begin push) push_size]
                else internal_channel_submit_work set_gpfifo_entry bs base push push_size new_cpu_put ch1);
          ch2 = ch1\<lparr>cpu_put := new_cpu_put\<rparr>;
          (ok, pb1) = uvm_pushbuffer_end_push push (pb_entry ch1 (unat put)) pb in
      (\<lparr>cp_push = push, push_info_index = unat (num_gpfifo_entries ch), channel_tracking_value = new_tracking_value\<rparr>, ev, ch2, pb1))"

definition write_ctrl_gpfifo :: "u64 \<Rightarrow> uvm_channel \<Rightarrow> chan_event list \<times> uvm_channel" where
  "write_ctrl_gpfifo val ch =
     (let put = cpu_put ch; new_cpu_put = (put + 1) mod num_gpfifo_entries ch;
          entry = \<lparr>en_type = UVM_GPFIFO_ENTRY_TYPE_CONTROL, tracking_semaphore_value = queued_value (tracking_sem ch) + 1,
            en_offset = 0, en_size = 0, control_value = val, en_info = 0\<rparr> in
      ([Gpfifo_write put val, Write_gpu_put new_cpu_put],
       ch\<lparr>gpfifo_entries := (gpfifo_entries ch)[unat put := entry], current_gpfifo_count := current_gpfifo_count ch - 1,
          cpu_put := new_cpu_put\<rparr>))"

section \<open>Errors, waiting and suspension\<close>

definition uvm_channel_get_status :: "u32 \<Rightarrow> bool \<Rightarrow> bool \<Rightarrow> nv_status" where
  "uvm_channel_get_status error_notifier ecc_enabled ecc_error =
     (if error_notifier = 0 then NV_OK else if ecc_enabled \<and> ecc_error then NV_ERR_ECC_ERROR else NV_ERR_RC_ERROR)"

definition uvm_channel_get_first_pending_entry :: "u32 \<Rightarrow> uvm_channel \<Rightarrow> uvm_pushbuffer \<Rightarrow> chan_entry option \<times> uvm_channel \<times> uvm_pushbuffer" where
  "uvm_channel_get_first_pending_entry payload ch pb =
     (let (n, ev, ch1, pb1) = channel_update_progress_all payload UVM_CHANNEL_UPDATE_MODE_COMPLETED ch pb in
      (if n = 0 then None else if gpu_get ch1 \<noteq> cpu_put ch1 then Some (gpfifo_entries ch1 ! unat (gpu_get ch1)) else None, ch1, pb1))"

text \<open>A turn of \<^verbatim>\<open>uvm_channel_wait\<close>: the payload, and then the global status or that of the channel.\<close>

fun wait_loop :: "nv_status \<Rightarrow> u32 \<Rightarrow> chan_turn list \<Rightarrow> uvm_channel \<times> uvm_pushbuffer \<Rightarrow> (nv_status \<times> uvm_channel \<times> uvm_pushbuffer) option" where
  "wait_loop st payload tns (ch, pb) =
     (let (n, ev, ch1, pb1) = uvm_channel_update_progress payload ch pb in
      if n = 0 \<or> st \<noteq> NV_OK then Some (st, ch1, pb1)
      else case tns of
        [] \<Rightarrow> None
      | tn # tns' \<Rightarrow> wait_loop (cn_status tn) (cn_payload tn) tns' (ch1, pb1))"

declare wait_loop.simps [simp del]

definition uvm_channel_wait ::
  "nv_status \<Rightarrow> nv_status \<Rightarrow> u32 \<Rightarrow> u32 \<Rightarrow> chan_turn list \<Rightarrow> uvm_channel \<times> uvm_pushbuffer \<Rightarrow> (nv_status \<times> uvm_channel \<times> uvm_pushbuffer) option" where
  "uvm_channel_wait global errors payload payload2 tns s =
     (let (n, ev, ch1, pb1) = uvm_channel_update_progress payload (fst s) (snd s) in
      if n = 0 \<and> global = NV_OK then Some (errors, ch1, pb1)
      else wait_loop global payload2 tns (ch1, pb1))"

definition channel_suspend_p2p ::
  "u32 \<Rightarrow> chan_turn list \<Rightarrow> uvm_channel \<times> uvm_pushbuffer \<Rightarrow> (nv_status \<times> uvm_channel \<times> uvm_pushbuffer) option" where
  "channel_suspend_p2p payload tns s =
     (let n = num_gpfifo_entries (fst s) - 1 in
      case uvm_channel_reserve n payload tns s of
        None \<Rightarrow> None
      | Some (st, ch, pb) \<Rightarrow>
          Some (st, uvm_channel_release n (if st = NV_OK then ch\<lparr>suspended_p2p := True\<rparr> else ch), pb))"

definition channel_resume_p2p :: "uvm_channel \<Rightarrow> uvm_channel" where
  "channel_resume_p2p ch = ch\<lparr>suspended_p2p := False\<rparr>"

text \<open>The channels of a pool one after the other; after a failure the earlier ones resume.\<close>

fun suspend_all ::
  "(u32 \<times> chan_turn list) list \<Rightarrow> uvm_channel list \<Rightarrow> uvm_pushbuffer \<Rightarrow> (nv_status \<times> uvm_channel list \<times> uvm_pushbuffer) option" where
  "suspend_all ((p, tns) # es) (ch # chs) pb =
     (case channel_suspend_p2p p tns (ch, pb) of
        None \<Rightarrow> None
      | Some (st, ch1, pb1) \<Rightarrow>
          if st \<noteq> NV_OK then Some (st, ch1 # chs, pb1)
          else map_option (\<lambda>(st', chs', pb'). (st', (if st' \<noteq> NV_OK then channel_resume_p2p ch1 else ch1) # chs', pb')) (suspend_all es chs pb1))"
| "suspend_all es [] pb = Some (NV_OK, [], pb)"
| "suspend_all [] (ch # chs) pb = None"

definition channel_pool_resume_p2p :: "uvm_channel list \<Rightarrow> uvm_channel list" where
  "channel_pool_resume_p2p chs = map channel_resume_p2p chs"

definition channel_pool_num_gpfifo_entries :: "channel_kind \<Rightarrow> u32 \<Rightarrow> u32" where
  "channel_pool_num_gpfifo_entries k conf = (if k = Ch_wlc then 16 else if k = Ch_lcic then 4 else conf)"

text \<open>A channel as \<^verbatim>\<open>channel_create\<close> leaves it.\<close>

definition new_channel :: "nat \<Rightarrow> u32 \<Rightarrow> bool \<Rightarrow> tracking_semaphore \<Rightarrow> uvm_channel" where
  "new_channel b n proxy ts =
     \<lparr>ch_base = b,
      gpfifo_entries = replicate (unat n) \<lparr>en_type = UVM_GPFIFO_ENTRY_TYPE_NORMAL, tracking_semaphore_value = 0,
        en_offset = 0, en_size = 0, control_value = 0, en_info = 0\<rparr>,
      num_gpfifo_entries = n, cpu_put = 0, gpu_get = 0, current_gpfifo_count = 0,
      push_infos = replicate (unat n) \<lparr>on_complete = None, on_complete_data = None, bundle_size = None\<rparr>,
      available_push_infos = [0..<unat n], tracking_sem = ts, suspended_p2p = False, ch_proxy = proxy\<rparr>"

section \<open>The ring\<close>

abbreviation nent :: "uvm_channel \<Rightarrow> nat" where
  "nent ch \<equiv> unat (num_gpfifo_entries ch)"

text \<open>The number of pending entries, and the entries themselves in ring order.\<close>

definition pcount :: "uvm_channel \<Rightarrow> nat" where
  "pcount ch = (if unat (gpu_get ch) \<le> unat (cpu_put ch) then unat (cpu_put ch) - unat (gpu_get ch)
     else nent ch - unat (gpu_get ch) + unat (cpu_put ch))"

definition pend :: "uvm_channel \<Rightarrow> chan_entry list" where
  "pend ch = ring_items (gpfifo_entries ch) (unat (gpu_get ch)) (pcount ch)"

definition chan_inv :: "uvm_channel \<Rightarrow> bool" where
  "chan_inv ch \<longleftrightarrow> 2 \<le> nent ch \<and> length (gpfifo_entries ch) = nent ch
     \<and> unat (cpu_put ch) < nent ch \<and> unat (gpu_get ch) < nent ch
     \<and> pcount ch + unat (current_gpfifo_count ch) < nent ch"

lemma pend_length [simp]: "length (pend ch) = pcount ch"
  by (simp add: pend_def)

lemma pend_nil: "pcount ch = 0 \<Longrightarrow> pend ch = []"
  by (simp add: pend_def)

lemma chan_inv_cong:
  assumes "chan_inv ch" "gpfifo_entries ch' = gpfifo_entries ch" "num_gpfifo_entries ch' = num_gpfifo_entries ch"
    "cpu_put ch' = cpu_put ch" "gpu_get ch' = gpu_get ch" "unat (current_gpfifo_count ch') \<le> unat (current_gpfifo_count ch)"
  shows "chan_inv ch'" "pend ch' = pend ch" "pcount ch' = pcount ch"
  using assms by (auto simp: chan_inv_def pend_def pcount_def)

lemma pending_count_nat: "chan_inv ch \<Longrightarrow> unat (pending_gpfifos_count ch) = pcount ch"
proof -
  assume i: "chan_inv ch"
  show ?thesis
  proof (cases "unat (gpu_get ch) \<le> unat (cpu_put ch)")
    case True
    then show ?thesis by (simp add: pending_gpfifos_count_def pcount_def word_le_nat_alt unat_sub_le)
  next
    case False
    have g: "gpu_get ch \<le> num_gpfifo_entries ch" using i by (simp add: chan_inv_def word_le_nat_alt)
    have "unat (num_gpfifo_entries ch - gpu_get ch) + unat (cpu_put ch) < 2 ^ LENGTH(32)"
      using False i unsigned_less [of "num_gpfifo_entries ch", where 'a = nat] unat_sub_le [OF g] by (simp add: chan_inv_def)
    then have "unat (num_gpfifo_entries ch - gpu_get ch + cpu_put ch) = nent ch - unat (gpu_get ch) + unat (cpu_put ch)"
      by (simp add: unat_add_nowrap unat_sub_le [OF g])
    then show ?thesis using False by (simp add: pending_gpfifos_count_def pcount_def word_le_nat_alt)
  qed
qed

text \<open>The free entries, without wrap-around.\<close>

lemma available_nat:
  assumes "chan_inv ch"
  shows "unat (channel_get_available_gpfifo_entries ch) = nent ch - 1 - unat (current_gpfifo_count ch) - pcount ch"
proof -
  let ?a = "num_gpfifo_entries ch - 1 - current_gpfifo_count ch"
  have e: "channel_get_available_gpfifo_entries ch = ?a - pending_gpfifos_count ch"
    by (simp add: channel_get_available_gpfifo_entries_def pending_gpfifos_count_def algebra_simps)
  have b: "2 \<le> nent ch" "pcount ch + unat (current_gpfifo_count ch) < nent ch" using assms by (auto simp: chan_inv_def)
  have 1: "unat (num_gpfifo_entries ch - 1) = nent ch - 1"
    using b unat_pred [of 0 "num_gpfifo_entries ch"] by (simp add: word_less_nat_alt)
  have 2: "unat ?a = nent ch - 1 - unat (current_gpfifo_count ch)"
    using b 1 by (subst unat_sub_le) (auto simp: word_le_nat_alt)
  have "pending_gpfifos_count ch \<le> ?a" using b 2 pending_count_nat [OF assms] by (simp add: word_le_nat_alt)
  then show ?thesis using 2 pending_count_nat [OF assms] by (simp add: e unat_sub_le)
qed

lemma try_claim_spec:
  assumes "chan_inv ch" "try_claim_channel n kind ch = (b, ch')"
  shows "chan_inv ch'" "pend ch' = pend ch"
    "b \<longleftrightarrow> \<not> (kind = UVM_CHANNEL_RESERVE_WITH_P2P \<and> suspended_p2p ch)
       \<and> unat n + unat (current_gpfifo_count ch) + pcount ch < nent ch"
    "b \<Longrightarrow> unat (current_gpfifo_count ch') = unat (current_gpfifo_count ch) + unat n" "\<not> b \<Longrightarrow> ch' = ch"
    "ch' = ch\<lparr>current_gpfifo_count := current_gpfifo_count ch'\<rparr>"
proof -
  let ?c = "unat (current_gpfifo_count ch)"
  have b: "2 \<le> nent ch" "pcount ch + ?c < nent ch" using assms(1) by (auto simp: chan_inv_def)
  have av: "n \<le> channel_get_available_gpfifo_entries ch \<longleftrightarrow> unat n + ?c + pcount ch < nent ch"
    using available_nat [OF assms(1)] b by (auto simp: word_le_nat_alt)
  show bi: "b \<longleftrightarrow> \<not> (kind = UVM_CHANNEL_RESERVE_WITH_P2P \<and> suspended_p2p ch) \<and> unat n + ?c + pcount ch < nent ch"
    using assms(2) av by (auto simp: try_claim_channel_def split: if_splits)
  show nb: "\<not> b \<Longrightarrow> ch' = ch" using assms(2) by (auto simp: try_claim_channel_def split: if_splits)
  have bb: "b \<Longrightarrow> ch' = ch\<lparr>current_gpfifo_count := current_gpfifo_count ch + n\<rparr>"
    using assms(2) by (auto simp: try_claim_channel_def split: if_splits)
  show cnt: "unat (current_gpfifo_count ch') = ?c + unat n" if "b"
  proof -
    have "?c + unat n < 2 ^ LENGTH(32)"
      using that bi unsigned_less [of "num_gpfifo_entries ch", where 'a = nat] by simp
    then show ?thesis using bb [OF that] by (simp add: unat_add_nowrap)
  qed
  show "ch' = ch\<lparr>current_gpfifo_count := current_gpfifo_count ch'\<rparr>" using nb bb by (cases b) auto
  have p: "pcount ch' = pcount ch" "pend ch' = pend ch" using nb bb by (cases b; simp add: pcount_def pend_def)+
  then show "pend ch' = pend ch" by simp
  show "chan_inv ch'"
  proof (cases b)
    case True
    then have "pcount ch + unat (current_gpfifo_count ch + n) < nent ch" using cnt [OF True] bb [OF True] bi by simp
    then show ?thesis using bb [OF True] p(1) assms(1) by (simp add: chan_inv_def)
  qed (use nb assms(1) in simp)
qed

text \<open>Entries appended at \<^verbatim>\<open>cpu_put\<close> and removed at \<^verbatim>\<open>gpu_get\<close>.\<close>

lemma next_index:
  assumes "chan_inv ch" "unat i < nent ch"
  shows "unat ((i + 1) mod num_gpfifo_entries ch) = (unat i + 1) mod nent ch"
proof -
  have "i < num_gpfifo_entries ch" using assms(2) by (simp add: word_less_nat_alt)
  then show ?thesis by (simp add: unat_mod unat_succ)
qed

lemma append_entry:
  assumes "chan_inv ch" "0 < unat (current_gpfifo_count ch)"
    and "gpfifo_entries ch' = (gpfifo_entries ch)[unat (cpu_put ch) := e]" "num_gpfifo_entries ch' = num_gpfifo_entries ch"
    "cpu_put ch' = (cpu_put ch + 1) mod num_gpfifo_entries ch" "gpu_get ch' = gpu_get ch"
    "current_gpfifo_count ch' = current_gpfifo_count ch - 1"
  shows "chan_inv ch' \<and> pend ch' = pend ch @ [e] \<and> unat (current_gpfifo_count ch') = unat (current_gpfifo_count ch) - 1"
proof -
  let ?n = "nent ch" and ?g = "unat (gpu_get ch)" and ?p = "unat (cpu_put ch)"
  have b: "2 \<le> ?n" "length (gpfifo_entries ch) = ?n" "?p < ?n" "?g < ?n" "pcount ch + unat (current_gpfifo_count ch) < ?n"
    using assms(1) by (auto simp: chan_inv_def)
  have c: "unat (current_gpfifo_count ch') = unat (current_gpfifo_count ch) - 1"
    using assms(2,7) unat_pred [of 0 "current_gpfifo_count ch"] by (simp add: word_less_nat_alt)
  have p': "unat (cpu_put ch') = (?p + 1) mod ?n" using assms(5) next_index [OF assms(1) b(3)] by simp
  have pc: "pcount ch' = Suc (pcount ch)"
    using b assms(2,4,6) p' by (cases "?p + 1 = ?n") (auto simp: pcount_def split: if_splits)
  have idx: "(?g + pcount ch) mod ?n = ?p" using b by (auto simp: pcount_def)
  have "pend ch' = ring_items ((gpfifo_entries ch)[(?g + pcount ch) mod length (gpfifo_entries ch) := e]) ?g (Suc (pcount ch))"
    using assms(3,6) pc idx b(2) by (simp add: pend_def)
  also have "... = pend ch @ [e]" using b by (subst ring_items_put) (auto simp: pend_def)
  finally have "pend ch' = pend ch @ [e]" .
  moreover have "chan_inv ch'" using b assms(2-6) c pc p' by (auto simp: chan_inv_def)
  ultimately show ?thesis using c by simp
qed

lemma remove_entry:
  assumes "chan_inv ch" "gpu_get ch \<noteq> cpu_put ch"
    and "gpfifo_entries ch' = gpfifo_entries ch" "num_gpfifo_entries ch' = num_gpfifo_entries ch"
    "gpu_get ch' = (gpu_get ch + 1) mod num_gpfifo_entries ch" "cpu_put ch' = cpu_put ch"
    "current_gpfifo_count ch' = current_gpfifo_count ch"
  shows "chan_inv ch' \<and> pend ch = gpfifo_entries ch ! unat (gpu_get ch) # pend ch'"
proof -
  let ?n = "nent ch" and ?g = "unat (gpu_get ch)" and ?p = "unat (cpu_put ch)"
  have b: "2 \<le> ?n" "length (gpfifo_entries ch) = ?n" "?p < ?n" "?g < ?n" "pcount ch + unat (current_gpfifo_count ch) < ?n"
    using assms(1) by (auto simp: chan_inv_def)
  have ne: "?g \<noteq> ?p" using assms(2) by (simp add: word_unat_eq_iff)
  have g': "unat (gpu_get ch') = (?g + 1) mod ?n" using assms(5) next_index [OF assms(1) b(4)] by simp
  have pc: "pcount ch = Suc (pcount ch')"
    using b assms(4,6) g' ne by (cases "?g + 1 = ?n") (auto simp: pcount_def split: if_splits)
  have "pend ch = gpfifo_entries ch ! ?g # pend ch'"
    using ring_items_get [of ?g "gpfifo_entries ch" "pcount ch'"] b g' assms(3) by (simp add: pend_def pc)
  moreover have "chan_inv ch'" using b assms(3-7) pc g' by (auto simp: chan_inv_def)
  ultimately show ?thesis by simp
qed

lemma pend_empty: "chan_inv ch \<Longrightarrow> pend ch = [] \<longleftrightarrow> gpu_get ch = cpu_put ch"
  by (auto simp: pend_def pcount_def chan_inv_def word_unat_eq_iff ring_items_def)

section \<open>Retirement\<close>

definition retirable :: "update_mode \<Rightarrow> u64 \<Rightarrow> chan_entry \<Rightarrow> bool" where
  "retirable mode v e \<longleftrightarrow> mode = UVM_CHANNEL_UPDATE_MODE_FORCE_ALL \<or> tracking_semaphore_value e \<le> v"

text \<open>What retirement leaves alone.\<close>

definition chan_frame :: "uvm_channel \<Rightarrow> uvm_channel \<Rightarrow> bool" where
  "chan_frame ch ch' \<longleftrightarrow> gpfifo_entries ch' = gpfifo_entries ch \<and> num_gpfifo_entries ch' = num_gpfifo_entries ch
     \<and> cpu_put ch' = cpu_put ch \<and> current_gpfifo_count ch' = current_gpfifo_count ch \<and> tracking_sem ch' = tracking_sem ch
     \<and> suspended_p2p ch' = suspended_p2p ch \<and> length (push_infos ch') = length (push_infos ch)"

definition normal_infos :: "chan_entry list \<Rightarrow> nat list" where
  "normal_infos es = map en_info (filter (\<lambda>e. en_type e = UVM_GPFIFO_ENTRY_TYPE_NORMAL) es)"

lemma normal_infos_simps [simp]:
  "normal_infos [] = []" "normal_infos (xs @ ys) = normal_infos xs @ normal_infos ys"
  "normal_infos (e # es) = (if en_type e = UVM_GPFIFO_ENTRY_TYPE_NORMAL then [en_info e] else []) @ normal_infos es"
  by (simp_all add: normal_infos_def)

lemma retire_entry_spec:
  assumes "chan_inv ch" "gpu_get ch \<noteq> cpu_put ch" "retire_entry ch pb = (ev, ch', pb')"
  shows "chan_inv ch' \<and> pend ch = gpfifo_entries ch ! unat (gpu_get ch) # pend ch' \<and> chan_frame ch ch'
    \<and> available_push_infos ch' = available_push_infos ch @ normal_infos [gpfifo_entries ch ! unat (gpu_get ch)]"
proof -
  have f: "gpfifo_entries ch' = gpfifo_entries ch" "num_gpfifo_entries ch' = num_gpfifo_entries ch"
    "gpu_get ch' = (gpu_get ch + 1) mod num_gpfifo_entries ch" "cpu_put ch' = cpu_put ch"
    "current_gpfifo_count ch' = current_gpfifo_count ch"
    using assms(3) by (auto simp: retire_entry_def Let_def split: if_splits prod.splits)
  have "chan_frame ch ch' \<and> available_push_infos ch' = available_push_infos ch @ normal_infos [gpfifo_entries ch ! unat (gpu_get ch)]"
    using assms(3) f by (auto simp: retire_entry_def Let_def chan_frame_def split: if_splits prod.splits)
  then show ?thesis using remove_entry [OF assms(1,2) f] by blast
qed

lemma progress_loop_spec:
  assumes "chan_inv ch" "progress_loop mode v n ch pb = (ev, ch', pb')"
  shows "chan_inv ch' \<and> chan_frame ch ch'
    \<and> pend ch = takeWhile (retirable mode v) (take n (pend ch)) @ pend ch'
    \<and> available_push_infos ch' = available_push_infos ch @ normal_infos (takeWhile (retirable mode v) (take n (pend ch)))"
  using assms
proof (induction n arbitrary: ch pb ev)
  case 0
  then show ?case by (simp add: chan_frame_def)
next
  case (Suc n)
  let ?e = "gpfifo_entries ch ! unat (gpu_get ch)"
  show ?case
  proof (cases "gpu_get ch = cpu_put ch")
    case True
    then have "pend ch = []" using pend_empty [OF Suc.prems(1)] by simp
    then show ?thesis using Suc.prems True by (simp add: chan_frame_def)
  next
    case False
    obtain ev1 ch1 pb1 where r: "retire_entry ch pb = (ev1, ch1, pb1)" by (metis prod_cases3)
    note R = retire_entry_spec [OF Suc.prems(1) False r]
    show ?thesis
    proof (cases "retirable mode v ?e")
      case False
      then have "mode = UVM_CHANNEL_UPDATE_MODE_COMPLETED \<and> tracking_semaphore_value ?e > v"
        by (cases mode) (auto simp: retirable_def)
      then have "ch' = ch" using Suc.prems(2) \<open>gpu_get ch \<noteq> cpu_put ch\<close> by simp
      then show ?thesis using R False Suc.prems(1) by (simp add: chan_frame_def)
    next
      case True
      then have "\<not> (mode = UVM_CHANNEL_UPDATE_MODE_COMPLETED \<and> tracking_semaphore_value ?e > v)"
        by (auto simp: retirable_def)
      then obtain ev2 where l: "progress_loop mode v n ch1 pb1 = (ev2, ch', pb')"
        using Suc.prems(2) False r by (auto split: prod.splits)
      have "chan_inv ch' \<and> chan_frame ch1 ch' \<and> pend ch1 = takeWhile (retirable mode v) (take n (pend ch1)) @ pend ch'
        \<and> available_push_infos ch' = available_push_infos ch1 @ normal_infos (takeWhile (retirable mode v) (take n (pend ch1)))"
        using Suc.IH [OF _ l] R by blast
      then show ?thesis using R True by (auto simp: chan_frame_def)
    qed
  qed
qed

lemma update_progress_spec:
  assumes "chan_inv ch" "uvm_channel_update_progress_with_max payload mx mode ch pb = (n, ev, ch', pb')"
    and v: "v = fst (uvm_gpu_tracking_semaphore_update_completed_value payload (tracking_sem ch))"
  shows "chan_inv ch' \<and> pend ch = takeWhile (retirable mode v) (take (unat mx) (pend ch)) @ pend ch'
    \<and> unat n = length (pend ch') \<and> current_gpfifo_count ch' = current_gpfifo_count ch
    \<and> num_gpfifo_entries ch' = num_gpfifo_entries ch \<and> suspended_p2p ch' = suspended_p2p ch
    \<and> available_push_infos ch' = available_push_infos ch @ normal_infos (takeWhile (retirable mode v) (take (unat mx) (pend ch)))"
proof -
  define ch0 where "ch0 = ch\<lparr>tracking_sem := snd (uvm_gpu_tracking_semaphore_update_completed_value payload (tracking_sem ch))\<rparr>"
  have c0: "chan_inv ch0" "pend ch0 = pend ch" "available_push_infos ch0 = available_push_infos ch"
    "current_gpfifo_count ch0 = current_gpfifo_count ch" "num_gpfifo_entries ch0 = num_gpfifo_entries ch" "suspended_p2p ch0 = suspended_p2p ch"
    using chan_inv_cong [OF assms(1), of ch0] by (auto simp: ch0_def)
  have l: "progress_loop mode v (unat mx) ch0 pb = (ev, ch', pb')" "n = pending_gpfifos_count ch'"
    using assms(2) v by (auto simp: uvm_channel_update_progress_with_max_def Let_def ch0_def split: prod.splits)
  note P = progress_loop_spec [OF c0(1) l(1)]
  then show ?thesis using c0 l(2) pending_count_nat [of ch'] by (auto simp: chan_frame_def)
qed

section \<open>Histories\<close>

text \<open>
  A channel with the pushbuffer and the number of its on-going pushes.  Callers begin a push or write a
  control entry only on an entry they reserved, and release only what they reserved and did not use.
\<close>

type_synonym chan_state = "uvm_channel \<times> uvm_pushbuffer \<times> nat"

datatype chan_put_op = Do_push "u64 \<Rightarrow> u32 \<Rightarrow> u64" u64 pb_bases u64 chan_push | Do_ctrl u64

datatype chan_other_op = Do_claim u32 reserve_kind | Do_release u32 | Do_begin

fun chan_may :: "chan_put_op \<Rightarrow> chan_state \<Rightarrow> bool" where
  "chan_may (Do_push f rel bs base p) (ch, pb, k) \<longleftrightarrow> 0 < k"
| "chan_may (Do_ctrl val) (ch, pb, k) \<longleftrightarrow> k < unat (current_gpfifo_count ch)"

fun chan_put :: "chan_put_op \<Rightarrow> chan_state \<Rightarrow> chan_state" where
  "chan_put (Do_push f rel bs base p) (ch, pb, k) =
     (case uvm_channel_end_push f rel bs base p ch pb of (p', ev, ch', pb') \<Rightarrow> (ch', pb', k - 1))"
| "chan_put (Do_ctrl val) (ch, pb, k) = (snd (write_ctrl_gpfifo val ch), pb, k)"

text \<open>The entry that a submission writes at \<^verbatim>\<open>cpu_put\<close>.\<close>

definition chan_mk :: "chan_put_op \<Rightarrow> chan_state \<Rightarrow> chan_entry list" where
  "chan_mk a q = [gpfifo_entries (fst (chan_put a q)) ! unat (cpu_put (fst q))]"

fun chan_retire :: "u32 \<times> u32 \<times> update_mode \<Rightarrow> chan_state \<Rightarrow> chan_state" where
  "chan_retire (payload, mx, mode) (ch, pb, k) =
     (case uvm_channel_update_progress_with_max payload mx mode ch pb of (n, ev, ch', pb') \<Rightarrow> (ch', pb', k))"

fun chan_other :: "chan_other_op \<Rightarrow> chan_state \<Rightarrow> chan_state" where
  "chan_other (Do_claim n kind) (ch, pb, k) = (snd (try_claim_channel n kind ch), pb, k)"
| "chan_other (Do_release n) (ch, pb, k) =
     (if k + unat n \<le> unat (current_gpfifo_count ch) then (uvm_channel_release n ch, pb, k) else (ch, pb, k))"
| "chan_other Do_begin (ch, pb, k) =
     (if k < unat (current_gpfifo_count ch) then
        case channel_get_available_push_info_index ch of
          None \<Rightarrow> (ch, pb, k)
        | Some (i, ch') \<Rightarrow> (ch', pb, Suc k)
      else (ch, pb, k))"

abbreviation chan_items :: "chan_state \<Rightarrow> chan_entry list" where
  "chan_items q \<equiv> pend (fst q)"

fun chan_wf :: "chan_state \<Rightarrow> bool" where
  "chan_wf (ch, pb, k) \<longleftrightarrow> chan_inv ch \<and> k \<le> unat (current_gpfifo_count ch)
     \<and> length (available_push_infos ch) + k + length (normal_infos (pend ch)) = nent ch"

lemma normal_le: "length (normal_infos es) \<le> length es"
  by (simp add: normal_infos_def)

text \<open>Whoever holds a reservation that is not used yet finds a push info.\<close>

lemma push_info_left:
  assumes "chan_wf (ch, pb, k)" "k < unat (current_gpfifo_count ch)"
  shows "available_push_infos ch \<noteq> []"
  using assms normal_le [of "pend ch"] by (auto simp: chan_inv_def)

lemma end_push_spec:
  assumes "chan_inv ch" "0 < unat (current_gpfifo_count ch)" "uvm_channel_end_push f rel bs base p ch pb = (p', ev, ch', pb')"
  shows "chan_inv ch' \<and> pend ch' = pend ch @ [gpfifo_entries ch' ! unat (cpu_put ch)]
    \<and> unat (current_gpfifo_count ch') = unat (current_gpfifo_count ch) - 1
    \<and> available_push_infos ch' = available_push_infos ch \<and> num_gpfifo_entries ch' = num_gpfifo_entries ch
    \<and> gpfifo_entries ch' ! unat (cpu_put ch) = \<lparr>en_type = UVM_GPFIFO_ENTRY_TYPE_NORMAL,
        tracking_semaphore_value = channel_tracking_value p', en_offset = uvm_pushbuffer_get_offset_for_push base (cp_push p'),
        en_size = uvm_push_get_size (cp_push p'), control_value = 0, en_info = push_info_index p\<rparr>
    \<and> channel_tracking_value p' = queued_value (tracking_sem ch) + 1 \<and> queued_value (tracking_sem ch') = queued_value (tracking_sem ch) + 1"
proof -
  let ?e = "\<lparr>en_type = UVM_GPFIFO_ENTRY_TYPE_NORMAL,
        tracking_semaphore_value = channel_tracking_value p', en_offset = uvm_pushbuffer_get_offset_for_push base (cp_push p'),
        en_size = uvm_push_get_size (cp_push p'), control_value = 0, en_info = push_info_index p\<rparr>"
  have f: "gpfifo_entries ch' = (gpfifo_entries ch)[unat (cpu_put ch) := ?e]" "num_gpfifo_entries ch' = num_gpfifo_entries ch"
    "cpu_put ch' = (cpu_put ch + 1) mod num_gpfifo_entries ch" "gpu_get ch' = gpu_get ch"
    "current_gpfifo_count ch' = current_gpfifo_count ch - 1"
    and g: "available_push_infos ch' = available_push_infos ch" "channel_tracking_value p' = queued_value (tracking_sem ch) + 1"
    "queued_value (tracking_sem ch') = queued_value (tracking_sem ch) + 1"
    using assms(3) by (auto simp: uvm_channel_end_push_def Let_def split: prod.splits)
  have "gpfifo_entries ch' ! unat (cpu_put ch) = ?e" using f(1) assms(1) by (simp add: chan_inv_def)
  then show ?thesis using append_entry [OF assms(1,2) f] f(2) g by auto
qed

lemma ctrl_spec:
  assumes "chan_inv ch" "0 < unat (current_gpfifo_count ch)" "write_ctrl_gpfifo val ch = (ev, ch')"
  shows "chan_inv ch' \<and> pend ch' = pend ch @ [gpfifo_entries ch' ! unat (cpu_put ch)]
    \<and> unat (current_gpfifo_count ch') = unat (current_gpfifo_count ch) - 1
    \<and> available_push_infos ch' = available_push_infos ch \<and> num_gpfifo_entries ch' = num_gpfifo_entries ch
    \<and> gpfifo_entries ch' ! unat (cpu_put ch) = \<lparr>en_type = UVM_GPFIFO_ENTRY_TYPE_CONTROL,
        tracking_semaphore_value = queued_value (tracking_sem ch) + 1, en_offset = 0, en_size = 0, control_value = val, en_info = 0\<rparr>"
proof -
  let ?e = "\<lparr>en_type = UVM_GPFIFO_ENTRY_TYPE_CONTROL,
        tracking_semaphore_value = queued_value (tracking_sem ch) + 1, en_offset = 0, en_size = 0, control_value = val, en_info = 0\<rparr>"
  have f: "gpfifo_entries ch' = (gpfifo_entries ch)[unat (cpu_put ch) := ?e]" "num_gpfifo_entries ch' = num_gpfifo_entries ch"
    "cpu_put ch' = (cpu_put ch + 1) mod num_gpfifo_entries ch" "gpu_get ch' = gpu_get ch"
    "current_gpfifo_count ch' = current_gpfifo_count ch - 1" and g: "available_push_infos ch' = available_push_infos ch"
    using assms(3) by (auto simp: write_ctrl_gpfifo_def Let_def)
  have "gpfifo_entries ch' ! unat (cpu_put ch) = ?e" using f(1) assms(1) by (simp add: chan_inv_def)
  then show ?thesis using append_entry [OF assms(1,2) f] f(2) g by auto
qed

interpretation chanq: fifo chan_wf chan_items chan_may chan_put chan_mk chan_retire chan_other
proof
  fix q :: chan_state and a
  obtain ch pb k where q: "q = (ch, pb, k)" by (cases q)
  assume w: "chan_wf q" and m: "chan_may a q"
  then have i: "chan_inv ch" and c: "0 < unat (current_gpfifo_count ch)" by (cases a; auto simp: q)+
  show "chan_wf (chan_put a q) \<and> chan_items (chan_put a q) = chan_items q @ chan_mk a q"
  proof (cases a)
    case (Do_push f rel bs base p)
    obtain p' ev ch' pb' where e: "uvm_channel_end_push f rel bs base p ch pb = (p', ev, ch', pb')" by (metis prod_cases4)
    show ?thesis using end_push_spec [OF i c e] w m Do_push e by (auto simp: q chan_mk_def)
  next
    case (Do_ctrl val)
    obtain ev ch' where e: "write_ctrl_gpfifo val ch = (ev, ch')" by fastforce
    show ?thesis using ctrl_spec [OF i c e] w m Do_ctrl e by (auto simp: q chan_mk_def)
  qed
next
  fix q :: chan_state and b :: "u32 \<times> u32 \<times> update_mode"
  obtain ch pb k payload mx mode where q: "q = (ch, pb, k)" "b = (payload, mx, mode)" by (cases q, cases b)
  assume w: "chan_wf q"
  obtain n ev ch' pb' where u: "uvm_channel_update_progress_with_max payload mx mode ch pb = (n, ev, ch', pb')" by (metis prod_cases4)
  define R where "R = takeWhile (retirable mode (fst (uvm_gpu_tracking_semaphore_update_completed_value payload (tracking_sem ch)))) (take (unat mx) (pend ch))"
  have U: "chan_inv ch'" "pend ch = R @ pend ch'" "current_gpfifo_count ch' = current_gpfifo_count ch"
    "num_gpfifo_entries ch' = num_gpfifo_entries ch" "available_push_infos ch' = available_push_infos ch @ normal_infos R"
    using update_progress_spec [OF _ u refl] w by (auto simp: q R_def)
  then have "pend ch' = drop (length R) (pend ch)" by simp
  then show "chan_wf (chan_retire b q) \<and> (\<exists>k. chan_items (chan_retire b q) = drop k (chan_items q))"
    using U w u by (auto simp: q intro: exI [of _ "length R"])
next
  fix q :: chan_state and c
  obtain ch pb k where q: "q = (ch, pb, k)" by (cases q)
  assume w: "chan_wf q"
  show "chan_wf (chan_other c q) \<and> chan_items (chan_other c q) = chan_items q"
  proof (cases c)
    case (Do_claim n kind)
    obtain b ch' where t: "try_claim_channel n kind ch = (b, ch')" by fastforce
    have i: "chan_inv ch" using w by (simp add: q)
    note T = try_claim_spec [OF i t]
    have "available_push_infos ch' = available_push_infos ch" "num_gpfifo_entries ch' = num_gpfifo_entries ch" by (subst T(6), simp)+
    moreover have "unat (current_gpfifo_count ch) \<le> unat (current_gpfifo_count ch')" using T(4,5) by (cases b) auto
    ultimately show ?thesis using T(1,2) w t Do_claim by (simp add: q)
  next
    case (Do_release n)
    have "unat (current_gpfifo_count ch - n) = unat (current_gpfifo_count ch) - unat n" if "k + unat n \<le> unat (current_gpfifo_count ch)"
      using that by (intro unat_sub_le) (simp add: word_le_nat_alt)
    then show ?thesis using w Do_release chan_inv_cong [of ch "uvm_channel_release n ch"] by (auto simp: q uvm_channel_release_def)
  next
    case Do_begin
    show ?thesis
    proof (cases "available_push_infos ch")
      case Nil
      then show ?thesis using w Do_begin by (simp add: q channel_get_available_push_info_index_def)
    next
      case (Cons i js)
      then show ?thesis using w Do_begin chan_inv_cong [of ch "ch\<lparr>available_push_infos := js\<rparr>"]
        by (auto simp: q channel_get_available_push_info_index_def)
    qed
  qed
qed

section \<open>Properties of the ring\<close>

lemma new_channel_wf: "2 \<le> unat n \<Longrightarrow> chan_wf (new_channel b n proxy ts, pb, 0)"
  by (simp add: new_channel_def chan_inv_def pcount_def pend_def)


text \<open>
  A push that begins on a reserved entry always finds a push info, whatever else the channel is doing.
\<close>

theorem channel_push_info_left:
  assumes "2 \<le> unat n"
    and "fifo_run chan_items chan_may chan_put chan_mk chan_retire chan_other ops (new_channel b n proxy ts, pb, 0) = ((ch, pb', k), S, R)"
    and "k < unat (current_gpfifo_count ch)"
  shows "channel_get_available_push_info_index ch \<noteq> None"
proof -
  have "chan_wf (ch, pb', k)" using chanq.run_fifo [OF new_channel_wf [OF assms(1)] assms(2)] by simp
  then show ?thesis using push_info_left [OF _ assms(3)]
    by (auto simp: channel_get_available_push_info_index_def split: list.splits)
qed

text \<open>
  C31.  An update retires exactly the longest prefix of pending entries whose values the semaphore has reached, at
  most \<open>mx\<close> of them, and returns how many are still pending.
\<close>

theorem channel_progress_exact:
  assumes "chan_inv ch" "uvm_channel_update_progress_with_max payload mx mode ch pb = (n, ev, ch', pb')"
  shows "case uvm_gpu_tracking_semaphore_update_completed_value payload (tracking_sem ch) of (v, ts) \<Rightarrow>
    pend ch = takeWhile (retirable mode v) (take (unat mx) (pend ch)) @ pend ch' \<and> unat n = length (pend ch') \<and> chan_inv ch'"
  using update_progress_spec [OF assms refl] by (auto split: prod.splits)

lemma progress_step_inv:
  assumes "chan_inv (fst s)" "progress_step p s = s'"
  shows "chan_inv (fst s')" "current_gpfifo_count (fst s') = current_gpfifo_count (fst s)"
    "num_gpfifo_entries (fst s') = num_gpfifo_entries (fst s)" "\<exists>R. pend (fst s) = R @ pend (fst s')"
proof -
  obtain n ev ch' pb' where u: "uvm_channel_update_progress_with_max p 8 UVM_CHANNEL_UPDATE_MODE_COMPLETED (fst s) (snd s) = (n, ev, ch', pb')"
    by (metis prod_cases4)
  then have "s' = (ch', pb')" using assms(2) by (simp add: progress_step_def uvm_channel_update_progress_def)
  then show "chan_inv (fst s')" "current_gpfifo_count (fst s') = current_gpfifo_count (fst s)"
    "num_gpfifo_entries (fst s') = num_gpfifo_entries (fst s)" "\<exists>R. pend (fst s) = R @ pend (fst s')"
    using update_progress_spec [OF assms(1) u refl] by auto
qed

text \<open>How a reservation can end: with the entries claimed, or with an error and nothing claimed.\<close>

definition reserve_result :: "u32 \<Rightarrow> uvm_channel \<Rightarrow> nv_status \<Rightarrow> uvm_channel \<Rightarrow> bool" where
  "reserve_result n ch st ch' \<longleftrightarrow> chan_inv ch' \<and> num_gpfifo_entries ch' = num_gpfifo_entries ch
     \<and> (unat (current_gpfifo_count ch') = unat (current_gpfifo_count ch) + unat n
        \<or> st \<noteq> NV_OK \<and> current_gpfifo_count ch' = current_gpfifo_count ch)"

lemma claimed_result:
  assumes "chan_inv ch" "try_claim_channel n kind ch = (True, ch')"
  shows "reserve_result n ch st ch'"
proof -
  note T = try_claim_spec [OF assms]
  have "num_gpfifo_entries ch' = num_gpfifo_entries ch" by (subst T(6)) simp
  then show ?thesis using T(1,4) by (simp add: reserve_result_def)
qed

lemma reserve_loop_result:
  assumes "chan_inv (fst s)" "reserve_loop n st tns s = Some (st', ch', pb')"
  shows "reserve_result n (fst s) st' ch'"
  using assms
proof (induction n st tns s rule: reserve_loop.induct)
  case (1 n st tns s)
  obtain b ch1 where t: "try_claim_channel n UVM_CHANNEL_RESERVE_NO_P2P (fst s) = (b, ch1)" by fastforce
  have "tns \<noteq> []" if "\<not> b" "st = NV_OK" using 1(3) t that by (auto simp: reserve_loop.simps [of n NV_OK "[]"])
  then consider "b" | "\<not> b" "st \<noteq> NV_OK" | tn tns' where "\<not> b" "st = NV_OK" "tns = tn # tns'" by (cases tns) auto
  then show ?case
  proof cases
    case 1
    then have "ch1 = ch'" using \<open>reserve_loop n st tns s = Some (st', ch', pb')\<close> t by (auto simp: reserve_loop.simps [of n st])
    then show ?thesis using claimed_result [OF \<open>chan_inv (fst s)\<close>] t 1 by simp
  next
    case 2
    then show ?thesis using \<open>reserve_loop n st tns s = Some (st', ch', pb')\<close> \<open>chan_inv (fst s)\<close> t
      by (auto simp: reserve_loop.simps [of n st] reserve_result_def)
  next
    case (3 tn tns')
    let ?s = "progress_step (cn_payload tn) s"
    note P = progress_step_inv [OF \<open>chan_inv (fst s)\<close> refl, of "cn_payload tn"]
    have l: "reserve_loop n (cn_status tn) tns' ?s = Some (st', ch', pb')"
      using \<open>reserve_loop n st tns s = Some (st', ch', pb')\<close> t 3 by (simp add: reserve_loop.simps [of n NV_OK])
    have "reserve_result n (fst ?s) st' ch'" using "1.IH" [OF t [symmetric] _ _ 3(3) P(1) l] 3(1,2) by simp
    then show ?thesis using P(2,3) by (simp add: reserve_result_def)
  qed
qed

lemma reserve_spec:
  assumes "chan_inv (fst s)" "uvm_channel_reserve n payload tns s = Some (st, ch', pb')"
  shows "reserve_result n (fst s) st ch'"
proof -
  obtain b ch1 where t: "try_claim_channel n UVM_CHANNEL_RESERVE_NO_P2P (fst s) = (b, ch1)" by fastforce
  show ?thesis
  proof (cases b)
    case True
    then show ?thesis using assms claimed_result [OF assms(1)] t by (auto simp: uvm_channel_reserve_def)
  next
    case False
    note P = progress_step_inv [OF assms(1) refl, of payload]
    have "reserve_result n (fst (progress_step payload s)) st ch'"
      using reserve_loop_result [OF P(1)] assms(2) t False by (simp add: uvm_channel_reserve_def)
    then show ?thesis using P(2,3) by (simp add: reserve_result_def)
  qed
qed

lemma wait_loop_idle:
  assumes "chan_inv (fst s)" "wait_loop st payload tns s = Some (NV_OK, ch', pb')"
  shows "pend ch' = []"
  using assms
proof (induction st payload tns s rule: wait_loop.induct)
  case (1 st payload tns ch pb)
  obtain n ev ch1 pb1 where u: "uvm_channel_update_progress payload ch pb = (n, ev, ch1, pb1)" by (metis prod_cases4)
  have i: "chan_inv ch" using 1(2) by simp
  note U = update_progress_spec [OF i u [unfolded uvm_channel_update_progress_def] refl]
  show ?case
  proof (cases "n = 0 \<or> st \<noteq> NV_OK")
    case True
    then have "st = NV_OK" "ch1 = ch'" using 1(3) u by (auto simp: wait_loop.simps [of st])
    then show ?thesis using True U by (simp add: pend_nil)
  next
    case False
    then obtain tn tns' where "tns = tn # tns'" "wait_loop (cn_status tn) (cn_payload tn) tns' (ch1, pb1) = Some (NV_OK, ch', pb')"
      using 1(3) u by (cases tns) (auto simp: wait_loop.simps [of NV_OK payload])
    then show ?thesis using 1(1) [OF u [symmetric] refl refl refl False] U by simp
  qed
qed

text \<open>
  A wait that reports success leaves no entry pending.
\<close>

theorem channel_wait_idle:
  assumes "chan_inv ch" "uvm_channel_wait global errors payload payload2 tns (ch, pb) = Some (NV_OK, ch', pb')"
  shows "pend ch' = []"
proof -
  obtain n ev ch1 pb1 where u: "uvm_channel_update_progress payload ch pb = (n, ev, ch1, pb1)" by (metis prod_cases4)
  note U = update_progress_spec [OF assms(1) u [unfolded uvm_channel_update_progress_def] refl]
  show ?thesis
  proof (cases "n = 0 \<and> global = NV_OK")
    case True
    then show ?thesis using assms(2) u U by (auto simp: uvm_channel_wait_def pend_nil)
  next
    case False
    then have "wait_loop global payload2 tns (ch1, pb1) = Some (NV_OK, ch', pb')" using assms(2) u by (auto simp: uvm_channel_wait_def)
    then show ?thesis using wait_loop_idle [of "(ch1, pb1)"] U by simp
  qed
qed

section \<open>Error paths of reservations\<close>

text \<open>
  The loop of \<^verbatim>\<open>uvm_channel_reserve\<close> claims before it looks at the status: when the turn that reports an error
  also frees entries, the reservation fails with the entries claimed, and the caller does not release them.
\<close>

theorem reserve_error_claims:
  assumes "chan_inv ch" "s = progress_step payload (ch, pb)" "s' = progress_step (cn_payload tn) s" "cn_status tn \<noteq> NV_OK"
    and "nent ch \<le> unat n + unat (current_gpfifo_count ch) + length (pend (fst s))"
    and "unat n + unat (current_gpfifo_count ch) + length (pend (fst s')) < nent ch"
  shows "\<exists>ch'. uvm_channel_reserve n payload (tn # tns) (ch, pb) = Some (cn_status tn, ch', snd s')
    \<and> unat (current_gpfifo_count ch') = unat (current_gpfifo_count ch) + unat n"
proof -
  have P1: "chan_inv (fst s)" "current_gpfifo_count (fst s) = current_gpfifo_count ch" "num_gpfifo_entries (fst s) = num_gpfifo_entries ch"
    "\<exists>R. pend ch = R @ pend (fst s)"
    using progress_step_inv [of "(ch, pb)" payload s] assms(1,2) by auto
  have P2: "chan_inv (fst s')" "current_gpfifo_count (fst s') = current_gpfifo_count ch" "num_gpfifo_entries (fst s') = num_gpfifo_entries ch"
    using progress_step_inv [OF P1(1), of "cn_payload tn" s'] assms(3) P1 by auto
  obtain R where "pend ch = R @ pend (fst s)" using P1(4) by blast
  then have "length (pend (fst s)) \<le> length (pend ch)" using arg_cong [of "pend ch" _ length] by fastforce
  then have n1: "\<not> fst (try_claim_channel n UVM_CHANNEL_RESERVE_NO_P2P ch)" "\<not> fst (try_claim_channel n UVM_CHANNEL_RESERVE_NO_P2P (fst s))"
    using try_claim_spec(3) [OF assms(1), of n UVM_CHANNEL_RESERVE_NO_P2P] try_claim_spec(3) [OF P1(1), of n UVM_CHANNEL_RESERVE_NO_P2P]
      assms(5) P1(2,3) by (auto simp: prod_eq_iff)
  obtain b ch' where t: "try_claim_channel n UVM_CHANNEL_RESERVE_NO_P2P (fst s') = (b, ch')" by fastforce
  note T = try_claim_spec [OF P2(1) t]
  have b: "b" using T(3) assms(6) P2(2,3) by simp
  have "reserve_loop n (cn_status tn) tns s' = Some (cn_status tn, ch', snd s')" using t b by (simp add: reserve_loop.simps)
  then have "reserve_loop n NV_OK (tn # tns) s = Some (cn_status tn, ch', snd s')"
    using n1(2) assms(3) by (auto simp: reserve_loop.simps [of n NV_OK] split: prod.splits)
  then have "uvm_channel_reserve n payload (tn # tns) (ch, pb) = Some (cn_status tn, ch', snd s')"
    using n1(1) assms(2) by (auto simp: uvm_channel_reserve_def split: prod.splits)
  then show ?thesis using T(4) [OF b] P2(2) by simp
qed

text \<open>
  Suspending peer traffic on a channel: when it succeeds, the ring was empty at the reservation, no entry
  stays reserved, and peer reservations are refused from then on.
\<close>

theorem suspend_p2p_quiesces:
  assumes "chan_inv ch" "channel_suspend_p2p payload tns (ch, pb) = Some (NV_OK, ch', pb')"
  shows "pend ch' = [] \<and> current_gpfifo_count ch' = 0 \<and> chan_inv ch'
    \<and> \<not> fst (try_claim_channel n UVM_CHANNEL_RESERVE_WITH_P2P ch')"
proof -
  let ?n = "num_gpfifo_entries ch - 1"
  obtain ch1 where r: "uvm_channel_reserve ?n payload tns (ch, pb) = Some (NV_OK, ch1, pb')"
    "ch' = uvm_channel_release ?n (ch1\<lparr>suspended_p2p := True\<rparr>)"
    using assms(2) by (auto simp: channel_suspend_p2p_def Let_def split: option.splits if_splits)
  have R: "reserve_result ?n ch NV_OK ch1" using reserve_spec [OF _ r(1)] assms(1) by simp
  have n: "unat ?n = nent ch - 1" "2 \<le> nent ch"
    using unat_pred [of 0 "num_gpfifo_entries ch"] assms(1) by (auto simp: chan_inv_def word_less_nat_alt)
  have c: "unat (current_gpfifo_count ch1) = unat (current_gpfifo_count ch) + (nent ch - 1)" "chan_inv ch1" "nent ch1 = nent ch"
    using R n by (auto simp: reserve_result_def)
  then have z: "unat (current_gpfifo_count ch1) = unat ?n" "pcount ch1 = 0" using n by (auto simp: chan_inv_def)
  then have "current_gpfifo_count ch1 = ?n" by (simp only: word_unat_eq_iff)
  then have c0: "current_gpfifo_count ch' = 0" using r(2) by (simp add: uvm_channel_release_def)
  have "chan_inv ch' \<and> pend ch' = pend ch1"
    using chan_inv_cong [OF c(2), of ch'] r(2) c0 by (simp add: uvm_channel_release_def)
  then show ?thesis using z(2) c0 r(2) by (auto simp: pend_def try_claim_channel_def uvm_channel_release_def)
qed

text \<open>
  C32.  When the reservation fails and claimed nothing, the entries are released all the same: the count wraps
  around and the channel offers a whole ring of entries more than it has.
\<close>

theorem suspend_p2p_failure_overcommits:
  assumes "chan_inv ch" "nent ch \<le> 2 ^ 31"
    and "uvm_channel_reserve (num_gpfifo_entries ch - 1) payload tns (ch, pb) = Some (st, ch1, pb1)" "st \<noteq> NV_OK"
    and "current_gpfifo_count ch1 = current_gpfifo_count ch"
  shows "\<exists>ch'. channel_suspend_p2p payload tns (ch, pb) = Some (st, ch', pb1)
    \<and> unat (channel_get_available_gpfifo_entries ch') = unat (channel_get_available_gpfifo_entries ch1) + (nent ch - 1)"
proof -
  let ?n = "num_gpfifo_entries ch - 1" and ?ch' = "uvm_channel_release (num_gpfifo_entries ch - 1) ch1"
  have R: "reserve_result ?n ch st ch1" using reserve_spec [OF _ assms(3)] assms(1) by simp
  then have i1: "chan_inv ch1" "num_gpfifo_entries ch1 = num_gpfifo_entries ch" by (auto simp: reserve_result_def)
  have n: "unat ?n = nent ch - 1" using unat_pred [of 0 "num_gpfifo_entries ch"] assms(1) by (auto simp: chan_inv_def word_less_nat_alt)
  have e: "channel_get_available_gpfifo_entries ?ch' = channel_get_available_gpfifo_entries ch1 + ?n"
    by (simp add: channel_get_available_gpfifo_entries_def uvm_channel_release_def algebra_simps Let_def)
  have "unat (channel_get_available_gpfifo_entries ch1) + unat ?n < 2 ^ LENGTH(32)"
    using available_nat [OF i1(1)] i1 n assms(2) by (simp add: chan_inv_def)
  then have "unat (channel_get_available_gpfifo_entries ?ch') = unat (channel_get_available_gpfifo_entries ch1) + (nent ch - 1)"
    using n by (simp add: e unat_add_nowrap)
  moreover have "channel_suspend_p2p payload tns (ch, pb) = Some (st, ?ch', pb1)"
    using assms(3,4) by (simp add: channel_suspend_p2p_def Let_def)
  ultimately show ?thesis by blast
qed

section \<open>Witnesses\<close>

definition ex_ts :: tracking_semaphore where
  "ex_ts = \<lparr>ts_sem = \<lparr>se_page = None, se_index = 0, cached_payload = 0, last_pushed_notifier = 0, last_observed_notifier = 0\<rparr>,
     completed_value = 0, queued_value = 0\<rparr>"

definition ex_ops :: "(chan_put_op, u32 \<times> u32 \<times> update_mode, chan_other_op) queue_op list" where
  "ex_ops = [Other (Do_claim 2 UVM_CHANNEL_RESERVE_NO_P2P), Put (Do_ctrl 9), Put (Do_ctrl 5),
     Retire (1, 8, UVM_CHANNEL_UPDATE_MODE_COMPLETED), Other (Do_claim 1 UVM_CHANNEL_RESERVE_NO_P2P), Put (Do_ctrl 4)]"


theorem channel_push_info_left_witness:
  "channel_get_available_push_info_index (snd (try_claim_channel 1 UVM_CHANNEL_RESERVE_NO_P2P (new_channel 0 4 False ex_ts))) \<noteq> None"
proof -
  let ?ch = "snd (try_claim_channel 1 UVM_CHANNEL_RESERVE_NO_P2P (new_channel 0 4 False ex_ts))"
  have r: "fifo_run chan_items chan_may chan_put chan_mk chan_retire chan_other [Other (Do_claim 1 UVM_CHANNEL_RESERVE_NO_P2P)]
      (new_channel 0 4 False ex_ts, init_chunks, 0) = ((?ch, init_chunks, 0), [], [])" by simp
  have "0 < unat (current_gpfifo_count ?ch)"
    by (simp add: try_claim_channel_def new_channel_def channel_get_available_gpfifo_entries_def)
  then show ?thesis using channel_push_info_left [OF _ r] by simp
qed

text \<open>A ring of two entries with one control entry pending.\<close>

definition ex_busy :: uvm_channel where
  "ex_busy = (new_channel 0 2 False ex_ts)\<lparr>cpu_put := 1,
     gpfifo_entries := replicate 2 \<lparr>en_type = UVM_GPFIFO_ENTRY_TYPE_CONTROL, tracking_semaphore_value = 1, en_offset = 0, en_size = 0,
       control_value = 7, en_info = 0\<rparr>\<rparr>"

lemmas ex_busy_simps = ex_busy_def new_channel_def ex_ts_def

lemma ex_busy_inv: "chan_inv ex_busy" "pcount ex_busy = 1" "nent ex_busy = 2" "current_gpfifo_count ex_busy = 0"
  by (simp_all add: ex_busy_simps chan_inv_def pcount_def)

text \<open>One turn of the loop at a positive bound.\<close>

lemma progress_loop_once:
  "0 < n \<Longrightarrow> progress_loop mode v n ch pb =
     (if gpu_get ch = cpu_put ch \<or> mode = UVM_CHANNEL_UPDATE_MODE_COMPLETED
          \<and> tracking_semaphore_value (gpfifo_entries ch ! unat (gpu_get ch)) > v then ([], ch, pb)
      else case retire_entry ch pb of (ev1, ch1, pb1) \<Rightarrow>
        case progress_loop mode v (n - 1) ch1 pb1 of (ev2, ch2, pb2) \<Rightarrow> (ev1 @ ev2, ch2, pb2))"
  by (cases n) (auto split: prod.splits)

lemma ex_busy_update:
  "uvm_channel_update_progress 0 ex_busy pb = (1, [], ex_busy, pb)"
  "uvm_channel_update_progress 1 ex_busy pb = (0, [], ex_busy\<lparr>tracking_sem := ex_ts\<lparr>completed_value := 1\<rparr>, gpu_get := 1\<rparr>, pb)"
  by (simp_all add: uvm_channel_update_progress_def uvm_channel_update_progress_with_max_def ex_busy_simps retire_entry_def
      uvm_gpu_tracking_semaphore_update_completed_value_def update_completed_value_locked_def progress_loop_once
      pending_gpfifos_count_def Let_def del: progress_loop.simps)

lemma ex_busy_stays: "progress_step 0 (ex_busy, pb) = (ex_busy, pb)"
  by (simp add: progress_step_def ex_busy_update)

lemma ex_busy_retires:
  "progress_step 1 (ex_busy, pb) = (ex_busy\<lparr>tracking_sem := ex_ts\<lparr>completed_value := 1\<rparr>, gpu_get := 1\<rparr>, pb)"
  by (simp add: progress_step_def ex_busy_update)

theorem channel_progress_exact_witness:
  "case uvm_channel_update_progress_with_max 1 8 UVM_CHANNEL_UPDATE_MODE_COMPLETED ex_busy init_chunks of (n, ev, ch', pb') \<Rightarrow> unat n = length (pend ch')"
proof -
  obtain n ev ch' pb' where u: "uvm_channel_update_progress_with_max 1 8 UVM_CHANNEL_UPDATE_MODE_COMPLETED ex_busy init_chunks = (n, ev, ch', pb')"
    by (metis prod_cases4)
  then show ?thesis using channel_progress_exact [OF ex_busy_inv(1) u] by (auto split: prod.splits)
qed

theorem channel_wait_idle_witness: "\<exists>ch' pb'. uvm_channel_wait NV_OK NV_OK 1 1 [] (ex_busy, init_chunks) = Some (NV_OK, ch', pb') \<and> pend ch' = []"
proof -
  obtain ch' pb' where w: "uvm_channel_wait NV_OK NV_OK 1 1 [] (ex_busy, init_chunks) = Some (NV_OK, ch', pb')"
    by (simp add: uvm_channel_wait_def ex_busy_update)
  then show ?thesis using channel_wait_idle [OF ex_busy_inv(1) w] by blast
qed

theorem reserve_error_claims_witness:
  "\<exists>ch' pb'. uvm_channel_reserve 1 0 [\<lparr>cn_status = NV_ERR_RC_ERROR, cn_payload = 1\<rparr>] (ex_busy, init_chunks) = Some (NV_ERR_RC_ERROR, ch', pb')
     \<and> unat (current_gpfifo_count ch') = 1"
proof -
  have "pcount (ex_busy\<lparr>tracking_sem := ex_ts\<lparr>completed_value := 1\<rparr>, gpu_get := 1\<rparr>) = 0" by (simp add: pcount_def ex_busy_simps)
  then show ?thesis
    using reserve_error_claims [OF ex_busy_inv(1) refl refl, of "\<lparr>cn_status = NV_ERR_RC_ERROR, cn_payload = 1\<rparr>" 1 0 init_chunks "[]"]
    by (auto simp: ex_busy_stays ex_busy_retires ex_busy_inv)
qed

theorem suspend_p2p_quiesces_witness:
  "\<exists>ch' pb'. channel_suspend_p2p 0 [] (new_channel 0 2 False ex_ts, init_chunks) = Some (NV_OK, ch', pb')
     \<and> \<not> fst (try_claim_channel 1 UVM_CHANNEL_RESERVE_WITH_P2P ch')"
proof -
  have i: "chan_inv (new_channel 0 2 False ex_ts)" using new_channel_wf [of 2 0 False ex_ts init_chunks] by simp
  obtain ch' pb' where s: "channel_suspend_p2p 0 [] (new_channel 0 2 False ex_ts, init_chunks) = Some (NV_OK, ch', pb')"
    by (simp add: channel_suspend_p2p_def uvm_channel_reserve_def try_claim_channel_def new_channel_def
        channel_get_available_gpfifo_entries_def)
  then show ?thesis using suspend_p2p_quiesces [OF i s] by blast
qed

theorem suspend_p2p_failure_overcommits_witness:
  "\<exists>ch'. channel_suspend_p2p 0 [\<lparr>cn_status = NV_ERR_RC_ERROR, cn_payload = 0\<rparr>] (ex_busy, init_chunks) = Some (NV_ERR_RC_ERROR, ch', init_chunks)
     \<and> unat (channel_get_available_gpfifo_entries ch') = 1"
proof -
  have a: "unat (channel_get_available_gpfifo_entries ex_busy) = 0" using available_nat [OF ex_busy_inv(1)] by (simp add: ex_busy_inv)
  have n: "num_gpfifo_entries ex_busy - 1 = 1" by (simp add: ex_busy_simps)
  have "try_claim_channel 1 UVM_CHANNEL_RESERVE_NO_P2P ex_busy = (False, ex_busy)"
    using a by (simp add: try_claim_channel_def word_le_nat_alt)
  then have r: "uvm_channel_reserve (num_gpfifo_entries ex_busy - 1) 0 [\<lparr>cn_status = NV_ERR_RC_ERROR, cn_payload = 0\<rparr>] (ex_busy, init_chunks)
      = Some (NV_ERR_RC_ERROR, ex_busy, init_chunks)"
    by (simp add: n uvm_channel_reserve_def ex_busy_stays reserve_loop.simps)
  from suspend_p2p_failure_overcommits [OF ex_busy_inv(1) _ r] show ?thesis using a by (simp add: ex_busy_inv)
qed

end
