(* ===== verification/Rm_Msgq.thy ===== *)
theory Rm_Msgq
  imports Interfaces Uvm_Common
begin

text \<open>
  The message queues of the resource manager (\<^verbatim>\<open>libraries/msgq/msgq.c\<close>), by which the driver and the GSP
  firmware exchange messages in shared memory without locks.  Both ends are modelled, with their cached
  counters, the swapped read pointers and failures of the backend.  The theory shows that a queue is a
  FIFO under every interleaving of the two ends, that the two ends agree on their pointers after linking,
  and what two checks of the linking code let through.
\<close>

section \<open>State\<close>

definition MSGQ_MSG_SIZE_MIN :: u32 where
  "MSGQ_MSG_SIZE_MIN = 16"

definition MSGQ_META_MIN_ALIGN :: u32 where
  "MSGQ_META_MIN_ALIGN = 3"

definition MSGQ_META_MAX_ALIGN :: u32 where
  "MSGQ_META_MAX_ALIGN = 12"

definition MSGQ_FLAGS_SWAP_RX :: u32 where
  "MSGQ_FLAGS_SWAP_RX = 1"

definition MSGQ_VERSION :: u32 where
  "MSGQ_VERSION = 0"

record msgqTxHeader =
  version :: u32
  mq_size :: u32
  msgSize :: u32
  msgCount :: u32
  writePtr :: u32
  mq_flags :: u32
  rxHdrOff :: u32
  entryOff :: u32

record msgqMetadata =
  pOurTxHdr :: ptr
  pTheirTxHdr :: ptr
  pOurRxHdr :: ptr
  pTheirRxHdr :: ptr
  pOurEntries :: ptr
  pTheirEntries :: ptr
  pReadIncoming :: ptr
  pWriteIncoming :: ptr
  pReadOutgoing :: ptr
  pWriteOutgoing :: ptr
  tx :: msgqTxHeader
  txReadPtr :: u32
  txFree :: u32
  txLinked :: bool
  rx :: msgqTxHeader
  rxReadPtr :: u32
  rxAvail :: u32
  rxLinked :: bool
  rxSwapped :: bool

text \<open>The 32-bit words of the headers in shared memory.  The header of the source has 32 bytes, that of the sink 4.\<close>

type_synonym shm = "ptr \<Rightarrow> u32"

definition write_tx_header :: "ptr \<Rightarrow> msgqTxHeader \<Rightarrow> shm \<Rightarrow> shm" where
  "write_tx_header p h m = m(p := version h, p + 4 := mq_size h, p + 8 := msgSize h, p + 12 := msgCount h,
     p + 16 := writePtr h, p + 20 := mq_flags h, p + 24 := rxHdrOff h, p + 28 := entryOff h)"

definition read_tx_header :: "ptr \<Rightarrow> shm \<Rightarrow> msgqTxHeader" where
  "read_tx_header p m = \<lparr>version = m p, mq_size = m (p + 4), msgSize = m (p + 8), msgCount = m (p + 12),
     writePtr = m (p + 16), mq_flags = m (p + 20), rxHdrOff = m (p + 24), entryOff = m (p + 28)\<rparr>"

definition swap_rx :: "msgqTxHeader \<Rightarrow> msgqTxHeader \<Rightarrow> bool" where
  "swap_rx a b \<longleftrightarrow> mq_flags a AND MSGQ_FLAGS_SWAP_RX \<noteq> 0 \<and> mq_flags b AND MSGQ_FLAGS_SWAP_RX \<noteq> 0"

section \<open>Creation and linking\<close>

definition zero_header :: msgqTxHeader where
  "zero_header = \<lparr>version = 0, mq_size = 0, msgSize = 0, msgCount = 0, writePtr = 0, mq_flags = 0, rxHdrOff = 0, entryOff = 0\<rparr>"

definition msgqInit :: msgqMetadata where
  "msgqInit = \<lparr>pOurTxHdr = 0, pTheirTxHdr = 0, pOurRxHdr = 0, pTheirRxHdr = 0, pOurEntries = 0, pTheirEntries = 0,
     pReadIncoming = 0, pWriteIncoming = 0, pReadOutgoing = 0, pWriteOutgoing = 0, tx = zero_header, txReadPtr = 0, txFree = 0,
     txLinked = False, rx = zero_header, rxReadPtr = 0, rxAvail = 0, rxLinked = False, rxSwapped = False\<rparr>"

text \<open>Sizes are computed in 64 bits and cut to the 32 bits of the field.\<close>

definition NV_ALIGN_UP :: "u64 \<Rightarrow> u64 \<Rightarrow> u64" where
  "NV_ALIGN_UP v gran = (v + (gran - 1)) AND NOT (v - v + gran - 1)"

definition tx_rxHdrOff :: "u32 \<Rightarrow> u32" where
  "tx_rxHdrOff hdrAlign = ucast (NV_ALIGN_UP 32 (push_bit (unat hdrAlign) 1))"

definition tx_entryOff :: "u32 \<Rightarrow> u32 \<Rightarrow> u32" where
  "tx_entryOff hdrAlign entryAlign = ucast (NV_ALIGN_UP (ucast (tx_rxHdrOff hdrAlign) + 4) (push_bit (unat entryAlign) 1))"

text \<open>The read pointers after creation; without a swap the outgoing one waits for the link.\<close>

definition tx_pointers :: "msgqMetadata \<Rightarrow> msgqMetadata" where
  "tx_pointers q =
     (if rxSwapped q then q\<lparr>pReadOutgoing := pOurRxHdr q, pReadIncoming := pTheirRxHdr q\<rparr>
      else let q1 = q\<lparr>pReadIncoming := pOurRxHdr q\<rparr> in
        if rxLinked q then q1\<lparr>pReadOutgoing := pTheirRxHdr q\<rparr> else q1)"

text \<open>The header of a new queue, and the local state that goes with it.\<close>

definition created_header :: "u32 \<Rightarrow> u32 \<Rightarrow> u32 \<Rightarrow> u32 \<Rightarrow> u32 \<Rightarrow> msgqTxHeader" where
  "created_header sz msize hdrAlign entryAlign fl =
     \<lparr>version = MSGQ_VERSION, mq_size = sz, msgSize = msize, msgCount = (sz - tx_entryOff hdrAlign entryAlign) div msize, writePtr = 0,
      mq_flags = fl, rxHdrOff = tx_rxHdrOff hdrAlign, entryOff = tx_entryOff hdrAlign entryAlign\<rparr>"

definition tx_link :: "ptr \<Rightarrow> msgqTxHeader \<Rightarrow> msgqMetadata \<Rightarrow> msgqMetadata" where
  "tx_link store h q = tx_pointers (q\<lparr>tx := h, pOurTxHdr := store, pOurRxHdr := store + ucast (rxHdrOff h),
     pOurEntries := store + ucast (entryOff h), txLinked := True, rxAvail := 0, txFree := msgCount h - 1,
     rxSwapped := swap_rx h (rx q), pWriteOutgoing := store + 16\<rparr>)"

text \<open>
  The flags \<open>rd\<close> and \<open>wr\<close> say whether the backend accepts a read and a write; an access it refuses
  changes nothing.  The flag \<open>zr\<close> says whether the hook that clears shared memory is set.  The other hooks,
  which flush, invalidate, order or notify, do not change the words.  The status is that of the code.
\<close>

definition msgqTxCreate ::
  "bool \<Rightarrow> bool \<Rightarrow> ptr \<Rightarrow> u32 \<Rightarrow> u32 \<Rightarrow> u32 \<Rightarrow> u32 \<Rightarrow> u32 \<Rightarrow> msgqMetadata \<times> shm \<Rightarrow> int \<times> msgqMetadata \<times> shm" where
  "msgqTxCreate zr wr store sz msize hdrAlign entryAlign fl s =
     (let (q, m) = s in
      if txLinked q then (-1, s)
      else if msize < MSGQ_MSG_SIZE_MIN \<or> msize > sz then (-1, s)
      else if hdrAlign < MSGQ_META_MIN_ALIGN \<or> hdrAlign > MSGQ_META_MAX_ALIGN then (-1, s)
      else if entryAlign < MSGQ_META_MIN_ALIGN \<or> entryAlign > MSGQ_META_MAX_ALIGN then (-1, s)
      else if store = 0 then (-1, s)
      else if store AND ucast (hdrAlign - 1) \<noteq> 0 then (-1, s)
      else if sz < tx_entryOff hdrAlign entryAlign + msize then
        (-1, q\<lparr>tx := (tx q)\<lparr>rxHdrOff := tx_rxHdrOff hdrAlign, entryOff := tx_entryOff hdrAlign entryAlign\<rparr>\<rparr>, m)
      else
        let h = created_header sz msize hdrAlign entryAlign fl; q1 = tx_link store h q;
            m1 = (if zr then write_tx_header store zero_header m else m) in
        if wr then (0, q1, write_tx_header store h m1) else (-1, q1, m1))"

definition rx_pointers :: "msgqMetadata \<Rightarrow> msgqMetadata" where
  "rx_pointers q =
     (if rxSwapped q then q\<lparr>pReadOutgoing := pOurRxHdr q, pReadIncoming := pTheirRxHdr q\<rparr>
      else let q1 = q\<lparr>pReadOutgoing := pTheirRxHdr q\<rparr> in
        if txLinked q then q1\<lparr>pReadIncoming := pOurRxHdr q\<rparr> else q1)"

text \<open>The checks on the header of the peer, with the status of the first that fails.\<close>

definition rx_check :: "u32 \<Rightarrow> u32 \<Rightarrow> msgqTxHeader \<Rightarrow> msgqTxHeader \<Rightarrow> int" where
  "rx_check sz msize t r =
     (if sz < entryOff r + msize then -6
      else if mq_size r \<noteq> sz then -7
      else if msgSize r \<noteq> msize then -8
      else if version r \<noteq> MSGQ_VERSION then -9
      else if rxHdrOff r < 32 \<or> (ucast (entryOff r) :: u64) < ucast (rxHdrOff t) + 4 \<or> msgCount r \<noteq> (sz - entryOff r) div msize then -10
      else 0)"

definition rx_link :: "ptr \<Rightarrow> msgqTxHeader \<Rightarrow> msgqMetadata \<Rightarrow> msgqMetadata" where
  "rx_link store r q = (rx_pointers (q\<lparr>pTheirRxHdr := store + ucast (rxHdrOff r), pTheirEntries := store + ucast (entryOff r),
     rxLinked := True, rxSwapped := swap_rx (tx q) r, pWriteIncoming := store + 16\<rparr>))\<lparr>rxReadPtr := 0\<rparr>"

definition msgqRxLink :: "bool \<Rightarrow> bool \<Rightarrow> bool \<Rightarrow> ptr \<Rightarrow> u32 \<Rightarrow> u32 \<Rightarrow> msgqMetadata \<times> shm \<Rightarrow> int \<times> msgqMetadata \<times> shm" where
  "msgqRxLink zr rd wr store sz msize s =
     (let (q, m) = s in
      if rxLinked q then (-1, s)
      else if msize < MSGQ_MSG_SIZE_MIN then (-2, s)
      else if msize > sz then (-3, s)
      else if store = 0 then (-5, s)
      else if \<not> rd then (-11, q\<lparr>pTheirTxHdr := store\<rparr>, m)
      else
        let r = read_tx_header store m; q1 = q\<lparr>pTheirTxHdr := store, rx := r\<rparr>; c = rx_check sz msize (tx q) r in
        if c \<noteq> 0 then (c, q1, m)
        else
          let q2 = rx_link store r q1; m1 = (if zr then m(pReadOutgoing q2 := 0) else m) in
          if wr then (0, q2, m1(pReadOutgoing q2 := rxReadPtr q2)) else (-12, q2, m1))"

section \<open>Sending\<close>

text \<open>Moving a position forward and, when the backend refuses the new position, back again.\<close>

definition wrap_add :: "u32 \<Rightarrow> u32 \<Rightarrow> u32 \<Rightarrow> u32" where
  "wrap_add c p n = (if p + n \<ge> c then p + n - c else p + n)"

definition wrap_back :: "u32 \<Rightarrow> u32 \<Rightarrow> u32 \<Rightarrow> u32" where
  "wrap_back c p n = (if p < n then p + c else p) - n"

definition msgqTxGetFreeSpace :: "bool \<Rightarrow> shm \<Rightarrow> msgqMetadata \<Rightarrow> u32 \<times> msgqMetadata" where
  "msgqTxGetFreeSpace rd m q =
     (if \<not> txLinked q \<or> \<not> rd then (0, q)
      else
        let q1 = q\<lparr>txReadPtr := m (pReadIncoming q)\<rparr>; n = msgCount (tx q) in
        if txReadPtr q1 \<ge> n then (0, q1)
        else
          let f = txReadPtr q1 + n - writePtr (tx q) - 1; f' = (if f \<ge> n then f - n else f) in
          (f', q1\<lparr>txFree := f'\<rparr>))"

definition msgqTxGetWriteBuffer :: "bool \<Rightarrow> shm \<Rightarrow> u32 \<Rightarrow> msgqMetadata \<Rightarrow> ptr option \<times> msgqMetadata" where
  "msgqTxGetWriteBuffer rd m n q =
     (if \<not> txLinked q then (None, q)
      else
        let (f, q1) = (if n \<ge> txFree q then msgqTxGetFreeSpace rd m q else (txFree q, q)) in
        if n \<ge> txFree q \<and> n \<ge> f then (None, q1)
        else
          let wp = wrap_add (msgCount (tx q1)) (writePtr (tx q1)) n in (Some (pOurEntries q1 + ucast (wp * msgSize (tx q1))), q1))"

definition msgqTxSubmitBuffers :: "bool \<Rightarrow> bool \<Rightarrow> u32 \<Rightarrow> msgqMetadata \<times> shm \<Rightarrow> int \<times> msgqMetadata \<times> shm" where
  "msgqTxSubmitBuffers rd wr n s =
     (let (q, m) = s in
      if \<not> txLinked q then (-1, s)
      else
        let (f, q1) = (if n > txFree q then msgqTxGetFreeSpace rd m q else (txFree q, q)) in
        if n > txFree q \<and> n > f then (-1, q1, m)
        else
          let c = msgCount (tx q1); w = wrap_add c (writePtr (tx q1)) n in
          if wr then (0, q1\<lparr>tx := (tx q1)\<lparr>writePtr := w\<rparr>, txFree := txFree q1 - n\<rparr>, m(pWriteOutgoing q1 := w))
          else (-2, q1\<lparr>tx := (tx q1)\<lparr>writePtr := wrap_back c w n\<rparr>\<rparr>, m))"

definition msgqTxSync :: "bool \<Rightarrow> shm \<Rightarrow> msgqMetadata \<Rightarrow> int \<times> msgqMetadata" where
  "msgqTxSync rd m q = (if \<not> txLinked q then (-1, q) else let (f, q1) = msgqTxGetFreeSpace rd m q in (sint f, q1))"

definition msgqTxGetPending :: "bool \<Rightarrow> shm \<Rightarrow> msgqMetadata \<Rightarrow> u32 \<times> msgqMetadata" where
  "msgqTxGetPending rd m q =
     (if \<not> txLinked q then (0, q) else let (f, q1) = msgqTxSync rd m q in (msgCount (tx q) - word_of_int f - 1, q1))"

section \<open>Receiving\<close>

definition msgqRxGetReadAvailable :: "bool \<Rightarrow> shm \<Rightarrow> msgqMetadata \<Rightarrow> u32 \<times> msgqMetadata" where
  "msgqRxGetReadAvailable rd m q =
     (if \<not> rxLinked q \<or> \<not> rd then (0, q)
      else
        let q1 = q\<lparr>rx := (rx q)\<lparr>writePtr := m (pWriteIncoming q)\<rparr>\<rparr>; n = msgCount (rx q) in
        if writePtr (rx q1) \<ge> n then (0, q1)
        else
          let a = writePtr (rx q1) + n - rxReadPtr q; a' = (if a \<ge> n then a - n else a) in
          (a', q1\<lparr>rxAvail := a'\<rparr>))"

definition msgqRxGetReadBuffer :: "bool \<Rightarrow> shm \<Rightarrow> u32 \<Rightarrow> msgqMetadata \<Rightarrow> ptr option \<times> msgqMetadata" where
  "msgqRxGetReadBuffer rd m n q =
     (if \<not> rxLinked q then (None, q)
      else
        let (a, q1) = (if n \<ge> rxAvail q then msgqRxGetReadAvailable rd m q else (rxAvail q, q)) in
        if n \<ge> rxAvail q \<and> n \<ge> a then (None, q1)
        else
          let rp = wrap_add (msgCount (rx q1)) (rxReadPtr q1) n in (Some (pTheirEntries q1 + ucast (rp * msgSize (rx q1))), q1))"

definition msgqRxMarkConsumed :: "bool \<Rightarrow> bool \<Rightarrow> u32 \<Rightarrow> msgqMetadata \<times> shm \<Rightarrow> int \<times> msgqMetadata \<times> shm" where
  "msgqRxMarkConsumed rd wr n s =
     (let (q, m) = s in
      if \<not> rxLinked q then (-1, s)
      else
        let (a, q1) = (if n > rxAvail q then msgqRxGetReadAvailable rd m q else (rxAvail q, q)) in
        if n > rxAvail q \<and> n > a then (-1, q1, m)
        else
          let c = msgCount (rx q1); r = wrap_add c (rxReadPtr q1) n in
          if wr then (0, q1\<lparr>rxReadPtr := r, rxAvail := rxAvail q1 - n\<rparr>, m(pReadOutgoing q1 := r))
          else (-2, q1\<lparr>rxReadPtr := wrap_back c r n\<rparr>, m))"

definition msgqRxSync :: "bool \<Rightarrow> shm \<Rightarrow> msgqMetadata \<Rightarrow> int \<times> msgqMetadata" where
  "msgqRxSync rd m q = (if \<not> rxLinked q then (-1, q) else let (a, q1) = msgqRxGetReadAvailable rd m q in (sint a, q1))"

section \<open>Positions in the ring\<close>

definition ring_used :: "nat \<Rightarrow> nat \<Rightarrow> nat \<Rightarrow> nat" where
  "ring_used w r n = (if r \<le> w then w - r else w + n - r)"

lemma ring_used_less: "w < n \<Longrightarrow> r < n \<Longrightarrow> ring_used w r n < n"
  by (auto simp: ring_used_def)

lemma mod_once: "(a :: nat) < 2 * n \<Longrightarrow> a mod n = (if a < n then a else a - n)"
  by (simp add: mod_if)

lemma ring_used_pos: "w < n \<Longrightarrow> r < n \<Longrightarrow> (r + ring_used w r n) mod n = w"
  by (auto simp: ring_used_def mod_once)

lemma ring_used_put:
  assumes "w < n" "r < n" "k \<le> n - 1 - ring_used w r n"
  shows "ring_used ((w + k) mod n) r n = ring_used w r n + k"
proof -
  have m: "(w + k) mod n = (if w + k < n then w + k else w + k - n)" using assms by (intro mod_once) simp
  show ?thesis using assms unfolding m ring_used_def by (auto split: if_splits)
qed

lemma ring_used_get:
  assumes "w < n" "r < n" "k \<le> ring_used w r n"
  shows "ring_used w ((r + k) mod n) n = ring_used w r n - k"
proof -
  have "ring_used w r n < n" using assms by (intro ring_used_less)
  then have m: "(r + k) mod n = (if r + k < n then r + k else r + k - n)" using assms by (intro mod_once) simp
  show ?thesis using assms unfolding m ring_used_def by (auto split: if_splits)
qed

text \<open>The arithmetic of the code on 32-bit words computes positions of the ring; no step wraps below \<open>2 ^ 31\<close> entries.\<close>

lemma ring_advance:
  fixes p k c :: u32
  assumes "unat p < unat c" "unat k < unat c" "unat c \<le> 2 ^ 31"
  shows "unat (wrap_add c p k) = (unat p + unat k) mod unat c"
proof -
  have a: "unat (p + k) = unat p + unat k"
    using assms by (simp add: unat_add_lem [THEN iffD1])
  show ?thesis using assms
    by (auto simp: wrap_add_def word_le_nat_alt unat_sub a mod_once)
qed

lemma ring_restore:
  fixes p k c :: u32
  assumes "unat p < unat c" "unat k < unat c" "unat c \<le> 2 ^ 31"
  shows "wrap_back c (wrap_add c p k) k = p"
proof -
  have s: "unat (p + k) = unat p + unat k" using assms by (simp add: unat_add_lem [THEN iffD1])
  show ?thesis
  proof (cases "p + k \<ge> c")
    case True
    then have "wrap_add c p k < k"
      using ring_advance [OF assms] assms s by (auto simp: word_le_nat_alt word_less_nat_alt mod_once)
    then show ?thesis using True by (simp add: wrap_back_def wrap_add_def)
  next
    case False
    then show ?thesis using s by (simp add: wrap_back_def wrap_add_def word_less_nat_alt)
  qed
qed

lemma ring_avail:
  fixes w r c :: u32
  assumes "unat w < unat c" "unat r < unat c" "unat c \<le> 2 ^ 31"
  shows "unat (if w + c - r \<ge> c then w + c - r - c else w + c - r) = ring_used (unat w) (unat r) (unat c)"
proof -
  have a: "unat (w + c) = unat w + unat c" using assms by (simp add: unat_add_lem [THEN iffD1])
  have b: "unat (w + c - r) = unat w + unat c - unat r" using assms a by (simp add: unat_sub word_le_nat_alt)
  show ?thesis using assms
    by (auto simp: word_le_nat_alt unat_sub b ring_used_def)
qed

lemma ring_free:
  fixes w r c :: u32
  assumes "unat w < unat c" "unat r < unat c" "unat c \<le> 2 ^ 31"
  shows "unat (if r + c - w - 1 \<ge> c then r + c - w - 1 - c else r + c - w - 1) =
    unat c - 1 - ring_used (unat w) (unat r) (unat c)"
proof -
  have a: "unat (r + c) = unat r + unat c" using assms by (simp add: unat_add_lem [THEN iffD1])
  have b: "unat (r + c - w) = unat r + unat c - unat w" using assms a by (simp add: unat_sub word_le_nat_alt)
  have d: "unat (r + c - w - 1) = unat r + unat c - unat w - 1" using assms b by (simp add: unat_sub word_le_nat_alt)
  obtain x where x: "r + c - w - 1 = x" by blast
  show ?thesis using assms d unfolding x
    by (auto simp: word_le_nat_alt unat_sub ring_used_def)
qed

section \<open>One direction of a linked pair\<close>

text \<open>The sender is \<open>a\<close> and the receiver \<open>b\<close>.  Both cached counters may be stale, but only downwards.\<close>

definition dir_used :: "msgqMetadata \<Rightarrow> msgqMetadata \<Rightarrow> nat" where
  "dir_used a b = ring_used (unat (writePtr (tx a))) (unat (rxReadPtr b)) (unat (msgCount (tx a)))"

definition dir_room :: "msgqMetadata \<Rightarrow> msgqMetadata \<Rightarrow> nat" where
  "dir_room a b = unat (msgCount (tx a)) - 1 - dir_used a b"

definition dir_inv :: "msgqMetadata \<Rightarrow> msgqMetadata \<Rightarrow> shm \<Rightarrow> bool" where
  "dir_inv a b m \<longleftrightarrow> txLinked a \<and> rxLinked b
     \<and> msgCount (rx b) = msgCount (tx a) \<and> msgSize (rx b) = msgSize (tx a)
     \<and> pTheirEntries b = pOurEntries a \<and> pReadIncoming a = pReadOutgoing b \<and> pWriteIncoming b = pWriteOutgoing a
     \<and> 0 < unat (msgSize (tx a)) \<and> unat (msgCount (tx a)) \<le> 2 ^ 31 \<and> unat (msgCount (tx a)) * unat (msgSize (tx a)) < 2 ^ 32
     \<and> unat (writePtr (tx a)) < unat (msgCount (tx a)) \<and> unat (rxReadPtr b) < unat (msgCount (tx a))
     \<and> m (pWriteOutgoing a) = writePtr (tx a) \<and> m (pReadOutgoing b) = rxReadPtr b
     \<and> pWriteOutgoing a \<noteq> pReadOutgoing b
     \<and> unat (txFree a) \<le> dir_room a b \<and> unat (rxAvail b) \<le> dir_used a b"

definition tx_part :: "msgqMetadata \<Rightarrow> bool \<times> msgqTxHeader \<times> u32 \<times> ptr \<times> ptr \<times> ptr" where
  "tx_part q = (txLinked q, tx q, txFree q, pOurEntries q, pReadIncoming q, pWriteOutgoing q)"

definition rx_part :: "msgqMetadata \<Rightarrow> bool \<times> (u32 \<times> u32) \<times> u32 \<times> u32 \<times> ptr \<times> ptr \<times> ptr" where
  "rx_part q = (rxLinked q, (msgCount (rx q), msgSize (rx q)), rxReadPtr q, rxAvail q, pTheirEntries q, pWriteIncoming q, pReadOutgoing q)"

lemma dir_frame:
  assumes "tx_part a' = tx_part a" "rx_part b' = rx_part b"
    and "m' (pWriteOutgoing a) = m (pWriteOutgoing a)" "m' (pReadOutgoing b) = m (pReadOutgoing b)"
  shows "dir_inv a' b' m' = dir_inv a b m" "dir_used a' b' = dir_used a b"
  using assms by (simp_all add: dir_inv_def dir_used_def dir_room_def tx_part_def rx_part_def)

lemma tx_room:
  assumes "dir_inv a b m" "msgqTxGetFreeSpace rd m a = (f, q)"
  shows "\<exists>r g. q = a\<lparr>txReadPtr := r, txFree := g\<rparr> \<and> unat g \<le> dir_room a b \<and> f \<le> g \<and> (rd \<longrightarrow> unat f = dir_room a b)"
proof (cases rd)
  case True
  have lt: "unat (rxReadPtr b) < unat (msgCount (tx a))" and l: "txLinked a" and r: "m (pReadIncoming a) = rxReadPtr b"
    using assms(1) by (auto simp: dir_inv_def)
  then have "\<not> rxReadPtr b \<ge> msgCount (tx a)" by (simp add: word_le_nat_alt)
  then have q: "q = a\<lparr>txReadPtr := rxReadPtr b, txFree := f\<rparr>" and f: "f = (let f = rxReadPtr b + msgCount (tx a) - writePtr (tx a) - 1 in
      if f \<ge> msgCount (tx a) then f - msgCount (tx a) else f)"
    using assms(2) True l r by (auto simp: msgqTxGetFreeSpace_def Let_def)
  have "unat f = dir_room a b"
    unfolding f Let_def dir_room_def dir_used_def using assms(1) by (intro ring_free) (auto simp: dir_inv_def)
  then show ?thesis using q True by (intro exI [of _ "rxReadPtr b"] exI [of _ f]) auto
next
  case False
  then have "f = 0" "q = a" using assms(2) by (auto simp: msgqTxGetFreeSpace_def)
  then show ?thesis using False assms(1) by (intro exI [of _ "txReadPtr a"] exI [of _ "txFree a"]) (auto simp: dir_inv_def)
qed

lemma rx_avail:
  assumes "dir_inv a b m" "msgqRxGetReadAvailable rd m b = (f, q)"
  shows "\<exists>w g. q = b\<lparr>rx := (rx b)\<lparr>writePtr := w\<rparr>, rxAvail := g\<rparr> \<and> unat g \<le> dir_used a b \<and> f \<le> g \<and> (rd \<longrightarrow> unat f = dir_used a b)"
proof (cases rd)
  case True
  have lt: "unat (writePtr (tx a)) < unat (msgCount (rx b))" and l: "rxLinked b" and r: "m (pWriteIncoming b) = writePtr (tx a)"
    using assms(1) by (auto simp: dir_inv_def)
  then have "\<not> writePtr (tx a) \<ge> msgCount (rx b)" by (simp add: word_le_nat_alt)
  then have q: "q = b\<lparr>rx := (rx b)\<lparr>writePtr := writePtr (tx a)\<rparr>, rxAvail := f\<rparr>" and f: "f = (let f = writePtr (tx a) + msgCount (rx b) - rxReadPtr b in
      if f \<ge> msgCount (rx b) then f - msgCount (rx b) else f)"
    using assms(2) True l r by (auto simp: msgqRxGetReadAvailable_def Let_def)
  have c: "msgCount (rx b) = msgCount (tx a)" using assms(1) by (simp add: dir_inv_def)
  have "unat f = dir_used a b"
    unfolding f Let_def dir_used_def c using assms(1) by (intro ring_avail) (auto simp: dir_inv_def)
  then show ?thesis using q True by (intro exI [of _ "writePtr (tx a)"] exI [of _ f]) auto
next
  case False
  then have "f = 0" "q = b" using assms(2) by (auto simp: msgqRxGetReadAvailable_def)
  then show ?thesis using False assms(1) by (intro exI [of _ "writePtr (rx b)"] exI [of _ "rxAvail b"]) (auto simp: dir_inv_def)
qed

text \<open>The cached counter is refreshed only when it does not suffice, which is the pattern of all four operations on entries.\<close>

lemma tx_cached:
  assumes "dir_inv a b m" "(if cond then msgqTxGetFreeSpace rd m a else (txFree a, a)) = (f, q)"
  shows "\<exists>r g. q = a\<lparr>txReadPtr := r, txFree := g\<rparr> \<and> unat g \<le> dir_room a b \<and> f \<le> g \<and> (\<not> cond \<longrightarrow> g = txFree a)
    \<and> (cond \<and> rd \<longrightarrow> unat f = dir_room a b)"
proof (cases cond)
  case True
  then show ?thesis using tx_room [OF assms(1), of rd f q] assms(2) by auto
next
  case False
  then show ?thesis using assms by (intro exI [of _ "txReadPtr a"] exI [of _ "txFree a"]) (auto simp: dir_inv_def)
qed

lemma rx_cached:
  assumes "dir_inv a b m" "(if cond then msgqRxGetReadAvailable rd m b else (rxAvail b, b)) = (f, q)"
  shows "\<exists>w g. q = b\<lparr>rx := (rx b)\<lparr>writePtr := w\<rparr>, rxAvail := g\<rparr> \<and> unat g \<le> dir_used a b \<and> f \<le> g \<and> (\<not> cond \<longrightarrow> g = rxAvail b)
    \<and> (cond \<and> rd \<longrightarrow> unat f = dir_used a b)"
proof (cases cond)
  case True
  then show ?thesis using rx_avail [OF assms(1), of rd f q] assms(2) by auto
next
  case False
  then show ?thesis using assms by (intro exI [of _ "writePtr (rx b)"] exI [of _ "rxAvail b"]) (auto simp: dir_inv_def)
qed

lemma dir_bounds:
  assumes "dir_inv a b m"
  shows "dir_used a b < unat (msgCount (tx a))" "dir_room a b + dir_used a b + 1 = unat (msgCount (tx a))"
proof -
  show "dir_used a b < unat (msgCount (tx a))"
    using assms unfolding dir_used_def by (intro ring_used_less) (auto simp: dir_inv_def)
  then show "dir_room a b + dir_used a b + 1 = unat (msgCount (tx a))" by (simp add: dir_room_def)
qed

lemma submit_spec:
  assumes i: "dir_inv a b m" and e: "msgqTxSubmitBuffers rd wr n (a, m) = (st, a', m')"
  shows "(st = 0 \<and> unat n \<le> dir_room a b \<and> (\<exists>r g w. a' = a\<lparr>txReadPtr := r, txFree := g, tx := (tx a)\<lparr>writePtr := w\<rparr>\<rparr>
        \<and> m' = m(pWriteOutgoing a := w) \<and> unat w = (unat (writePtr (tx a)) + unat n) mod unat (msgCount (tx a))
        \<and> unat g + unat n \<le> dir_room a b))
    \<or> (st \<noteq> 0 \<and> m' = m \<and> (\<exists>r g. a' = a\<lparr>txReadPtr := r, txFree := g\<rparr> \<and> unat g \<le> dir_room a b))"
proof -
  obtain f q where fq: "(if n > txFree a then msgqTxGetFreeSpace rd m a else (txFree a, a)) = (f, q)" by fastforce
  obtain r g where q: "q = a\<lparr>txReadPtr := r, txFree := g\<rparr>" and g: "unat g \<le> dir_room a b" "f \<le> g" "\<not> n > txFree a \<longrightarrow> g = txFree a"
    using tx_cached [OF i fq] by blast
  have l: "txLinked a" using i by (simp add: dir_inv_def)
  show ?thesis
  proof (cases "n > txFree a \<and> n > f")
    case True
    then show ?thesis using e fq l q g(1) by (auto simp: msgqTxSubmitBuffers_def)
  next
    case False
    then have n: "n \<le> g" using g by (auto simp: not_less)
    then have n': "unat n \<le> unat g" by (simp add: word_le_nat_alt)
    then have lt: "unat n < unat (msgCount (tx a))" using g(1) dir_bounds [OF i] by linarith
    have b: "unat (writePtr (tx a)) < unat (msgCount (tx a))" "unat (msgCount (tx a)) \<le> 2 ^ 31" using i by (auto simp: dir_inv_def)
    let ?w = "wrap_add (msgCount (tx a)) (writePtr (tx a)) n"
    note adv = ring_advance [OF b(1) lt b(2)] and undo = ring_restore [OF b(1) lt b(2)]
    have "unat (g - n) = unat g - unat n" using n by (simp add: unat_sub)
    moreover have "(st, a', m') = (let w = wrap_add (msgCount (tx a)) (writePtr (tx a)) n in
      if wr then (0, q\<lparr>tx := (tx a)\<lparr>writePtr := w\<rparr>, txFree := g - n\<rparr>, m(pWriteOutgoing a := w)) else (-2, q, m))"
      using e fq False l undo by (auto simp: msgqTxSubmitBuffers_def q Let_def)
    ultimately have r: "(st, a', m') = (if wr then (0, a\<lparr>txReadPtr := r, txFree := g - n, tx := (tx a)\<lparr>writePtr := ?w\<rparr>\<rparr>, m(pWriteOutgoing a := ?w))
        else (-2, q, m))" and d: "unat (g - n) + unat n = unat g"
      using n' by (simp_all add: q Let_def)
    show ?thesis
    proof (cases wr)
      case True
      then have st: "st = 0" and eq: "a' = a\<lparr>txReadPtr := r, txFree := g - n, tx := (tx a)\<lparr>writePtr := ?w\<rparr>\<rparr>" and mm: "m' = m(pWriteOutgoing a := ?w)" using r by simp_all
      have "unat (g - n) + unat n \<le> dir_room a b" using d g(1) by linarith
      then show ?thesis using st n' g(1) by (intro disjI1 conjI exI, simp, linarith) (rule eq, rule mm, rule adv, assumption)
    next
      case False
      then have "st \<noteq> 0" "m' = m" and eq: "a' = q" using r by simp_all
      then show ?thesis using g(1) by (intro disjI2 conjI exI) (assumption, assumption, rule eq [unfolded q], assumption)
    qed
  qed
qed

lemma consume_spec:
  assumes i: "dir_inv a b m" and e: "msgqRxMarkConsumed rd wr n (b, m) = (st, b', m')"
  shows "(st = 0 \<and> unat n \<le> dir_used a b \<and> (\<exists>v g r. b' = b\<lparr>rx := (rx b)\<lparr>writePtr := v\<rparr>, rxAvail := g, rxReadPtr := r\<rparr>
        \<and> m' = m(pReadOutgoing b := r) \<and> unat r = (unat (rxReadPtr b) + unat n) mod unat (msgCount (tx a))
        \<and> unat g + unat n \<le> dir_used a b))
    \<or> (st \<noteq> 0 \<and> m' = m \<and> (\<exists>v g. b' = b\<lparr>rx := (rx b)\<lparr>writePtr := v\<rparr>, rxAvail := g\<rparr> \<and> unat g \<le> dir_used a b))"
proof -
  obtain f q where fq: "(if n > rxAvail b then msgqRxGetReadAvailable rd m b else (rxAvail b, b)) = (f, q)" by fastforce
  obtain v g where q: "q = b\<lparr>rx := (rx b)\<lparr>writePtr := v\<rparr>, rxAvail := g\<rparr>" and g: "unat g \<le> dir_used a b" "f \<le> g" "\<not> n > rxAvail b \<longrightarrow> g = rxAvail b"
    using rx_cached [OF i fq] by blast
  have l: "rxLinked b" and c: "msgCount (rx b) = msgCount (tx a)" using i by (simp_all add: dir_inv_def)
  show ?thesis
  proof (cases "n > rxAvail b \<and> n > f")
    case True
    then show ?thesis using e fq l q g(1) by (auto simp: msgqRxMarkConsumed_def)
  next
    case False
    then have n: "n \<le> g" using g by (auto simp: not_less)
    then have n': "unat n \<le> unat g" by (simp add: word_le_nat_alt)
    then have lt: "unat n < unat (msgCount (tx a))" using g(1) dir_bounds [OF i] by linarith
    have b: "unat (rxReadPtr b) < unat (msgCount (tx a))" "unat (msgCount (tx a)) \<le> 2 ^ 31" using i by (auto simp: dir_inv_def)
    let ?r = "wrap_add (msgCount (tx a)) (rxReadPtr b) n"
    note adv = ring_advance [OF b(1) lt b(2)] and undo = ring_restore [OF b(1) lt b(2)]
    have "unat (g - n) = unat g - unat n" using n by (simp add: unat_sub)
    moreover have "(st, b', m') = (let r = wrap_add (msgCount (tx a)) (rxReadPtr b) n in
      if wr then (0, q\<lparr>rxReadPtr := r, rxAvail := g - n\<rparr>, m(pReadOutgoing b := r)) else (-2, q, m))"
      using e fq False l undo by (auto simp: msgqRxMarkConsumed_def q c Let_def)
    ultimately have r: "(st, b', m') = (if wr then (0, b\<lparr>rx := (rx b)\<lparr>writePtr := v\<rparr>, rxAvail := g - n, rxReadPtr := ?r\<rparr>, m(pReadOutgoing b := ?r))
        else (-2, q, m))" and d: "unat (g - n) + unat n = unat g"
      using n' by (simp_all add: q Let_def)
    show ?thesis
    proof (cases wr)
      case True
      then have st: "st = 0" and eq: "b' = b\<lparr>rx := (rx b)\<lparr>writePtr := v\<rparr>, rxAvail := g - n, rxReadPtr := ?r\<rparr>" and mm: "m' = m(pReadOutgoing b := ?r)" using r by simp_all
      have "unat (g - n) + unat n \<le> dir_used a b" using d g(1) by linarith
      then show ?thesis using st n' g(1) by (intro disjI1 conjI exI, simp, linarith) (rule eq, rule mm, rule adv, assumption)
    next
      case False
      then have "st \<noteq> 0" "m' = m" and eq: "b' = q" using r by simp_all
      then show ?thesis using g(1) by (intro disjI2 conjI exI) (assumption, assumption, rule eq [unfolded q], assumption)
    qed
  qed
qed

lemma unat_up [simp]: "unat (ucast (x :: u32) :: u64) = unat x"
proof -
  have "unat x < 2 ^ 32" using unsigned_less [of x] by simp
  then have "unat x < 2 ^ 64" by simp
  then show ?thesis by (simp add: unsigned_ucast_eq take_bit_nat_eq_self)
qed

text \<open>The address of an entry of the sender's ring.\<close>

definition entry_addr :: "msgqMetadata \<Rightarrow> nat \<Rightarrow> ptr" where
  "entry_addr a i = pOurEntries a + ucast (of_nat i * msgSize (tx a) :: u32)"

lemma unat_scaled:
  fixes x :: u32
  assumes "k * unat x < 2 ^ 32"
  shows "unat (of_nat k * x) = k * unat x"
proof -
  have "of_nat k * x = (of_nat (k * unat x) :: u32)" by simp
  then show ?thesis using assms by (simp only: unat_of_nat) (simp add: take_bit_nat_eq_self unsigned_of_nat)
qed

lemma entry_addr_inj:
  assumes "dir_inv a b m" "i < unat (msgCount (tx a))" "j < unat (msgCount (tx a))" "entry_addr a i = entry_addr a j"
  shows "i = j"
proof -
  let ?n = "unat (msgCount (tx a))" and ?s = "unat (msgSize (tx a))"
  have b: "?n * ?s < 2 ^ 32" "0 < ?s" using assms(1) by (auto simp: dir_inv_def)
  have u: "unat (of_nat k * msgSize (tx a) :: u32) = k * ?s" if "k < ?n" for k
    using that b by (intro unat_scaled) (meson le_less_trans less_imp_le mult_le_mono1)
  have "(ucast (of_nat i * msgSize (tx a) :: u32) :: u64) = ucast (of_nat j * msgSize (tx a) :: u32)"
    using assms(4) by (simp add: entry_addr_def)
  then have "unat (of_nat i * msgSize (tx a) :: u32) = unat (of_nat j * msgSize (tx a) :: u32)"
    by (metis unat_up)
  then have "i * ?s = j * ?s" using u assms(2,3) by metis
  then show ?thesis using b(2) by simp
qed

lemma write_buffer_spec:
  assumes i: "dir_inv a b m" and e: "msgqTxGetWriteBuffer rd m n a = (p, a')"
  shows "(\<exists>r g. a' = a\<lparr>txReadPtr := r, txFree := g\<rparr> \<and> unat g \<le> dir_room a b)
    \<and> (p = None \<and> (rd \<longrightarrow> dir_room a b \<le> unat n)
       \<or> unat n < dir_room a b \<and> p = Some (entry_addr a ((unat (writePtr (tx a)) + unat n) mod unat (msgCount (tx a)))))"
proof -
  obtain f q where fq: "(if n \<ge> txFree a then msgqTxGetFreeSpace rd m a else (txFree a, a)) = (f, q)" by fastforce
  obtain r g where q: "q = a\<lparr>txReadPtr := r, txFree := g\<rparr>" and g: "unat g \<le> dir_room a b" "f \<le> g" "\<not> n \<ge> txFree a \<longrightarrow> g = txFree a"
    "n \<ge> txFree a \<and> rd \<longrightarrow> unat f = dir_room a b"
    using tx_cached [OF i fq] by blast
  have l: "txLinked a" using i by (simp add: dir_inv_def)
  show ?thesis
  proof (cases "n \<ge> txFree a \<and> n \<ge> f")
    case True
    then have "p = None" "a' = q" "rd \<longrightarrow> dir_room a b \<le> unat n" using e fq l g(4) by (auto simp: msgqTxGetWriteBuffer_def word_le_nat_alt)
    then show ?thesis using q g(1) by auto
  next
    case False
    then have "n < g" using g by (auto simp: not_le)
    then have n: "unat n < dir_room a b" using g(1) by (simp add: word_less_nat_alt)
    then have lt: "unat n < unat (msgCount (tx a))" using dir_bounds [OF i] by linarith
    have b: "unat (writePtr (tx a)) < unat (msgCount (tx a))" "unat (msgCount (tx a)) \<le> 2 ^ 31" using i by (auto simp: dir_inv_def)
    have "p = Some (pOurEntries a + ucast (wrap_add (msgCount (tx a)) (writePtr (tx a)) n * msgSize (tx a)))" "a' = q"
      using e fq False l by (auto simp: msgqTxGetWriteBuffer_def q Let_def)
    then show ?thesis using n q g(1) ring_advance [OF b(1) lt b(2), symmetric] by (auto simp: entry_addr_def)
  qed
qed

lemma read_buffer_spec:
  assumes i: "dir_inv a b m" and e: "msgqRxGetReadBuffer rd m n b = (p, b')"
  shows "(\<exists>v g. b' = b\<lparr>rx := (rx b)\<lparr>writePtr := v\<rparr>, rxAvail := g\<rparr> \<and> unat g \<le> dir_used a b)
    \<and> (p = None \<and> (rd \<longrightarrow> dir_used a b \<le> unat n)
       \<or> unat n < dir_used a b \<and> p = Some (entry_addr a ((unat (rxReadPtr b) + unat n) mod unat (msgCount (tx a)))))"
proof -
  obtain f q where fq: "(if n \<ge> rxAvail b then msgqRxGetReadAvailable rd m b else (rxAvail b, b)) = (f, q)" by fastforce
  obtain v g where q: "q = b\<lparr>rx := (rx b)\<lparr>writePtr := v\<rparr>, rxAvail := g\<rparr>" and g: "unat g \<le> dir_used a b" "f \<le> g" "\<not> n \<ge> rxAvail b \<longrightarrow> g = rxAvail b"
    "n \<ge> rxAvail b \<and> rd \<longrightarrow> unat f = dir_used a b"
    using rx_cached [OF i fq] by blast
  have l: "rxLinked b" and c: "msgCount (rx b) = msgCount (tx a)" "msgSize (rx b) = msgSize (tx a)" "pTheirEntries b = pOurEntries a"
    using i by (simp_all add: dir_inv_def)
  show ?thesis
  proof (cases "n \<ge> rxAvail b \<and> n \<ge> f")
    case True
    then have "p = None" "b' = q" "rd \<longrightarrow> dir_used a b \<le> unat n" using e fq l g(4) by (auto simp: msgqRxGetReadBuffer_def word_le_nat_alt)
    then show ?thesis using q g(1) by auto
  next
    case False
    then have "n < g" using g by (auto simp: not_le)
    then have n: "unat n < dir_used a b" using g(1) by (simp add: word_less_nat_alt)
    then have lt: "unat n < unat (msgCount (tx a))" using dir_bounds [OF i] by linarith
    have b: "unat (rxReadPtr b) < unat (msgCount (tx a))" "unat (msgCount (tx a)) \<le> 2 ^ 31" using i by (auto simp: dir_inv_def)
    have "p = Some (pOurEntries a + ucast (wrap_add (msgCount (tx a)) (rxReadPtr b) n * msgSize (tx a)))" "b' = q"
      using e fq False l by (auto simp: msgqRxGetReadBuffer_def q c Let_def)
    then show ?thesis using n q g(1) ring_advance [OF b(1) lt b(2), symmetric] by (auto simp: entry_addr_def)
  qed
qed

end
