(* ===== verification/Rm_Msgq_Pair.thy ===== *)
theory Rm_Msgq_Pair
  imports Rm_Msgq
begin

text \<open>
  Two ends of the message queues of \<^verbatim>\<open>libraries/msgq/msgq.c\<close> that share memory.  Each end may at any time write
  entries, submit them, read, consume, or refresh its counters, and the backend may refuse any access.
  Each direction is a FIFO, whatever the other direction does; linking two created queues establishes the
  invariant on which that rests.
\<close>

section \<open>Steps of a pair\<close>

datatype 'a mq_op =
    Tx_write bool u32 'a
  | Tx_submit bool bool u32
  | Tx_sync bool
  | Tx_pending bool
  | Rx_read bool u32
  | Rx_consume bool bool u32
  | Rx_sync bool

fun mq_act :: "'a mq_op \<Rightarrow> msgqMetadata \<times> shm \<times> (ptr \<Rightarrow> 'a) \<Rightarrow> msgqMetadata \<times> shm \<times> (ptr \<Rightarrow> 'a)" where
  "mq_act (Tx_write rd n x) (q, m, sl) =
     (case msgqTxGetWriteBuffer rd m n q of (None, q') \<Rightarrow> (q', m, sl) | (Some p, q') \<Rightarrow> (q', m, sl(p := x)))"
| "mq_act (Tx_submit rd wr n) (q, m, sl) = (case msgqTxSubmitBuffers rd wr n (q, m) of (st, q', m') \<Rightarrow> (q', m', sl))"
| "mq_act (Tx_sync rd) (q, m, sl) = (snd (msgqTxSync rd m q), m, sl)"
| "mq_act (Tx_pending rd) (q, m, sl) = (snd (msgqTxGetPending rd m q), m, sl)"
| "mq_act (Rx_read rd n) (q, m, sl) = (snd (msgqRxGetReadBuffer rd m n q), m, sl)"
| "mq_act (Rx_consume rd wr n) (q, m, sl) = (case msgqRxMarkConsumed rd wr n (q, m) of (st, q', m') \<Rightarrow> (q', m', sl))"
| "mq_act (Rx_sync rd) (q, m, sl) = (snd (msgqRxSync rd m q), m, sl)"

text \<open>The messages a direction holds, and those staged behind them.\<close>

definition ring_of :: "msgqMetadata \<Rightarrow> (ptr \<Rightarrow> 'a) \<Rightarrow> 'a list" where
  "ring_of a sl = map (\<lambda>i. sl (entry_addr a i)) [0..<unat (msgCount (tx a))]"

definition dir_items :: "msgqMetadata \<Rightarrow> msgqMetadata \<Rightarrow> (ptr \<Rightarrow> 'a) \<Rightarrow> 'a list" where
  "dir_items a b sl = ring_items (ring_of a sl) (unat (rxReadPtr b)) (dir_used a b)"

definition staged :: "msgqMetadata \<Rightarrow> (ptr \<Rightarrow> 'a) \<Rightarrow> nat \<Rightarrow> 'a list" where
  "staged a sl n = ring_items (ring_of a sl) (unat (writePtr (tx a))) n"

fun mq_wf :: "msgqMetadata \<times> msgqMetadata \<times> shm \<times> (ptr \<Rightarrow> 'a) \<Rightarrow> bool" where
  "mq_wf (a, b, m, sl) \<longleftrightarrow> dir_inv a b m \<and> dir_inv b a m
     \<and> distinct [pWriteOutgoing a, pReadOutgoing b, pWriteOutgoing b, pReadOutgoing a]
     \<and> (\<forall>i < unat (msgCount (tx a)). \<forall>j < unat (msgCount (tx b)). entry_addr a i \<noteq> entry_addr b j)"

lemma mq_wf_sym: "mq_wf (a, b, m, sl) \<Longrightarrow> mq_wf (b, a, m, sl)"
  by auto metis

lemma ring_of_length [simp]: "length (ring_of a sl) = unat (msgCount (tx a))"
  by (simp add: ring_of_def)

section \<open>Each kind of step\<close>

lemma items_frame:
  assumes "tx_part a' = tx_part a" "rx_part b' = rx_part b"
  shows "dir_items a' b' sl = dir_items a b sl" "staged a' sl n = staged a sl n" "entry_addr a' = entry_addr a"
  using assms by (auto simp: dir_items_def staged_def dir_used_def ring_of_def entry_addr_def tx_part_def rx_part_def fun_eq_iff)

text \<open>A refresh of the cached counter of the sender or of the receiver.\<close>

lemma tx_quiet:
  fixes r :: u32
  assumes "dir_inv a b m" "unat g \<le> dir_room a b"
  defines "a' \<equiv> a\<lparr>txReadPtr := r, txFree := g\<rparr>"
  shows "dir_inv a' b m" "dir_items a' b sl = dir_items a b sl" "entry_addr a' = entry_addr a" "rx_part a' = rx_part a"
    "tx a' = tx a" "pWriteOutgoing a' = pWriteOutgoing a" "pReadOutgoing a' = pReadOutgoing a"
  using assms(1,2) by (auto simp: a'_def dir_inv_def dir_room_def dir_used_def dir_items_def ring_of_def entry_addr_def rx_part_def fun_eq_iff)

lemma rx_quiet:
  fixes v :: u32
  assumes "dir_inv a b m" "unat g \<le> dir_used a b"
  defines "b' \<equiv> b\<lparr>rx := (rx b)\<lparr>writePtr := v\<rparr>, rxAvail := g\<rparr>"
  shows "dir_inv a b' m" "dir_items a b' sl = dir_items a b sl" "tx_part b' = tx_part b" "entry_addr b' = entry_addr b"
    "tx b' = tx b" "pWriteOutgoing b' = pWriteOutgoing b" "pReadOutgoing b' = pReadOutgoing b"
  using assms(1,2) by (auto simp: b'_def dir_inv_def dir_room_def dir_used_def dir_items_def ring_of_def entry_addr_def tx_part_def fun_eq_iff)

lemma submit_step:
  fixes r :: u32
  assumes i: "dir_inv a b m" and n: "unat n \<le> dir_room a b"
    and w: "unat w = (unat (writePtr (tx a)) + unat n) mod unat (msgCount (tx a))" and g: "unat g + unat n \<le> dir_room a b"
  defines "a' \<equiv> a\<lparr>txReadPtr := r, txFree := g, tx := (tx a)\<lparr>writePtr := w\<rparr>\<rparr>"
  shows "dir_inv a' b (m(pWriteOutgoing a := w))" "dir_items a' b sl = dir_items a b sl @ staged a sl (unat n)"
    "entry_addr a' = entry_addr a" "rx_part a' = rx_part a"
proof -
  have c: "unat (writePtr (tx a)) < unat (msgCount (tx a))" "unat (rxReadPtr b) < unat (msgCount (tx a))"
    using i by (auto simp: dir_inv_def)
  have u: "dir_used a' b = dir_used a b + unat n"
    using ring_used_put [OF c, of "unat n"] n by (simp add: a'_def dir_used_def dir_room_def w)
  have rg: "ring_of a' sl = ring_of a sl" and e: "entry_addr a' = entry_addr a"
    by (auto simp: a'_def ring_of_def entry_addr_def)
  show "entry_addr a' = entry_addr a" by (rule e)
  show "rx_part a' = rx_part a" by (simp add: a'_def rx_part_def)
  have "(unat (rxReadPtr b) + dir_used a b) mod unat (msgCount (tx a)) = unat (writePtr (tx a))"
    unfolding dir_used_def by (rule ring_used_pos [OF c])
  then show "dir_items a' b sl = dir_items a b sl @ staged a sl (unat n)"
    by (simp add: dir_items_def staged_def u rg ring_items_append)
  have "unat w < unat (msgCount (tx a))" using c(1) unfolding w by (intro mod_less_divisor) simp
  moreover have "unat g \<le> dir_room a' b" using g u by (simp add: dir_room_def a'_def)
  moreover have "unat (rxAvail b) \<le> dir_used a' b" using i u by (simp add: dir_inv_def)
  ultimately show "dir_inv a' b (m(pWriteOutgoing a := w))" using i by (auto simp: dir_inv_def a'_def)
qed

lemma consume_step:
  fixes v :: u32
  assumes i: "dir_inv a b m" and n: "unat n \<le> dir_used a b"
    and r: "unat r = (unat (rxReadPtr b) + unat n) mod unat (msgCount (tx a))" and g: "unat g + unat n \<le> dir_used a b"
  defines "b' \<equiv> b\<lparr>rx := (rx b)\<lparr>writePtr := v\<rparr>, rxAvail := g, rxReadPtr := r\<rparr>"
  shows "dir_inv a b' (m(pReadOutgoing b := r))" "dir_items a b' sl = drop (unat n) (dir_items a b sl)"
    "entry_addr b' = entry_addr b" "tx_part b' = tx_part b"
proof -
  have c: "unat (writePtr (tx a)) < unat (msgCount (tx a))" "unat (rxReadPtr b) < unat (msgCount (tx a))"
    using i by (auto simp: dir_inv_def)
  have u: "dir_used a b' = dir_used a b - unat n"
    using ring_used_get [OF c, of "unat n"] n by (simp add: b'_def dir_used_def r)
  show "entry_addr b' = entry_addr b" "tx_part b' = tx_part b" by (auto simp: b'_def entry_addr_def tx_part_def)
  show "dir_items a b' sl = drop (unat n) (dir_items a b sl)"
    using n by (simp add: dir_items_def u ring_items_drop) (simp add: b'_def r)
  have "unat r < unat (msgCount (tx a))" using c(1) unfolding r by (intro mod_less_divisor) simp
  moreover have "unat g \<le> dir_used a b'" using g u by simp
  moreover have "unat (txFree a) \<le> dir_room a b'" using i u by (auto simp: dir_inv_def dir_room_def)
  ultimately show "dir_inv a b' (m(pReadOutgoing b := r))" using i by (auto simp: dir_inv_def b'_def)
qed

text \<open>An entry the sender may write is none of those the receiver has not consumed.\<close>

lemma mq_write_step:
  assumes i: "dir_inv a b m" and n: "k < dir_room a b"
  shows "dir_items a b (sl(entry_addr a ((unat (writePtr (tx a)) + k) mod unat (msgCount (tx a))) := x)) = dir_items a b sl"
proof -
  let ?n = "unat (msgCount (tx a))" and ?r = "unat (rxReadPtr b)" and ?u = "dir_used a b"
  have c: "unat (writePtr (tx a)) < ?n" "?r < ?n" using i by (auto simp: dir_inv_def)
  have "(?r + ?u) mod ?n = unat (writePtr (tx a))" unfolding dir_used_def by (rule ring_used_pos [OF c])
  then have w: "(unat (writePtr (tx a)) + k) mod ?n = (?r + (?u + k)) mod ?n" by (metis add.assoc mod_add_left_eq)
  have "?u + k < ?n" using n dir_bounds [OF i] by simp
  then have neq: "entry_addr a ((?r + j) mod ?n) \<noteq> entry_addr a ((unat (writePtr (tx a)) + k) mod ?n)" if "j < ?u" for j
    using ring_index_neq [of j "?u + k" ?n ?r] that c entry_addr_inj [OF i] unfolding w by (metis mod_less_divisor neq0_conv not_less0 trans_less_add1)
  show ?thesis unfolding dir_items_def ring_items_def
    using neq c by (intro map_cong) (auto simp: ring_of_def)
qed

section \<open>Steps of one end\<close>

text \<open>How many entries a step submits or consumes.\<close>

fun submitted :: "'a mq_op \<Rightarrow> msgqMetadata \<times> shm \<times> (ptr \<Rightarrow> 'a) \<Rightarrow> nat" where
  "submitted (Tx_submit rd wr n) (q, m, sl) = (if fst (msgqTxSubmitBuffers rd wr n (q, m)) = 0 then unat n else 0)"
| "submitted _ _ = 0"

fun consumed :: "'a mq_op \<Rightarrow> msgqMetadata \<times> shm \<times> (ptr \<Rightarrow> 'a) \<Rightarrow> nat" where
  "consumed (Rx_consume rd wr n) (q, m, sl) = (if fst (msgqRxMarkConsumed rd wr n (q, m)) = 0 then unat n else 0)"
| "consumed _ _ = 0"

text \<open>The other direction does not see a step that leaves its part of the end and its two words.\<close>

lemma mq_wf_tx_step:
  assumes "mq_wf (a, b, m, sl)" "dir_inv a' b m'" "rx_part a' = rx_part a" "entry_addr a' = entry_addr a"
    and "msgCount (tx a') = msgCount (tx a)" "pWriteOutgoing a' = pWriteOutgoing a"
    and "\<forall>p. p \<noteq> pWriteOutgoing a \<longrightarrow> m' p = m p"
  shows "mq_wf (a', b, m', sl')" "dir_items b a' sl = dir_items b a sl"
proof -
  have "dir_inv b a' m'" using assms dir_frame(1) [of b b a' a m' m] by auto
  moreover have "pReadOutgoing a' = pReadOutgoing a" using assms(3) by (simp add: rx_part_def)
  ultimately show "mq_wf (a', b, m', sl')" using assms by simp
  show "dir_items b a' sl = dir_items b a sl" using assms(3) items_frame(1) [OF refl] by blast
qed

lemma mq_wf_rx_step:
  assumes "mq_wf (a, b, m, sl)" "dir_inv b a' m'" "tx_part a' = tx_part a"
    and "pReadOutgoing a' = pReadOutgoing a" "\<forall>p. p \<noteq> pReadOutgoing a \<longrightarrow> m' p = m p"
  shows "mq_wf (a', b, m', sl')" "dir_items a' b sl = dir_items a b sl"
proof -
  have "dir_inv a' b m'" using assms dir_frame(1) [of a' a b b m' m] by auto
  moreover have "pWriteOutgoing a' = pWriteOutgoing a" "tx a' = tx a" "entry_addr a' = entry_addr a"
    using assms(3) by (auto simp: tx_part_def entry_addr_def fun_eq_iff)
  ultimately show "mq_wf (a', b, m', sl')" using assms by simp
  show "dir_items a' b sl = dir_items a b sl" using assms(3) items_frame(1) [OF _ refl] by blast
qed

lemma quiet_tx_step:
  fixes sl sl' :: "ptr \<Rightarrow> 'a"
  assumes "mq_wf (a, b, m, sl)" "\<exists>r g. a' = a\<lparr>txReadPtr := r, txFree := g\<rparr> \<and> unat g \<le> dir_room a b"
  shows "mq_wf (a', b, m, sl') \<and> (\<forall>s :: ptr \<Rightarrow> 'a. dir_items a' b s = dir_items a b s) \<and> (\<forall>s :: ptr \<Rightarrow> 'a. dir_items b a' s = dir_items b a s)"
proof -
  obtain r g where a': "a' = a\<lparr>txReadPtr := r, txFree := g\<rparr>" and g: "unat g \<le> dir_room a b" using assms(2) by blast
  have i: "dir_inv a b m" using assms(1) by simp
  note q = tx_quiet [OF i g, of r, folded a']
  have "mq_wf (a', b, m, sl')" by (rule mq_wf_tx_step(1) [OF assms(1) q(1,4,3) _ q(6)]) (simp_all add: q(5))
  then show ?thesis using q(2) items_frame(1) [OF refl q(4)] by blast
qed

lemma quiet_rx_step:
  fixes sl sl' :: "ptr \<Rightarrow> 'a"
  assumes "mq_wf (a, b, m, sl)" "\<exists>v g. a' = a\<lparr>rx := (rx a)\<lparr>writePtr := v\<rparr>, rxAvail := g\<rparr> \<and> unat g \<le> dir_used b a"
  shows "mq_wf (a', b, m, sl') \<and> (\<forall>s :: ptr \<Rightarrow> 'a. dir_items a' b s = dir_items a b s) \<and> (\<forall>s :: ptr \<Rightarrow> 'a. dir_items b a' s = dir_items b a s)"
proof -
  obtain v g where a': "a' = a\<lparr>rx := (rx a)\<lparr>writePtr := v\<rparr>, rxAvail := g\<rparr>" and g: "unat g \<le> dir_used b a" using assms(2) by blast
  have i: "dir_inv b a m" using assms(1) by simp
  note q = rx_quiet [OF i g, of v, folded a']
  have "mq_wf (a', b, m, sl')" by (rule mq_wf_rx_step(1) [OF assms(1) q(1,3,7)]) simp
  then show ?thesis using q(2) items_frame(1) [OF q(3) refl] by blast
qed

text \<open>What one end does to both directions.\<close>

lemma write_entry:
  fixes x :: 'a
  assumes w: "mq_wf (a, b, m, sl)" and n: "k < dir_room a b"
  defines "sl' \<equiv> sl(entry_addr a ((unat (writePtr (tx a)) + k) mod unat (msgCount (tx a))) := x)"
  shows "dir_items a b sl' = dir_items a b sl" "dir_items b a sl' = dir_items b a sl"
proof -
  have i: "dir_inv a b m" using w by simp
  let ?k = "(unat (writePtr (tx a)) + k) mod unat (msgCount (tx a))"
  show "dir_items a b sl' = dir_items a b sl" unfolding sl'_def by (rule mq_write_step [OF i n])
  have "?k < unat (msgCount (tx a))" using i by (intro mod_less_divisor) (auto simp: dir_inv_def)
  then have "\<forall>j < unat (msgCount (tx b)). entry_addr b j \<noteq> entry_addr a ?k" using w by (metis mq_wf.simps)
  then have "ring_of b sl' = ring_of b sl" by (simp add: sl'_def ring_of_def)
  then show "dir_items b a sl' = dir_items b a sl" by (simp add: dir_items_def)
qed

lemma act_write:
  assumes w: "mq_wf (a, b, m, sl)" and e: "mq_act (Tx_write rd n x) (a, m, sl) = (a', m', sl')"
  shows "mq_wf (a', b, m', sl') \<and> dir_items a' b sl' = dir_items a b sl \<and> dir_items b a' sl' = dir_items b a sl"
proof -
  have i: "dir_inv a b m" using w by simp
  obtain p q where pq: "msgqTxGetWriteBuffer rd m n a = (p, q)" by fastforce
  note sp = write_buffer_spec [OF i pq]
  have a': "a' = q" "m' = m" "sl' = (case p of None \<Rightarrow> sl | Some z \<Rightarrow> sl(z := x))" using e pq by (auto split: option.splits)
  note st = quiet_tx_step [OF w conjunct1 [OF sp], of sl']
  have "dir_items a b sl' = dir_items a b sl \<and> dir_items b a sl' = dir_items b a sl"
  proof (cases p)
    case (Some z)
    then show ?thesis using write_entry [OF w, of "unat n" x] sp a'(3) by auto
  qed (use a' in simp)
  then show ?thesis using st a' by simp
qed

lemma act_submit:
  assumes w: "mq_wf (a, b, m, sl)" and e: "mq_act (Tx_submit rd wr n) (a, m, sl) = (a', m', sl')"
  shows "mq_wf (a', b, m', sl') \<and> dir_items a' b sl' = dir_items a b sl @ staged a sl (submitted (Tx_submit rd wr n) (a, m, sl))
    \<and> dir_items b a' sl' = dir_items b a sl"
proof -
  have i: "dir_inv a b m" using w by simp
  obtain st q m1 where sq: "msgqTxSubmitBuffers rd wr n (a, m) = (st, q, m1)" by (metis prod_cases3)
  have a': "a' = q" "m' = m1" "sl' = sl" using e sq by auto
  show ?thesis
  proof (cases "st = 0")
    case True
    then obtain r g v where c: "unat n \<le> dir_room a b" "q = a\<lparr>txReadPtr := r, txFree := g, tx := (tx a)\<lparr>writePtr := v\<rparr>\<rparr>" "m1 = m(pWriteOutgoing a := v)"
      "unat v = (unat (writePtr (tx a)) + unat n) mod unat (msgCount (tx a))" "unat g + unat n \<le> dir_room a b"
      using submit_spec [OF i sq] by blast
    note q = submit_step [OF i c(1,4,5), of r, folded c(2,3)]
    have "mq_wf (q, b, m1, sl)"
      by (rule mq_wf_tx_step(1) [OF w q(1,4,3)]) (simp_all add: c(2,3))
    then show ?thesis using q(2) [of sl] items_frame(1) [OF refl q(4)] a' sq True by simp
  next
    case False
    then have "\<exists>r g. q = a\<lparr>txReadPtr := r, txFree := g\<rparr> \<and> unat g \<le> dir_room a b" "m1 = m" using submit_spec [OF i sq] by blast+
    then show ?thesis using quiet_tx_step [OF w, of q sl] a' sq False by (simp add: staged_def)
  qed
qed

lemma act_consume:
  assumes w: "mq_wf (a, b, m, sl)" and e: "mq_act (Rx_consume rd wr n) (a, m, sl) = (a', m', sl')"
  shows "mq_wf (a', b, m', sl') \<and> dir_items a' b sl' = dir_items a b sl
    \<and> dir_items b a' sl' = drop (consumed (Rx_consume rd wr n) (a, m, sl)) (dir_items b a sl)"
proof -
  have i: "dir_inv b a m" using w by simp
  obtain st q m1 where sq: "msgqRxMarkConsumed rd wr n (a, m) = (st, q, m1)" by (metis prod_cases3)
  have a': "a' = q" "m' = m1" "sl' = sl" using e sq by auto
  show ?thesis
  proof (cases "st = 0")
    case True
    then obtain v g r where c: "unat n \<le> dir_used b a" "q = a\<lparr>rx := (rx a)\<lparr>writePtr := v\<rparr>, rxAvail := g, rxReadPtr := r\<rparr>" "m1 = m(pReadOutgoing a := r)"
      "unat r = (unat (rxReadPtr a) + unat n) mod unat (msgCount (tx b))" "unat g + unat n \<le> dir_used b a"
      using consume_spec [OF i sq] by blast
    note q = consume_step [OF i c(1,4,5), of v, folded c(2,3)]
    have "mq_wf (q, b, m1, sl)"
      by (rule mq_wf_rx_step(1) [OF w q(1,4)]) (simp_all add: c(2,3))
    then show ?thesis using q(2) [of sl] items_frame(1) [OF q(4) refl] a' sq True by simp
  next
    case False
    then have "\<exists>v g. q = a\<lparr>rx := (rx a)\<lparr>writePtr := v\<rparr>, rxAvail := g\<rparr> \<and> unat g \<le> dir_used b a" "m1 = m" using consume_spec [OF i sq] by blast+
    then show ?thesis using quiet_rx_step [OF w, of q sl] a' sq False by simp
  qed
qed

lemma act_spec:
  fixes sl sl' :: "ptr \<Rightarrow> 'a"
  assumes w: "mq_wf (a, b, m, sl)" and e: "mq_act op (a, m, sl) = (a', m', sl')"
  shows "mq_wf (a', b, m', sl') \<and> dir_items a' b sl' = dir_items a b sl @ staged a sl (submitted op (a, m, sl))
    \<and> dir_items b a' sl' = drop (consumed op (a, m, sl)) (dir_items b a sl)"
proof -
  have i: "dir_inv a b m" "dir_inv b a m" and l: "txLinked a" "rxLinked a" using w by (auto simp: dir_inv_def)
  have st0: "staged a sl 0 = []" by (simp add: staged_def)
  have quiet: ?thesis
    if "mq_wf (a', b, m, sl) \<and> (\<forall>s :: ptr \<Rightarrow> 'a. dir_items a' b s = dir_items a b s) \<and> (\<forall>s :: ptr \<Rightarrow> 'a. dir_items b a' s = dir_items b a s)"
      "m' = m" "sl' = sl" "submitted op (a, m, sl) = 0" "consumed op (a, m, sl) = 0"
    using that st0 by (simp del: mq_wf.simps)
  have tx: "mq_wf (snd (msgqTxGetFreeSpace rd m a), b, m, sl) \<and> (\<forall>s :: ptr \<Rightarrow> 'a. dir_items (snd (msgqTxGetFreeSpace rd m a)) b s = dir_items a b s)
    \<and> (\<forall>s :: ptr \<Rightarrow> 'a. dir_items b (snd (msgqTxGetFreeSpace rd m a)) s = dir_items b a s)" for rd
    using tx_room [OF i(1) prod.collapse [symmetric], of rd] by (intro quiet_tx_step [OF w]) blast
  have rx: "mq_wf (snd (msgqRxGetReadAvailable rd m a), b, m, sl) \<and> (\<forall>s :: ptr \<Rightarrow> 'a. dir_items (snd (msgqRxGetReadAvailable rd m a)) b s = dir_items a b s)
    \<and> (\<forall>s :: ptr \<Rightarrow> 'a. dir_items b (snd (msgqRxGetReadAvailable rd m a)) s = dir_items b a s)" for rd
    using rx_avail [OF i(2) prod.collapse [symmetric], of rd] by (intro quiet_rx_step [OF w]) blast
  have read: "mq_wf (snd (msgqRxGetReadBuffer rd m n a), b, m, sl) \<and> (\<forall>s :: ptr \<Rightarrow> 'a. dir_items (snd (msgqRxGetReadBuffer rd m n a)) b s = dir_items a b s)
    \<and> (\<forall>s :: ptr \<Rightarrow> 'a. dir_items b (snd (msgqRxGetReadBuffer rd m n a)) s = dir_items b a s)" for rd n
    using read_buffer_spec [OF i(2) prod.collapse [symmetric], of rd n] by (intro quiet_rx_step [OF w]) blast
  have sync: "snd (msgqTxSync rd m a) = snd (msgqTxGetFreeSpace rd m a)" "snd (msgqTxGetPending rd m a) = snd (msgqTxGetFreeSpace rd m a)"
    "snd (msgqRxSync rd m a) = snd (msgqRxGetReadAvailable rd m a)" for rd
    using l by (auto simp: msgqTxSync_def msgqTxGetPending_def msgqRxSync_def split: prod.splits)
  show ?thesis
  proof (cases op)
    case (Tx_write rd n x)
    then show ?thesis using act_write [OF w e [unfolded Tx_write]] st0 by (simp del: mq_wf.simps)
  next
    case (Tx_submit rd wr n)
    then show ?thesis using act_submit [OF w e [unfolded Tx_submit]] by (simp del: mq_wf.simps submitted.simps(1))
  next
    case (Tx_sync rd)
    then show ?thesis using tx [of rd] e by (intro quiet) (auto simp: sync simp del: mq_wf.simps)
  next
    case (Tx_pending rd)
    then show ?thesis using tx [of rd] e by (intro quiet) (auto simp: sync simp del: mq_wf.simps)
  next
    case (Rx_read rd n)
    then show ?thesis using read [of rd n] e by (intro quiet) (auto simp del: mq_wf.simps)
  next
    case (Rx_consume rd wr n)
    then show ?thesis using act_consume [OF w e [unfolded Rx_consume]] st0 by (simp del: mq_wf.simps consumed.simps(1))
  next
    case (Rx_sync rd)
    then show ?thesis using rx [of rd] e by (intro quiet) (auto simp: sync simp del: mq_wf.simps)
  qed
qed

lemma read_item:
  assumes i: "dir_inv a b m" and e: "msgqRxGetReadBuffer rd m n b = (p, b')"
  shows "case p of Some z \<Rightarrow> unat n < length (dir_items a b sl) \<and> sl z = dir_items a b sl ! unat n
    | None \<Rightarrow> rd \<longrightarrow> length (dir_items a b sl) \<le> unat n"
proof -
  have "0 < unat (msgCount (tx a))" using dir_bounds [OF i] by simp
  then show ?thesis using read_buffer_spec [OF i e]
    by (auto simp: dir_items_def ring_items_def ring_of_def split: option.splits)
qed

section \<open>A direction is a FIFO\<close>

text \<open>Every step of the sender may append, and every step of the receiver may remove; each end may do all its operations.\<close>

type_synonym 'a mq_pair = "msgqMetadata \<times> msgqMetadata \<times> shm \<times> (ptr \<Rightarrow> 'a)"

fun mq_items :: "'a mq_pair \<Rightarrow> 'a list" where
  "mq_items (a, b, m, sl) = dir_items a b sl"

fun mq_a :: "'a mq_op \<Rightarrow> 'a mq_pair \<Rightarrow> 'a mq_pair" where
  "mq_a op (a, b, m, sl) = (case mq_act op (a, m, sl) of (a', m', sl') \<Rightarrow> (a', b, m', sl'))"

fun mq_b :: "'a mq_op \<Rightarrow> 'a mq_pair \<Rightarrow> 'a mq_pair" where
  "mq_b op (a, b, m, sl) = (case mq_act op (b, m, sl) of (b', m', sl') \<Rightarrow> (a, b', m', sl'))"

fun mq_sent :: "'a mq_op \<Rightarrow> 'a mq_pair \<Rightarrow> 'a list" where
  "mq_sent op (a, b, m, sl) = staged a sl (submitted op (a, m, sl))"

definition mq_may :: "'a mq_op \<Rightarrow> 'a mq_pair \<Rightarrow> bool" where
  "mq_may op s = True"

definition mq_idle :: "unit \<Rightarrow> 'a mq_pair \<Rightarrow> 'a mq_pair" where
  "mq_idle u s = s"

interpretation mq: fifo mq_wf mq_items mq_may mq_a mq_sent mq_b mq_idle
proof
  fix q :: "'a mq_pair" and op :: "'a mq_op"
  obtain a b m sl where q: "q = (a, b, m, sl)" by (metis prod_cases4)
  assume w: "mq_wf q"
  obtain a' ma sa where ea: "mq_act op (a, m, sl) = (a', ma, sa)" by (metis prod_cases3)
  show "mq_wf (mq_a op q) \<and> mq_items (mq_a op q) = mq_items q @ mq_sent op q"
    using act_spec [OF w [unfolded q] ea] ea by (simp add: q del: mq_wf.simps)
  obtain b' mb sb where eb: "mq_act op (b, m, sl) = (b', mb, sb)" by (metis prod_cases3)
  have "mq_wf (b, a, m, sl)" using mq_wf_sym w unfolding q by blast
  then show "mq_wf (mq_b op q) \<and> (\<exists>k. mq_items (mq_b op q) = drop k (mq_items q))"
    using act_spec [OF _ eb, of a] mq_wf_sym eb by (auto simp: q simp del: mq_wf.simps)
qed (simp add: mq_idle_def)

section \<open>Layout of a created queue\<close>

lemma nv_align_bounds:
  assumes "k \<le> 12" "unat x \<le> 10000"
  shows "unat x \<le> unat (NV_ALIGN_UP x (push_bit k 1))" "unat (NV_ALIGN_UP x (push_bit k 1)) \<le> unat x + 4095"
    "2 ^ k dvd unat (NV_ALIGN_UP x (push_bit k 1))"
proof -
  have e: "NV_ALIGN_UP x (push_bit k 1) = UVM_ALIGN_UP x (2 ^ k)"
    by (simp add: NV_ALIGN_UP_def UVM_ALIGN_UP_def push_bit_eq_mult add_diff_eq)
  have p: "(2 :: nat) ^ k \<le> 2 ^ 12" using assms(1) by (intro power_increasing) auto
  have u: "unat (UVM_ALIGN_UP x (2 ^ k)) = (unat x + (2 ^ k - 1)) - (unat x + (2 ^ k - 1)) mod 2 ^ k"
    using assms p by (intro align_up_nat(1)) auto
  note r = round_up_least [of "2 ^ k" "unat x + (2 ^ k - 1)" "unat x", OF zero_less_power [OF zero_less_numeral] refl]
  show "unat x \<le> unat (NV_ALIGN_UP x (push_bit k 1))" "2 ^ k dvd unat (NV_ALIGN_UP x (push_bit k 1))"
    using r(1,2) unfolding e u by auto
  show "unat (NV_ALIGN_UP x (push_bit k 1)) \<le> unat x + 4095" unfolding e u using p by simp
qed

lemma unat_down: "unat (x :: u64) < 2 ^ 32 \<Longrightarrow> unat (ucast x :: u32) = unat x"
  by (simp add: unsigned_ucast_eq take_bit_nat_eq_self)

lemma header_offsets:
  assumes "unat h \<le> 12" "unat e \<le> 12"
  shows "32 \<le> unat (tx_rxHdrOff h)" "unat (tx_rxHdrOff h) + 4 \<le> unat (tx_entryOff h e)" "unat (tx_entryOff h e) \<le> 8230"
    "2 ^ unat h dvd unat (tx_rxHdrOff h)" "2 ^ unat e dvd unat (tx_entryOff h e)"
proof -
  let ?r = "NV_ALIGN_UP 32 (push_bit (unat h) 1)"
  note r = nv_align_bounds [OF assms(1), of 32, simplified]
  have ur: "unat (tx_rxHdrOff h) = unat ?r" unfolding tx_rxHdrOff_def using r by (intro unat_down) simp
  let ?x = "ucast (tx_rxHdrOff h) + 4 :: u64" and ?e = "NV_ALIGN_UP (ucast (tx_rxHdrOff h) + 4) (push_bit (unat e) 1)"
  have ux: "unat ?x = unat (tx_rxHdrOff h) + 4"
    using ur r by (subst unat_add_nowrap) auto
  note x = nv_align_bounds [OF assms(2), of ?x, unfolded ux]
  have ue: "unat (tx_entryOff h e) = unat ?e" unfolding tx_entryOff_def using x ur r by (intro unat_down) simp
  show "32 \<le> unat (tx_rxHdrOff h)" "unat (tx_rxHdrOff h) + 4 \<le> unat (tx_entryOff h e)" "unat (tx_entryOff h e) \<le> 8230"
    "2 ^ unat h dvd unat (tx_rxHdrOff h)" "2 ^ unat e dvd unat (tx_entryOff h e)"
    using r x unfolding ue ur by auto
qed

text \<open>A queue that was created in a store of \<open>sz\<close> bytes: its two headers and its entries lie in the store, in this order.\<close>

definition made :: "ptr \<Rightarrow> u32 \<Rightarrow> msgqMetadata \<Rightarrow> bool" where
  "made store sz q \<longleftrightarrow> txLinked q \<and> writePtr (tx q) = 0 \<and> txFree q = msgCount (tx q) - 1
     \<and> pOurRxHdr q = store + ucast (rxHdrOff (tx q)) \<and> pOurEntries q = store + ucast (entryOff (tx q)) \<and> pWriteOutgoing q = store + 16
     \<and> 32 \<le> unat (rxHdrOff (tx q)) \<and> unat (rxHdrOff (tx q)) + 4 \<le> unat (entryOff (tx q))
     \<and> unat (entryOff (tx q)) + unat (msgCount (tx q)) * unat (msgSize (tx q)) \<le> unat sz
     \<and> 1 \<le> unat (msgCount (tx q)) \<and> 16 \<le> unat (msgSize (tx q))"

lemma write_write [simp]: "write_tx_header p h (write_tx_header p h' m) = write_tx_header p h m"
  by (rule ext) (simp add: write_tx_header_def)

lemma read_write [simp]: "read_tx_header p (write_tx_header p h m) = h"
  by (simp add: write_tx_header_def read_tx_header_def)

lemma create_guards:
  assumes "msgqTxCreate zr wr store sz ms h al fl (q0, m) = (0, q, m')"
  shows "\<not> txLinked q0" "16 \<le> unat ms" "unat h \<le> 12" "unat al \<le> 12" "\<not> sz < tx_entryOff h al + ms"
    "q = tx_link store (created_header sz ms h al fl) q0" "m' = write_tx_header store (created_header sz ms h al fl) m"
  using assms by (auto simp: msgqTxCreate_def Let_def MSGQ_MSG_SIZE_MIN_def MSGQ_META_MAX_ALIGN_def not_less word_le_nat_alt
      split: if_splits)

lemma create_ok:
  assumes e: "msgqTxCreate zr wr store sz ms h al fl (msgqInit, m) = (0, q, m')" and sz: "unat sz < 2 ^ 31"
  shows "made store sz q" "m' = write_tx_header store (tx q) m" "rxAvail q = 0" "mq_flags (tx q) = fl" "msgSize (tx q) = ms"
proof -
  let ?eo = "tx_entryOff h al" and ?hd = "created_header sz ms h al fl"
  note g = create_guards [OF e]
  have f: "tx q = ?hd" "txLinked q" "txFree q = msgCount ?hd - 1" "pOurRxHdr q = store + ucast (rxHdrOff ?hd)"
    "pOurEntries q = store + ucast (entryOff ?hd)" "pWriteOutgoing q = store + 16" "rxAvail q = 0"
    unfolding g(6) by (auto simp: tx_link_def tx_pointers_def Let_def)
  note o = header_offsets [OF g(3,4)]
  have "unat ms \<le> unat sz" using e by (auto simp: msgqTxCreate_def not_less word_le_nat_alt split: if_splits)
  then have "unat (?eo + ms) = unat ?eo + unat ms" using o(3) sz by (intro unat_add_nowrap) simp
  then have fit: "unat ?eo + unat ms \<le> unat sz" using g(5) by (simp add: word_less_nat_alt)
  then have d: "unat (msgCount ?hd) = (unat sz - unat ?eo) div unat ms"
    by (simp add: created_header_def unat_div unat_sub word_le_nat_alt)
  have pos: "0 < (unat sz - unat ?eo) div unat ms" using fit g(2) by (simp add: div_greater_zero_iff)
  have le: "unat ?eo + (unat sz - unat ?eo) div unat ms * unat ms \<le> unat sz"
    using div_times_less_eq_dividend [of "unat sz - unat ?eo" "unat ms"] fit by linarith
  have h: "msgSize ?hd = ms" "entryOff ?hd = ?eo" "rxHdrOff ?hd = tx_rxHdrOff h" "writePtr ?hd = 0" "mq_flags ?hd = fl"
    by (simp_all add: created_header_def)
  show "made store sz q" unfolding made_def f d using fit pos le o(1,2) g(2) by (simp add: h f)
  show "m' = write_tx_header store (tx q) m" "rxAvail q = 0" "mq_flags (tx q) = fl" "msgSize (tx q) = ms"
    using g(7) f h by simp_all
qed

lemma link_guards:
  assumes "msgqRxLink zr rd wr store sz ms (q, m) = (0, q', m')"
  shows "rx_check sz ms (tx q) (read_tx_header store m) = 0"
    "q' = rx_link store (read_tx_header store m) (q\<lparr>pTheirTxHdr := store, rx := read_tx_header store m\<rparr>)"
    "m' = m(pReadOutgoing q' := 0)"
proof -
  have z: "rxReadPtr (rx_link store r q) = 0" for r q by (simp add: rx_link_def)
  show "rx_check sz ms (tx q) (read_tx_header store m) = 0"
    "q' = rx_link store (read_tx_header store m) (q\<lparr>pTheirTxHdr := store, rx := read_tx_header store m\<rparr>)"
    "m' = m(pReadOutgoing q' := 0)"
    using assms by (auto simp: msgqRxLink_def Let_def z split: if_splits)
qed

lemma link_ok:
  assumes e: "msgqRxLink zr rd wr store sz ms (q, m) = (0, q', m')" and q: "txLinked q" and r: "read_tx_header store m = r"
  shows "rx q' = r" "rxLinked q'" "pTheirEntries q' = store + ucast (entryOff r)" "pWriteIncoming q' = store + 16" "rxReadPtr q' = 0"
    "pReadOutgoing q' = (if swap_rx (tx q) r then pOurRxHdr q else store + ucast (rxHdrOff r))"
    "pReadIncoming q' = (if swap_rx (tx q) r then store + ucast (rxHdrOff r) else pOurRxHdr q)"
    "rxAvail q' = rxAvail q" "tx q' = tx q" "txFree q' = txFree q" "txLinked q'"
    "pOurEntries q' = pOurEntries q" "pWriteOutgoing q' = pWriteOutgoing q"
  using q r unfolding link_guards(2) [OF e] by (auto simp: rx_link_def rx_pointers_def Let_def)

section \<open>Two stores\<close>

definition apart :: "ptr \<Rightarrow> u32 \<Rightarrow> ptr \<Rightarrow> u32 \<Rightarrow> bool" where
  "apart sa za sb zb \<longleftrightarrow> unat sa + unat za \<le> 2 ^ 64 \<and> unat sb + unat zb \<le> 2 ^ 64
     \<and> (unat sa + unat za \<le> unat sb \<or> unat sb + unat zb \<le> unat sa)"

lemma apart_sym: "apart sa za sb zb \<Longrightarrow> apart sb zb sa za"
  by (auto simp: apart_def)

lemma apart_neq:
  fixes o1 o2 :: u32
  assumes "apart sa za sb zb" "unat o1 < unat za" "unat o2 < unat zb"
  shows "sa + ucast o1 \<noteq> sb + ucast o2"
proof -
  have "unat (sa + ucast o1) = unat sa + unat o1" "unat (sb + ucast o2) = unat sb + unat o2"
    using assms unat_add_nowrap [of sa "ucast o1"] unat_add_nowrap [of sb "ucast o2"] by (auto simp: apart_def)
  then show ?thesis using assms by (auto simp: apart_def)
qed

lemma small_off: "k < 32 \<Longrightarrow> (of_nat k :: ptr) = ucast (of_nat k :: u32)" "k < 32 \<Longrightarrow> unat (of_nat k :: u32) = k"
proof -
  assume k: "k < 32"
  then show u: "unat (of_nat k :: u32) = k" by (simp add: unsigned_of_nat take_bit_nat_eq_self)
  have "unat (of_nat k :: ptr) = k" using k by (simp add: unsigned_of_nat take_bit_nat_eq_self)
  then show "(of_nat k :: ptr) = ucast (of_nat k :: u32)" using u by (metis unat_up word_unat_eq_iff)
qed

lemma write_out: "\<forall>k < 32. p \<noteq> s + of_nat k \<Longrightarrow> write_tx_header s h m p = m p"
proof -
  assume a: "\<forall>k < 32. p \<noteq> s + of_nat k"
  have "p \<noteq> s" "p \<noteq> s + 4" "p \<noteq> s + 8" "p \<noteq> s + 12" "p \<noteq> s + 16" "p \<noteq> s + 20" "p \<noteq> s + 24" "p \<noteq> s + 28"
    using a [rule_format, of 0] a [rule_format, of 4] a [rule_format, of 8] a [rule_format, of 12] a [rule_format, of 16]
      a [rule_format, of 20] a [rule_format, of 24] a [rule_format, of 28] by simp_all
  then show ?thesis by (simp add: write_tx_header_def)
qed

lemma read_cong: "\<forall>k < 32. m' (s + of_nat k) = m (s + of_nat k) \<Longrightarrow> read_tx_header s m' = read_tx_header s m"
proof -
  assume a: "\<forall>k < 32. m' (s + of_nat k) = m (s + of_nat k)"
  show ?thesis
    using a [rule_format, of 0] a [rule_format, of 4] a [rule_format, of 8] a [rule_format, of 12] a [rule_format, of 16]
      a [rule_format, of 20] a [rule_format, of 24] a [rule_format, of 28] by (simp add: read_tx_header_def)
qed

lemma made_words:
  assumes a: "made sa za a" and b: "made sb zb b" and ap: "apart sa za sb zb"
  shows "k < 32 \<Longrightarrow> j < 32 \<Longrightarrow> sa + of_nat k \<noteq> sb + of_nat j"
    "k < 32 \<Longrightarrow> sa + ucast (rxHdrOff (tx a)) \<noteq> sa + of_nat k"
    "k < 32 \<Longrightarrow> sb + ucast (rxHdrOff (tx b)) \<noteq> sa + of_nat k"
    "sa + ucast (rxHdrOff (tx a)) \<noteq> sb + ucast (rxHdrOff (tx b))"
    "i < unat (msgCount (tx a)) \<Longrightarrow> j < unat (msgCount (tx b)) \<Longrightarrow> entry_addr a i \<noteq> entry_addr b j"
proof -
  have z: "32 \<le> unat za" "32 \<le> unat zb" "unat (rxHdrOff (tx a)) < unat za" "unat (rxHdrOff (tx b)) < unat zb"
    using a b by (auto simp: made_def)
  show "sa + of_nat k \<noteq> sb + of_nat j" if "k < 32" "j < 32"
    using that apart_neq [OF ap, of "of_nat k" "of_nat j"] small_off z by simp
  show "sa + ucast (rxHdrOff (tx a)) \<noteq> sa + of_nat k" if k: "k < 32"
  proof
    assume "sa + ucast (rxHdrOff (tx a)) = sa + of_nat k"
    then have "unat (ucast (rxHdrOff (tx a)) :: u64) = unat (of_nat k :: u64)" by simp
    then have "unat (rxHdrOff (tx a)) = k" using small_off [OF k] by simp
    then show False using a k by (simp add: made_def)
  qed
  show "sb + ucast (rxHdrOff (tx b)) \<noteq> sa + of_nat k" if "k < 32"
    using that apart_neq [OF ap, of "of_nat k" "rxHdrOff (tx b)"] small_off z by simp
  show "sa + ucast (rxHdrOff (tx a)) \<noteq> sb + ucast (rxHdrOff (tx b))"
    by (rule apart_neq [OF ap z(3,4)])
  have off: "\<exists>x :: u32. entry_addr q i = s + ucast x \<and> unat x < unat y" if "made s y q" "i < unat (msgCount (tx q))" for s y q i
  proof -
    let ?m = "unat (msgSize (tx q))" and ?n = "unat (msgCount (tx q))" and ?e = "entryOff (tx q)"
    have f: "unat ?e + ?n * ?m \<le> unat y" "0 < ?m" "pOurEntries q = s + ucast ?e" using that(1) by (auto simp: made_def)
    have "i * ?m + ?m \<le> ?n * ?m" using that(2) mult_le_mono1 [of "Suc i" ?n ?m] by simp
    then have lt: "unat ?e + i * ?m < unat y" using f by linarith
    have "unat y < 2 ^ 32" using unsigned_less [of y, where 'a = nat] by simp
    then have u: "unat (of_nat i * msgSize (tx q) :: u32) = i * ?m"
      using lt by (intro unat_scaled) linarith
    let ?x = "?e + of_nat i * msgSize (tx q)"
    have x: "unat ?x = unat ?e + i * ?m" using u lt \<open>unat y < 2 ^ 32\<close> unat_add_nowrap [of ?e "of_nat i * msgSize (tx q)"] by simp
    then have "(ucast ?x :: u64) = ucast ?e + ucast (of_nat i * msgSize (tx q) :: u32)"
      using u lt \<open>unat y < 2 ^ 32\<close> by (intro word_unat_eq_iff [THEN iffD2]) (subst unat_add_nowrap; simp)
    then show ?thesis using f(3) lt x by (intro exI [of _ ?x]) (simp add: entry_addr_def add.assoc)
  qed
  show "entry_addr a i \<noteq> entry_addr b j" if "i < unat (msgCount (tx a))" "j < unat (msgCount (tx b))"
    using off [OF a that(1)] off [OF b that(2)] apart_neq [OF ap] by metis
qed

text \<open>One direction after both links.\<close>

lemma linked_dir:
  assumes a: "made sa za a" and eq: "tx a' = tx a" "txFree a' = txFree a" "txLinked a'" "pOurEntries a' = pOurEntries a" "pWriteOutgoing a' = pWriteOutgoing a"
    and b: "rx b' = tx a" "rxLinked b'" "pTheirEntries b' = sa + ucast (entryOff (tx a))" "pWriteIncoming b' = sa + 16" "rxReadPtr b' = 0" "rxAvail b' = 0"
    and w: "pReadIncoming a' = pReadOutgoing b'" "m (sa + 16) = 0" "m (pReadOutgoing b') = 0" "pReadOutgoing b' \<noteq> sa + 16"
  shows "dir_inv a' b' m" "dir_used a' b' = 0"
proof -
  let ?n = "unat (msgCount (tx a))" and ?s = "unat (msgSize (tx a))"
  have f: "unat (entryOff (tx a)) + ?n * ?s \<le> unat za" "1 \<le> ?n" "16 \<le> ?s" "writePtr (tx a) = 0" "txFree a = msgCount (tx a) - 1"
    "pOurEntries a = sa + ucast (entryOff (tx a))" "pWriteOutgoing a = sa + 16"
    using a by (auto simp: made_def)
  have lt: "?n * ?s < 2 ^ 32" using f(1) unsigned_less [of za, where 'a = nat] by simp
  moreover have "?n * 2 \<le> ?n * ?s" using f(3) by (intro mult_le_mono2) simp
  ultimately have "?n * 2 < 2 ^ 32" by (rule le_less_trans [rotated])
  then have n: "?n \<le> 2 ^ 31" by simp
  have "unat (msgCount (tx a) - 1) = ?n - 1" using f(2) by (simp add: unat_sub word_le_nat_alt)
  then show "dir_inv a' b' m" "dir_used a' b' = 0"
    using f lt n eq b w by (auto simp: dir_inv_def dir_used_def dir_room_def ring_used_def)
qed

text \<open>Both ends create their queue and link to that of the peer.\<close>

definition mq_opened ::
  "ptr \<Rightarrow> u32 \<Rightarrow> u32 \<Rightarrow> ptr \<Rightarrow> u32 \<Rightarrow> u32 \<Rightarrow> shm \<Rightarrow> bool \<Rightarrow> bool \<Rightarrow> u32 \<times> u32 \<times> u32 \<Rightarrow> u32 \<times> u32 \<times> u32 \<Rightarrow> (msgqMetadata \<times> msgqMetadata \<times> shm) option" where
  "mq_opened sa za na sb zb nb m zra zrb pa pb =
     (case pa of (ha, ea, fa) \<Rightarrow> case pb of (hb, eb, fb) \<Rightarrow>
      case msgqTxCreate zra True sa za na ha ea fa (msgqInit, m) of (s1, a1, m1) \<Rightarrow>
      case msgqTxCreate zrb True sb zb nb hb eb fb (msgqInit, m1) of (s2, b1, m2) \<Rightarrow>
      case msgqRxLink zra True True sb zb nb (a1, m2) of (s3, a2, m3) \<Rightarrow>
      case msgqRxLink zrb True True sa za na (b1, m3) of (s4, b2, m4) \<Rightarrow>
      if s1 = 0 \<and> s2 = 0 \<and> s3 = 0 \<and> s4 = 0 then Some (a2, b2, m4) else None)"

lemma opened_wf:
  assumes e: "mq_opened sa za na sb zb nb m zra zrb pa pb = Some (a, b, m')"
    and ap: "apart sa za sb zb" and z: "unat za < 2 ^ 31" "unat zb < 2 ^ 31"
  shows "mq_wf (a, b, m', sl)" "dir_items a b sl = []" "dir_items b a sl = []"
proof -
  obtain ha ea fa hb eb fb where pr: "pa = (ha, ea, fa)" "pb = (hb, eb, fb)" by (metis prod_cases3)
  obtain a1 m1 b1 m2 m3 where c1: "msgqTxCreate zra True sa za na ha ea fa (msgqInit, m) = (0, a1, m1)"
    and c2: "msgqTxCreate zrb True sb zb nb hb eb fb (msgqInit, m1) = (0, b1, m2)"
    and l1: "msgqRxLink zra True True sb zb nb (a1, m2) = (0, a, m3)"
    and l2: "msgqRxLink zrb True True sa za na (b1, m3) = (0, b, m')"
    using e by (auto simp: mq_opened_def pr split: prod.splits if_splits)
  note A = create_ok [OF c1 z(1)] and B = create_ok [OF c2 z(2)]
  note W = made_words [OF A(1) B(1) ap] and V = made_words [OF B(1) A(1) apart_sym [OF ap]]
  have link: "txLinked a1" "txLinked b1" "pOurRxHdr a1 = sa + ucast (rxHdrOff (tx a1))" "pOurRxHdr b1 = sb + ucast (rxHdrOff (tx b1))"
    and wp: "writePtr (tx a1) = 0" "writePtr (tx b1) = 0" and wo: "pWriteOutgoing a1 = sa + 16" "pWriteOutgoing b1 = sb + 16"
    using A(1) B(1) by (auto simp: made_def)
  have r2: "read_tx_header sb m2 = tx b1" using B(2) by simp
  note L1 = link_ok [OF l1 link(1) r2] and G1 = link_guards(3) [OF l1]
  have "read_tx_header sa m3 = read_tx_header sa m2"
    by (rule read_cong) (use W(2,3) in \<open>auto simp: G1 L1(6) link(3) dest: sym\<close>)
  also have "\<dots> = read_tx_header sa m1"
    by (rule read_cong) (use W(1) in \<open>auto simp: B(2) intro!: write_out\<close>)
  finally have r3: "read_tx_header sa m3 = tx a1" using A(2) by simp
  note L2 = link_ok [OF l2 link(2) r3] and G2 = link_guards(3) [OF l2]
  have sw: "swap_rx (tx b1) (tx a1) = swap_rx (tx a1) (tx b1)" by (auto simp: swap_rx_def)
  let ?RA = "sa + ucast (rxHdrOff (tx a1))" and ?RB = "sb + ucast (rxHdrOff (tx b1))"
  have d: "?RA \<noteq> sa + 16" "?RB \<noteq> sa + 16" "?RA \<noteq> sb + 16" "?RB \<noteq> sb + 16" "sa + 16 \<noteq> sb + 16" "?RA \<noteq> ?RB"
    using W(2,3) [of 16] V(2,3) [of 16] W(1) [of 16 16] W(4) by simp_all
  have h: "m2 (sa + 16) = 0" "m2 (sb + 16) = 0"
  proof -
    have "m2 (sa + 16) = m1 (sa + 16)" unfolding B(2) using W(1) [of 16] by (intro write_out) simp
    also have "\<dots> = 0" using A(2) wp by (simp add: write_tx_header_def)
    finally show "m2 (sa + 16) = 0" .
    show "m2 (sb + 16) = 0" using B(2) wp by (simp add: write_tx_header_def)
  qed
  have ro: "pReadOutgoing a = (if swap_rx (tx a1) (tx b1) then ?RA else ?RB)" "pReadOutgoing b = (if swap_rx (tx a1) (tx b1) then ?RB else ?RA)"
    using L1(6) L2(6) link sw by simp_all
  have mw: "m' (sa + 16) = 0" "m' (sb + 16) = 0" "m' (pReadOutgoing a) = 0" "m' (pReadOutgoing b) = 0"
    using h d by (auto simp: G1 G2 ro)
  have ri: "pReadIncoming a = pReadOutgoing b" "pReadIncoming b = pReadOutgoing a" using L1(7) L2(7) link sw ro by simp_all
  have ne: "pReadOutgoing b \<noteq> sa + 16" "pReadOutgoing a \<noteq> sb + 16" using d ro by simp_all
  note D = linked_dir [OF A(1) L1(9-13) L2(1-5) trans [OF L2(8) B(3)] ri(1) mw(1,4) ne(1)]
    and E = linked_dir [OF B(1) L2(9-13) L1(1-5) trans [OF L1(8) A(3)] ri(2) mw(2,3) ne(2)]
  have ad: "entry_addr a = entry_addr a1" "entry_addr b = entry_addr b1"
    using L1(9,12) L2(9,12) by (auto simp: entry_addr_def)
  show "mq_wf (a, b, m', sl)" using D E d W(5) L1(9,13) L2(9,13) by (auto simp: ro wo ad)
  show "dir_items a b sl = []" "dir_items b a sl = []" using D(2) E(2) by (simp_all add: dir_items_def)
qed

section \<open>Properties\<close>

text \<open>
  C34.  Two ends that created their queues in separate stores and linked to each other exchange messages in order and
  without loss, whatever the two ends do, in both directions, and whichever accesses the backend refuses:
  what \<open>a\<close> has submitted is what \<open>b\<close> has consumed, followed by what the ring holds.
\<close>

theorem msgq_fifo:
  assumes "mq_opened sa za na sb zb nb m zra zrb pa pb = Some (a, b, m')"
    and "apart sa za sb zb" "unat za < 2 ^ 31" "unat zb < 2 ^ 31"
    and "fifo_run mq_items mq_may mq_a mq_sent mq_b mq_idle ops (a, b, m', sl) = (s, S, R)"
  shows "S = R @ mq_items s"
proof -
  note o = opened_wf [OF assms(1-4), of sl]
  show ?thesis using mq.run_fifo [OF o(1) assms(5)] o(2) by simp
qed

text \<open>
  The entry \<open>n\<close> that the receiver gets is message \<open>n\<close> of the ring; when the backend answers, it gets every message of the ring
  and none beyond.
\<close>

theorem msgq_read_exact:
  assumes "mq_wf (a, b, m, sl)" "msgqRxGetReadBuffer rd m n b = (p, b')"
  shows "case p of Some z \<Rightarrow> unat n < length (mq_items (a, b, m, sl)) \<and> sl z = mq_items (a, b, m, sl) ! unat n
    | None \<Rightarrow> rd \<longrightarrow> length (mq_items (a, b, m, sl)) \<le> unat n"
proof -
  have "dir_inv a b m" using assms(1) by simp
  from read_item [OF this assms(2), of sl] show ?thesis unfolding mq_items.simps .
qed

text \<open>
  C35.  The counters are exact when the backend answers: the free entries, the messages of the ring and one entry that is
  always left make up the ring, and both ends count the messages of the ring.
\<close>

theorem msgq_counts_exact:
  assumes "mq_wf (a, b, m, sl)"
  shows "unat (fst (msgqTxGetFreeSpace True m a)) + length (mq_items (a, b, m, sl)) + 1 = unat (msgCount (tx a))
    \<and> unat (fst (msgqRxGetReadAvailable True m b)) = length (mq_items (a, b, m, sl))
    \<and> unat (fst (msgqTxGetPending True m a)) = length (mq_items (a, b, m, sl))"
proof (intro conjI)
  have i: "dir_inv a b m" using assms by simp
  then have l: "txLinked a" by (simp add: dir_inv_def)
  obtain f q where f: "msgqTxGetFreeSpace True m a = (f, q)" by fastforce
  have u: "unat f = dir_room a b" using tx_room [OF i f] by auto
  show "unat (fst (msgqTxGetFreeSpace True m a)) + length (mq_items (a, b, m, sl)) + 1 = unat (msgCount (tx a))"
    using u dir_bounds [OF i] f by (simp add: dir_items_def)
  show "unat (fst (msgqRxGetReadAvailable True m b)) = length (mq_items (a, b, m, sl))"
    using rx_avail [OF i prod.collapse [symmetric], of True] by (auto simp: dir_items_def)
  have "f \<le> msgCount (tx a)" "1 \<le> msgCount (tx a) - f"
    using u dir_bounds [OF i] by (simp_all add: word_le_nat_alt unat_sub)
  then show "unat (fst (msgqTxGetPending True m a)) = length (mq_items (a, b, m, sl))"
    using u dir_bounds [OF i] f l by (simp add: msgqTxGetPending_def msgqTxSync_def dir_items_def unat_sub)
qed

text \<open>
  A message written to entry \<open>n\<close> is the one staged at position \<open>n\<close>, and nothing else staged changes.
\<close>

theorem msgq_write_stages:
  assumes "mq_wf (a, b, m, sl)" "msgqTxGetWriteBuffer rd m n a = (Some p, a')" "k \<le> unat (msgCount (tx a))"
  shows "staged a' (sl(p := x)) k = (staged a sl k)[unat n := x]"
proof (rule nth_equalityI)
  let ?N = "unat (msgCount (tx a))" and ?w = "unat (writePtr (tx a))"
  have i: "dir_inv a b m" using assms(1) by simp
  have s: "unat n < dir_room a b" "p = entry_addr a ((?w + unat n) mod ?N)" and "\<exists>r g. a' = a\<lparr>txReadPtr := r, txFree := g\<rparr>"
    using write_buffer_spec [OF i assms(2)] by auto
  then have a': "tx a' = tx a" "entry_addr a' = entry_addr a" by (auto simp: entry_addr_def fun_eq_iff)
  have N: "0 < ?N" "unat n < ?N" using s(1) dir_bounds [OF i] by simp_all
  fix j assume "j < length (staged a' (sl(p := x)) k)"
  then have j: "j < k" "j < ?N" using assms(3) by (simp_all add: staged_def)
  have "(?w + j) mod ?N = (?w + unat n) mod ?N \<longleftrightarrow> j = unat n"
    using ring_index_neq [of j "unat n" ?N ?w] ring_index_neq [of "unat n" j ?N ?w] j N by (metis linorder_neqE_nat)
  then have "entry_addr a ((?w + j) mod ?N) = p \<longleftrightarrow> j = unat n"
    using entry_addr_inj [OF i, of "(?w + j) mod ?N" "(?w + unat n) mod ?N"] N s(2) by auto
  then show "staged a' (sl(p := x)) k ! j = (staged a sl k)[unat n := x] ! j"
    using j N a' by (auto simp: staged_def ring_items_def ring_of_def nth_list_update)
qed (simp add: staged_def)

section \<open>What linking checks\<close>

text \<open>
  C36.  A header that puts the entries almost 4 GiB behind its store passes every check, because the offset plus the message
  size wraps, and so does the size minus the offset: the end links, and reads messages from there.
\<close>

theorem msgq_link_outside:
  assumes "\<not> rxLinked q" "store \<noteq> 0" "16 \<le> ms" "ms \<le> sz" "unat ms < 2 ^ 31" "unat (rxHdrOff (tx q)) \<le> 4096"
    and "read_tx_header store m = \<lparr>version = 0, mq_size = sz, msgSize = ms, msgCount = (sz + ms) div ms, writePtr = w, mq_flags = fl,
           rxHdrOff = 32, entryOff = - ms\<rparr>"
  shows "case msgqRxLink zr True True store sz ms (q, m) of (st, q', m') \<Rightarrow> st = 0 \<and> pTheirEntries q' = store + ucast (- ms)"
proof -
  let ?r = "read_tx_header store m"
  have "(unat ms + unat (- ms)) mod 2 ^ 32 = 0" using unat_word_ariths(1) [of ms "- ms"] by simp
  then have "2 ^ 32 dvd unat ms + unat (- ms)" by (rule mod_0_imp_dvd)
  moreover have "0 < unat ms" using assms(3) by (simp add: word_le_nat_alt)
  ultimately have "2 ^ 32 \<le> unat ms + unat (- ms)" by (intro dvd_imp_le) auto
  then have "unat (- ms) \<ge> 2 ^ 31" using assms(5) by simp
  moreover have "unat (ucast (rxHdrOff (tx q)) + 4 :: u64) \<le> 4100"
    using assms(6) by (subst unat_add_nowrap) auto
  ultimately have "\<not> (ucast (- ms) :: u64) < ucast (rxHdrOff (tx q)) + 4" by (simp add: word_less_nat_alt)
  then have "rx_check sz ms (tx q) ?r = 0" using assms(7) by (simp add: rx_check_def MSGQ_VERSION_def)
  then show ?thesis using assms by (auto simp: msgqRxLink_def MSGQ_MSG_SIZE_MIN_def Let_def rx_link_def rx_pointers_def)
qed

text \<open>
  Two queues created with different header alignments cannot be linked: the check compares the peer's entries with the
  end's own offset of the second header, and refuses a good queue.
\<close>

theorem msgq_link_refuses_valid:
  "case msgqTxCreate False True 0x10000 0x4000 16 12 3 0 (msgqInit, \<lambda>_. 0) of (s1, a, m1) \<Rightarrow>
   case msgqTxCreate False True 0x20000 0x4000 16 3 3 0 (msgqInit, m1) of (s2, b, m2) \<Rightarrow>
     s1 = 0 \<and> s2 = 0 \<and> fst (msgqRxLink False True True 0x20000 0x4000 16 (a, m2)) = -10
       \<and> fst (msgqRxLink False True True 0x10000 0x4000 16 (b, m2)) = 0"
  by code_simp

text \<open>
  A creation that the backend refuses leaves the queue marked as created, so that no later attempt succeeds.
\<close>

theorem msgq_failed_create_linked:
  assumes "msgqTxCreate zr True store sz ms h al fl (q, m) = (0, q1, m1)"
  shows "case msgqTxCreate zr False store sz ms h al fl (q, m) of (st, q', m') \<Rightarrow>
    st = -1 \<and> (\<forall>m2. fst (msgqTxCreate zr True store sz ms h al fl (q', m2)) = -1)"
proof -
  have "txLinked (tx_link store hd q)" for hd by (simp add: tx_link_def tx_pointers_def Let_def)
  then show ?thesis using assms by (auto simp: msgqTxCreate_def Let_def split: if_splits)
qed

section \<open>Examples\<close>

text \<open>Two linked ends; the first writes and submits two messages, the second consumes one.\<close>

definition ex_pair :: "msgqMetadata \<times> msgqMetadata \<times> shm" where
  "ex_pair = the (mq_opened 0x10000 192 32 0x20000 192 32 (\<lambda>_. 0) False True (3, 4, 1) (3, 3, 1))"

definition ex_ops :: "(nat mq_op, nat mq_op, unit) queue_op list" where
  "ex_ops = [Put (Tx_write True 0 5), Put (Tx_write True 1 6), Put (Tx_submit False False 2), Put (Tx_submit True True 2),
     Retire (Rx_read True 0), Retire (Rx_consume True True 1)]"

definition ex_run :: "nat mq_pair \<times> nat list \<times> nat list" where
  "ex_run = (case ex_pair of (a, b, m) \<Rightarrow> fifo_run mq_items mq_may mq_a mq_sent mq_b mq_idle ex_ops (a, b, m, \<lambda>_. 0))"

lemma ex_pair_opened: "mq_opened 0x10000 192 32 0x20000 192 32 (\<lambda>_. 0) False True (3, 4, 1) (3, 3, 1) = Some ex_pair"
proof -
  have "(case mq_opened 0x10000 192 32 0x20000 192 32 (\<lambda>_. 0) False True (3, 4, 1) (3, 3, 1) of None \<Rightarrow> False | Some x \<Rightarrow> True)"
    by code_simp
  then show ?thesis unfolding ex_pair_def by (auto split: option.splits)
qed

lemma ex_apart: "apart 0x10000 192 0x20000 192" "unat (192 :: u32) < 2 ^ 31"
  by (simp_all add: apart_def)

lemma ex_run_fifo:
  assumes "ex_pair = (a, b, m)"
  shows "fifo_run mq_items mq_may mq_a mq_sent mq_b mq_idle ex_ops (a, b, m, \<lambda>_. 0) = ex_run"
  unfolding ex_run_def assms prod.case ..

lemma ex_state_wf: "mq_wf (fst ex_run)"
proof -
  obtain a b m where p: "ex_pair = (a, b, m)" by (metis prod_cases3)
  obtain s S R where r: "ex_run = (s, S, R)" by (metis prod_cases3)
  have w: "mq_wf (a, b, m, (\<lambda>_. 0 :: nat))" by (rule opened_wf(1) [OF ex_pair_opened [unfolded p] ex_apart(1,2,2)])
  show ?thesis unfolding r fst_conv by (rule mq.run_fifo [OF w ex_run_fifo [OF p, unfolded r], THEN conjunct1])
qed

lemma ex_run_values:
  "case ex_run of ((a, b, m, sl), S, R) \<Rightarrow> S = [5, 6] \<and> R = [5] \<and> mq_items (a, b, m, sl) = [6] \<and> 2 \<le> unat (msgCount (tx a))
     \<and> fst (msgqRxGetReadBuffer True m 0 b) \<noteq> None
     \<and> (case msgqTxGetWriteBuffer True m 1 a of (p, a') \<Rightarrow> p \<noteq> None \<and> staged a' (sl(the p := 9)) 2 = [0, 9])"
  by code_simp

lemma ex_run_cases:
  obtains a b m sl z a' where "fst ex_run = (a, b, m, sl)" "ex_run = ((a, b, m, sl), [5, 6], [5])" "mq_wf (a, b, m, sl)" "mq_items (a, b, m, sl) = [6]"
    "2 \<le> unat (msgCount (tx a))" "fst (msgqRxGetReadBuffer True m 0 b) \<noteq> None"
    "msgqTxGetWriteBuffer True m 1 a = (Some z, a')" "staged a' (sl(z := 9)) 2 = [0, 9]"
proof -
  obtain a b m sl S R where e: "ex_run = ((a, b, m, sl), S, R)" by (metis prod_cases4 prod_cases3)
  have w: "mq_wf (a, b, m, sl)" using ex_state_wf unfolding e by simp
  obtain p a' where p: "msgqTxGetWriteBuffer True m 1 a = (p, a')" by fastforce
  have "S = [5, 6]" "R = [5]" "mq_items (a, b, m, sl) = [6]" "2 \<le> unat (msgCount (tx a))" "fst (msgqRxGetReadBuffer True m 0 b) \<noteq> None"
    "p \<noteq> None" "staged a' (sl(the p := 9)) 2 = [0, 9]"
    using ex_run_values unfolding e by (auto simp: p)
  then show thesis by (intro that [of a b m sl "the p" a']) (simp_all add: e w p del: mq_wf.simps mq_items.simps)
qed

theorem msgq_fifo_witness:
  "case ex_run of (s, S, R) \<Rightarrow> S = R @ mq_items s \<and> S = [5, 6] \<and> R = [5]"
proof -
  obtain a b m where p: "ex_pair = (a, b, m)" by (metis prod_cases3)
  obtain s where r: "ex_run = (s, [5, 6], [5])" by (rule ex_run_cases) blast
  show ?thesis unfolding r
    using msgq_fifo [OF ex_pair_opened [unfolded p] ex_apart(1,2,2) ex_run_fifo [OF p, unfolded r]] by simp
qed

theorem msgq_read_exact_witness:
  "case fst ex_run of (a, b, m, sl) \<Rightarrow>
     map_option sl (fst (msgqRxGetReadBuffer True m 0 b)) = Some (mq_items (a, b, m, sl) ! 0) \<and> mq_items (a, b, m, sl) ! 0 = 6"
proof -
  obtain a b m sl where e: "fst ex_run = (a, b, m, sl)" "mq_wf (a, b, m, sl)" "mq_items (a, b, m, sl) = [6]"
    "fst (msgqRxGetReadBuffer True m 0 b) \<noteq> None" by (rule ex_run_cases) blast
  show ?thesis
    using msgq_read_exact [OF e(2) prod.collapse [symmetric], of True 0] e(3,4) unfolding e(1) by auto
qed

theorem msgq_counts_exact_witness:
  "case fst ex_run of (a, b, m, sl) \<Rightarrow>
     unat (fst (msgqTxGetFreeSpace True m a)) + length (mq_items (a, b, m, sl)) + 1 = unat (msgCount (tx a))
     \<and> unat (fst (msgqRxGetReadAvailable True m b)) = length (mq_items (a, b, m, sl))
     \<and> unat (fst (msgqTxGetPending True m a)) = length (mq_items (a, b, m, sl)) \<and> mq_items (a, b, m, sl) = [6]"
proof -
  obtain a b m sl where e: "fst ex_run = (a, b, m, sl)" "mq_wf (a, b, m, sl)" "mq_items (a, b, m, sl) = [6]" by (rule ex_run_cases) blast
  show ?thesis using msgq_counts_exact [OF e(2)] e(3) unfolding e(1) by simp
qed

theorem msgq_write_stages_witness:
  "case fst ex_run of (a, b, m, sl) \<Rightarrow> case msgqTxGetWriteBuffer True m 1 a of (p, a') \<Rightarrow>
     staged a' (sl(the p := 9)) 2 = (staged a sl 2)[1 := 9] \<and> staged a' (sl(the p := 9)) 2 = [0, 9]"
proof -
  obtain a b m sl z a' where e: "fst ex_run = (a, b, m, sl)" "mq_wf (a, b, m, sl)" "2 \<le> unat (msgCount (tx a))"
    "msgqTxGetWriteBuffer True m 1 a = (Some z, a')" "staged a' (sl(z := 9)) 2 = [0, 9]" by (rule ex_run_cases) blast
  show ?thesis using msgq_write_stages [OF e(2,4,3), of 9] e(4,5) unfolding e(1) by simp
qed

theorem msgq_link_outside_witness:
  "case msgqRxLink False True True 0x1000 4096 16 (msgqInit,
      write_tx_header 0x1000 \<lparr>version = 0, mq_size = 4096, msgSize = 16, msgCount = 257, writePtr = 0, mq_flags = 0, rxHdrOff = 32, entryOff = - 16\<rparr> (\<lambda>_. 0))
    of (st, q', m') \<Rightarrow> st = 0 \<and> pTheirEntries q' = 0x1000 + 0xFFFFFFF0"
proof -
  let ?h = "\<lparr>version = 0, mq_size = 4096, msgSize = 16, msgCount = 257, writePtr = 0, mq_flags = 0, rxHdrOff = 32, entryOff = - 16\<rparr> :: msgqTxHeader"
  have "case msgqRxLink False True True 0x1000 4096 16 (msgqInit, write_tx_header 0x1000 ?h (\<lambda>_. 0))
    of (st, q', m') \<Rightarrow> st = 0 \<and> pTheirEntries q' = 0x1000 + ucast (- 16 :: u32)"
    by (rule msgq_link_outside [where w = 0 and fl = 0]) (simp_all add: msgqInit_def zero_header_def)
  moreover have "(0x1000 + ucast (- 16 :: u32) :: u64) = 0x1000 + 0xFFFFFFF0" by code_simp
  ultimately show ?thesis by simp
qed

theorem msgq_failed_create_linked_witness:
  "case msgqTxCreate False False 0x1000 4096 16 3 3 0 (msgqInit, \<lambda>_. 0) of (st, q', m') \<Rightarrow>
    st = -1 \<and> (\<forall>m2. fst (msgqTxCreate False True 0x1000 4096 16 3 3 0 (q', m2)) = -1)"
proof -
  obtain st q1 m1 where e: "msgqTxCreate False True 0x1000 4096 16 3 3 0 (msgqInit, \<lambda>_. 0) = (st, q1, m1)" by (metis prod_cases3)
  have "fst (msgqTxCreate False True 0x1000 4096 16 3 3 0 (msgqInit, \<lambda>_. 0)) = 0" by code_simp
  then have "st = 0" unfolding e by simp
  then show ?thesis by (intro msgq_failed_create_linked [OF e [unfolded \<open>st = 0\<close>]])
qed

end
