(* ===== verification/Rm_Gsp_Queue.thy ===== *)
theory Rm_Gsp_Queue
  imports Rm_Msgq_Pair
begin

text \<open>
  The records that the driver and the GSP firmware exchange over a pair of message queues
  (\<^verbatim>\<open>message_queue_cpu.c\<close>, \<^verbatim>\<open>message_queue_priv.h\<close>): a record spans several entries of a queue and carries a
  checksum, protocol headers and a sequence number.  This theory holds the state and the operations; the
  staging area is a list of 64-bit words, the content of a queue entry another one.
\<close>

section \<open>Fields\<close>

type_synonym words = "u64 list"

type_synonym slots = "ptr \<Rightarrow> words"

definition lo32 :: "u64 \<Rightarrow> u32" where
  "lo32 w = ucast w"

definition hi32 :: "u64 \<Rightarrow> u32" where
  "hi32 w = ucast (drop_bit 32 w)"

definition mk64 :: "u32 \<Rightarrow> u32 \<Rightarrow> u64" where
  "mk64 h l = push_bit 32 (ucast h) OR ucast l"

definition set_lo :: "nat \<Rightarrow> u32 \<Rightarrow> words \<Rightarrow> words" where
  "set_lo k v st = st[k := mk64 (hi32 (st ! k)) v]"

definition REF_NUM :: "nat \<Rightarrow> nat \<Rightarrow> u32 \<Rightarrow> u32" where
  "REF_NUM hi lo n = push_bit lo (n AND mask (hi - lo + 1))"

definition REF_VAL :: "nat \<Rightarrow> nat \<Rightarrow> u32 \<Rightarrow> u32" where
  "REF_VAL hi lo v = drop_bit lo v AND mask (hi - lo + 1)"

definition mctpCreateTransportHeader :: "u8 \<Rightarrow> u8 \<Rightarrow> u8 \<Rightarrow> u8 \<Rightarrow> u8 \<Rightarrow> u32" where
  "mctpCreateTransportHeader som eom seid deid sq =
     REF_NUM 3 0 1 OR REF_NUM 23 16 (ucast seid) OR REF_NUM 15 8 (ucast deid) OR REF_NUM 29 28 (ucast sq)
     OR REF_NUM 30 30 (ucast eom) OR REF_NUM 31 31 (ucast som)"

definition mctpCreateNvdmHeader :: "u8 \<Rightarrow> u32" where
  "mctpCreateNvdmHeader nvdmType = REF_NUM 6 0 0x7e OR REF_NUM 7 7 0 OR REF_NUM 23 8 0x10de OR REF_NUM 31 24 (ucast nvdmType)"

definition NVDM_TYPE_RM_RPC :: u8 where
  "NVDM_TYPE_RM_RPC = 0x25"

section \<open>State\<close>

record MESSAGE_QUEUE_INFO =
  commandQueueSize :: u64
  statusQueueSize :: u64
  queueElementHdrSize :: u64
  queueElementSizeMin :: u64
  queueElementSizeMax :: u64
  queueHeaderAlign :: u32
  queueElementAlign :: u32
  pCommandQueue :: ptr
  pStatusQueue :: ptr
  pWorkArea :: ptr
  pCmdQueueElement :: words
  hQueue :: msgqMetadata
  txSeqNum :: u32
  rxSeqNum :: u32
  txBufferFull :: u32
  bErrorInjectionEnabled :: bool
  bEncryptionEnabled :: bool
  ccErrorState :: bool

text \<open>
  The RPC header follows the queue header, and the encryption tag when there is one; its third field is the length.
  The last field of the state is the error state of confidential computing of the GPU.
\<close>

definition gspMsgQueueBytesToElements :: "u32 \<Rightarrow> u64 \<Rightarrow> u32" where
  "gspMsgQueueBytesToElements bytes sz = ucast ((ucast bytes + sz - 1) div sz)"

definition gspMsgQueueGetRpcMessageLength :: "MESSAGE_QUEUE_INFO \<Rightarrow> u32" where
  "gspMsgQueueGetRpcMessageLength q = lo32 (pCmdQueueElement q ! (if bEncryptionEnabled q then 8 else 3))"

definition encryptedSize :: "MESSAGE_QUEUE_INFO \<Rightarrow> u32" where
  "encryptedSize q = lo32 (pCmdQueueElement q ! 2)"

definition queue_seqNum :: "MESSAGE_QUEUE_INFO \<Rightarrow> u32" where
  "queue_seqNum q = hi32 (pCmdQueueElement q ! 1)"

definition msg_len :: "MESSAGE_QUEUE_INFO \<Rightarrow> u32" where
  "msg_len q = ucast (queueElementHdrSize q + ucast (gspMsgQueueGetRpcMessageLength q))"

text \<open>The sum runs over the words that begin before the end of the data, and folds its two halves.\<close>

definition sum_words :: "u32 \<Rightarrow> nat" where
  "sum_words n = (unat n + 7) div 8"

definition xor_words :: "words \<Rightarrow> u64" where
  "xor_words ws = foldl (\<lambda>a w. a XOR w) 0 ws"

definition checkSum32 :: "words \<Rightarrow> u32 \<Rightarrow> u32" where
  "checkSum32 st n = (let c = xor_words (take (sum_words n) st) in hi32 c XOR lo32 c)"

text \<open>
  Encryption and decryption are arguments: they map the staging area and the number of bytes to a status and the new
  staging area.  The sequence number is copied to the additional data first.
\<close>

type_synonym cipher = "words \<Rightarrow> u32 \<Rightarrow> nv_status \<times> words"

definition gspMsgQueueCCEncrypt :: "cipher \<Rightarrow> u32 \<Rightarrow> MESSAGE_QUEUE_INFO \<Rightarrow> nv_status \<times> MESSAGE_QUEUE_INFO" where
  "gspMsgQueueCCEncrypt enc n q =
     (case enc (set_lo 5 (queue_seqNum q) (pCmdQueueElement q)) n of (st, ws) \<Rightarrow> (st, q\<lparr>pCmdQueueElement := ws\<rparr>))"

definition gspMsgQueueCCDecrypt :: "cipher \<Rightarrow> u32 \<Rightarrow> MESSAGE_QUEUE_INFO \<Rightarrow> nv_status \<times> MESSAGE_QUEUE_INFO" where
  "gspMsgQueueCCDecrypt dec n q = (case dec (pCmdQueueElement q) n of (st, ws) \<Rightarrow> (st, q\<lparr>pCmdQueueElement := ws\<rparr>))"

section \<open>Sending\<close>

text \<open>
  The wait for an entry: a list gives what the peer does to the shared words between two tries; at its end the
  wait times out.
\<close>

fun wait_write :: "(shm \<Rightarrow> shm) list \<Rightarrow> u32 \<Rightarrow> msgqMetadata \<Rightarrow> shm \<Rightarrow> ptr option \<times> msgqMetadata \<times> shm" where
  "wait_write ws i q m =
     (case msgqTxGetWriteBuffer True m i q of
        (Some p, q') \<Rightarrow> (Some p, q', m)
      | (None, q') \<Rightarrow> (case ws of [] \<Rightarrow> (None, q', m) | w # ws' \<Rightarrow> wait_write ws' i q' (w m)))"

text \<open>The loop over the entries of a record; the last component counts the waits that failed in a row.\<close>

fun send_elements ::
  "(nat \<Rightarrow> (shm \<Rightarrow> shm) list) \<Rightarrow> nat \<Rightarrow> words list \<Rightarrow> msgqMetadata \<times> shm \<times> slots \<times> u32 \<Rightarrow> bool \<times> msgqMetadata \<times> shm \<times> slots \<times> u32" where
  "send_elements waits i [] s = (True, s)"
| "send_elements waits i (e # es) (q, m, sl, full) =
     (case wait_write (waits i) (of_nat i) q m of
        (None, q', m') \<Rightarrow> (False, q', m', sl, full + 1)
      | (Some p, q', m') \<Rightarrow> send_elements waits (i + 1) es (q', m', sl(p := e), 0))"

definition chunks :: "nat \<Rightarrow> nat \<Rightarrow> words \<Rightarrow> words list" where
  "chunks w n ws = map (\<lambda>i. take w (drop (i * w) ws)) [0..<n]"

definition zero_pad :: "u32 \<Rightarrow> words \<Rightarrow> words" where
  "zero_pad n st = (if n AND 7 \<noteq> 0 then st[unat n div 8 := st ! (unat n div 8) AND mask (8 * (unat n mod 8))] else st)"

definition set_headers :: "u32 \<Rightarrow> words \<Rightarrow> words" where
  "set_headers sq st = st[0 := mk64 (mctpCreateNvdmHeader NVDM_TYPE_RM_RPC) (mctpCreateTransportHeader 1 1 0 0 0), 1 := mk64 sq 0]"

text \<open>The staging area made ready: padded, with headers, encrypted if need be, and with its checksum.\<close>

definition stage_record :: "cipher \<Rightarrow> u32 \<Rightarrow> u32 \<Rightarrow> MESSAGE_QUEUE_INFO \<Rightarrow> nv_status \<times> MESSAGE_QUEUE_INFO" where
  "stage_record enc msgLen nElements q =
     (let q1 = q\<lparr>pCmdQueueElement := set_headers (txSeqNum q) (zero_pad msgLen (pCmdQueueElement q))\<rparr> in
      if bEncryptionEnabled q then
        let n = ucast (ucast nElements * queueElementSizeMin q - queueElementHdrSize q);
            q2 = q1\<lparr>pCmdQueueElement := (pCmdQueueElement q1)[2 := mk64 0 n]\<rparr>;
            (st, q3) = gspMsgQueueCCEncrypt enc n q2 in
        if st \<noteq> NV_OK then (st, if st = NV_ERR_INSUFFICIENT_RESOURCES then q3\<lparr>ccErrorState := True\<rparr> else q3)
        else (NV_OK, q3\<lparr>pCmdQueueElement := set_lo 1 (checkSum32 (pCmdQueueElement q3) (nElements * ucast (queueElementSizeMin q))) (pCmdQueueElement q3)\<rparr>)
      else (NV_OK, q1\<lparr>pCmdQueueElement := set_lo 1 (checkSum32 (pCmdQueueElement q1) msgLen) (pCmdQueueElement q1)\<rparr>))"

definition GspMsgQueueSendCommand ::
  "cipher \<Rightarrow> (nat \<Rightarrow> (shm \<Rightarrow> shm) list) \<Rightarrow> MESSAGE_QUEUE_INFO \<times> shm \<times> slots \<Rightarrow> nv_status \<times> MESSAGE_QUEUE_INFO \<times> shm \<times> slots" where
  "GspMsgQueueSendCommand enc waits s =
     (let (q, m, sl) = s; msgLen = msg_len q in
      if ucast msgLen < queueElementHdrSize q \<or> ucast msgLen > queueElementSizeMax q then (NV_ERR_INVALID_PARAM_STRUCT, s)
      else
        let nElements = gspMsgQueueBytesToElements msgLen (queueElementSizeMin q);
            (st, q1) = stage_record enc msgLen nElements q in
        if st \<noteq> NV_OK then (st, q1, m, sl)
        else
          let q2 = (if bErrorInjectionEnabled q1 then q1\<lparr>pCmdQueueElement := set_lo 0 0xFFFFFFFF (pCmdQueueElement q1)\<rparr> else q1);
              es = chunks (unat (queueElementSizeMin q2) div 8) (unat nElements) (pCmdQueueElement q2);
              (ok, hq, m1, sl1, full) = send_elements waits 0 es (hQueue q2, m, sl, txBufferFull q2);
              q3 = q2\<lparr>hQueue := hq, txBufferFull := full\<rparr> in
          if \<not> ok then (NV_ERR_BUSY_RETRY, q3, m1, sl1)
          else
            let (r, hq', m2) = msgqTxSubmitBuffers True True nElements (hq, m1); q4 = q3\<lparr>hQueue := hq'\<rparr> in
            if r \<noteq> 0 then (NV_ERR_INVALID_STATE, q4, m2, sl1)
            else (NV_OK, q4\<lparr>txSeqNum := txSeqNum q4 + 1\<rparr>, m2, sl1))"

section \<open>Receiving\<close>

text \<open>
  One try to copy a record to the staging area.  A copy behind the end of the staging area runs into the queue's own
  metadata; it is an outcome of its own.
\<close>

datatype rx_try = Try_nothing | Try_overrun | Try_incomplete | Try_done

definition copy_in :: "nat \<Rightarrow> words \<Rightarrow> words \<Rightarrow> words" where
  "copy_in k e st = take k st @ e @ drop (k + length e) st"

fun read_rest :: "nat \<Rightarrow> nat \<Rightarrow> nat \<Rightarrow> shm \<Rightarrow> slots \<Rightarrow> msgqMetadata \<times> words \<Rightarrow> rx_try \<times> msgqMetadata \<times> words" where
  "read_rest w 0 i m sl (q, st) = (Try_done, q, st)"
| "read_rest w (Suc k) i m sl (q, st) =
     (case msgqRxGetReadBuffer True m (of_nat i) q of
        (None, q') \<Rightarrow> (Try_incomplete, q', st)
      | (Some p, q') \<Rightarrow>
          if length st < (i + 1) * w then (Try_overrun, q', st)
          else read_rest w k (i + 1) m sl (q', copy_in (i * w) (sl p) st))"

definition rx_elements :: "MESSAGE_QUEUE_INFO \<Rightarrow> u32" where
  "rx_elements q = gspMsgQueueBytesToElements
     (ucast (queueElementHdrSize q + ucast (if bEncryptionEnabled q then encryptedSize q else gspMsgQueueGetRpcMessageLength q)))
     (queueElementSizeMin q)"

definition read_record :: "MESSAGE_QUEUE_INFO \<Rightarrow> shm \<Rightarrow> slots \<Rightarrow> rx_try \<times> u32 \<times> MESSAGE_QUEUE_INFO" where
  "read_record q m sl =
     (let w = unat (queueElementSizeMin q) div 8 in
      case msgqRxGetReadBuffer True m 0 (hQueue q) of
        (None, h) \<Rightarrow> (Try_nothing, 1, q\<lparr>hQueue := h\<rparr>)
      | (Some p, h) \<Rightarrow>
          if length (pCmdQueueElement q) < w then (Try_overrun, 1, q\<lparr>hQueue := h\<rparr>)
          else
            let q1 = q\<lparr>hQueue := h, pCmdQueueElement := copy_in 0 (sl p) (pCmdQueueElement q)\<rparr>; n = rx_elements q1;
                (t, h', st) = read_rest w (unat n - 1) 1 m sl (h, pCmdQueueElement q1) in
            (t, n, q1\<lparr>hQueue := h', pCmdQueueElement := st\<rparr>))"

definition rx_sum :: "MESSAGE_QUEUE_INFO \<Rightarrow> u32" where
  "rx_sum q = checkSum32 (pCmdQueueElement q)
     (ucast (queueElementHdrSize q + ucast (if bEncryptionEnabled q then encryptedSize q else gspMsgQueueGetRpcMessageLength q)))"

definition rx_headers_ok :: "MESSAGE_QUEUE_INFO \<Rightarrow> bool" where
  "rx_headers_ok q \<longleftrightarrow> REF_VAL 3 0 (lo32 (pCmdQueueElement q ! 0)) = 1 \<and> REF_VAL 23 8 (hi32 (pCmdQueueElement q ! 0)) = 0x10de"

text \<open>
  The retries.  The first argument says what the peer does to the shared memory before each try.  The loop ends
  because a try either uses up one of the retries, or drops an older record that is closer to the expected one.
\<close>

datatype rx_end = End_nothing | End_overrun | End_tried nv_status u32 u32

type_synonym gsp_state = "MESSAGE_QUEUE_INFO \<times> shm \<times> slots"

function rx_tries ::
  "(u32 \<Rightarrow> shm \<times> slots \<Rightarrow> shm \<times> slots) \<Rightarrow> u32 \<Rightarrow> u32 \<Rightarrow> u32 \<Rightarrow> nv_status \<Rightarrow> u32 \<Rightarrow> gsp_state \<Rightarrow> rx_end \<times> gsp_state" where
  "rx_tries peer nRetries nMax diff status n (q, m0, sl0) =
     (if \<not> nRetries < nMax then (End_tried status nRetries n, q, m0, sl0)
      else
        let (m, sl) = peer nRetries (m0, sl0); (t, n', q1) = read_record q m sl; s = (q1, m, sl) in
        if t = Try_nothing then (End_nothing, s)
        else if t = Try_overrun then (End_overrun, s)
        else if t = Try_incomplete then rx_tries peer (nRetries + 1) nMax diff NV_ERR_NOT_READY n' s
        else if rx_sum q1 \<noteq> 0 then rx_tries peer (nRetries + 1) nMax diff NV_ERR_INVALID_DATA n' s
        else if \<not> rx_headers_ok q1 then rx_tries peer (nRetries + 1) nMax diff NV_ERR_INVALID_DATA n' s
        else if queue_seqNum q1 \<noteq> rxSeqNum q1 then
          if queue_seqNum q1 < rxSeqNum q1 \<and> rxSeqNum q1 - queue_seqNum q1 < diff then
            let (r, h, m') = msgqRxMarkConsumed True True n' (hQueue q1, m) in
            rx_tries peer (nRetries + 1) (nMax + 1) (rxSeqNum q1 - queue_seqNum q1) NV_ERR_INVALID_DATA n' (q1\<lparr>hQueue := h\<rparr>, m', sl)
          else rx_tries peer (nRetries + 1) nMax diff NV_ERR_INVALID_DATA n' s
        else (End_tried NV_OK nRetries n', s))"
  by pat_completeness auto

lemma retry_uses_up:
  fixes a b d :: u32
  assumes "a < b"
  shows "(if a + 1 < b then unat b - unat (a + 1) + unat d else 0) < unat b - unat a + unat d"
proof -
  have lt: "unat a < unat b" "unat b < 2 ^ 32" using assms unsigned_less [of b, where 'a = nat] by (simp_all add: word_less_nat_alt)
  then have "unat (a + 1) = unat a + 1" by (subst unat_add_nowrap) auto
  then show ?thesis using lt by (auto simp: word_less_nat_alt)
qed

lemma retry_closer:
  fixes a b d d' :: u32
  assumes "a < b" "d' < d"
  shows "(if a + 1 < b + 1 then unat (b + 1) - unat (a + 1) + unat d' else 0) < unat b - unat a + unat d"
proof -
  have lt: "unat a < unat b" "unat b < 2 ^ 32" "unat d' < unat d" using assms unsigned_less [of b, where 'a = nat] by (simp_all add: word_less_nat_alt)
  then have a: "unat (a + 1) = unat a + 1" by (subst unat_add_nowrap) auto
  show ?thesis
  proof (cases "b + 1 = 0")
    case False
    then have "unat (b + 1) \<noteq> 0" by (simp only: unsigned_eq_0_iff) simp
    then have "unat b + 1 < 2 ^ 32" using lt(2) by (cases "unat b + 1 = 2 ^ 32") (simp_all add: unat_word_ariths)
    then have "unat (b + 1) = unat b + 1" by (subst unat_add_nowrap) auto
    then show ?thesis using lt a by (auto simp: word_less_nat_alt)
  qed (use lt in simp)
qed

termination rx_tries
  by (relation "measure (\<lambda>(peer, a, b, d, st, n, s). if a < b then unat b - unat a + unat d else 0)")
    (auto simp: retry_uses_up retry_closer)

declare rx_tries.simps [simp del] and wait_write.simps [simp del]

definition rx_finish :: "u32 \<Rightarrow> nv_status \<Rightarrow> gsp_state \<Rightarrow> nv_status \<times> gsp_state" where
  "rx_finish n status s =
     (let (q, m, sl) = s; q1 = q\<lparr>rxSeqNum := rxSeqNum q + 1\<rparr>; (r, h, m') = msgqRxMarkConsumed True True n (hQueue q1, m) in
      (if r < 0 then NV_ERR_GENERIC else status, q1\<lparr>hQueue := h\<rparr>, m', sl))"

definition GspMsgQueueReceiveStatus ::
  "cipher \<Rightarrow> (u32 \<Rightarrow> shm \<times> slots \<Rightarrow> shm \<times> slots) \<Rightarrow> gsp_state \<Rightarrow> nv_status option \<times> gsp_state" where
  "GspMsgQueueReceiveStatus dec peer s =
     (case rx_tries peer 0 3 0xFFFFFFFF NV_OK 1 s of
        (End_nothing, s1) \<Rightarrow> (Some NV_WARN_NOTHING_TO_DO, s1)
      | (End_overrun, s1) \<Rightarrow> (None, s1)
      | (End_tried st r n, q, m, sl) \<Rightarrow>
          if r > 0 \<and> st \<noteq> NV_OK then (let (st', s2) = rx_finish n st (q, m, sl) in (Some st', s2))
          else
            let (d, q1) = (if bEncryptionEnabled q then gspMsgQueueCCDecrypt dec (encryptedSize q) q else (NV_OK, q)) in
            if bEncryptionEnabled q \<and> d \<noteq> NV_OK then (Some d, q1\<lparr>ccErrorState := True\<rparr>, m, sl)
            else
              let len = msg_len q1;
                  st1 = (if ucast len < queueElementHdrSize q1 \<or> ucast len > queueElementSizeMax q1 then NV_ERR_INVALID_PARAM_STRUCT
                         else if bEncryptionEnabled q then d else st);
                  (st', s2) = rx_finish n st1 (q1, m, sl) in
              (Some st', s2))"

end
