(* ===== verification/Rm_Gsp_Record.thy ===== *)
theory Rm_Gsp_Record
  imports Rm_Gsp_Queue
begin

text \<open>
  How records of \<open>Rm_Gsp_Queue\<close> are cut into queue entries and put together again: what \<^verbatim>\<open>GspMsgQueueSendCommand\<close> appends
  to the ring, and what \<^verbatim>\<open>GspMsgQueueReceiveStatus\<close> makes of a well-formed record at its head.
\<close>

section \<open>Writing a record to the queue\<close>

definition idle :: "(nat \<Rightarrow> (shm \<Rightarrow> shm) list) \<Rightarrow> bool" where
  "idle waits \<longleftrightarrow> (\<forall>i. \<forall>f \<in> set (waits i). f = id)"

lemma wait_idle:
  assumes "dir_inv q b m" "\<forall>f \<in> set ws. f = id" "wait_write ws i q m = (p, q', m')"
  shows "m' = m \<and> (\<exists>r g. q' = q\<lparr>txReadPtr := r, txFree := g\<rparr> \<and> unat g \<le> dir_room q b)
    \<and> (p = None \<and> dir_room q b \<le> unat i
       \<or> unat i < dir_room q b \<and> p = Some (entry_addr q ((unat (writePtr (tx q)) + unat i) mod unat (msgCount (tx q)))))"
  using assms
proof (induction ws arbitrary: q)
  case Nil
  obtain p1 q1 where e: "msgqTxGetWriteBuffer True m i q = (p1, q1)" by fastforce
  have "p = p1 \<and> q' = q1 \<and> m' = m" using Nil.prems(3) e by (subst (asm) wait_write.simps) (auto split: option.splits)
  then show ?case using write_buffer_spec [OF Nil.prems(1) e] by auto
next
  case (Cons f ws)
  obtain p1 q1 where e: "msgqTxGetWriteBuffer True m i q = (p1, q1)" by fastforce
  note w = write_buffer_spec [OF Cons.prems(1) e]
  show ?case
  proof (cases p1)
    case None
    obtain r g where q1: "q1 = q\<lparr>txReadPtr := r, txFree := g\<rparr>" "unat g \<le> dir_room q b" using w by blast
    note t = tx_quiet [OF Cons.prems(1) q1(2), of r, folded q1(1)]
    have ww: "wait_write ws i q1 m = (p, q', m')" using Cons.prems(2,3) e None by (subst (asm) wait_write.simps) auto
    have i: "m' = m \<and> (\<exists>r g. q' = q1\<lparr>txReadPtr := r, txFree := g\<rparr> \<and> unat g \<le> dir_room q1 b)
      \<and> (p = None \<and> dir_room q1 b \<le> unat i
         \<or> unat i < dir_room q1 b \<and> p = Some (entry_addr q1 ((unat (writePtr (tx q1)) + unat i) mod unat (msgCount (tx q1)))))"
      by (rule Cons.IH [OF t(1) _ ww]) (use Cons.prems(2) in simp)
    have "dir_room q1 b = dir_room q b" by (simp add: q1 dir_room_def dir_used_def)
    then show ?thesis using i t(3,5) unfolding q1(1) by auto
  next
    case (Some x)
    then have "p = Some x \<and> q' = q1 \<and> m' = m" using Cons.prems(3) e by (subst (asm) wait_write.simps) auto
    then show ?thesis using w Some by auto
  qed
qed

lemma staged_snoc:
  assumes w: "mq_wf (q, b, m, sl)" and i: "i < dir_room q b"
  shows "staged q (sl(entry_addr q ((unat (writePtr (tx q)) + i) mod unat (msgCount (tx q))) := x)) (Suc i) = staged q sl i @ [x]"
proof (rule nth_equalityI)
  let ?N = "unat (msgCount (tx q))" and ?w = "unat (writePtr (tx q))"
  have d: "dir_inv q b m" using w by simp
  have N: "0 < ?N" "i < ?N" using i dir_bounds [OF d] by simp_all
  fix j assume "j < length (staged q (sl(entry_addr q ((?w + i) mod ?N) := x)) (Suc i))"
  then have j: "j < Suc i" by (simp add: staged_def)
  have "entry_addr q ((?w + j) mod ?N) \<noteq> entry_addr q ((?w + i) mod ?N)" if "j < i"
    using ring_index_neq [OF that N(2), of ?w] entry_addr_inj [OF d, of "(?w + j) mod ?N" "(?w + i) mod ?N"] N by auto
  then show "staged q (sl(entry_addr q ((?w + i) mod ?N) := x)) (Suc i) ! j = (staged q sl i @ [x]) ! j"
    using j N by (cases "j < i") (auto simp: staged_def ring_items_def ring_of_def nth_append less_Suc_eq simp del: upt_Suc)
qed (simp add: staged_def)

text \<open>Filling the entries behind the ring shows in neither direction, and leaves the entries staged in order.\<close>

lemma send_elements_spec:
  assumes "mq_wf (q, b, m, sl)" "idle waits" "i + length es < 2 ^ 32" "send_elements waits i es (q, m, sl, f) = (ok, q', m', sl', f')"
    and "i \<le> dir_room q b" "\<forall>p. length (sl p) = w" "\<forall>e \<in> set es. length e = w"
  shows "m' = m \<and> mq_wf (q', b, m, sl') \<and> dir_items q' b sl' = dir_items q b sl \<and> dir_items b q' sl' = dir_items b q sl
    \<and> dir_room q' b = dir_room q b \<and> (\<forall>p. length (sl' p) = w)
    \<and> (ok \<longrightarrow> staged q' sl' (i + length es) = staged q sl i @ es \<and> i + length es \<le> dir_room q b)
    \<and> (\<not> ok \<longrightarrow> dir_room q b < i + length es)"
  using assms
proof (induction es arbitrary: i q sl f)
  case Nil
  then show ?case by auto
next
  case (Cons e es)
  have d: "dir_inv q b m" using Cons.prems(1) by simp
  obtain p q1 m1 where wr: "wait_write (waits i) (of_nat i) q m = (p, q1, m1)" by (metis prod_cases3)
  have "\<forall>f \<in> set (waits i). f = id" using Cons.prems(2) by (simp add: idle_def)
  note wi = wait_idle [OF d this wr]
  have ui: "unat (of_nat i :: u32) = i" using Cons.prems(3) by (simp add: unsigned_of_nat take_bit_nat_eq_self)
  have q1: "\<exists>r g. q1 = q\<lparr>txReadPtr := r, txFree := g\<rparr> \<and> unat g \<le> dir_room q b" and m1: "m1 = m" using wi by auto
  obtain r g where q1': "q1 = q\<lparr>txReadPtr := r, txFree := g\<rparr>" using q1 by blast
  have rm: "dir_room q1 b = dir_room q b" "\<And>(s :: slots) n. staged q1 s n = staged q s n" "entry_addr q1 = entry_addr q" "tx q1 = tx q"
    by (auto simp: q1' dir_room_def dir_used_def staged_def ring_of_def entry_addr_def fun_eq_iff)
  show ?case
  proof (cases p)
    case None
    have "q' = q1 \<and> m' = m \<and> sl' = sl \<and> \<not> ok" using Cons.prems(4) wr None m1 by auto
    moreover have "dir_room q b \<le> i" using wi None ui by auto
    ultimately show ?thesis using quiet_tx_step [OF Cons.prems(1) q1, of sl] Cons.prems(6) rm by auto
  next
    case (Some x)
    have x: "i < dir_room q b" "x = entry_addr q ((unat (writePtr (tx q)) + i) mod unat (msgCount (tx q)))" using wi Some ui by auto
    have s: "send_elements waits (i + 1) es (q1, m, sl(x := e), 0) = (ok, q', m', sl', f')" using Cons.prems(4) wr Some m1 by simp
    have wb: "mq_wf (q1, b, m, sl(x := e))" "dir_items q1 b (sl(x := e)) = dir_items q b sl" "dir_items b q1 (sl(x := e)) = dir_items b q sl"
      using write_entry [OF Cons.prems(1) x(1), of e] quiet_tx_step [OF Cons.prems(1) q1] x(2) by auto
    have st: "staged q1 (sl(x := e)) (i + 1) = staged q sl i @ [e]"
      using staged_snoc [OF Cons.prems(1) x(1), of e] x(2) rm(2) by simp
    have le: "i + 1 + length es < 2 ^ 32" "i + 1 \<le> dir_room q1 b" "\<forall>p. length ((sl(x := e)) p) = w" "\<forall>e \<in> set es. length e = w"
      using Cons.prems(3,6,7) rm(1) x(1) by auto
    show ?thesis using Cons.IH [OF wb(1) Cons.prems(2) le(1) s le(2-4)] unfolding wb(2,3) rm(1) st by simp
  qed
qed

section \<open>Halves of words and checksums\<close>

lemma mk64_lo [simp]: "lo32 (mk64 h l) = l"
  by (rule bit_word_eqI) (auto simp: lo32_def mk64_def bit_simps)

lemma mk64_hi [simp]: "hi32 (mk64 h l) = h"
  by (rule bit_word_eqI) (auto simp: hi32_def mk64_def bit_simps dest: bit_imp_le_length)

lemma halves_xor: "lo32 (a XOR b) = lo32 a XOR lo32 b" "hi32 (a XOR b) = hi32 a XOR hi32 b"
  by (rule bit_word_eqI, auto simp: lo32_def hi32_def bit_simps)+

lemma unat_lo32: "unat (lo32 x) = unat x mod 2 ^ 32"
  by (simp add: lo32_def unsigned_ucast_eq take_bit_eq_mod)

lemma xor_words_Nil [simp]: "xor_words [] = 0"
  by (simp add: xor_words_def)

lemma foldl_xor: "foldl (\<lambda>a w. a XOR w) (x :: u64) ws = x XOR foldl (\<lambda>a w. a XOR w) 0 ws"
proof (induction ws arbitrary: x)
  case (Cons a ws)
  show ?case using Cons.IH [of "x XOR a"] Cons.IH [of a] by (simp add: xor.assoc)
qed simp

lemma xor_words_Cons [simp]: "xor_words (a # ws) = a XOR xor_words ws"
  unfolding xor_words_def using foldl_xor [of a ws] by simp

lemma xor_words_update: "k < length ws \<Longrightarrow> xor_words (ws[k := v]) = xor_words ws XOR ws ! k XOR v"
proof (induction ws arbitrary: k)
  case (Cons a ws)
  show ?case
  proof (cases k)
    case 0
    then show ?thesis by (simp add: xor.assoc xor.left_commute xor.commute)
  next
    case (Suc j)
    then show ?thesis using Cons by (simp add: xor.assoc)
  qed
qed simp

text \<open>The stored checksum makes the folded sum of the record zero.\<close>

lemma checksum_zero:
  assumes "1 < sum_words n" "1 < length st" "lo32 (st ! 1) = 0"
  shows "checkSum32 (set_lo 1 (checkSum32 st n) st) n = 0"
proof -
  let ?k = "sum_words n" and ?c = "checkSum32 st n"
  let ?X = "xor_words (take ?k st)"
  have u: "xor_words (take ?k (set_lo 1 ?c st)) = ?X XOR st ! 1 XOR mk64 (hi32 (st ! 1)) ?c"
    using assms by (simp add: set_lo_def take_update_swap xor_words_update)
  have c: "?c = hi32 ?X XOR lo32 ?X" by (simp add: checkSum32_def Let_def)
  have "hi32 ?X XOR hi32 (st ! 1) XOR hi32 (st ! 1) XOR (lo32 ?X XOR ?c) = 0"
    unfolding c by (simp add: xor.assoc) (simp add: xor.left_commute)
  then show ?thesis unfolding checkSum32_def [of "set_lo 1 ?c st"] Let_def u halves_xor mk64_hi mk64_lo assms(3) by simp
qed

section \<open>Records and their entries\<close>

definition rec_len :: "words \<Rightarrow> nat" where
  "rec_len ws = unat (lo32 (ws ! 3))"

definition rec_elems :: "nat \<Rightarrow> words \<Rightarrow> nat" where
  "rec_elems w ws = (rec_len ws + 15 + 8 * w) div (8 * w)"

text \<open>What the RPC layer put into a record: its words behind the queue header.\<close>

definition payload :: "words \<Rightarrow> words" where
  "payload ws = drop 2 (take ((rec_len ws + 23) div 8) ws)"

definition headers_ok :: "words \<Rightarrow> bool" where
  "headers_ok ws \<longleftrightarrow> REF_VAL 3 0 (lo32 (ws ! 0)) = 1 \<and> REF_VAL 23 8 (hi32 (ws ! 0)) = 0x10de"

definition frame :: "nat \<Rightarrow> nat \<Rightarrow> u32 \<Rightarrow> words list \<Rightarrow> bool" where
  "frame w c sq es \<longleftrightarrow> (\<forall>e \<in> set es. length e = w) \<and>
     (let ws = concat es in rec_len ws + 16 \<le> 8 * w * c \<and> length es = rec_elems w ws
        \<and> checkSum32 ws (of_nat (rec_len ws + 16)) = 0 \<and> hi32 (ws ! 1) = sq \<and> headers_ok ws)"

definition gsp_ok :: "nat \<Rightarrow> nat \<Rightarrow> MESSAGE_QUEUE_INFO \<Rightarrow> bool" where
  "gsp_ok w c q \<longleftrightarrow> queueElementHdrSize q = 16 \<and> queueElementSizeMin q = of_nat (8 * w) \<and> queueElementSizeMax q = of_nat (8 * w * c)
     \<and> 4 \<le> w \<and> 1 \<le> c \<and> 8 * w * c < 2 ^ 31 \<and> length (pCmdQueueElement q) = w * c \<and> \<not> bEncryptionEnabled q \<and> \<not> bErrorInjectionEnabled q"

lemma gsp_ok_sizes:
  assumes "gsp_ok w c q"
  shows "unat (queueElementSizeMin q) = 8 * w" "unat (queueElementSizeMax q) = 8 * w * c" "unat (queueElementHdrSize q) = 16"
    "8 * w \<le> 8 * w * c" "8 * w * c < 2 ^ 31" "4 \<le> w" "1 \<le> c" "c < 2 ^ 31"
proof -
  have b: "8 * w * c < 2 ^ 31" "1 \<le> c" "4 \<le> w" using assms by (auto simp: gsp_ok_def)
  have le: "8 * w \<le> 8 * w * c" using b(2) by simp
  then show "8 * w \<le> 8 * w * c" "8 * w * c < 2 ^ 31" "4 \<le> w" "1 \<le> c" using b by auto
  have "1 * c \<le> 8 * w * c" using b(3) by (intro mult_le_mono1) simp
  then show "c < 2 ^ 31" using b(1) by linarith
  have u: "unat (of_nat k :: u64) = k" if "k < 2 ^ 31" for k :: nat
    using that by (simp add: unsigned_of_nat take_bit_nat_eq_self)
  have e: "queueElementSizeMin q = of_nat (8 * w)" "queueElementSizeMax q = of_nat (8 * w * c)" using assms unfolding gsp_ok_def by blast+
  show "unat (queueElementSizeMin q) = 8 * w" "unat (queueElementSizeMax q) = 8 * w * c"
    unfolding e by (rule u, use b(1) le in linarith)+
  show "unat (queueElementHdrSize q) = 16" using assms by (simp add: gsp_ok_def)
qed

lemma msg_len_nat:
  assumes "gsp_ok w c q"
  shows "unat (msg_len q) = (rec_len (pCmdQueueElement q) + 16) mod 2 ^ 32"
    "unat (msg_len q) < 16 \<longleftrightarrow> 2 ^ 32 \<le> rec_len (pCmdQueueElement q) + 16"
proof -
  let ?l = "gspMsgQueueGetRpcMessageLength q"
  have l: "unat ?l = rec_len (pCmdQueueElement q)" "unat ?l < 2 ^ 32"
    using assms unsigned_less [of ?l, where 'a = nat] by (simp_all add: gspMsgQueueGetRpcMessageLength_def rec_len_def gsp_ok_def)
  have u: "unat (16 + ucast ?l :: u64) = 16 + unat ?l" using unat_add_nowrap [of "16 :: u64" "ucast ?l"] l(2) by simp
  have "msg_len q = lo32 (16 + ucast ?l)" using assms by (simp add: msg_len_def lo32_def gsp_ok_def)
  then show m: "unat (msg_len q) = (rec_len (pCmdQueueElement q) + 16) mod 2 ^ 32"
    unfolding l(1) [symmetric] by (metis unat_lo32 u add.commute)
  show "unat (msg_len q) < 16 \<longleftrightarrow> 2 ^ 32 \<le> rec_len (pCmdQueueElement q) + 16"
    using l unfolding m by (auto simp: mod_if)
qed

lemma div_le_mult_pred: "0 < (d :: nat) \<Longrightarrow> (n + d - 1) div d \<le> n"
proof -
  assume d: "0 < d"
  have "n + d - 1 < (n + 1) * d" using d by (cases d) auto
  then show ?thesis using less_mult_imp_div_less [of "n + d - 1" "n + 1" d] by simp
qed

lemma elements_nat:
  assumes "gsp_ok w c q" "unat n < 2 ^ 32"
  shows "unat (gspMsgQueueBytesToElements n (queueElementSizeMin q)) = (unat n + 8 * w - 1) div (8 * w)"
proof -
  note g = gsp_ok_sizes [OF assms(1)]
  let ?s = "queueElementSizeMin q"
  have wl: "8 * w < 2 ^ 31" "0 < w" using g(4-6) by linarith+
  have "unat (ucast n + ?s) = unat n + 8 * w" using unat_add_nowrap [of "ucast n" ?s] g(1) wl assms(2) by simp
  then have u: "unat (ucast n + ?s - 1) = unat n + 8 * w - 1" using wl(2) by (simp add: unat_sub word_le_nat_alt)
  have "(unat n + 8 * w - 1) div (8 * w) \<le> unat n" using wl(2) by (intro div_le_mult_pred) simp
  then show ?thesis using u g(1) assms(2)
    by (simp add: gspMsgQueueBytesToElements_def unat_div unsigned_ucast_eq take_bit_nat_eq_self)
qed

lemma header_values: "REF_VAL 3 0 (mctpCreateTransportHeader 1 1 0 0 0) = 1" "REF_VAL 23 8 (mctpCreateNvdmHeader NVDM_TYPE_RM_RPC) = 0x10de"
  by code_simp+

lemma concat_chunks: "concat (chunks w n ws) = take (n * w) ws"
  by (induction n) (simp_all add: chunks_def take_add add.commute [of w])

lemma chunks_width: "n * w \<le> length ws \<Longrightarrow> e \<in> set (chunks w n ws) \<Longrightarrow> length e = w"
proof -
  assume n: "n * w \<le> length ws" and e: "e \<in> set (chunks w n ws)"
  obtain i where i: "i < n" "e = take w (drop (i * w) ws)" using e by (auto simp: chunks_def)
  have "Suc i * w \<le> n * w" using i(1) by (intro mult_le_mono1) simp
  then show ?thesis using i(2) n by simp
qed

lemma chunks_length [simp]: "length (chunks w n ws) = n"
  by (simp add: chunks_def)

text \<open>Padding a record with zeroes does not change its length, even when the last word holds the length.\<close>

lemma rec_len_pad:
  assumes n: "unat n = rec_len st + 16" and st: "3 < length st"
  shows "rec_len (zero_pad n st) = rec_len st"
proof (cases "n AND 7 \<noteq> 0 \<and> unat n div 8 = 3")
  case True
  let ?L = "rec_len st" and ?r = "unat n mod 8"
  have m: "unat (n AND mask 3) = ?r" by (simp add: unat_and_mask)
  have "n AND mask 3 \<noteq> 0" using True by (simp add: mask_eq_exp_minus_1)
  then have "unat (n AND mask 3) \<noteq> 0" by (simp only: unsigned_eq_0_iff) simp
  then have r: "0 < ?r" unfolding m by simp
  have L: "?L < 16" using True n by linarith
  have x: "unat (st ! 3) mod 2 ^ 32 = ?L" by (simp add: rec_len_def unat_lo32)
  have "unat (st ! 3) mod 2 ^ (8 * ?r) mod 2 ^ 32 = ?L"
  proof (cases "8 * ?r \<le> 32")
    case True
    have "unat (st ! 3) mod 2 ^ (8 * ?r) = unat (st ! 3) mod 2 ^ 32 mod 2 ^ (8 * ?r)"
      by (rule mod_mod_cancel [symmetric], rule le_imp_power_dvd, rule True)
    also have "\<dots> = ?L" unfolding x using r L power_increasing [of 8 "8 * ?r" "2 :: nat"] by (intro mod_less) simp
    finally show ?thesis using L by simp
  next
    case False
    then have "(2 :: nat) ^ 32 dvd 2 ^ (8 * ?r)" by (intro le_imp_power_dvd) simp
    then show ?thesis using x by (metis mod_mod_cancel)
  qed
  then show ?thesis using True st by (simp add: zero_pad_def rec_len_def unat_lo32 unat_and_mask)
next
  case False
  then show ?thesis by (auto simp: zero_pad_def rec_len_def)
qed

lemma zero_pad_length [simp]: "length (zero_pad n st) = length st"
  by (simp add: zero_pad_def)

lemma payload_update01:
  "k < 2 \<Longrightarrow> payload (st[k := x]) = payload st" "k < 2 \<Longrightarrow> rec_len (st[k := x]) = rec_len st"
  by (simp_all add: payload_def rec_len_def take_update_swap)

lemma elems_cover:
  fixes w L c :: nat
  assumes "4 \<le> w" "L + 16 \<le> 8 * w * c"
  defines "n \<equiv> (L + 15 + 8 * w) div (8 * w)"
  shows "(L + 23) div 8 \<le> n * w" "1 \<le> n" "n \<le> c"
proof -
  have d: "0 < 8 * w" using assms by simp
  have "L + 15 + 8 * w < 8 * w + n * (8 * w)" unfolding n_def by (rule dividend_less_div_times [OF d])
  then show "(L + 23) div 8 \<le> n * w" by simp
  show "1 \<le> n" unfolding n_def using d by (simp add: Suc_leI div_greater_zero_iff)
  have "L + 15 + 8 * w < (c + 1) * (8 * w)" using assms(2) d by (simp add: algebra_simps)
  then show "n \<le> c" unfolding n_def using less_mult_imp_div_less by (metis Suc_eq_plus1 less_Suc_eq_le)
qed

lemma stage_frame:
  assumes g: "gsp_ok w c q" and l: "unat (msg_len q) = rec_len (pCmdQueueElement q) + 16" "rec_len (pCmdQueueElement q) + 16 \<le> 8 * w * c"
    and e: "stage_record enc (msg_len q) n q = (st, q1)"
  defines "k \<equiv> rec_elems w (pCmdQueueElement q)"
  shows "st = NV_OK" "q1 = q\<lparr>pCmdQueueElement := pCmdQueueElement q1\<rparr>" "length (pCmdQueueElement q1) = w * c"
    "frame w c (txSeqNum q) (chunks w k (pCmdQueueElement q1))"
    "payload (concat (chunks w k (pCmdQueueElement q1))) = payload (zero_pad (msg_len q) (pCmdQueueElement q))" "1 \<le> k" "k \<le> c"
proof -
  let ?st = "pCmdQueueElement q" and ?L = "rec_len (pCmdQueueElement q)" and ?m = "msg_len q"
  let ?S0 = "zero_pad ?m ?st"
  let ?S1 = "set_headers (txSeqNum q) ?S0"
  let ?S2 = "set_lo 1 (checkSum32 ?S1 ?m) ?S1"
  note z = gsp_ok_sizes [OF g]
  have len: "length ?st = w * c" and plain: "\<not> bEncryptionEnabled q" using g by (auto simp: gsp_ok_def)
  have wc: "4 \<le> w * c" using z(6,7) by (metis le_trans mult_le_mono mult.right_neutral)
  have q1: "st = NV_OK" "q1 = q\<lparr>pCmdQueueElement := ?S2\<rparr>" using e plain by (auto simp: stage_record_def Let_def)
  then show "st = NV_OK" "q1 = q\<lparr>pCmdQueueElement := pCmdQueueElement q1\<rparr>" by simp_all
  have l2: "length ?S1 = w * c" "length ?S2 = w * c" using len by (simp_all add: set_headers_def set_lo_def)
  then show "length (pCmdQueueElement q1) = w * c" using q1 by simp
  note cv = elems_cover [OF z(6) l(2)]
  have k: "k = (?L + 15 + 8 * w) div (8 * w)" by (simp add: k_def rec_elems_def)
  show "1 \<le> k" "k \<le> c" using cv(2,3) k by simp_all
  have r0: "rec_len ?S0 = ?L" using rec_len_pad [OF l(1)] len wc by simp
  have r: "rec_len ?S1 = ?L" "rec_len ?S2 = ?L" "payload ?S2 = payload ?S0"
    using r0 by (simp_all add: set_headers_def set_lo_def payload_update01)
  have kw: "w \<le> k * w" "k * w \<le> w * c" using cv(2,3) k by (simp_all add: mult.commute)
  have k3: "3 < k * w" using kw(1) z(6) by linarith
  let ?W = "take (k * w) ?S2"
  have rW: "rec_len ?W = ?L" using r(2) nth_take [OF k3, of ?S2] by (simp only: rec_len_def)
  have tk: "take j ?W = take j ?S2" if "j \<le> k * w" for j using that by (simp add: min_absorb1)
  have cov: "(?L + 23) div 8 \<le> k * w" using cv(1) k by simp
  have sw: "sum_words ?m = (?L + 23) div 8" by (simp add: sum_words_def l(1))
  have om: "of_nat (?L + 16) = ?m" unfolding l(1) [symmetric] by simp
  have s0: "0 < length ?st" "1 < length ?st" using len wc by linarith+
  have w0: "?S1 ! 0 = mk64 (mctpCreateNvdmHeader NVDM_TYPE_RM_RPC) (mctpCreateTransportHeader 1 1 0 0 0)" "?S1 ! 1 = mk64 (txSeqNum q) 0"
    using s0 by (simp_all add: set_headers_def)
  have nW: "?W ! 0 = ?S2 ! 0" "?W ! 1 = ?S2 ! 1" by (rule nth_take, use k3 in linarith)+
  have w1: "?W ! 0 = ?S1 ! 0" "hi32 (?W ! 1) = txSeqNum q"
    unfolding nW using w0 s0 by (simp_all add: set_lo_def set_headers_def)
  have "checkSum32 ?S2 ?m = 0" using w0 s0 sw by (intro checksum_zero) (simp_all add: set_headers_def)
  then have cs: "checkSum32 ?W ?m = 0" using tk [OF cov] by (simp add: checkSum32_def sw)
  have wd: "\<forall>e \<in> set (chunks w k ?S2). length e = w" using chunks_width [of k w ?S2] kw l2 by simp
  have S: "pCmdQueueElement q1 = ?S2" using q1(2) by simp
  show "frame w c (txSeqNum q) (chunks w k (pCmdQueueElement q1))"
    unfolding S frame_def Let_def concat_chunks rW om headers_ok_def chunks_length rec_elems_def w1 w0 mk64_hi mk64_lo
    using wd l(2) cs header_values k by blast
  have pw: "payload ?W = payload ?S2" unfolding payload_def rW r(2) tk [OF cov] ..
  show "payload (concat (chunks w k (pCmdQueueElement q1))) = payload ?S0"
    unfolding S concat_chunks using r(3) pw by simp
qed

section \<open>Sending a record\<close>

lemma submit_ok:
  assumes "dir_inv a b m" "unat n \<le> dir_room a b"
  shows "fst (msgqTxSubmitBuffers True True n (a, m)) = 0"
proof -
  obtain f q where fq: "(if n > txFree a then msgqTxGetFreeSpace True m a else (txFree a, a)) = (f, q)" by fastforce
  have "n > txFree a \<longrightarrow> unat f = dir_room a b" using tx_cached [OF assms(1) fq] by auto
  then have "\<not> (n > txFree a \<and> n > f)" using assms(2) by (auto simp: word_less_nat_alt)
  then show ?thesis using fq assms(1) by (auto simp: msgqTxSubmitBuffers_def Let_def dir_inv_def)
qed

lemma send_spec:
  assumes g: "gsp_ok w c q" and w: "mq_wf (hQueue q, b, m, sl)" and sl: "\<forall>p. length (sl p) = w" and idle: "idle waits"
    and e: "GspMsgQueueSendCommand enc waits (q, m, sl) = (st, q', m', sl')"
  shows "gsp_ok w c q' \<and> mq_wf (hQueue q', b, m', sl') \<and> (\<forall>p. length (sl' p) = w) \<and> rxSeqNum q' = rxSeqNum q
    \<and> dir_items b (hQueue q') sl' = dir_items b (hQueue q) sl
    \<and> (st = NV_OK \<and> txSeqNum q' = txSeqNum q + 1
         \<and> (\<exists>es. dir_items (hQueue q') b sl' = dir_items (hQueue q) b sl @ es \<and> frame w c (txSeqNum q) es
              \<and> payload (concat es) = payload (zero_pad (msg_len q) (pCmdQueueElement q)))
       \<or> st \<noteq> NV_OK \<and> txSeqNum q' = txSeqNum q \<and> dir_items (hQueue q') b sl' = dir_items (hQueue q) b sl)"
proof (cases "ucast (msg_len q) < queueElementHdrSize q \<or> ucast (msg_len q) > queueElementSizeMax q")
  case True
  then have "st = NV_ERR_INVALID_PARAM_STRUCT \<and> q' = q \<and> m' = m \<and> sl' = sl" using e by (simp add: GspMsgQueueSendCommand_def Let_def)
  then show ?thesis using g w sl by (simp del: mq_wf.simps)
next
  case False
  let ?L = "rec_len (pCmdQueueElement q)"
  note z = gsp_ok_sizes [OF g] and ml = msg_len_nat [OF g]
  have f: "\<not> unat (msg_len q) < 16" "unat (msg_len q) \<le> 8 * w * c" using False z by (auto simp: word_less_nat_alt)
  then have l: "unat (msg_len q) = ?L + 16" using ml by simp
  let ?n = "gspMsgQueueBytesToElements (msg_len q) (queueElementSizeMin q)"
  have lt: "unat (msg_len q) < 2 ^ 32" using unsigned_less [of "msg_len q", where 'a = nat] by simp
  have n: "unat ?n = rec_elems w (pCmdQueueElement q)"
    using elements_nat [OF g lt] z(6) unfolding l by (simp add: rec_elems_def add.commute add.left_commute)
  obtain s1 q1 where q1: "stage_record enc (msg_len q) ?n q = (s1, q1)" by fastforce
  note sf = stage_frame [OF g l f(2) [unfolded l] q1]
  let ?es = "chunks w (rec_elems w (pCmdQueueElement q)) (pCmdQueueElement q1)"
  obtain x where x: "q1 = q\<lparr>pCmdQueueElement := x\<rparr>" using sf(2) by blast
  have inj: "\<not> bErrorInjectionEnabled q" using g by (simp add: gsp_ok_def)
  obtain ok hq m1 sl1 full where se: "send_elements waits 0 ?es (hQueue q, m, sl, txBufferFull q) = (ok, hq, m1, sl1, full)" by (metis prod_cases5)
  have wd: "\<forall>x \<in> set ?es. length x = w" using sf(4) by (simp add: frame_def)
  have "0 + length ?es < 2 ^ 32" using sf(7) z(8) by simp
  note sp = send_elements_spec [OF w idle this se _ sl wd, simplified chunks_length add_0]
  have ex: "GspMsgQueueSendCommand enc waits (q, m, sl) =
    (if \<not> ok then (NV_ERR_BUSY_RETRY, q1\<lparr>hQueue := hq, txBufferFull := full\<rparr>, m1, sl1)
     else let (r, hq', m2) = msgqTxSubmitBuffers True True ?n (hq, m1); q4 = q1\<lparr>hQueue := hq', txBufferFull := full\<rparr> in
       if r \<noteq> 0 then (NV_ERR_INVALID_STATE, q4, m2, sl1) else (NV_OK, q4\<lparr>txSeqNum := txSeqNum q4 + 1\<rparr>, m2, sl1))"
    using False q1 sf(1) inj se n z(1) by (simp add: GspMsgQueueSendCommand_def Let_def x split: prod.splits)
  have ok': "gsp_ok w c (q1\<lparr>hQueue := h, txBufferFull := t\<rparr>)" "gsp_ok w c (q1\<lparr>hQueue := h, txBufferFull := t, txSeqNum := u\<rparr>)" for h t u
    using g sf(3) by (simp_all add: x gsp_ok_def)
  show ?thesis
  proof (cases ok)
    case False
    then have "st = NV_ERR_BUSY_RETRY" "q' = q1\<lparr>hQueue := hq, txBufferFull := full\<rparr>" "m' = m1" "sl' = sl1" using e unfolding ex by auto
    then show ?thesis using sp ok' by (simp add: x del: mq_wf.simps)
  next
    case True
    obtain r hq' m2 where su: "msgqTxSubmitBuffers True True ?n (hq, m1) = (r, hq', m2)" by (metis prod_cases3)
    have h: "m1 = m" "mq_wf (hq, b, m, sl1)" "rec_elems w (pCmdQueueElement q) \<le> dir_room hq b"
      "staged hq sl1 (rec_elems w (pCmdQueueElement q)) = ?es" using sp True by (auto simp: staged_def simp del: mq_wf.simps)
    have "r = 0" using submit_ok [of hq b m ?n] h(1-3) su n by simp
    then have q': "st = NV_OK" "q' = q1\<lparr>hQueue := hq', txBufferFull := full, txSeqNum := txSeqNum q + 1\<rparr>" "m' = m2" "sl' = sl1"
      using e True su unfolding ex by (auto simp: x)
    have ac: "mq_act (Tx_submit True True ?n) (hq, m, sl1) = (hq', m2, sl1)" using su h(1) by simp
    have "submitted (Tx_submit True True ?n) (hq, m, sl1) = rec_elems w (pCmdQueueElement q)" using su h(1) \<open>r = 0\<close> n by simp
    note as = act_submit [OF h(2) ac, unfolded this h(4)]
    show ?thesis using sp True as sf(4,5) ok' q' by (simp add: x del: mq_wf.simps)
  qed
qed

section \<open>Receiving a record\<close>

lemma consume_ok:
  assumes "dir_inv a b m" "unat n \<le> dir_used a b"
  shows "fst (msgqRxMarkConsumed True True n (b, m)) = 0"
proof -
  obtain f q where fq: "(if n > rxAvail b then msgqRxGetReadAvailable True m b else (rxAvail b, b)) = (f, q)" by fastforce
  have "n > rxAvail b \<longrightarrow> unat f = dir_used a b" using rx_cached [OF assms(1) fq] by auto
  then have "\<not> (n > rxAvail b \<and> n > f)" using assms(2) by (auto simp: word_less_nat_alt)
  then show ?thesis using fq assms(1) by (auto simp: msgqRxMarkConsumed_def Let_def dir_inv_def)
qed

text \<open>Reading moves nothing: the receiver's end changes only in its cached counters.\<close>

definition rx_same :: "msgqMetadata \<Rightarrow> msgqMetadata \<Rightarrow> msgqMetadata \<Rightarrow> bool" where
  "rx_same a b b' \<longleftrightarrow> (\<exists>v g. b' = b\<lparr>rx := (rx b)\<lparr>writePtr := v\<rparr>, rxAvail := g\<rparr> \<and> unat g \<le> dir_used a b)"

lemma rx_same_refl: "dir_inv a b m \<Longrightarrow> rx_same a b b"
  unfolding rx_same_def by (rule exI [of _ "writePtr (rx b)"], rule exI [of _ "rxAvail b"]) (simp add: dir_inv_def)

lemma rx_same_trans: "rx_same a b b1 \<Longrightarrow> rx_same a b1 b2 \<Longrightarrow> rx_same a b b2"
  unfolding rx_same_def dir_used_def by auto blast

lemma rx_same_inv: "dir_inv a b m \<Longrightarrow> rx_same a b b' \<Longrightarrow> dir_inv a b' m" "rx_same a b b' \<Longrightarrow> dir_items a b' sl = dir_items a b sl"
  by (auto simp: rx_same_def dir_inv_def dir_used_def dir_room_def dir_items_def)

lemma read_rest_spec:
  assumes "dir_inv a h m" "\<forall>p. length (sl p) = w" "i + k \<le> length (dir_items a h sl)" "i + k < 2 ^ 32" "(i + k) * w \<le> length st"
    and "read_rest w k i m sl (h, st) = (t, h', st')"
  shows "t = Try_done \<and> rx_same a h h' \<and> st' = take (i * w) st @ concat (take k (drop i (dir_items a h sl))) @ drop ((i + k) * w) st"
  using assms
proof (induction k arbitrary: i h st)
  case 0
  then show ?case using rx_same_refl by auto
next
  case (Suc k)
  let ?I = "dir_items a h sl"
  obtain p h1 where e: "msgqRxGetReadBuffer True m (of_nat i) h = (p, h1)" by fastforce
  have ui: "unat (of_nat i :: u32) = i" using Suc.prems(4) by (simp add: unsigned_of_nat take_bit_nat_eq_self)
  have same: "rx_same a h h1" using read_buffer_spec [OF Suc.prems(1) e] by (auto simp: rx_same_def)
  obtain z where z: "p = Some z" "sl z = ?I ! i"
    using read_item [OF Suc.prems(1) e, of sl] ui Suc.prems(3) by (auto split: option.splits)
  let ?st = "copy_in (i * w) (sl z) st"
  have "(i + 1) * w \<le> (i + Suc k) * w" by (intro mult_le_mono1) simp
  then have fit: "(i + 1) * w \<le> length st" using Suc.prems(5) by (rule le_trans)
  have len: "length ?st = length st" using fit Suc.prems(2) by (simp add: copy_in_def)
  have r: "read_rest w k (i + 1) m sl (h1, ?st) = (t, h', st')" using Suc.prems(6) e z fit by simp
  have d: "dir_inv a h1 m" "dir_items a h1 sl = ?I" using rx_same_inv(1) [OF Suc.prems(1) same] rx_same_inv(2) [OF same] by auto
  have ih: "t = Try_done \<and> rx_same a h1 h' \<and> st' = take ((i + 1) * w) ?st @ concat (take k (drop (i + 1) ?I)) @ drop ((i + 1 + k) * w) ?st"
    using Suc.IH [OF d(1) Suc.prems(2) _ _ _ r] Suc.prems(3-5) d(2) len by simp
  have lz: "length (sl z) = w" using Suc.prems(2) by simp
  have t1: "take ((i + 1) * w) ?st = take (i * w) st @ sl z" using fit lz by (simp add: copy_in_def)
  have t2: "drop ((i + 1 + k) * w) ?st = drop ((i + Suc k) * w) st" using fit lz by (simp add: copy_in_def algebra_simps)
  have "take (Suc k) (drop i ?I) = ?I ! i # take k (drop (i + 1) ?I)"
    using Suc.prems(3) by (simp add: Cons_nth_drop_Suc [symmetric])
  then show ?case using ih t1 t2 z(2) same rx_same_trans by auto
qed

lemma frame_words:
  assumes "frame w c sq es" "4 \<le> w"
  shows "length (concat es) = length es * w" "1 \<le> length es" "length es \<le> c" "(rec_len (concat es) + 23) div 8 \<le> length (concat es)"
    "3 < length (concat es)"
proof -
  have wd: "\<forall>e \<in> set es. length e = w" and l: "rec_len (concat es) + 16 \<le> 8 * w * c" and n: "length es = rec_elems w (concat es)"
    using assms(1) by (simp_all add: frame_def Let_def)
  have "map length es = replicate (length es) w" using wd by (intro nth_equalityI) auto
  then show len: "length (concat es) = length es * w" by (simp add: length_concat sum_list_replicate)
  note cv = elems_cover [OF assms(2) l]
  have n': "length es = (rec_len (concat es) + 15 + 8 * w) div (8 * w)" using n by (simp add: rec_elems_def)
  show "1 \<le> length es" "length es \<le> c" "(rec_len (concat es) + 23) div 8 \<le> length (concat es)" unfolding len using cv n' by simp_all
  then have "1 * w \<le> length es * w" by (intro mult_le_mono1)
  then show "3 < length (concat es)" unfolding len using assms(2) by linarith
qed

lemma read_record_frame:
  assumes g: "gsp_ok w c q" and d: "dir_inv a (hQueue q) m" and sl: "\<forall>p. length (sl p) = w"
    and I: "dir_items a (hQueue q) sl = es @ rest" and fr: "frame w c sq es"
  shows "\<exists>h. read_record q m sl = (Try_done, of_nat (length es), q\<lparr>hQueue := h, pCmdQueueElement := concat es @ drop (length es * w) (pCmdQueueElement q)\<rparr>)
    \<and> rx_same a (hQueue q) h"
proof -
  let ?st = "pCmdQueueElement q" and ?W = "concat es" and ?n = "length es"
  note z = gsp_ok_sizes [OF g] and fw = frame_words [OF fr z(6)]
  have wd: "unat (queueElementSizeMin q) div 8 = w" and stl: "length ?st = w * c" using z g by (simp_all add: gsp_ok_def)
  obtain e0 es' where es: "es = e0 # es'" using fw(2) by (cases es) auto
  have l0: "length e0 = w" using fr es by (simp add: frame_def)
  obtain p h1 where r: "msgqRxGetReadBuffer True m 0 (hQueue q) = (p, h1)" by fastforce
  have s1: "rx_same a (hQueue q) h1" using read_buffer_spec [OF d r] by (auto simp: rx_same_def)
  obtain x where x: "p = Some x" "sl x = e0" using read_item [OF d r, of sl] I es by (auto split: option.splits)
  have fit: "w \<le> length ?st" using stl z(7) by simp
  let ?q1 = "q\<lparr>hQueue := h1, pCmdQueueElement := copy_in 0 e0 ?st\<rparr>"
  have c0: "copy_in 0 e0 ?st = e0 @ drop w ?st" by (simp add: copy_in_def l0)
  have L: "gspMsgQueueGetRpcMessageLength ?q1 = lo32 (?W ! 3)"
    using g l0 z(6) es by (simp add: gspMsgQueueGetRpcMessageLength_def gsp_ok_def c0 nth_append)
  have g1: "gsp_ok w c ?q1" using g fit l0 by (simp add: gsp_ok_def c0)
  have rl: "rec_len (copy_in 0 e0 ?st) = rec_len ?W" using l0 z(6) es by (simp add: rec_len_def c0 nth_append)
  have bd: "rec_len ?W + 16 \<le> 8 * w * c" "?n = rec_elems w ?W" using fr by (simp_all add: frame_def Let_def)
  have lt: "rec_len ?W + 16 < 2 ^ 31" using bd(1) z(5) by linarith
  have ml: "unat (msg_len ?q1) = rec_len ?W + 16" using msg_len_nat(1) [OF g1] rl lt by simp
  have "rx_elements ?q1 = gspMsgQueueBytesToElements (msg_len ?q1) (queueElementSizeMin ?q1)"
    using g by (simp add: rx_elements_def msg_len_def gsp_ok_def)
  then have "unat (rx_elements ?q1) = rec_elems w ?W"
    using elements_nat [OF g1, of "msg_len ?q1"] ml lt z(6) by (simp add: rec_elems_def add.commute add.left_commute)
  then have nn: "unat (rx_elements ?q1) = ?n" unfolding bd(2) .
  then have nn': "rx_elements ?q1 = of_nat ?n" unfolding nn [symmetric] by simp
  obtain t h2 st2 where rr: "read_rest w (?n - 1) 1 m sl (h1, copy_in 0 e0 ?st) = (t, h2, st2)" by (metis prod_cases3)
  have d1: "dir_inv a h1 m" "dir_items a h1 sl = es @ rest" using rx_same_inv(1) [OF d s1] rx_same_inv(2) [OF s1, of sl] I by simp_all
  have nw: "?n * w \<le> length ?st" using fw(3) stl by (simp add: mult.commute)
  have "1 + (?n - 1) = ?n" using fw(2) by simp
  then have rs: "t = Try_done \<and> rx_same a h1 h2 \<and> st2 = take w (copy_in 0 e0 ?st) @ concat (take (?n - 1) (drop 1 (es @ rest))) @ drop (?n * w) (copy_in 0 e0 ?st)"
    using read_rest_spec [OF d1(1) sl _ _ _ rr] d1(2) fw(2,3) z(8) nw fit l0 by (simp add: c0)
  have "drop (?n * w) (copy_in 0 e0 ?st) = drop (?n * w) ?st"
    using fw(2) l0 fit by (simp add: c0 drop_append)
  then have "st2 = ?W @ drop (?n * w) ?st" using rs l0 es by (simp add: c0)
  then show ?thesis using rs r x fit rr nn nn' rx_same_trans [OF s1] by (intro exI [of _ h2]) (simp add: read_record_def wd Let_def)
qed

lemma recv_empty:
  assumes w: "mq_wf (hQueue q, a, m, sl)" and I: "dir_items a (hQueue q) sl = []"
    and e: "GspMsgQueueReceiveStatus dec (\<lambda>_. id) (q, m, sl) = (r, q', m', sl')"
  shows "r = Some NV_WARN_NOTHING_TO_DO \<and> m' = m \<and> sl' = sl \<and> (\<exists>h. q' = q\<lparr>hQueue := h\<rparr> \<and> mq_wf (h, a, m, sl)
    \<and> dir_items a h sl = [] \<and> dir_items h a sl = dir_items (hQueue q) a sl)"
proof -
  have d: "dir_inv a (hQueue q) m" using w by simp
  obtain p h where p: "msgqRxGetReadBuffer True m 0 (hQueue q) = (p, h)" by fastforce
  have n: "p = None" using read_item [OF d p, of sl] I by (auto split: option.splits)
  have "\<exists>v g. h = (hQueue q)\<lparr>rx := (rx (hQueue q))\<lparr>writePtr := v\<rparr>, rxAvail := g\<rparr> \<and> unat g \<le> dir_used a (hQueue q)"
    using read_buffer_spec [OF d p] by blast
  note qs = quiet_rx_step [OF w this, of sl]
  have "read_record q m sl = (Try_nothing, 1, q\<lparr>hQueue := h\<rparr>)" using p n by (simp add: read_record_def Let_def)
  then have "rx_tries (\<lambda>_. id) 0 3 0xFFFFFFFF NV_OK 1 (q, m, sl) = (End_nothing, q\<lparr>hQueue := h\<rparr>, m, sl)"
    by (subst rx_tries.simps) simp
  then have "r = Some NV_WARN_NOTHING_TO_DO \<and> q' = q\<lparr>hQueue := h\<rparr> \<and> m' = m \<and> sl' = sl"
    using e by (simp add: GspMsgQueueReceiveStatus_def)
  then show ?thesis using qs I by (intro conjI exI [of _ h]) (auto simp del: mq_wf.simps)
qed

text \<open>A well-formed record in the staging area passes the checks of the receiver up to the sequence number.\<close>

lemma staged_checks:
  fixes h :: msgqMetadata
  assumes g: "gsp_ok w c q" and fr: "frame w c sq es"
  defines "st \<equiv> concat es @ drop (length es * w) (pCmdQueueElement q)"
  defines "q1 \<equiv> q\<lparr>hQueue := h, pCmdQueueElement := st\<rparr>"
  shows "gsp_ok w c q1" "rx_sum q1 = 0" "rx_headers_ok q1" "queue_seqNum q1 = sq" "unat (msg_len q1) = rec_len (concat es) + 16"
    "payload st = payload (concat es)" "rec_len (concat es) + 16 \<le> 8 * w * c"
proof -
  note z = gsp_ok_sizes [OF g] and fw = frame_words [OF fr z(6)]
  let ?W = "concat es" and ?n = "length es"
  have nw: "?n * w \<le> w * c" using fw(3) by (simp add: mult.commute)
  show g1: "gsp_ok w c q1" using g fw(1) nw by (simp add: gsp_ok_def q1_def st_def)
  have rl: "rec_len st = rec_len ?W" using fw(5) by (simp add: rec_len_def nth_append st_def)
  have tk: "take j st = take j ?W" if "j \<le> length ?W" for j using that by (simp add: st_def)
  have F: "rec_len ?W + 16 \<le> 8 * w * c" "checkSum32 ?W (of_nat (rec_len ?W + 16)) = 0" "hi32 (?W ! 1) = sq" "headers_ok ?W"
    using fr by (simp_all add: frame_def Let_def)
  show "rec_len ?W + 16 \<le> 8 * w * c" by (rule F(1))
  have lt: "rec_len ?W + 16 < 2 ^ 31" using F(1) z(5) by linarith
  show ml: "unat (msg_len q1) = rec_len ?W + 16" using msg_len_nat(1) [OF g1] rl lt by (simp add: q1_def)
  have mo: "msg_len q1 = of_nat (rec_len ?W + 16)" unfolding ml [symmetric] by simp
  have sw: "sum_words (msg_len q1) = (rec_len ?W + 23) div 8" by (simp add: sum_words_def ml)
  have "rx_sum q1 = checkSum32 st (msg_len q1)" using g by (simp add: rx_sum_def msg_len_def gsp_ok_def q1_def)
  also have "\<dots> = checkSum32 ?W (msg_len q1)" using tk [OF fw(4)] by (simp only: checkSum32_def sw)
  finally show "rx_sum q1 = 0" using F(2) mo by simp
  have l01: "0 < length ?W" "1 < length ?W" using fw(5) by linarith+
  have nth: "st ! 0 = ?W ! 0" "st ! 1 = ?W ! 1" by (simp_all only: st_def nth_append l01 if_True)
  show "rx_headers_ok q1" "queue_seqNum q1 = sq" using F(3,4) nth by (simp_all add: rx_headers_ok_def headers_ok_def queue_seqNum_def q1_def)
  show "payload st = payload ?W" using tk [OF fw(4)] by (simp only: payload_def rl)
qed

text \<open>Consuming the record ends a receive.\<close>

lemma finish_spec:
  assumes w: "mq_wf (h, a, m, sl)" and I: "dir_items a h sl = es @ rest" and n: "length es < 2 ^ 31" and q: "hQueue q = h"
  shows "\<exists>h2 m2. rx_finish (of_nat (length es)) st (q, m, sl) = (st, q\<lparr>rxSeqNum := rxSeqNum q + 1, hQueue := h2\<rparr>, m2, sl)
    \<and> mq_wf (h2, a, m2, sl) \<and> dir_items a h2 sl = rest \<and> dir_items h2 a sl = dir_items h a sl"
proof -
  let ?n = "length es"
  obtain s h2 m2 where co: "msgqRxMarkConsumed True True (of_nat ?n) (h, m) = (s, h2, m2)" by (metis prod_cases3)
  have un: "unat (of_nat ?n :: u32) = ?n" using n by (simp add: unsigned_of_nat take_bit_nat_eq_self)
  have "length (dir_items a h sl) = dir_used a h" by (simp add: dir_items_def)
  then have "?n \<le> dir_used a h" unfolding I by simp
  then have s0: "s = 0" using consume_ok [of a h m "of_nat ?n"] w un co by simp
  have ac: "mq_act (Rx_consume True True (of_nat ?n)) (h, m, sl) = (h2, m2, sl)" using co by simp
  have cn: "consumed (Rx_consume True True (of_nat ?n)) (h, m, sl) = ?n" using co s0 un by simp
  note as = act_consume [OF w ac, unfolded cn I]
  have "rx_finish (of_nat ?n) st (q, m, sl) = (st, q\<lparr>rxSeqNum := rxSeqNum q + 1, hQueue := h2\<rparr>, m2, sl)"
    using co s0 q by (simp add: rx_finish_def Let_def)
  then show ?thesis using as by (intro exI [of _ h2] exI [of _ m2]) (simp del: mq_wf.simps)
qed

lemma recv_frame:
  assumes g: "gsp_ok w c q" and w: "mq_wf (hQueue q, a, m, sl)" and sl: "\<forall>p. length (sl p) = w"
    and I: "dir_items a (hQueue q) sl = es @ rest" and fr: "frame w c (rxSeqNum q) es"
    and e: "GspMsgQueueReceiveStatus dec (\<lambda>_. id) (q, m, sl) = (r, q', m', sl')"
  shows "r = Some NV_OK \<and> gsp_ok w c q' \<and> mq_wf (hQueue q', a, m', sl) \<and> sl' = sl \<and> rxSeqNum q' = rxSeqNum q + 1 \<and> txSeqNum q' = txSeqNum q
    \<and> dir_items a (hQueue q') sl = rest \<and> dir_items (hQueue q') a sl = dir_items (hQueue q) a sl
    \<and> payload (pCmdQueueElement q') = payload (concat es)"
proof -
  have d: "dir_inv a (hQueue q) m" using w by simp
  note z = gsp_ok_sizes [OF g] and fw = frame_words [OF fr z(6)]
  let ?st = "concat es @ drop (length es * w) (pCmdQueueElement q)"
  obtain h where rr: "read_record q m sl = (Try_done, of_nat (length es), q\<lparr>hQueue := h, pCmdQueueElement := ?st\<rparr>)" and sm: "rx_same a (hQueue q) h"
    using read_record_frame [OF g d sl I fr] by blast
  let ?q1 = "q\<lparr>hQueue := h, pCmdQueueElement := ?st\<rparr>"
  note ck = staged_checks(1-5) [OF g fr, of h] staged_checks(6,7) [OF g fr]
  have wh: "mq_wf (h, a, m, sl)" "dir_items h a sl = dir_items (hQueue q) a sl" "dir_items a h sl = es @ rest"
    using quiet_rx_step [OF w, of h sl] sm I unfolding rx_same_def by (simp_all del: mq_wf.simps)
  have rt: "rx_tries (\<lambda>_. id) 0 3 0xFFFFFFFF NV_OK 1 (q, m, sl) = (End_tried NV_OK 0 (of_nat (length es)), ?q1, m, sl)"
    by (subst rx_tries.simps) (simp add: rr ck(2-4))
  have mb: "\<not> (ucast (msg_len ?q1) < queueElementHdrSize ?q1 \<or> ucast (msg_len ?q1) > queueElementSizeMax ?q1)"
    using ck(5,7) gsp_ok_sizes(2,3) [OF ck(1)] by (simp add: word_less_nat_alt)
  have "length es < 2 ^ 31" using fw(3) z(8) by linarith
  then obtain h2 m2 where f: "rx_finish (of_nat (length es)) NV_OK (?q1, m, sl) = (NV_OK, ?q1\<lparr>rxSeqNum := rxSeqNum q + 1, hQueue := h2\<rparr>, m2, sl)"
    "mq_wf (h2, a, m2, sl)" "dir_items a h2 sl = rest" "dir_items h2 a sl = dir_items h a sl"
    using finish_spec [OF wh(1,3), of ?q1 NV_OK] by auto
  have en: "\<not> bEncryptionEnabled q" using g by (simp add: gsp_ok_def)
  have res: "r = Some NV_OK" "q' = ?q1\<lparr>rxSeqNum := rxSeqNum q + 1, hQueue := h2\<rparr>" "m' = m2" "sl' = sl"
    using e mb en f(1) by (simp_all add: GspMsgQueueReceiveStatus_def rt Let_def)
  have "gsp_ok w c q'" using ck(1) by (simp add: res(2) gsp_ok_def)
  then show ?thesis using f res wh(2) ck(6) by (simp del: mq_wf.simps)
qed

end
