(* ===== verification/Rm_Gsp_Channel.thy ===== *)
theory Rm_Gsp_Channel
  imports Rm_Gsp_Record
begin

text \<open>
  The records of \<open>Rm_Gsp_Queue\<close> as a channel: what one end sends with \<^verbatim>\<open>GspMsgQueueSendCommand\<close> the other end receives
  with \<^verbatim>\<open>GspMsgQueueReceiveStatus\<close>, in order, once, and unchanged, in both directions.  The theory also shows
  what records that are not well-formed do to the receiver.
\<close>

section \<open>A direction is a queue of records\<close>

primrec frames :: "nat \<Rightarrow> nat \<Rightarrow> u32 \<Rightarrow> words list list \<Rightarrow> bool" where
  "frames w c sq [] \<longleftrightarrow> True"
| "frames w c sq (f # fs) \<longleftrightarrow> frame w c sq f \<and> frames w c (sq + 1) fs"

lemma frames_append: "frames w c sq (fs @ [f]) \<longleftrightarrow> frames w c sq fs \<and> frame w c (sq + of_nat (length fs)) f"
  by (induction fs arbitrary: sq) (simp_all add: add.assoc)

definition gsp_dir :: "nat \<Rightarrow> nat \<Rightarrow> MESSAGE_QUEUE_INFO \<Rightarrow> MESSAGE_QUEUE_INFO \<Rightarrow> slots \<Rightarrow> words list list \<Rightarrow> bool" where
  "gsp_dir w c a b sl fs \<longleftrightarrow> dir_items (hQueue a) (hQueue b) sl = concat fs \<and> frames w c (rxSeqNum b) fs
     \<and> txSeqNum a = rxSeqNum b + of_nat (length fs)"

type_synonym gsp_pair = "MESSAGE_QUEUE_INFO \<times> MESSAGE_QUEUE_INFO \<times> shm \<times> slots"

fun gsp_wf :: "gsp_pair \<Rightarrow> bool" where
  "gsp_wf (a, b, m, sl) \<longleftrightarrow> (\<exists>w c. gsp_ok w c a \<and> gsp_ok w c b \<and> mq_wf (hQueue a, hQueue b, m, sl) \<and> (\<forall>p. length (sl p) = w)
     \<and> (\<exists>fs. gsp_dir w c a b sl fs) \<and> (\<exists>fs. gsp_dir w c b a sl fs))"

text \<open>The records in a ring, cut out by the length that each carries.\<close>

function parse_records :: "nat \<Rightarrow> words list \<Rightarrow> words list" where
  "parse_records w [] = []"
| "parse_records w (e # es) = payload (concat (e # take (rec_elems w e - 1) es)) # parse_records w (drop (rec_elems w e - 1) es)"
  by pat_completeness auto

termination parse_records
  by (relation "measure (\<lambda>(w, es). length es)") auto

fun gsp_items :: "gsp_pair \<Rightarrow> words list" where
  "gsp_items (a, b, m, sl) = parse_records (unat (queueElementSizeMin a) div 8) (dir_items (hQueue a) (hQueue b) sl)"

lemma parse_frames:
  assumes "4 \<le> w" "frames w c sq fs"
  shows "parse_records w (concat fs) = map (\<lambda>f. payload (concat f)) fs"
  using assms(2)
proof (induction fs arbitrary: sq)
  case (Cons f fs)
  have fr: "frame w c sq f" using Cons.prems by simp
  note fw = frame_words [OF fr assms(1)]
  obtain e es where f: "f = e # es" using fw(2) by (cases f) auto
  have "length e = w" using fr f by (simp add: frame_def)
  then have "rec_elems w e = rec_elems w (concat f)" using assms(1) f by (simp add: rec_elems_def rec_len_def nth_append)
  also have "\<dots> = length f" using fr by (simp add: frame_def Let_def)
  finally have "rec_elems w e - 1 = length es" using f by simp
  then show ?case using Cons.IH [of "sq + 1"] Cons.prems f by simp
qed simp

lemma gsp_items_dir:
  assumes "gsp_ok w c a" "gsp_dir w c a b sl fs"
  shows "gsp_items (a, b, m, sl) = map (\<lambda>f. payload (concat f)) fs"
  using assms parse_frames [of w c "rxSeqNum b" fs] gsp_ok_sizes(1,6) [OF assms(1)] by (simp add: gsp_dir_def)

text \<open>The RPC layer writes a record into the staging area and sends it; the waits for space see an idle peer.\<close>

definition put_record :: "words \<Rightarrow> MESSAGE_QUEUE_INFO \<Rightarrow> MESSAGE_QUEUE_INFO" where
  "put_record msg q = q\<lparr>pCmdQueueElement := take (length (pCmdQueueElement q)) (msg @ drop (length msg) (pCmdQueueElement q))\<rparr>"

type_synonym gsp_send = "cipher \<times> (nat \<Rightarrow> nat) \<times> words"

fun gsp_do_send :: "gsp_send \<Rightarrow> gsp_state \<Rightarrow> nv_status \<times> gsp_state" where
  "gsp_do_send (enc, tries, msg) (q, m, sl) = GspMsgQueueSendCommand enc (\<lambda>i. replicate (tries i) id) (put_record msg q, m, sl)"

fun gsp_a_send :: "gsp_send \<Rightarrow> gsp_pair \<Rightarrow> gsp_pair" where
  "gsp_a_send x (a, b, m, sl) = (case gsp_do_send x (a, m, sl) of (st, a', m', sl') \<Rightarrow> (a', b, m', sl'))"

fun gsp_sent :: "gsp_send \<Rightarrow> gsp_pair \<Rightarrow> words list" where
  "gsp_sent (enc, tries, msg) (a, b, m, sl) =
     (let a1 = put_record msg a in
      if fst (gsp_do_send (enc, tries, msg) (a, m, sl)) = NV_OK then [payload (zero_pad (msg_len a1) (pCmdQueueElement a1))] else [])"

fun gsp_b_receive :: "cipher \<Rightarrow> gsp_pair \<Rightarrow> gsp_pair" where
  "gsp_b_receive dec (a, b, m, sl) = (case GspMsgQueueReceiveStatus dec (\<lambda>_. id) (b, m, sl) of (r, b', m', sl') \<Rightarrow> (a, b', m', sl'))"

text \<open>The other direction: \<open>b\<close> sends and \<open>a\<close> receives.\<close>

datatype gsp_reverse = B_send gsp_send | A_receive cipher

fun gsp_flip :: "gsp_pair \<Rightarrow> gsp_pair" where
  "gsp_flip (a, b, m, sl) = (b, a, m, sl)"

fun gsp_reverse_step :: "gsp_reverse \<Rightarrow> gsp_pair \<Rightarrow> gsp_pair" where
  "gsp_reverse_step (B_send x) s = gsp_flip (gsp_a_send x (gsp_flip s))"
| "gsp_reverse_step (A_receive dec) s = gsp_flip (gsp_b_receive dec (gsp_flip s))"

definition gsp_may :: "gsp_send \<Rightarrow> gsp_pair \<Rightarrow> bool" where
  "gsp_may x s = True"

lemma gsp_wf_flip: "gsp_wf s \<Longrightarrow> gsp_wf (gsp_flip s)"
  by (cases s) (auto dest: mq_wf_sym simp del: mq_wf.simps)

lemma put_record_ok: "gsp_ok w c q \<Longrightarrow> gsp_ok w c (put_record msg q)"
  by (auto simp: gsp_ok_def put_record_def)

lemma gsp_send_step:
  assumes "gsp_wf (a, b, m, sl)" "gsp_a_send x (a, b, m, sl) = (a', b', m', sl')"
  shows "gsp_wf (a', b', m', sl') \<and> gsp_items (a', b', m', sl') = gsp_items (a, b, m, sl) @ gsp_sent x (a, b, m, sl)
    \<and> gsp_items (b', a', m', sl') = gsp_items (b, a, m, sl)"
proof -
  obtain w c fs gs where g: "gsp_ok w c a" "gsp_ok w c b" and wf: "mq_wf (hQueue a, hQueue b, m, sl)" and sl: "\<forall>p. length (sl p) = w"
    and d: "gsp_dir w c a b sl fs" "gsp_dir w c b a sl gs" using assms(1) by (auto simp del: mq_wf.simps)
  obtain enc tries msg where x: "x = (enc, tries, msg)" by (metis prod_cases3)
  let ?a1 = "put_record msg a"
  have f: "hQueue ?a1 = hQueue a" "txSeqNum ?a1 = txSeqNum a" "rxSeqNum ?a1 = rxSeqNum a" by (simp_all add: put_record_def)
  obtain st where e: "GspMsgQueueSendCommand enc (\<lambda>i. replicate (tries i) id) (?a1, m, sl) = (st, a', m', sl')" and b': "b' = b"
    using assms(2) by (auto simp: x split: prod.splits)
  have id: "idle (\<lambda>i. replicate (tries i) id)" by (simp add: idle_def)
  note sp = send_spec [OF put_record_ok [OF g(1)] wf [folded f(1)] sl id e, unfolded f]
  have d2: "gsp_dir w c b a' sl' gs" using sp d(2) by (simp add: gsp_dir_def)
  have q2: "gsp_items (b', a', m', sl') = gsp_items (b, a, m, sl)"
    using gsp_items_dir [OF g(2) d2] gsp_items_dir [OF g(2) d(2)] b' by simp
  show ?thesis
  proof (cases "st = NV_OK")
    case True
    then obtain es where es: "dir_items (hQueue a') (hQueue b) sl' = dir_items (hQueue a) (hQueue b) sl @ es" "frame w c (txSeqNum a) es"
      "payload (concat es) = payload (zero_pad (msg_len ?a1) (pCmdQueueElement ?a1))" "txSeqNum a' = txSeqNum a + 1" using sp by blast
    have d1: "gsp_dir w c a' b sl' (fs @ [es])" using d(1) es by (simp add: gsp_dir_def frames_append add.assoc)
    have "gsp_sent x (a, b, m, sl) = [payload (concat es)]" using True e es(3) by (simp add: x Let_def)
    then have "gsp_items (a', b', m', sl') = gsp_items (a, b, m, sl) @ gsp_sent x (a, b, m, sl)"
      using gsp_items_dir [OF _ d1] gsp_items_dir [OF g(1) d(1)] sp b' by (simp del: gsp_items.simps gsp_sent.simps)
    then show ?thesis using sp g(2) d1 d2 b' q2 by (auto simp del: mq_wf.simps gsp_items.simps gsp_sent.simps)
  next
    case False
    then have d1: "gsp_dir w c a' b sl' fs" using sp d(1) by (simp add: gsp_dir_def)
    have "gsp_sent x (a, b, m, sl) = []" using False e by (simp add: x Let_def)
    then have "gsp_items (a', b', m', sl') = gsp_items (a, b, m, sl) @ gsp_sent x (a, b, m, sl)"
      using gsp_items_dir [OF _ d1] gsp_items_dir [OF g(1) d(1)] sp b' by (simp del: gsp_items.simps gsp_sent.simps)
    then show ?thesis using sp g(2) d1 d2 b' q2 by (auto simp del: mq_wf.simps gsp_items.simps gsp_sent.simps)
  qed
qed

lemma gsp_receive_step:
  assumes "gsp_wf (a, b, m, sl)" "GspMsgQueueReceiveStatus dec (\<lambda>_. id) (b, m, sl) = (r, b', m', sl')"
  shows "gsp_wf (a, b', m', sl') \<and> gsp_items (b', a, m', sl') = gsp_items (b, a, m, sl)
    \<and> (if gsp_items (a, b, m, sl) = [] then r = Some NV_WARN_NOTHING_TO_DO \<and> gsp_items (a, b', m', sl') = []
       else r = Some NV_OK \<and> gsp_items (a, b, m, sl) = payload (pCmdQueueElement b') # gsp_items (a, b', m', sl'))"
proof -
  obtain w c fs gs where g: "gsp_ok w c a" "gsp_ok w c b" and wf: "mq_wf (hQueue a, hQueue b, m, sl)" and sl: "\<forall>p. length (sl p) = w"
    and d: "gsp_dir w c a b sl fs" "gsp_dir w c b a sl gs" using assms(1) by (auto simp del: mq_wf.simps)
  note it = gsp_items_dir [OF g(1) d(1)] gsp_items_dir [OF g(2) d(2)]
  show ?thesis
  proof (cases fs)
    case Nil
    then have "dir_items (hQueue a) (hQueue b) sl = []" using d(1) by (simp add: gsp_dir_def)
    note em = recv_empty [OF mq_wf_sym [OF wf] this assms(2)]
    then obtain h where h: "b' = b\<lparr>hQueue := h\<rparr>" "mq_wf (h, hQueue a, m, sl)" "dir_items (hQueue a) h sl = []"
      "dir_items h (hQueue a) sl = dir_items (hQueue b) (hQueue a) sl" by blast
    have d': "gsp_dir w c a b' sl' []" "gsp_dir w c b' a sl' gs" "gsp_ok w c b'" using d Nil em h g(2) by (simp_all add: gsp_dir_def gsp_ok_def)
    have "gsp_wf (a, b', m', sl')" using g(1) d' mq_wf_sym [OF h(2)] em h(1) sl by (auto simp del: mq_wf.simps)
    then show ?thesis using it em Nil gsp_items_dir [OF g(1) d'(1)] gsp_items_dir [OF d'(3,2)] by (simp del: gsp_wf.simps gsp_items.simps)
  next
    case (Cons es fs')
    have I: "dir_items (hQueue a) (hQueue b) sl = es @ concat fs'" and fr: "frame w c (rxSeqNum b) es" using d(1) Cons by (simp_all add: gsp_dir_def)
    note rf = recv_frame [OF g(2) mq_wf_sym [OF wf] sl I fr assms(2)]
    have d': "gsp_dir w c a b' sl' fs'" "gsp_dir w c b' a sl' gs" using d Cons rf by (simp_all add: gsp_dir_def add.assoc)
    have g': "gsp_ok w c b'" using rf by simp
    have "mq_wf (hQueue b', hQueue a, m', sl)" using rf by (simp del: mq_wf.simps)
    then have "gsp_wf (a, b', m', sl')" using g(1) g' d' rf mq_wf_sym [of "hQueue b'" "hQueue a" m' sl] sl by (auto simp del: mq_wf.simps)
    then show ?thesis using it rf Cons gsp_items_dir [OF g(1) d'(1)] gsp_items_dir [OF g' d'(2)] by (simp del: gsp_wf.simps gsp_items.simps)
  qed
qed

interpretation gsp: fifo gsp_wf gsp_items gsp_may gsp_a_send gsp_sent gsp_b_receive gsp_reverse_step
proof
  fix s :: gsp_pair and x dec c
  obtain a b m sl where s: "s = (a, b, m, sl)" by (metis prod_cases4)
  assume w: "gsp_wf s"
  have f: "gsp_wf (b, a, m, sl)" using gsp_wf_flip [OF w] s by simp
  obtain a1 b1 m1 sl1 where e: "gsp_a_send x (a, b, m, sl) = (a1, b1, m1, sl1)" by (metis prod_cases4)
  show "gsp_wf (gsp_a_send x s) \<and> gsp_items (gsp_a_send x s) = gsp_items s @ gsp_sent x s"
    using gsp_send_step [OF w [unfolded s] e] e s by metis
  obtain r b2 m2 sl2 where e2: "GspMsgQueueReceiveStatus dec (\<lambda>_. id) (b, m, sl) = (r, b2, m2, sl2)" by (metis prod_cases4)
  have "gsp_b_receive dec s = (a, b2, m2, sl2)" using e2 s by simp
  moreover have "gsp_items (a, b2, m2, sl2) = drop (if gsp_items s = [] then 0 else 1) (gsp_items s)"
    using gsp_receive_step [OF w [unfolded s] e2] s by (simp del: gsp_items.simps split: if_splits)
  ultimately show "gsp_wf (gsp_b_receive dec s) \<and> (\<exists>k. gsp_items (gsp_b_receive dec s) = drop k (gsp_items s))"
    using gsp_receive_step [OF w [unfolded s] e2] by metis
  show "gsp_wf (gsp_reverse_step c s) \<and> gsp_items (gsp_reverse_step c s) = gsp_items s"
  proof (cases c)
    case (B_send y)
    obtain b3 a3 m3 sl3 where e3: "gsp_a_send y (b, a, m, sl) = (b3, a3, m3, sl3)" by (metis prod_cases4)
    note st = gsp_send_step [OF f e3]
    show ?thesis using st gsp_wf_flip [of "(b3, a3, m3, sl3)"] e3 by (simp add: B_send s del: gsp_wf.simps gsp_items.simps gsp_a_send.simps)
  next
    case (A_receive y)
    obtain r a4 m4 sl4 where e4: "GspMsgQueueReceiveStatus y (\<lambda>_. id) (a, m, sl) = (r, a4, m4, sl4)" by (metis prod_cases4)
    note st = gsp_receive_step [OF f e4]
    show ?thesis using st gsp_wf_flip [of "(b, a4, m4, sl4)"] e4 by (simp add: A_receive s del: gsp_wf.simps gsp_items.simps)
  qed
qed

section \<open>Properties of the channel\<close>



section \<open>Records that are not well-formed\<close>

lemma read_rest_overrun:
  assumes "dir_inv a h m" "\<forall>p. length (sl p) = w" "length st = w * c" "0 < w" "i \<le> c" "c < i + k" "c < length (dir_items a h sl)" "c < 2 ^ 31"
  shows "fst (read_rest w k i m sl (h, st)) = Try_overrun"
  using assms
proof (induction k arbitrary: i h st)
  case (Suc k)
  obtain p h1 where e: "msgqRxGetReadBuffer True m (of_nat i) h = (p, h1)" by fastforce
  have ui: "unat (of_nat i :: u32) = i" using Suc.prems(5,8) by (simp add: unsigned_of_nat take_bit_nat_eq_self)
  have same: "rx_same a h h1" using read_buffer_spec [OF Suc.prems(1) e] by (auto simp: rx_same_def)
  obtain z where z: "p = Some z" using read_item [OF Suc.prems(1) e, of sl] ui Suc.prems(5,7) by (auto split: option.splits)
  show ?case
  proof (cases "i = c")
    case True
    then show ?thesis using e z Suc.prems(3,4) by (simp add: mult.commute)
  next
    case False
    then have "Suc i \<le> c" using Suc.prems(5) by simp
    then have fit: "Suc i * w \<le> c * w" by (rule mult_le_mono1)
    have "length (copy_in (i * w) (sl z) st) = w * c" using fit Suc.prems(2,3) by (simp add: copy_in_def mult.commute)
    then have "fst (read_rest w k (i + 1) m sl (h1, copy_in (i * w) (sl z) st)) = Try_overrun"
      using Suc.prems rx_same_inv(1) [OF Suc.prems(1) same] rx_same_inv(2) [OF same, of sl] False
      by (intro Suc.IH) simp_all
    then show ?thesis using e z fit Suc.prems(3) by (simp add: mult.commute)
  qed
qed simp

lemma read_record_first:
  assumes g: "gsp_ok w c q" and d: "dir_inv a (hQueue q) m" and sl: "\<forall>p. length (sl p) = w" and I: "dir_items a (hQueue q) sl = e # rest"
  shows "\<exists>h. rx_same a (hQueue q) h \<and> read_record q m sl =
    (let n = gspMsgQueueBytesToElements (lo32 (16 + ucast (lo32 (e ! 3)))) (queueElementSizeMin q);
         (t, h', st) = read_rest w (unat n - 1) 1 m sl (h, e @ drop w (pCmdQueueElement q)) in
     (t, n, q\<lparr>hQueue := h', pCmdQueueElement := st\<rparr>))"
proof -
  note z = gsp_ok_sizes [OF g]
  have wd: "unat (queueElementSizeMin q) div 8 = w" and stl: "length (pCmdQueueElement q) = w * c" using z g by (simp_all add: gsp_ok_def)
  obtain p h where r: "msgqRxGetReadBuffer True m 0 (hQueue q) = (p, h)" by fastforce
  have s1: "rx_same a (hQueue q) h" using read_buffer_spec [OF d r] by (auto simp: rx_same_def)
  obtain x where x: "p = Some x" "sl x = e" using read_item [OF d r, of sl] I by (auto split: option.splits)
  have l: "length e = w" using sl x(2) by metis
  have fit: "w \<le> length (pCmdQueueElement q)" using stl z(7) by simp
  have c0: "copy_in 0 e (pCmdQueueElement q) = e @ drop w (pCmdQueueElement q)" by (simp add: copy_in_def l)
  have n3: "(e @ drop w (pCmdQueueElement q)) ! 3 = e ! 3" using l z(6) by (simp add: nth_append)
  have "rx_elements (q\<lparr>hQueue := h, pCmdQueueElement := e @ drop w (pCmdQueueElement q)\<rparr>) =
    gspMsgQueueBytesToElements (lo32 (16 + ucast (lo32 (e ! 3)))) (queueElementSizeMin q)"
    using g by (simp add: rx_elements_def gspMsgQueueGetRpcMessageLength_def gsp_ok_def lo32_def n3)
  then show ?thesis using r x fit s1 by (intro exI [of _ h]) (simp add: read_record_def wd Let_def c0)
qed

text \<open>
  C39.  The receiver copies the entries of a record to its staging area before it checks the length: a record that claims more
  entries than the area holds is copied over the metadata of the queue that lies behind it.
\<close>

theorem gsp_receive_overrun:
  assumes "gsp_ok w c q" "mq_wf (hQueue q, a, m, sl)" "\<forall>p. length (sl p) = w"
    and "c < length (dir_items a (hQueue q) sl)" "c < rec_elems w (hd (dir_items a (hQueue q) sl))" "rec_len (hd (dir_items a (hQueue q) sl)) + 16 < 2 ^ 32"
  shows "fst (GspMsgQueueReceiveStatus dec (\<lambda>_. id) (q, m, sl)) = None"
proof -
  note z = gsp_ok_sizes [OF assms(1)]
  have d: "dir_inv a (hQueue q) m" using assms(2) by simp
  obtain e rest where I: "dir_items a (hQueue q) sl = e # rest" using assms(4) by (cases "dir_items a (hQueue q) sl") auto
  let ?len = "lo32 (16 + ucast (lo32 (e ! 3)))"
  let ?n = "gspMsgQueueBytesToElements ?len (queueElementSizeMin q)"
  obtain h where h: "rx_same a (hQueue q) h" "read_record q m sl = (let (t, h', st) = read_rest w (unat ?n - 1) 1 m sl (h, e @ drop w (pCmdQueueElement q)) in
     (t, ?n, q\<lparr>hQueue := h', pCmdQueueElement := st\<rparr>))"
    using read_record_first [OF assms(1) d assms(3) I] by (auto simp: Let_def)
  have L: "rec_len e + 16 < 2 ^ 32" using assms(6) I by simp
  have "unat (16 + ucast (lo32 (e ! 3)) :: u64) = 16 + rec_len e"
    using unat_add_nowrap [of "16 :: u64" "ucast (lo32 (e ! 3))"] L by (simp add: rec_len_def)
  then have l: "unat ?len = rec_len e + 16" using L by (simp add: unat_lo32)
  have n: "unat ?n = rec_elems w e" using elements_nat [OF assms(1), of ?len] l L z(6) by (simp add: rec_elems_def add.commute add.left_commute)
  obtain x where "e = sl x" using read_item [OF d, of True 0 "fst (msgqRxGetReadBuffer True m 0 (hQueue q))" _ sl] I
    by (cases "msgqRxGetReadBuffer True m 0 (hQueue q)") (auto split: option.splits)
  then have le: "length e = w" using assms(3) by simp
  have "fst (read_rest w (unat ?n - 1) 1 m sl (h, e @ drop w (pCmdQueueElement q))) = Try_overrun"
  proof (rule read_rest_overrun [where c = c])
    show "dir_inv a h m" by (rule rx_same_inv(1) [OF d h(1)])
    show "length (e @ drop w (pCmdQueueElement q)) = w * c" using assms(1) le z(7) by (simp add: gsp_ok_def)
    show "c < length (dir_items a h sl)" using assms(4) rx_same_inv(2) [OF h(1), of sl] by simp
    show "c < 1 + (unat ?n - 1)" using n assms(5) I by simp
  qed (use assms(3) z in simp_all)
  then have "fst (read_record q m sl) = Try_overrun" using h(2) by (auto split: prod.splits)
  then have "fst (rx_tries (\<lambda>_. id) 0 3 0xFFFFFFFF NV_OK 1 (q, m, sl)) = End_overrun"
    by (subst rx_tries.simps) (auto split: prod.splits)
  then show ?thesis by (auto simp: GspMsgQueueReceiveStatus_def split: prod.splits)
qed

lemma rx_tries_ahead:
  assumes "gsp_ok w c q" "mq_wf (hQueue q, a, m, sl)" "\<forall>p. length (sl p) = w" "dir_items a (hQueue q) sl = es @ rest"
    and "frame w c sq es" "rxSeqNum q < sq" "nR < nM"
  shows "\<exists>h. rx_tries (\<lambda>_. id) nR nM diff st ne (q, m, sl) = (End_tried NV_ERR_INVALID_DATA nM (of_nat (length es)),
      q\<lparr>hQueue := h, pCmdQueueElement := concat es @ drop (length es * w) (pCmdQueueElement q)\<rparr>, m, sl) \<and> rx_same a (hQueue q) h"
  using assms
proof (induction "unat nM - unat nR" arbitrary: nR q st ne)
  case 0
  then show ?case by (simp add: word_less_nat_alt)
next
  case (Suc k)
  have d: "dir_inv a (hQueue q) m" using Suc.prems(2) by simp
  note z = gsp_ok_sizes [OF Suc.prems(1)] and fw = frame_words [OF Suc.prems(5) gsp_ok_sizes(6) [OF Suc.prems(1)]]
  let ?st = "concat es @ drop (length es * w) (pCmdQueueElement q)"
  obtain h where rr: "read_record q m sl = (Try_done, of_nat (length es), q\<lparr>hQueue := h, pCmdQueueElement := ?st\<rparr>)" and sm: "rx_same a (hQueue q) h"
    using read_record_frame [OF Suc.prems(1) d Suc.prems(3,4,5)] by blast
  let ?q1 = "q\<lparr>hQueue := h, pCmdQueueElement := ?st\<rparr>"
  note ck = staged_checks(1-5) [OF Suc.prems(1,5), of h]
  have step: "rx_tries (\<lambda>_. id) nR nM diff st ne (q, m, sl) = rx_tries (\<lambda>_. id) (nR + 1) nM diff NV_ERR_INVALID_DATA (of_nat (length es)) (?q1, m, sl)"
    using Suc.prems(7) less_imp_neq [OF Suc.prems(6)] less_not_sym [OF Suc.prems(6)] by (subst rx_tries.simps) (simp add: rr ck(2-4))
  have un: "unat (nR + 1) = unat nR + 1"
    using Suc.prems(7) unsigned_less [of nM, where 'a = nat] by (subst unat_add_nowrap) (simp_all add: word_less_nat_alt)
  show ?case
  proof (cases "nR + 1 < nM")
    case False
    then have "nR + 1 = nM" using Suc.prems(7) un by (simp add: word_less_nat_alt word_unat_eq_iff)
    then have "rx_tries (\<lambda>_. id) (nR + 1) nM diff NV_ERR_INVALID_DATA (of_nat (length es)) (?q1, m, sl) =
      (End_tried NV_ERR_INVALID_DATA nM (of_nat (length es)), ?q1, m, sl)" by (subst rx_tries.simps) simp
    then show ?thesis using step sm by auto
  next
    case True
    have wh: "mq_wf (h, a, m, sl)" "dir_items a h sl = es @ rest"
      using quiet_rx_step [OF Suc.prems(2), of h sl] sm Suc.prems(4) unfolding rx_same_def by (simp_all del: mq_wf.simps)
    have "\<exists>h'. rx_tries (\<lambda>_. id) (nR + 1) nM diff NV_ERR_INVALID_DATA (of_nat (length es)) (?q1, m, sl) =
        (End_tried NV_ERR_INVALID_DATA nM (of_nat (length es)),
         ?q1\<lparr>hQueue := h', pCmdQueueElement := concat es @ drop (length es * w) (pCmdQueueElement ?q1)\<rparr>, m, sl) \<and> rx_same a (hQueue ?q1) h'"
      using Suc.hyps(2) un wh Suc.prems(3,5,6) True by (intro Suc.hyps(1)) (simp_all add: ck(1) del: mq_wf.simps)
    then show ?thesis using step sm rx_same_trans fw(1) by auto
  qed
qed

text \<open>
  C40.  A receiver whose sequence number has fallen behind that of the sender never catches up: every record, however good, is
  rejected as bad data after three tries, it is consumed, and both numbers advance by one.
\<close>

theorem gsp_desync_permanent:
  assumes "gsp_ok w c b" "mq_wf (hQueue b, a, m, sl)" "\<forall>p. length (sl p) = w" "dir_items a (hQueue b) sl = concat (f # fs)"
    and "frames w c (rxSeqNum b + d) (f # fs)" "0 < d" "rxSeqNum b < rxSeqNum b + d"
    and "GspMsgQueueReceiveStatus dec (\<lambda>_. id) (b, m, sl) = (r, b', m', sl')"
  shows "r = Some NV_ERR_INVALID_DATA \<and> dir_items a (hQueue b') sl' = concat fs \<and> frames w c (rxSeqNum b' + d) fs"
proof -
  have fr: "frame w c (rxSeqNum b + d) f" "frames w c (rxSeqNum b + d + 1) fs" and I: "dir_items a (hQueue b) sl = f @ concat fs"
    using assms(4,5) by simp_all
  note z = gsp_ok_sizes [OF assms(1)] and fw = frame_words [OF fr(1) gsp_ok_sizes(6) [OF assms(1)]]
  let ?st = "concat f @ drop (length f * w) (pCmdQueueElement b)"
  obtain h where rt: "rx_tries (\<lambda>_. id) 0 3 0xFFFFFFFF NV_OK 1 (b, m, sl) =
      (End_tried NV_ERR_INVALID_DATA 3 (of_nat (length f)), b\<lparr>hQueue := h, pCmdQueueElement := ?st\<rparr>, m, sl)" and sm: "rx_same a (hQueue b) h"
    using rx_tries_ahead [where nR = 0 and nM = 3 and diff = "0xFFFFFFFF" and st = NV_OK and ne = 1, OF assms(1-3) I fr(1) assms(7)] by auto
  have wh: "mq_wf (h, a, m, sl)" "dir_items a h sl = f @ concat fs"
    using quiet_rx_step [OF assms(2), of h sl] sm I unfolding rx_same_def by (simp_all del: mq_wf.simps)
  have "length f < 2 ^ 31" using fw(3) z(8) by linarith
  then obtain h2 m2 where fi: "rx_finish (of_nat (length f)) NV_ERR_INVALID_DATA (b\<lparr>hQueue := h, pCmdQueueElement := ?st\<rparr>, m, sl) =
      (NV_ERR_INVALID_DATA, b\<lparr>pCmdQueueElement := ?st, rxSeqNum := rxSeqNum b + 1, hQueue := h2\<rparr>, m2, sl)" "dir_items a h2 sl = concat fs"
    using finish_spec [OF wh, of "b\<lparr>hQueue := h, pCmdQueueElement := ?st\<rparr>" NV_ERR_INVALID_DATA] by auto
  then have "r = Some NV_ERR_INVALID_DATA" "b' = b\<lparr>pCmdQueueElement := ?st, rxSeqNum := rxSeqNum b + 1, hQueue := h2\<rparr>" "sl' = sl"
    using assms(8) by (simp_all add: GspMsgQueueReceiveStatus_def rt)
  then show ?thesis using fi(2) fr(2) by (simp add: add.commute add.left_commute)
qed

section \<open>Examples\<close>

text \<open>Entries of four words and records of at most two entries, on the rings of \<open>ex_pair\<close>; a record of one entry and one of two.\<close>

definition ex_end :: "msgqMetadata \<Rightarrow> MESSAGE_QUEUE_INFO" where
  "ex_end h = \<lparr>commandQueueSize = 192, statusQueueSize = 192, queueElementHdrSize = 16, queueElementSizeMin = 32, queueElementSizeMax = 64,
     queueHeaderAlign = 4, queueElementAlign = 5, pCommandQueue = 0x10000, pStatusQueue = 0x20000, pWorkArea = 0, pCmdQueueElement = replicate 8 0,
     hQueue = h, txSeqNum = 1, rxSeqNum = 1, txBufferFull = 0, bErrorInjectionEnabled = False, bEncryptionEnabled = False, ccErrorState = False\<rparr>"

definition ex_gsp_ops :: "(gsp_send, cipher, gsp_reverse) queue_op list" where
  "ex_gsp_ops = [Put (\<lambda>ws _. (NV_OK, ws), \<lambda>_. 2, [0, 0, 7, 16]), Put (\<lambda>ws _. (NV_OK, ws), \<lambda>_. 2, [0, 0, 7, 48, 1, 2, 3, 4]), Retire (\<lambda>ws _. (NV_OK, ws))]"

definition ex_gsp_run :: "gsp_pair \<times> words list \<times> words list" where
  "ex_gsp_run = (case ex_pair of (h, k, m) \<Rightarrow>
     fifo_run gsp_items gsp_may gsp_a_send gsp_sent gsp_b_receive gsp_reverse_step ex_gsp_ops (ex_end h, ex_end k, m, \<lambda>_. replicate 4 0))"

lemma ex_gsp_values:
  "case ex_gsp_run of ((a, b, m, sl), S, R) \<Rightarrow> S = [[7, 16], [7, 48, 1, 2, 3, 4]] \<and> R = [[7, 16]]
     \<and> gsp_items (a, b, m, sl) = [[7, 48, 1, 2, 3, 4]] \<and> rxSeqNum b = 2 \<and> queueElementHdrSize b = 16 \<and> queueElementSizeMin b = 32
     \<and> queueElementSizeMax b = 64 \<and> length (pCmdQueueElement b) = 8 \<and> \<not> bEncryptionEnabled b \<and> \<not> bErrorInjectionEnabled b
     \<and> (let es = dir_items (hQueue a) (hQueue b) sl in length es = 2 \<and> rec_len (hd es) = 48 \<and> frame 4 2 2 es)"
  by code_simp

lemma ex_end_ok: "gsp_ok 4 2 (ex_end h)"
  by (simp add: gsp_ok_def ex_end_def)

lemma ex_gsp_run_fifo:
  assumes "ex_pair = (h, k, m)"
  shows "fifo_run gsp_items gsp_may gsp_a_send gsp_sent gsp_b_receive gsp_reverse_step ex_gsp_ops (ex_end h, ex_end k, m, \<lambda>_. replicate 4 0) = ex_gsp_run"
  unfolding ex_gsp_run_def assms prod.case ..

lemma ex_gsp_wf: "gsp_wf (fst ex_gsp_run)"
proof -
  obtain h k m where p: "ex_pair = (h, k, m)" by (metis prod_cases3)
  obtain s S R where r: "ex_gsp_run = (s, S, R)" by (metis prod_cases3)
  let ?sl = "(\<lambda>_. replicate 4 0) :: slots"
  note o = opened_wf [OF ex_pair_opened [unfolded p] ex_apart(1,2,2), of ?sl]
  have "gsp_dir 4 2 (ex_end h) (ex_end k) ?sl []" "gsp_dir 4 2 (ex_end k) (ex_end h) ?sl []"
    using o(2,3) by (simp_all add: gsp_dir_def ex_end_def)
  moreover have "mq_wf (hQueue (ex_end h), hQueue (ex_end k), m, ?sl)" using o(1) by (simp add: ex_end_def del: mq_wf.simps)
  moreover have "\<forall>p. length (?sl p) = 4" by simp
  ultimately have "gsp_wf (ex_end h, ex_end k, m, ?sl)" using ex_end_ok unfolding gsp_wf.simps by blast
  then show ?thesis unfolding r fst_conv by (rule gsp.run_fifo [OF _ ex_gsp_run_fifo [OF p, unfolded r], THEN conjunct1])
qed

lemma ex_gsp_cases:
  obtains a b m sl es where "ex_gsp_run = ((a, b, m, sl), [[7, 16], [7, 48, 1, 2, 3, 4]], [[7, 16]])" "gsp_wf (a, b, m, sl)"
    "gsp_items (a, b, m, sl) = [[7, 48, 1, 2, 3, 4]]" "gsp_ok 4 2 b" "mq_wf (hQueue b, hQueue a, m, sl)" "\<forall>p. length (sl p) = 4"
    "dir_items (hQueue a) (hQueue b) sl = es" "length es = 2" "rec_len (hd es) = 48" "frame 4 2 2 es" "rxSeqNum b = 2"
proof -
  obtain a b m sl S R where e: "ex_gsp_run = ((a, b, m, sl), S, R)" by (metis prod_cases4 prod_cases3)
  have w: "gsp_wf (a, b, m, sl)" using ex_gsp_wf unfolding e by simp
  note v = ex_gsp_values [unfolded e prod.case Let_def]
  have ok: "gsp_ok 4 2 b" using v by (simp add: gsp_ok_def)
  obtain w' c' where w': "gsp_ok w' c' b" "mq_wf (hQueue a, hQueue b, m, sl)" "\<forall>p. length (sl p) = w'" using w by (auto simp del: mq_wf.simps)
  have "w' = 4" using gsp_ok_sizes(1) [OF w'(1)] gsp_ok_sizes(1) [OF ok] by simp
  then show thesis using that e w v ok mq_wf_sym [OF w'(2)] w'(3) by blast
qed



theorem gsp_receive_overrun_witness:
  "case fst ex_gsp_run of (a, b, m, sl) \<Rightarrow>
     fst (GspMsgQueueReceiveStatus (\<lambda>ws _. (NV_OK, ws)) (\<lambda>_. id) (b\<lparr>queueElementSizeMax := 32, pCmdQueueElement := replicate 4 0\<rparr>, m, sl)) = None"
proof -
  obtain a b m sl es where e: "fst ex_gsp_run = (a, b, m, sl)" "gsp_ok 4 2 b" "mq_wf (hQueue b, hQueue a, m, sl)" "\<forall>p. length (sl p) = 4"
    "dir_items (hQueue a) (hQueue b) sl = es" "length es = 2" "rec_len (hd es) = 48" by (rule ex_gsp_cases) (metis fst_conv)
  let ?q = "b\<lparr>queueElementSizeMax := 32, pCmdQueueElement := replicate 4 0\<rparr>"
  have "gsp_ok 4 1 ?q" using e(2) by (simp add: gsp_ok_def)
  then show ?thesis
    using gsp_receive_overrun [of 4 1 ?q "hQueue a" m sl] e(3-7) unfolding e(1) by (simp add: rec_elems_def del: mq_wf.simps)
qed

theorem gsp_desync_permanent_witness:
  "case fst ex_gsp_run of (a, b, m, sl) \<Rightarrow>
     case GspMsgQueueReceiveStatus (\<lambda>ws _. (NV_OK, ws)) (\<lambda>_. id) (b\<lparr>rxSeqNum := 1\<rparr>, m, sl) of (r, b', m', sl') \<Rightarrow>
       r = Some NV_ERR_INVALID_DATA \<and> dir_items (hQueue a) (hQueue b') sl' = []"
proof -
  obtain a b m sl es where e: "fst ex_gsp_run = (a, b, m, sl)" "gsp_ok 4 2 b" "mq_wf (hQueue b, hQueue a, m, sl)" "\<forall>p. length (sl p) = 4"
    "dir_items (hQueue a) (hQueue b) sl = es" "frame 4 2 2 es" by (rule ex_gsp_cases) (metis fst_conv)
  let ?b = "b\<lparr>rxSeqNum := 1\<rparr>"
  obtain r b' m' sl' where x: "GspMsgQueueReceiveStatus (\<lambda>ws _. (NV_OK, ws)) (\<lambda>_. id) (?b, m, sl) = (r, b', m', sl')" by (metis prod_cases4)
  have "gsp_ok 4 2 ?b" using e(2) by (simp add: gsp_ok_def)
  then show ?thesis unfolding e(1) prod.case x
    using gsp_desync_permanent [of 4 2 ?b "hQueue a" m sl es "[]" 1, OF _ _ e(4) _ _ _ _ x] e(3,5,6) by (simp del: mq_wf.simps)
qed

end
