(* ===== verification/Spec2Isabelle.thy ===== *)
theory Spec2Isabelle
  imports Dbell_System Pbcap_Watch Uvm_Range_Allocator Uvm_Tracker Uvm_Channel Rm_Gsp_Channel
begin

text \<open>
  A verification of the code that captures GPU work submissions in this fork of the NVIDIA kernel
  modules, and of the parts of the UVM driver that are algorithms in their own right.

  \<^bold>\<open>The program.\<close>  A CUDA process submits work by writing a token to a doorbell register that it has
  mapped.  The fork intercepts this: \<^verbatim>\<open>nv-mmap.c\<close> hands the mapping of the doorbell window to
  \<^verbatim>\<open>nv-doorbell-watch.c\<close>, which maps a shadow page instead and arms write breakpoints.  The trap handler
  reads the token, finds the channel in a resolution cache, decodes the newest GPFIFO entry, records the
  pushbuffer bytes it points to, and forwards the token to the real register.  A channel that is not
  cached is resolved later, on a kernel thread queue, through \<^verbatim>\<open>nv_gpu_ops.c\<close> of the resource manager,
  whose registry of GPFIFOs the fork adds.  Trackers of the BAR1 and system-memory mappings translate
  GPU addresses to kernel addresses.  In user space \<^verbatim>\<open>reverse/tools/pbcap.c\<close> does the same by a preloaded
  library: it hooks \<^verbatim>\<open>open\<close>, \<^verbatim>\<open>mmap\<close> and the CUDA entry points, write-protects the doorbell window, and takes
  snapshots of the device mappings in the signal handlers.

  \<^bold>\<open>Theories.\<close>
  \<^item> \<open>Prelude\<close>, \<open>Interfaces\<close>: words, first-match scans, fixed tables and rings; the locales of a bounded store,
    of a fixed-size table and of a queue, which the components below interpret on their own definitions.
  \<^item> \<open>Gpfifo_Table\<close>: the open-addressed registry and the channel resolver of \<^verbatim>\<open>nv_gpu_ops.c\<close>.  It
    refines a finite map of at most 4096 keys.
  \<^item> \<open>Dbell_State\<close>, \<open>Dbell_Cache\<close>, \<open>Dbell_Trackers\<close>, \<open>Dbell_Resolve\<close>, \<open>Dbell_Safety\<close>: the state of
    \<^verbatim>\<open>nv-doorbell-watch.c\<close>, its resolution cache, trackers and resolver, with the kernel thread queue.
  \<^item> \<open>Dbell_Handler\<close>, \<open>Dbell_Handler_Props\<close>: the trap handler, and the GPFIFO encoders of UVM that its
    decoder must invert.
  \<^item> \<open>Dbell_Lifecycle\<close>, \<open>Dbell_Mmap\<close>: interception and release of a mapping, and the mmap paths of
    \<^verbatim>\<open>nv-mmap.c\<close>.
  \<^item> \<open>Dbell_System\<close>: all of these as one step relation, with the invariants of every reachable state:
    what the handler may read, that resources are neither leaked nor freed twice, and what the cache
    and the slots hold.
  \<^item> \<open>Pbcap_Text\<close>, \<open>Pbcap_State\<close>, \<open>Pbcap_Snapshot\<close>, \<open>Pbcap_Watch\<close>: the preloaded library.  Parsers
    and printers with their round trips, the timeline, both snapshot engines, the hooks, the signal
    handlers and the initialisation.
  \<^item> \<open>Uvm_Common\<close>, \<open>Uvm_Range_Tree\<close>, \<open>Uvm_Range_Allocator\<close>, \<open>Uvm_Semaphore\<close>: the range tree of the
    UVM driver, the first-fit allocator on it, and GPU semaphores with their 64-bit tracking values.
  \<^item> \<open>Uvm_Tracker\<close>, \<open>Uvm_Pushbuffer\<close>, \<open>Uvm_Channel\<close>: trackers of pending work on several channels
    (\<^verbatim>\<open>uvm_tracker.c\<close>), the chunks of the pushbuffer (\<^verbatim>\<open>uvm_pushbuffer.c\<close>), and the GPFIFO ring of a channel
    (\<^verbatim>\<open>uvm_channel.c\<close>) with reservations, submission, retirement and waiting.  This theory ties the end of a
    push to the decoder of the trap handler.
  \<^item> \<open>Rm_Msgq\<close>, \<open>Rm_Msgq_Pair\<close>: the message queues in shared memory of the resource manager
    (\<^verbatim>\<open>msgq.c\<close>), first one direction with its cached counters, then two linked ends whose directions are
    FIFOs, and what the checks of the link let through.
  \<^item> \<open>Rm_Gsp_Queue\<close>, \<open>Rm_Gsp_Record\<close>, \<open>Rm_Gsp_Channel\<close>: the records that the driver and the GSP firmware
    exchange over such a pair (\<^verbatim>\<open>message_queue_cpu.c\<close>).  A record spans several entries and carries protocol
    headers, a checksum and a sequence number; the theories show that sending and receiving make both directions
    FIFOs of records, and what malformed records and lost sequence numbers do to the receiver.

  \<^bold>\<open>How code is modelled.\<close>  A structure is a record, a table a list of its fixed length, a pointer a
  64-bit word with zero for \<^verbatim>\<open>NULL\<close>, an unsigned integer a word of its width.  A function of the code is
  a definition of the same name that maps the state, and what the environment answers, to the new
  state.  Effects that matter later (allocations, mappings, MMIO writes, trace records) are appended to
  a log.  What the kernel, the hardware and the C library answer are arguments; where the code relies
  on them, the theorems say so in their hypotheses.  Interleavings are explicit: the step relations
  \<open>dbell_step\<close>, \<open>ra_reach\<close>, \<open>pool_reach\<close>, \<open>tr_reach\<close> and \<open>pb_reach\<close> run operations in any order, and races are theorems on
  the parts of an operation run with others in between.

  \<^bold>\<open>Loops and fuel.\<close>  Loops are structural recursion on the data they walk or functions with a measure.
  Fuel appears only where the code counts: the probe sequences of the GPFIFO table run 4096 steps, and
  the iteration over a range tree gets the number of its nodes, which is proved to be enough.  The retries of
  the GSP receiver raise their own bound when they skip an old record; its termination proof uses that the distance
  to the expected number then shrinks.  Loops
  that wait for the environment consume the list of its answers.

  \<^bold>\<open>Not modelled.\<close>  The resource manager and the UVM driver beyond the parts named above: they are
  millions of lines, mostly generated dispatch code and register programming whose meaning is in
  hardware that the sources do not describe.  Display, NVSwitch and NVLink drivers, firmware images and
  imported libraries.  Of the GSP queue, the allocation and mapping of the shared memory and the handshake with
  the firmware: the theorems start from queues that are created and linked.  Memory ordering: shared state is sequentially consistent here, and the barriers
  of the code have no counterpart.  Messages for the user and the contents of kernel structures that no
  modelled code reads.
\<close>

section \<open>From the submission of a push to its capture\<close>



end
